(* ===== verification/Prelude.thy ===== *)
theory Prelude
  imports Main "HOL-Library.Word"
begin

text \<open>
  Shared vocabulary of the development: the machine-integer types of the Rust source, the
  standard-library arithmetic the source uses on them (saturating addition, rounding-up
  division, checked narrowing), byte-buffer overlays, and the generic list facts the component
  theories rely on.  A Rust \<open>usize\<close> is 64 bits wide on every supported platform; a length or an
  index that is bounded by the length of a buffer in memory is a \<open>nat\<close>, a quantity computed
  from on-disk fields keeps its width.  The crate is built without overflow checks in its release
  profile, so \<open>+\<close> and \<open>*\<close> on fixed-width integers wrap.
\<close>

unbundle bit_operations_syntax

type_synonym u8 = "8 word"
type_synonym u32 = "32 word"
type_synonym u64 = "64 word"

text \<open>A 32-bit float that is only stored, copied and compared bit for bit is its bit pattern.\<close>

type_synonym f32_bits = "32 word"

named_theorems chunk_simps \<open>facts on cutting byte lists into fixed-width pieces\<close>
named_theorems unat_simps \<open>reading machine arithmetic as natural numbers\<close>

section \<open>Standard-library arithmetic\<close>

definition saturating_add :: "'a::len word \<Rightarrow> 'a word \<Rightarrow> 'a word" where
  "saturating_add a b = (if unat a + unat b < 2 ^ LENGTH('a) then a + b else - 1)"

definition saturating_mul :: "'a::len word \<Rightarrow> 'a word \<Rightarrow> 'a word" where
  "saturating_mul a b = (if unat a * unat b < 2 ^ LENGTH('a) then a * b else - 1)"

definition saturating_sub :: "'a::len word \<Rightarrow> 'a word \<Rightarrow> 'a word" where
  "saturating_sub a b = (if b \<le> a then a - b else 0)"

definition div_ceil :: "'a::len word \<Rightarrow> 'a word \<Rightarrow> 'a word" where
  "div_ceil a b = (if 0 < a mod b then a div b + 1 else a div b)"

definition nat_div_ceil :: "nat \<Rightarrow> nat \<Rightarrow> nat" where
  "nat_div_ceil a b = (if 0 < a mod b then a div b + 1 else a div b)"

text \<open>\<open>u32::try_from(x).unwrap_or(u32::MAX)\<close>.\<close>

definition u32_try_or_max :: "u64 \<Rightarrow> u32" where
  "u32_try_or_max x = (if unat x < 2 ^ 32 then ucast x else - 1)"

lemma unat_max_word_val: "unat (- 1 :: 'a::len word) = 2 ^ LENGTH('a) - 1"
  by (simp add: unsigned_minus_1_eq_mask mask_eq_exp_minus_1)

lemma unat_u32_bound: "unat (x :: u32) < 4294967296"
  using unsigned_less [of x] by simp

lemma unat_u64_bound: "unat (x :: u64) < 18446744073709551616"
  using unsigned_less [of x] by simp

lemma unat_add_u32 [unat_simps]:
  "unat a + unat b < 4294967296 \<Longrightarrow> unat (a + b :: u32) = unat a + unat b"
  by (subst unat_add_lem [THEN iffD1]) auto

lemma unat_saturating_add [unat_simps]:
  "unat (saturating_add a b) = min (2 ^ LENGTH('a) - 1) (unat a + unat (b :: 'a::len word))"
proof (cases "unat a + unat b < 2 ^ LENGTH('a)")
  case True
  then have "unat (a + b) = unat a + unat b"
    by (subst unat_add_lem [THEN iffD1]) auto
  with True show ?thesis by (simp add: saturating_add_def)
next
  case False
  then show ?thesis by (simp add: saturating_add_def unat_max_word_val)
qed

lemma unat_saturating_mul [unat_simps]:
  "unat (saturating_mul a b) = min (2 ^ LENGTH('a) - 1) (unat a * unat (b :: 'a::len word))"
proof (cases "unat a * unat b < 2 ^ LENGTH('a)")
  case True
  then have "unat (a * b) = unat a * unat b"
    by (subst unat_mult_lem [THEN iffD1]) auto
  with True show ?thesis by (simp add: saturating_mul_def)
next
  case False
  then show ?thesis by (simp add: saturating_mul_def unat_max_word_val)
qed

lemma unat_ucast_u32_u64 [simp]: "unat (ucast (x :: u32) :: u64) = unat x"
proof -
  have "unat x < 2 ^ 64" using unat_u32_bound [of x] by simp
  then show ?thesis by (simp add: unsigned_ucast_eq unsigned_take_bit_eq take_bit_nat_eq_self)
qed

lemma unat_u32_try_or_max [unat_simps]:
  "unat (u32_try_or_max x) = min 4294967295 (unat x)"
  by (auto simp: u32_try_or_max_def unat_max_word_val unsigned_ucast_eq take_bit_nat_eq_self
      unsigned_take_bit_eq)

lemma nat_div_ceil_mult_ge: "0 < b \<Longrightarrow> a \<le> nat_div_ceil a b * b"
  by (auto simp: nat_div_ceil_def) (metis add_le_cancel_left div_mult_mod_eq mod_le_divisor
      add.commute)

lemma nat_div_ceil_le_iff: "0 < b \<Longrightarrow> nat_div_ceil a b \<le> k \<longleftrightarrow> a \<le> k * b"
proof
  assume b: "0 < b" and "nat_div_ceil a b \<le> k"
  then have "nat_div_ceil a b * b \<le> k * b" by simp
  with nat_div_ceil_mult_ge [OF b, of a] show "a \<le> k * b" by linarith
next
  assume b: "0 < b" and a: "a \<le> k * b"
  show "nat_div_ceil a b \<le> k"
  proof (cases "a mod b = 0")
    case True
    then show ?thesis using a b
      by (simp add: nat_div_ceil_def) (metis div_le_mono div_mult_self_is_m mult.commute)
  next
    case False
    then have "a \<noteq> k * b" by auto
    with a have "a < k * b" by simp
    then have "a div b < k" using b by (simp add: less_mult_imp_div_less)
    with False show ?thesis by (simp add: nat_div_ceil_def)
  qed
qed

lemma nat_div_ceil_mult_less: "0 < b \<Longrightarrow> nat_div_ceil a b * b < a + b"
proof (cases "nat_div_ceil a b")
  case (Suc k)
  assume b: "0 < b"
  have "\<not> a \<le> k * b" using nat_div_ceil_le_iff [OF b, of a k] Suc by simp
  then show ?thesis using Suc by simp
qed simp

lemma unat_div_ceil_le: "a div b + 1 \<le> a \<or> b \<le> 1" if "0 < a mod b" for a b :: nat
proof (cases "b \<le> 1")
  case False
  have "a \<noteq> 0" using that by (intro notI) simp
  then have "a div b < a" using False by (intro div_less_dividend) auto
  then show ?thesis by simp
qed simp

lemma unat_div_ceil [unat_simps]:
  "b \<noteq> 0 \<Longrightarrow> unat (div_ceil a b) = nat_div_ceil (unat a) (unat (b :: 'a::len word))"
proof -
  assume b: "b \<noteq> 0"
  have mod: "(0 < a mod b) = (0 < unat a mod unat b)"
    by (simp add: word_less_nat_alt unat_mod)
  show ?thesis
  proof (cases "0 < unat a mod unat b")
    case True
    have nb: "unat b \<noteq> 1" using True by (metis mod_by_1 less_irrefl One_nat_def)
    have "unat b \<noteq> 0" using b by (simp add: unat_eq_0)
    with nb have "1 < unat b" by linarith
    with True unat_div_ceil_le [OF True] have "unat a div unat b + 1 \<le> unat a" by linarith
    also have "\<dots> < 2 ^ LENGTH('a)" by (rule unsigned_less)
    finally have "unat (a div b + 1) = unat a div unat b + 1"
      by (subst unat_add_lem [THEN iffD1]) (auto simp: unat_div)
    with True mod show ?thesis by (simp add: div_ceil_def nat_div_ceil_def)
  next
    case False
    with mod show ?thesis by (simp add: div_ceil_def nat_div_ceil_def unat_div)
  qed
qed

section \<open>Byte buffers\<close>

text \<open>\<open>out[off..off + bs.len()].copy_from_slice(bs)\<close>.\<close>

definition blit :: "nat \<Rightarrow> 'a list \<Rightarrow> 'a list \<Rightarrow> 'a list" where
  "blit off bs out = take off out @ bs @ drop (off + length bs) out"

text \<open>\<open>&bytes[off..off + len]\<close>.\<close>

definition bslice :: "nat \<Rightarrow> nat \<Rightarrow> 'a list \<Rightarrow> 'a list" where
  "bslice off len bs = take len (drop off bs)"

lemma length_blit [simp]: "off + length bs \<le> length out \<Longrightarrow> length (blit off bs out) = length out"
  by (simp add: blit_def)

lemma length_bslice [simp]: "length (bslice off len bs) = min len (length bs - off)"
  by (simp add: bslice_def)

lemma bslice_blit_same [simp]:
  "off + length bs \<le> length out \<Longrightarrow> bslice off (length bs) (blit off bs out) = bs"
  by (simp add: bslice_def blit_def)

lemma nth_blit:
  "off + length bs \<le> length out \<Longrightarrow> i < length out \<Longrightarrow>
   blit off bs out ! i = (if off \<le> i \<and> i < off + length bs then bs ! (i - off) else out ! i)"
  by (auto simp: blit_def nth_append min_def)

lemma bslice_blit_disjoint:
  assumes "off + length bs \<le> length out" and "o' + n \<le> off \<or> off + length bs \<le> o'"
    and "o' + n \<le> length out"
  shows "bslice o' n (blit off bs out) = bslice o' n out"
  by (rule nth_equalityI) (use assms in \<open>auto simp: bslice_def nth_blit\<close>)

lemma bslice_replicate: "off + n \<le> k \<Longrightarrow> bslice off n (replicate k x) = replicate n x"
  by (simp add: bslice_def)

section \<open>Cutting a list into pieces of one width\<close>

text \<open>\<open>bytes.chunks_exact(w)\<close>: the whole pieces of width \<open>w\<close>, the remainder dropped.\<close>

function chunks_exact :: "nat \<Rightarrow> 'a list \<Rightarrow> 'a list list" where
  "chunks_exact w xs = (if w = 0 \<or> length xs < w then [] else take w xs # chunks_exact w (drop w xs))"
  by pat_completeness auto
termination
  by (relation "measure (\<lambda>(w, xs). length xs)") auto

declare chunks_exact.simps [simp del]

lemma chunks_exact_short [simp]: "length xs < w \<Longrightarrow> chunks_exact w xs = []"
  by (simp add: chunks_exact.simps)

lemma chunks_exact_append [chunk_simps]:
  "0 < w \<Longrightarrow> length x = w \<Longrightarrow> chunks_exact w (x @ xs) = x # chunks_exact w xs"
  by (subst chunks_exact.simps) simp

lemma chunks_exact_concat [chunk_simps]:
  assumes "0 < w" and "\<And>x. x \<in> set xss \<Longrightarrow> length x = w"
  shows "chunks_exact w (concat xss) = xss"
  using assms(2)
proof (induction xss)
  case Nil
  then show ?case using assms(1) by simp
next
  case (Cons x xss)
  then show ?case using assms(1) by (simp add: chunks_exact_append)
qed

lemma length_concat_same:
  "(\<And>x. x \<in> set xss \<Longrightarrow> length x = w) \<Longrightarrow> length (concat xss) = length xss * w"
  by (induction xss) auto

lemma take_concat_same:
  "(\<And>x. x \<in> set xss \<Longrightarrow> length x = w) \<Longrightarrow> take (k * w) (concat xss) = concat (take k xss)"
proof (induction xss arbitrary: k)
  case (Cons x xss)
  then show ?case by (cases k) auto
qed simp

lemma drop_concat_same:
  "(\<And>x. x \<in> set xss \<Longrightarrow> length x = w) \<Longrightarrow> drop (k * w) (concat xss) = concat (drop k xss)"
proof (induction xss arbitrary: k)
  case (Cons x xss)
  then show ?case by (cases k) auto
qed simp

lemma bslice_concat_same:
  assumes "\<And>x. x \<in> set xss \<Longrightarrow> length x = w" and "k < length xss"
  shows "bslice (k * w) w (concat xss) = xss ! k"
proof -
  have "drop (k * w) (concat xss) = concat (drop k xss)"
    using assms(1) by (rule drop_concat_same)
  moreover have "drop k xss = xss ! k # drop (Suc k) xss"
    using assms(2) by (simp add: Cons_nth_drop_Suc)
  ultimately show ?thesis using assms by (simp add: bslice_def)
qed

end
