(* ===== verification/Codec.thy ===== *)
theory Codec
  imports Prelude
begin

text \<open>
  Little-endian byte encodings: Rust's \<open>to_le_bytes\<close> / \<open>from_le_bytes\<close> at any width, the locale
  \<open>fixed_codec\<close> of a fixed-width encoding (what every chain of the relation file stores: row ids,
  scales, offsets, cell entries), and its instances for \<open>u32\<close>, \<open>u64\<close> and \<open>f32\<close> bit patterns.
\<close>

section \<open>Little-endian integers\<close>

primrec to_le :: "nat \<Rightarrow> 'a::len word \<Rightarrow> u8 list" where
  "to_le 0 w = []"
| "to_le (Suc n) w = ucast w # to_le n (drop_bit 8 w)"

primrec from_le :: "u8 list \<Rightarrow> 'a::len word" where
  "from_le [] = 0"
| "from_le (b # bs) = ucast b OR push_bit 8 (from_le bs)"

definition le32 :: "u32 \<Rightarrow> u8 list" where "le32 = to_le 4"
definition le64 :: "u64 \<Rightarrow> u8 list" where "le64 = to_le 8"
definition rd32 :: "u8 list \<Rightarrow> u32" where "rd32 = from_le"
definition rd64 :: "u8 list \<Rightarrow> u64" where "rd64 = from_le"

lemma length_to_le [simp]: "length (to_le n w) = n"
  by (induction n arbitrary: w) auto

lemma length_le32 [simp]: "length (le32 w) = 4" and length_le64 [simp]: "length (le64 v) = 8"
  by (simp_all add: le32_def le64_def)

lemma from_le_to_le: "from_le (to_le n w) = take_bit (8 * n) (w :: 'a::len word)"
proof (induction n arbitrary: w)
  case 0
  then show ?case by simp
next
  case (Suc n)
  have "from_le (to_le (Suc n) w) = ucast (ucast w :: u8) OR push_bit 8 (take_bit (8 * n) (drop_bit 8 w))"
    by (simp add: Suc.IH)
  also have "\<dots> = take_bit (8 * Suc n) w"
    by (rule bit_word_eqI) (auto simp: bit_simps)
  finally show ?case .
qed

lemma rd32_le32 [simp]: "rd32 (le32 w) = w"
  by (simp add: rd32_def le32_def from_le_to_le take_bit_word_eq_self)

lemma rd64_le64 [simp]: "rd64 (le64 w) = w"
  by (simp add: rd64_def le64_def from_le_to_le take_bit_word_eq_self)

lemma to_le_from_le:
  "8 * length bs \<le> LENGTH('a) \<Longrightarrow> to_le (length bs) (from_le bs :: 'a::len word) = bs"
proof (induction bs)
  case Nil
  then show ?case by simp
next
  case (Cons b bs)
  let ?r = "from_le bs :: 'a word"
  have hd: "ucast (ucast b OR push_bit 8 ?r) = b"
    using Cons.prems by (intro bit_word_eqI) (auto simp: bit_simps)
  have high: "bit ?r k \<Longrightarrow> 8 + k < LENGTH('a)" for k
  proof -
    assume b: "bit ?r k"
    have "to_le (length bs) ?r = bs" using Cons by simp
    then have "?r = take_bit (8 * length bs) ?r" using from_le_to_le [of "length bs" ?r] by simp
    with b have "k < 8 * length bs" by (metis bit_take_bit_iff)
    then show ?thesis using Cons.prems by simp
  qed
  have tl: "drop_bit 8 (ucast b OR push_bit 8 ?r) = ?r"
    using high by (intro bit_word_eqI) (auto simp: bit_simps dest: bit_imp_le_length)
  show ?case using Cons hd tl by simp
qed

lemma le32_rd32: "length bs = 4 \<Longrightarrow> le32 (rd32 bs) = bs"
  using to_le_from_le [of bs, where 'a = 32] by (simp add: le32_def rd32_def)

lemma le64_rd64: "length bs = 8 \<Longrightarrow> le64 (rd64 bs) = bs"
  using to_le_from_le [of bs, where 'a = 64] by (simp add: le64_def rd64_def)

section \<open>Fixed-width encodings\<close>

text \<open>
  What a chain of fixed-width items needs of its item encoding: a positive width, and a decoder
  that inverts the encoder.  Everything else (a whole array survives being concatenated, cut into
  pieces and decoded; a prefix of the bytes is the encoding of a prefix of the array) follows.
\<close>

locale fixed_codec =
  fixes enc :: "'a \<Rightarrow> u8 list" and dec :: "u8 list \<Rightarrow> 'a" and width :: nat
  assumes width_pos: "0 < width"
    and length_enc: "length (enc x) = width"
    and dec_enc: "dec (enc x) = x"
begin

lemma length_concat_enc: "length (concat (map enc xs)) = length xs * width"
  by (induction xs) (auto simp: length_enc)

lemma decode_all: "map dec (chunks_exact width (concat (map enc xs))) = xs"
proof -
  have "chunks_exact width (concat (map enc xs)) = map enc xs"
    by (rule chunks_exact_concat) (auto simp: width_pos length_enc)
  then show ?thesis by (simp add: dec_enc comp_def)
qed

lemma decode_nth: "i < length xs \<Longrightarrow> dec (bslice (i * width) width (concat (map enc xs))) = xs ! i"
  by (subst bslice_concat_same) (auto simp: length_enc dec_enc)

lemma encode_inj: "concat (map enc xs) = concat (map enc ys) \<longleftrightarrow> xs = ys"
  by (metis decode_all)

end

interpretation u32c: fixed_codec le32 rd32 4
  by unfold_locales simp_all

interpretation u64c: fixed_codec le64 rd64 8
  by unfold_locales simp_all

text \<open>The arrays the source reinterprets as raw bytes.\<close>

definition u64s_bytes :: "u64 list \<Rightarrow> u8 list" where
  "u64s_bytes xs = concat (map le64 xs)"

definition f32s_bytes :: "f32_bits list \<Rightarrow> u8 list" where
  "f32s_bytes xs = concat (map le32 xs)"

definition bytes_u64s :: "u8 list \<Rightarrow> u64 list" where
  "bytes_u64s bs = map rd64 (chunks_exact 8 bs)"

definition bytes_f32s :: "u8 list \<Rightarrow> f32_bits list" where
  "bytes_f32s bs = map rd32 (chunks_exact 4 bs)"

lemma bytes_u64s_bytes [simp]: "bytes_u64s (u64s_bytes xs) = xs"
  by (simp add: bytes_u64s_def u64s_bytes_def u64c.decode_all)

lemma bytes_f32s_bytes [simp]: "bytes_f32s (f32s_bytes xs) = xs"
  by (simp add: bytes_f32s_def f32s_bytes_def u32c.decode_all)

lemma length_u64s_bytes [simp]: "length (u64s_bytes xs) = length xs * 8"
  by (simp add: u64s_bytes_def u64c.length_concat_enc)

lemma length_f32s_bytes [simp]: "length (f32s_bytes xs) = length xs * 4"
  by (simp add: f32s_bytes_def u32c.length_concat_enc)

end
