(* ===== verification/Page.thy ===== *)
theory Page
  imports Codec
begin

text \<open>
  The meta page of a turbovec relation file (\<open>src/index/page.rs\<close>): its fields
  (\<open>MetaPageData\<close>), the planners that place every chain of the file (\<open>plan_with_blocked\<close>,
  \<open>plan_bq\<close>, \<open>set_ivf_chains\<close>, \<open>set_graph_chain\<close>), its wire format (\<open>encode\<close>, \<open>decode\<close>) and the
  predicates the scan, insert and vacuum paths branch on.  A failed \<open>assert\<close> of the source is the
  result \<open>None\<close>.
\<close>

section \<open>Constants\<close>

definition MAGIC :: "u8 list" where "MAGIC = [0x54, 0x56, 0x52, 0x4D]"
definition VERSION :: u8 where "VERSION = 8"
definition MIN_DECODE_VERSION :: u8 where "MIN_DECODE_VERSION = 1"
definition KIND_SINGLE :: u8 where "KIND_SINGLE = 0"
definition KIND_COLBERT :: u8 where "KIND_COLBERT = 1"
definition KIND_GRAPH :: u8 where "KIND_GRAPH = 2"
definition KIND_BQ :: u8 where "KIND_BQ = 3"
definition MAX_CODEBOOK_LEVELS :: nat where "MAX_CODEBOOK_LEVELS = 16"
definition BLCKSZ :: nat where "BLCKSZ = 8192"
definition PAGE_HEADER_BYTES :: nat where "PAGE_HEADER_BYTES = 24"
definition PAYLOAD_BYTES :: nat where "PAYLOAD_BYTES = BLCKSZ - PAGE_HEADER_BYTES"
definition PAD_PAGES :: u32 where "PAD_PAGES = 256"

lemmas page_consts = MAGIC_def VERSION_def MIN_DECODE_VERSION_def KIND_SINGLE_def
  KIND_COLBERT_def KIND_GRAPH_def KIND_BQ_def MAX_CODEBOOK_LEVELS_def PAD_PAGES_def

lemma PAYLOAD_BYTES_eq: "PAYLOAD_BYTES = 8168"
  by (simp add: PAYLOAD_BYTES_def BLCKSZ_def PAGE_HEADER_BYTES_def)

section \<open>The decoded meta page\<close>

record meta =
  m_version :: u8
  m_bit_width :: u8
  m_kind :: u8
  m_dim :: u32
  m_n_vectors :: u64
  m_codes_first :: u32
  m_codes_count :: u32
  m_scales_first :: u32
  m_scales_count :: u32
  m_ids_first :: u32
  m_ids_count :: u32
  m_rows_per_codes_page :: u32
  m_rows_per_scales_page :: u32
  m_rows_per_ids_page :: u32
  m_stride_bytes :: u32
  m_am_version :: u32
  m_blocked_first :: u32
  m_blocked_count :: u32
  m_blocked_bytes :: u64
  m_n_blocks_blocked :: u32
  m_codebook_n_levels :: u32
  m_centroids :: "f32_bits list"
  m_boundaries :: "f32_bits list"
  m_rotation_first :: u32
  m_rotation_count :: u32
  m_rotation_dim :: u32
  m_lists :: u32
  m_coarse_first :: u32
  m_coarse_count :: u32
  m_cell_dir_first :: u32
  m_cell_dir_count :: u32
  m_ivf_degraded :: bool
  m_tombstone_first :: u32
  m_tombstone_count :: u32
  m_tombstone_bytes :: u64
  m_graph_first :: u32
  m_graph_count :: u32
  m_graph_offsets_bytes :: u64
  m_graph_neighbors_bytes :: u64
  m_graph_entry_point :: u32
  m_bq_mean_first :: u32
  m_bq_mean_count :: u32
  m_bq_mean_bytes :: u64

section \<open>Page arithmetic\<close>

definition codes_stride :: "u8 \<Rightarrow> u32 \<Rightarrow> u32" where
  "codes_stride bit_width dim = (dim div 8) * ucast bit_width"

definition rows_per_page :: "u32 \<Rightarrow> u32" where
  "rows_per_page stride = (if stride = 0 then 0 else of_nat PAYLOAD_BYTES div stride)"

definition pages_needed :: "u64 \<Rightarrow> u32 \<Rightarrow> u32" where
  "pages_needed n_vectors rpp =
     (if n_vectors = 0 \<or> rpp = 0 then 0
      else u32_try_or_max (div_ceil n_vectors (ucast rpp)))"

definition rows_on_page :: "u64 \<Rightarrow> u32 \<Rightarrow> u32 \<Rightarrow> u32" where
  "rows_on_page n_vectors rpp page_idx =
     (if rpp = 0 \<or> n_vectors = 0 then 0
      else let total_pages = pages_needed n_vectors rpp in
        if page_idx + 1 < total_pages then rpp
        else if page_idx + 1 = total_pages then
          (let rem = n_vectors mod ucast rpp in if rem = 0 then rpp else ucast rem)
        else 0)"

definition pad_chain_pages :: "u32 \<Rightarrow> u32" where
  "pad_chain_pages n_pages =
     (if n_pages = 0 \<or> n_pages < PAD_PAGES then n_pages
      else saturating_mul (div_ceil n_pages PAD_PAGES) PAD_PAGES)"

definition padded_pages_needed :: "u64 \<Rightarrow> u32 \<Rightarrow> u32" where
  "padded_pages_needed n_vectors rpp = pad_chain_pages (pages_needed n_vectors rpp)"

definition byte_pages_needed :: "u64 \<Rightarrow> u32" where
  "byte_pages_needed n_bytes =
     (if n_bytes = 0 then 0 else u32_try_or_max (div_ceil n_bytes (of_nat PAYLOAD_BYTES)))"

text \<open>\<open>onebit::codes_stride\<close>: bytes of one row of packed sign bits.\<close>

definition onebit_codes_stride :: "nat \<Rightarrow> nat" where
  "onebit_codes_stride dim = nat_div_ceil dim 8"

section \<open>Planning the file\<close>

definition plan_with_blocked ::
  "u8 \<Rightarrow> u32 \<Rightarrow> u64 \<Rightarrow> u32 \<Rightarrow> u64 \<Rightarrow> u32 \<Rightarrow> u64 \<Rightarrow> meta option" where
  "plan_with_blocked bit_width dim n_vectors am_version blocked_bytes n_blocks_blocked rotation_bytes =
     (if dim mod 8 \<noteq> 0 then None else
      let stride = codes_stride bit_width dim;
          rpp_codes = rows_per_page stride;
          rpp_scales = rows_per_page 4;
          rpp_ids = rows_per_page 8;
          codes_count = padded_pages_needed n_vectors rpp_codes;
          scales_count = padded_pages_needed n_vectors rpp_scales;
          ids_count = padded_pages_needed n_vectors rpp_ids;
          blocked_count = byte_pages_needed blocked_bytes;
          rotation_count = byte_pages_needed rotation_bytes;
          codes_first = 1;
          scales_first = codes_first + codes_count;
          ids_first = scales_first + scales_count;
          blocked_first_blkno = ids_first + ids_count;
          rotation_first_blkno = blocked_first_blkno + blocked_count
      in Some \<lparr>
        m_version = VERSION, m_bit_width = bit_width, m_kind = KIND_SINGLE,
        m_dim = dim, m_n_vectors = n_vectors,
        m_codes_first = codes_first, m_codes_count = codes_count,
        m_scales_first = scales_first, m_scales_count = scales_count,
        m_ids_first = ids_first, m_ids_count = ids_count,
        m_rows_per_codes_page = rpp_codes, m_rows_per_scales_page = rpp_scales,
        m_rows_per_ids_page = rpp_ids, m_stride_bytes = stride, m_am_version = am_version,
        m_blocked_first = (if 0 < blocked_bytes then blocked_first_blkno else 0),
        m_blocked_count = blocked_count, m_blocked_bytes = blocked_bytes,
        m_n_blocks_blocked = n_blocks_blocked, m_codebook_n_levels = 0,
        m_centroids = replicate MAX_CODEBOOK_LEVELS 0,
        m_boundaries = replicate (MAX_CODEBOOK_LEVELS - 1) 0,
        m_rotation_first = (if 0 < rotation_bytes then rotation_first_blkno else 0),
        m_rotation_count = rotation_count,
        m_rotation_dim = (if 0 < rotation_bytes then dim else 0),
        m_lists = 0, m_coarse_first = 0, m_coarse_count = 0,
        m_cell_dir_first = 0, m_cell_dir_count = 0, m_ivf_degraded = False,
        m_tombstone_first = 0, m_tombstone_count = 0, m_tombstone_bytes = 0,
        m_graph_first = 0, m_graph_count = 0, m_graph_offsets_bytes = 0,
        m_graph_neighbors_bytes = 0, m_graph_entry_point = 0,
        m_bq_mean_first = 0, m_bq_mean_count = 0, m_bq_mean_bytes = 0 \<rparr>)"

definition plan :: "u8 \<Rightarrow> u32 \<Rightarrow> u64 \<Rightarrow> u32 \<Rightarrow> meta option" where
  "plan bit_width dim n_vectors am_version =
     plan_with_blocked bit_width dim n_vectors am_version 0 0 0"

definition plan_bq :: "u32 \<Rightarrow> u64 \<Rightarrow> u32 \<Rightarrow> meta option" where
  "plan_bq dim n_vectors am_version =
     (if dim mod 8 \<noteq> 0 then None else
      let stride = of_nat (onebit_codes_stride (unat dim));
          rpp_codes = rows_per_page stride;
          rpp_ids = rows_per_page 8;
          codes_count = padded_pages_needed n_vectors rpp_codes;
          ids_count = padded_pages_needed n_vectors rpp_ids;
          mean_bytes = ucast dim * 4;
          mean_count = byte_pages_needed mean_bytes;
          codes_first = 1;
          ids_first = codes_first + codes_count;
          mean_first = ids_first + ids_count
      in Some \<lparr>
        m_version = VERSION, m_bit_width = 1, m_kind = KIND_BQ,
        m_dim = dim, m_n_vectors = n_vectors,
        m_codes_first = codes_first, m_codes_count = codes_count,
        m_scales_first = 0, m_scales_count = 0,
        m_ids_first = ids_first, m_ids_count = ids_count,
        m_rows_per_codes_page = rpp_codes, m_rows_per_scales_page = rows_per_page 4,
        m_rows_per_ids_page = rpp_ids, m_stride_bytes = stride, m_am_version = am_version,
        m_blocked_first = 0, m_blocked_count = 0, m_blocked_bytes = 0,
        m_n_blocks_blocked = 0, m_codebook_n_levels = 0,
        m_centroids = replicate MAX_CODEBOOK_LEVELS 0,
        m_boundaries = replicate (MAX_CODEBOOK_LEVELS - 1) 0,
        m_rotation_first = 0, m_rotation_count = 0, m_rotation_dim = 0,
        m_lists = 0, m_coarse_first = 0, m_coarse_count = 0,
        m_cell_dir_first = 0, m_cell_dir_count = 0, m_ivf_degraded = False,
        m_tombstone_first = 0, m_tombstone_count = 0, m_tombstone_bytes = 0,
        m_graph_first = 0, m_graph_count = 0, m_graph_offsets_bytes = 0,
        m_graph_neighbors_bytes = 0, m_graph_entry_point = 0,
        m_bq_mean_first = (if 0 < mean_bytes then mean_first else 0),
        m_bq_mean_count = mean_count, m_bq_mean_bytes = mean_bytes \<rparr>)"

definition set_graph_chain :: "u64 \<Rightarrow> u64 \<Rightarrow> u32 \<Rightarrow> meta \<Rightarrow> meta" where
  "set_graph_chain offsets_bytes neighbors_bytes entry_point m =
     (if offsets_bytes = 0 \<and> neighbors_bytes = 0 then
        m\<lparr>m_graph_first := 0, m_graph_count := 0, m_graph_offsets_bytes := 0,
          m_graph_neighbors_bytes := 0, m_graph_entry_point := 0\<rparr>
      else
        let after_every_prior_chain = 1 + m_codes_count m + m_scales_count m + m_ids_count m
              + m_blocked_count m + m_rotation_count m + m_coarse_count m + m_cell_dir_count m
              + m_tombstone_count m + m_bq_mean_count m;
            total_bytes = offsets_bytes + neighbors_bytes
        in m\<lparr>m_graph_first := after_every_prior_chain,
             m_graph_count := byte_pages_needed total_bytes,
             m_graph_offsets_bytes := offsets_bytes,
             m_graph_neighbors_bytes := neighbors_bytes,
             m_graph_entry_point := entry_point,
             m_kind := KIND_GRAPH\<rparr>)"

definition set_ivf_chains :: "u32 \<Rightarrow> u64 \<Rightarrow> u64 \<Rightarrow> meta \<Rightarrow> meta" where
  "set_ivf_chains n_lists coarse_bytes cell_dir_bytes m =
     (if n_lists = 0 then
        m\<lparr>m_lists := 0, m_coarse_first := 0, m_coarse_count := 0,
          m_cell_dir_first := 0, m_cell_dir_count := 0\<rparr>
      else
        let after_rotation = 1 + m_codes_count m + m_scales_count m + m_ids_count m
              + m_blocked_count m + m_rotation_count m + m_bq_mean_count m;
            coarse_count = byte_pages_needed coarse_bytes;
            cell_dir_count = byte_pages_needed cell_dir_bytes
        in m\<lparr>m_lists := n_lists, m_coarse_count := coarse_count,
             m_cell_dir_count := cell_dir_count,
             m_coarse_first := (if 0 < coarse_bytes then after_rotation else 0),
             m_cell_dir_first :=
               (if 0 < cell_dir_bytes then after_rotation + coarse_count else 0)\<rparr>)"

definition mark_colbert :: "meta \<Rightarrow> meta" where
  "mark_colbert m = m\<lparr>m_kind := KIND_COLBERT, m_version := VERSION\<rparr>"

definition set_codebook :: "f32_bits list \<Rightarrow> f32_bits list \<Rightarrow> meta \<Rightarrow> meta option" where
  "set_codebook centroids boundaries m =
     (let n = length centroids in
      if \<not> n \<le> MAX_CODEBOOK_LEVELS then None
      else if length boundaries + 1 \<noteq> n then None
      else Some (m\<lparr>m_codebook_n_levels := of_nat n,
                  m_centroids := blit 0 centroids (replicate MAX_CODEBOOK_LEVELS 0),
                  m_boundaries := blit 0 boundaries (replicate (MAX_CODEBOOK_LEVELS - 1) 0)\<rparr>))"

definition total_blocks :: "meta \<Rightarrow> u32" where
  "total_blocks m =
     saturating_add (saturating_add (saturating_add (saturating_add (saturating_add
     (saturating_add (saturating_add (saturating_add (saturating_add (saturating_add 1
       (m_codes_count m)) (m_scales_count m)) (m_ids_count m)) (m_blocked_count m))
       (m_rotation_count m)) (m_coarse_count m)) (m_cell_dir_count m)) (m_tombstone_count m))
       (m_graph_count m)) (m_bq_mean_count m)"

end
