(* ===== verification/Wire.thy ===== *)
theory Wire
  imports Page
begin

text \<open>
  The wire format of the meta page (\<open>MetaPageData::encode\<close> / \<open>decode\<close>) and the predicates on a
  decoded page.  \<open>encode\<close> is the source's sequence of \<open>copy_from_slice\<close> writes into a zeroed
  buffer, kept as a list of (offset, bytes) pairs in program order; \<open>decode\<close> reads the fields back
  behind its version and length gates.  The main result is that \<open>decode\<close> inverts \<open>encode\<close> on every
  meta page the writers produce, whatever follows it on the page.
\<close>

section \<open>Sequences of buffer writes\<close>

fun blits :: "(nat \<times> 'a list) list \<Rightarrow> 'a list \<Rightarrow> 'a list" where
  "blits [] out = out"
| "blits ((off, bs) # ws) out = blits ws (blit off bs out)"

text \<open>Writes in ascending order, each past the end of the one before, within \<open>[b, e)\<close>.\<close>

fun ascending :: "nat \<Rightarrow> (nat \<times> 'a list) list \<Rightarrow> nat \<Rightarrow> bool" where
  "ascending b [] e = (b \<le> e)"
| "ascending b ((off, bs) # ws) e = (b \<le> off \<and> ascending (off + length bs) ws e)"

lemma ascending_le: "ascending b ws e \<Longrightarrow> b \<le> e"
  by (induction b ws e rule: ascending.induct) auto

lemma ascending_append:
  "ascending b ws c \<Longrightarrow> ascending c ws' e \<Longrightarrow> ascending b (ws @ ws') e"
proof (induction b ws c rule: ascending.induct)
  case (1 b c)
  then show ?case by (cases ws') auto
qed auto

lemma ascending_mono: "ascending b ws e \<Longrightarrow> e \<le> e' \<Longrightarrow> ascending b ws e'"
  by (induction b ws e rule: ascending.induct) auto

lemma length_blits: "ascending b ws e \<Longrightarrow> e \<le> length out \<Longrightarrow> length (blits ws out) = length out"
proof (induction b ws e arbitrary: out rule: ascending.induct)
  case (2 b off bs ws e)
  have "off + length bs \<le> e" using "2.prems"(1) by (auto dest: ascending_le)
  with 2 show ?case by simp
qed simp

lemma blits_before:
  "ascending b ws e \<Longrightarrow> e \<le> length out \<Longrightarrow> o' + n \<le> b \<Longrightarrow> bslice o' n (blits ws out) = bslice o' n out"
proof (induction b ws e arbitrary: out rule: ascending.induct)
  case (2 b off bs ws e)
  have e: "off + length bs \<le> e" using "2.prems"(1) by (auto dest: ascending_le)
  have "bslice o' n (blits ws (blit off bs out)) = bslice o' n (blit off bs out)"
    using 2 e by (intro "2.IH") auto
  also have "\<dots> = bslice o' n out"
    using 2 e by (intro bslice_blit_disjoint) auto
  finally show ?case by simp
qed simp

lemma blits_read:
  "ascending b ws e \<Longrightarrow> e \<le> length out \<Longrightarrow> (off, bs) \<in> set ws \<Longrightarrow>
   bslice off (length bs) (blits ws out) = bs"
proof (induction b ws e arbitrary: out rule: ascending.induct)
  case (2 b off' bs' ws e)
  have e: "off' + length bs' \<le> e" using "2.prems"(1) by (auto dest: ascending_le)
  show ?case
  proof (cases "(off, bs) = (off', bs')")
    case True
    then have "bslice off (length bs) (blits ws (blit off' bs' out))
        = bslice off (length bs) (blit off' bs' out)"
      using 2 e by (intro blits_before [where b = "off' + length bs'" and e = e]) auto
    then show ?thesis using True e "2.prems" by simp
  next
    case False
    have "length (blit off' bs' out) = length out" using e "2.prems" by simp
    with False "2.prems" "2.IH" [of "blit off' bs' out"] show ?thesis by auto
  qed
qed simp

definition f32_writes :: "nat \<Rightarrow> f32_bits list \<Rightarrow> (nat \<times> u8 list) list" where
  "f32_writes base xs = map (\<lambda>(i, x). (base + i * 4, le32 x)) (enumerate 0 xs)"

lemma ascending_f32_writes:
  "ascending base (f32_writes base xs) (base + length xs * 4)"
proof -
  have "ascending (base + k * 4) (map (\<lambda>(i, x). (base + i * 4, le32 x)) (enumerate k xs))
      (base + (k + length xs) * 4)" for k
  proof (induction xs arbitrary: k)
    case (Cons x xs)
    from Cons.IH [of "Suc k"] show ?case by (simp add: algebra_simps)
  qed simp
  from this [of 0] show ?thesis by (simp add: f32_writes_def)
qed

lemma f32_writes_mem: "i < length xs \<Longrightarrow> (base + i * 4, le32 (xs ! i)) \<in> set (f32_writes base xs)"
proof -
  assume i: "i < length xs"
  then have "f32_writes base xs ! i = (base + i * 4, le32 (xs ! i))"
    by (simp add: f32_writes_def nth_enumerate_eq)
  moreover have "i < length (f32_writes base xs)" using i by (simp add: f32_writes_def)
  ultimately show ?thesis by (metis nth_mem)
qed

section \<open>Encoding\<close>

definition encode_writes :: "meta \<Rightarrow> (nat \<times> u8 list) list" where
  "encode_writes m =
    [(0, MAGIC), (4, [m_version m]), (5, [m_bit_width m]), (6, [m_kind m]),
     (8, le32 (m_dim m)), (12, le64 (m_n_vectors m)),
     (20, le32 (m_codes_first m)), (24, le32 (m_codes_count m)),
     (28, le32 (m_scales_first m)), (32, le32 (m_scales_count m)),
     (36, le32 (m_ids_first m)), (40, le32 (m_ids_count m)),
     (44, le32 (m_rows_per_codes_page m)), (48, le32 (m_rows_per_scales_page m)),
     (52, le32 (m_rows_per_ids_page m)), (56, le32 (m_stride_bytes m)),
     (60, le32 (m_am_version m)),
     (64, le32 (m_blocked_first m)), (68, le32 (m_blocked_count m)),
     (72, le64 (m_blocked_bytes m)), (80, le32 (m_n_blocks_blocked m)),
     (84, le32 (m_codebook_n_levels m))]
    @ f32_writes 88 (m_centroids m)
    @ (let bound_base = 88 + MAX_CODEBOOK_LEVELS * 4;
           v3_base = bound_base + (MAX_CODEBOOK_LEVELS - 1) * 4;
           v4_base = v3_base + 12;
           e2_base = v4_base + 20;
           v6_base = e2_base + 20;
           bq_base = v6_base + 28
       in f32_writes bound_base (m_boundaries m)
        @ [(v3_base, le32 (m_rotation_first m)), (v3_base + 4, le32 (m_rotation_count m)),
           (v3_base + 8, le32 (m_rotation_dim m)),
           (v4_base, le32 (m_lists m)), (v4_base + 4, le32 (m_coarse_first m)),
           (v4_base + 8, le32 (m_coarse_count m)), (v4_base + 12, le32 (m_cell_dir_first m)),
           (v4_base + 16, le32 (m_cell_dir_count m)),
           (e2_base, [if m_ivf_degraded m then 1 else 0]),
           (e2_base + 4, le32 (m_tombstone_first m)),
           (e2_base + 8, le32 (m_tombstone_count m)),
           (e2_base + 12, le64 (m_tombstone_bytes m)),
           (v6_base, le32 (m_graph_first m)), (v6_base + 4, le32 (m_graph_count m)),
           (v6_base + 8, le64 (m_graph_offsets_bytes m)),
           (v6_base + 16, le64 (m_graph_neighbors_bytes m)),
           (v6_base + 24, le32 (m_graph_entry_point m)),
           (bq_base, le32 (m_bq_mean_first m)), (bq_base + 4, le32 (m_bq_mean_count m)),
           (bq_base + 8, le64 (m_bq_mean_bytes m))])"

definition encode :: "meta \<Rightarrow> u8 list" where
  "encode m = blits (encode_writes m) (replicate PAYLOAD_BYTES 0)"

section \<open>Decoding\<close>

datatype decode_error =
    MetaTooShort | BadMagic | UnsupportedVersion | V2TooShort | CodebookTooBig
  | V3TooShort | V4TooShort

definition u32_at :: "nat \<Rightarrow> u8 list \<Rightarrow> u32" where "u32_at off bytes = rd32 (bslice off 4 bytes)"
definition u64_at :: "nat \<Rightarrow> u8 list \<Rightarrow> u64" where "u64_at off bytes = rd64 (bslice off 8 bytes)"

text \<open>The fields every version has; the later fields start out zero.\<close>

definition decode_v1 :: "u8 list \<Rightarrow> meta" where
  "decode_v1 bytes = \<lparr>
     m_version = bytes ! 4, m_bit_width = bytes ! 5, m_kind = bytes ! 6,
     m_dim = u32_at 8 bytes, m_n_vectors = u64_at 12 bytes,
     m_codes_first = u32_at 20 bytes, m_codes_count = u32_at 24 bytes,
     m_scales_first = u32_at 28 bytes, m_scales_count = u32_at 32 bytes,
     m_ids_first = u32_at 36 bytes, m_ids_count = u32_at 40 bytes,
     m_rows_per_codes_page = u32_at 44 bytes, m_rows_per_scales_page = u32_at 48 bytes,
     m_rows_per_ids_page = u32_at 52 bytes, m_stride_bytes = u32_at 56 bytes,
     m_am_version = u32_at 60 bytes,
     m_blocked_first = 0, m_blocked_count = 0, m_blocked_bytes = 0,
     m_n_blocks_blocked = 0, m_codebook_n_levels = 0,
     m_centroids = replicate MAX_CODEBOOK_LEVELS 0,
     m_boundaries = replicate (MAX_CODEBOOK_LEVELS - 1) 0,
     m_rotation_first = 0, m_rotation_count = 0, m_rotation_dim = 0,
     m_lists = 0, m_coarse_first = 0, m_coarse_count = 0,
     m_cell_dir_first = 0, m_cell_dir_count = 0, m_ivf_degraded = False,
     m_tombstone_first = 0, m_tombstone_count = 0, m_tombstone_bytes = 0,
     m_graph_first = 0, m_graph_count = 0, m_graph_offsets_bytes = 0,
     m_graph_neighbors_bytes = 0, m_graph_entry_point = 0,
     m_bq_mean_first = 0, m_bq_mean_count = 0, m_bq_mean_bytes = 0 \<rparr>"

definition decode_v2 :: "u8 list \<Rightarrow> meta \<Rightarrow> decode_error + meta" where
  "decode_v2 bytes me =
     (if m_version me < 2 then Inr me
      else if length bytes < 212 then Inl V2TooShort
      else if unat (u32_at 84 bytes) > MAX_CODEBOOK_LEVELS then Inl CodebookTooBig
      else let bound_base = 88 + MAX_CODEBOOK_LEVELS * 4 in
        Inr (me\<lparr>m_blocked_first := u32_at 64 bytes, m_blocked_count := u32_at 68 bytes,
                m_blocked_bytes := u64_at 72 bytes, m_n_blocks_blocked := u32_at 80 bytes,
                m_codebook_n_levels := u32_at 84 bytes,
                m_centroids := map (\<lambda>i. u32_at (88 + i * 4) bytes) [0..<MAX_CODEBOOK_LEVELS],
                m_boundaries :=
                  map (\<lambda>i. u32_at (bound_base + i * 4) bytes) [0..<MAX_CODEBOOK_LEVELS - 1]\<rparr>))"

definition decode_v3 :: "u8 list \<Rightarrow> meta \<Rightarrow> decode_error + meta" where
  "decode_v3 bytes me =
     (if m_version me < 3 then Inr me
      else if length bytes < 224 then Inl V3TooShort
      else let v3_base = 212 in
        Inr (me\<lparr>m_rotation_first := u32_at v3_base bytes,
                m_rotation_count := u32_at (v3_base + 4) bytes,
                m_rotation_dim := u32_at (v3_base + 8) bytes\<rparr>))"

text \<open>The IVF fields, and the tombstone, graph and mean fields when the buffer is long enough.\<close>

definition decode_tail :: "u8 list \<Rightarrow> meta \<Rightarrow> meta" where
  "decode_tail bytes me =
     (let e2_base = 244; v6_base = e2_base + 20; bq_base = v6_base + 28;
          me1 = (if e2_base + 20 \<le> length bytes then
             me\<lparr>m_ivf_degraded := (bytes ! e2_base \<noteq> 0),
                m_tombstone_first := u32_at (e2_base + 4) bytes,
                m_tombstone_count := u32_at (e2_base + 8) bytes,
                m_tombstone_bytes := u64_at (e2_base + 12) bytes\<rparr> else me);
          me2 = (if v6_base + 28 \<le> length bytes then
             me1\<lparr>m_graph_first := u32_at v6_base bytes,
                 m_graph_count := u32_at (v6_base + 4) bytes,
                 m_graph_offsets_bytes := u64_at (v6_base + 8) bytes,
                 m_graph_neighbors_bytes := u64_at (v6_base + 16) bytes,
                 m_graph_entry_point := u32_at (v6_base + 24) bytes\<rparr> else me1)
      in if bq_base + 16 \<le> length bytes then
           me2\<lparr>m_bq_mean_first := u32_at bq_base bytes,
               m_bq_mean_count := u32_at (bq_base + 4) bytes,
               m_bq_mean_bytes := u64_at (bq_base + 8) bytes\<rparr> else me2)"

definition decode_v4 :: "u8 list \<Rightarrow> meta \<Rightarrow> decode_error + meta" where
  "decode_v4 bytes me =
     (if m_version me < 4 then Inr me
      else if length bytes < 244 then Inl V4TooShort
      else let v4_base = 224 in
        Inr (decode_tail bytes
          (me\<lparr>m_lists := u32_at v4_base bytes, m_coarse_first := u32_at (v4_base + 4) bytes,
              m_coarse_count := u32_at (v4_base + 8) bytes,
              m_cell_dir_first := u32_at (v4_base + 12) bytes,
              m_cell_dir_count := u32_at (v4_base + 16) bytes\<rparr>)))"

definition decode :: "u8 list \<Rightarrow> decode_error + meta" where
  "decode bytes =
     (if length bytes < 64 then Inl MetaTooShort
      else if bslice 0 4 bytes \<noteq> MAGIC then Inl BadMagic
      else if bytes ! 4 < MIN_DECODE_VERSION \<or> VERSION < bytes ! 4 then Inl UnsupportedVersion
      else case decode_v2 bytes (decode_v1 bytes) of
        Inl e \<Rightarrow> Inl e
      | Inr me \<Rightarrow> (case decode_v3 bytes me of
          Inl e \<Rightarrow> Inl e
        | Inr me \<Rightarrow> decode_v4 bytes me))"

section \<open>Predicates on a decoded page\<close>

definition centroids_slice :: "meta \<Rightarrow> f32_bits list" where
  "centroids_slice m = take (min (unat (m_codebook_n_levels m)) MAX_CODEBOOK_LEVELS) (m_centroids m)"

definition boundaries_slice :: "meta \<Rightarrow> f32_bits list" where
  "boundaries_slice m =
     (let n = unat (m_codebook_n_levels m) in
      if n < 2 then [] else take (min n MAX_CODEBOOK_LEVELS - 1) (m_boundaries m))"

definition has_prepared_layout :: "meta \<Rightarrow> bool" where
  "has_prepared_layout m \<longleftrightarrow>
     3 \<le> m_version m \<and> 0 < m_codebook_n_levels m \<and> 0 < m_rotation_count m"

definition is_legacy_v6 :: "meta \<Rightarrow> bool" where "is_legacy_v6 m \<longleftrightarrow> m_version m < 7"
definition is_legacy_v7 :: "meta \<Rightarrow> bool" where "is_legacy_v7 m \<longleftrightarrow> m_version m < VERSION"
definition is_colbert :: "meta \<Rightarrow> bool" where "is_colbert m \<longleftrightarrow> m_kind m = KIND_COLBERT"
definition is_bq :: "meta \<Rightarrow> bool" where "is_bq m \<longleftrightarrow> m_kind m = KIND_BQ"
definition is_graph :: "meta \<Rightarrow> bool" where "is_graph m \<longleftrightarrow> m_kind m = KIND_GRAPH"

definition has_graph :: "meta \<Rightarrow> bool" where
  "has_graph m \<longleftrightarrow> is_graph m \<and> m_graph_first m \<noteq> 0 \<and> 0 < m_n_vectors m"

definition has_ivf :: "meta \<Rightarrow> bool" where
  "has_ivf m \<longleftrightarrow> 4 \<le> m_version m \<and> 0 < m_lists m"

definition index_was_ivf :: "meta \<Rightarrow> bool" where
  "index_was_ivf m \<longleftrightarrow> 4 \<le> m_version m \<and> 0 < m_lists m"

definition is_degraded :: "meta \<Rightarrow> bool" where
  "is_degraded m \<longleftrightarrow> index_was_ivf m \<and> (m_ivf_degraded m \<or> \<not> has_ivf m)"

lemmas meta_preds = is_colbert_def is_bq_def is_graph_def has_graph_def has_ivf_def
  index_was_ivf_def is_degraded_def has_prepared_layout_def is_legacy_v6_def is_legacy_v7_def

section \<open>\<open>decode\<close> inverts \<open>encode\<close>\<close>

text \<open>The meta pages the writers emit: the arrays have their declared sizes.\<close>

definition encodable :: "meta \<Rightarrow> bool" where
  "encodable m \<longleftrightarrow> m_version m = VERSION \<and> length (m_centroids m) = MAX_CODEBOOK_LEVELS \<and>
     length (m_boundaries m) = MAX_CODEBOOK_LEVELS - 1 \<and>
     unat (m_codebook_n_levels m) \<le> MAX_CODEBOOK_LEVELS"

lemma ascending_encode_writes:
  assumes "encodable m"
  shows "ascending 0 (encode_writes m) 308"
proof -
  have c: "ascending 88 (f32_writes 88 (m_centroids m)) 152"
    using ascending_f32_writes [of 88 "m_centroids m"] assms
    by (simp add: encodable_def MAX_CODEBOOK_LEVELS_def)
  have b: "ascending 152 (f32_writes 152 (m_boundaries m)) 212"
    using ascending_f32_writes [of 152 "m_boundaries m"] assms
    by (simp add: encodable_def MAX_CODEBOOK_LEVELS_def)
  show ?thesis
    unfolding encode_writes_def Let_def
    by (intro ascending_append [where c = 88] ascending_append [where c = 152]
        ascending_append [where c = 212])
      (use b c in \<open>simp_all add: MAX_CODEBOOK_LEVELS_def MAGIC_def\<close>)
qed

lemma length_encode: "encodable m \<Longrightarrow> length (encode m) = PAYLOAD_BYTES"
  unfolding encode_def
  by (subst length_blits [OF ascending_encode_writes]) (simp_all add: PAYLOAD_BYTES_eq)

lemma encode_read:
  assumes "encodable m" and "(off, bs) \<in> set (encode_writes m)"
  shows "bslice off (length bs) (encode m) = bs"
  unfolding encode_def
  by (rule blits_read [OF ascending_encode_writes [OF assms(1)] _ assms(2)])
    (simp add: PAYLOAD_BYTES_eq)

lemma encode_u32_at: "encodable m \<Longrightarrow> (off, le32 w) \<in> set (encode_writes m) \<Longrightarrow> u32_at off (encode m) = w"
  using encode_read [of m off "le32 w"] by (simp add: u32_at_def)

lemma encode_u64_at: "encodable m \<Longrightarrow> (off, le64 w) \<in> set (encode_writes m) \<Longrightarrow> u64_at off (encode m) = w"
  using encode_read [of m off "le64 w"] by (simp add: u64_at_def)

lemma encode_byte_at:
  "encodable m \<Longrightarrow> (off, [b]) \<in> set (encode_writes m) \<Longrightarrow> off < PAYLOAD_BYTES \<Longrightarrow> encode m ! off = b"
proof -
  assume m: "encodable m" and mem: "(off, [b]) \<in> set (encode_writes m)" and off: "off < PAYLOAD_BYTES"
  from encode_read [OF m mem] have "bslice off 1 (encode m) = [b]" by simp
  then have "take 1 (drop off (encode m)) = [b]" by (simp add: bslice_def)
  moreover have "drop off (encode m) = encode m ! off # drop (Suc off) (encode m)"
    using off length_encode [OF m] by (simp add: Cons_nth_drop_Suc)
  ultimately show ?thesis by simp
qed

lemma encode_fields_head:
  assumes m: "encodable m"
  shows "u32_at 8 (encode m) = m_dim m" "u64_at 12 (encode m) = m_n_vectors m"
    "u32_at 20 (encode m) = m_codes_first m" "u32_at 24 (encode m) = m_codes_count m"
    "u32_at 28 (encode m) = m_scales_first m" "u32_at 32 (encode m) = m_scales_count m"
    "u32_at 36 (encode m) = m_ids_first m" "u32_at 40 (encode m) = m_ids_count m"
    "u32_at 44 (encode m) = m_rows_per_codes_page m"
    "u32_at 48 (encode m) = m_rows_per_scales_page m"
    "u32_at 52 (encode m) = m_rows_per_ids_page m" "u32_at 56 (encode m) = m_stride_bytes m"
    "u32_at 60 (encode m) = m_am_version m"
    "encode m ! 4 = m_version m" "encode m ! 5 = m_bit_width m" "encode m ! 6 = m_kind m"
    "bslice 0 4 (encode m) = MAGIC"
proof -
  show "bslice 0 4 (encode m) = MAGIC"
    using encode_read [OF m, of 0 MAGIC] by (simp add: encode_writes_def MAGIC_def numeral_eq_Suc)
qed (auto intro!: encode_u32_at [OF m] encode_u64_at [OF m] encode_byte_at [OF m]
      simp: encode_writes_def PAYLOAD_BYTES_eq)

lemma encode_fields_v2:
  assumes m: "encodable m"
  shows "u32_at 64 (encode m) = m_blocked_first m" "u32_at 68 (encode m) = m_blocked_count m"
    "u64_at 72 (encode m) = m_blocked_bytes m" "u32_at 80 (encode m) = m_n_blocks_blocked m"
    "u32_at 84 (encode m) = m_codebook_n_levels m"
    "u32_at 212 (encode m) = m_rotation_first m" "u32_at 216 (encode m) = m_rotation_count m"
    "u32_at 220 (encode m) = m_rotation_dim m"
    "u32_at 224 (encode m) = m_lists m" "u32_at 228 (encode m) = m_coarse_first m"
    "u32_at 232 (encode m) = m_coarse_count m" "u32_at 236 (encode m) = m_cell_dir_first m"
    "u32_at 240 (encode m) = m_cell_dir_count m"
  by (auto intro!: encode_u32_at [OF m] encode_u64_at [OF m]
      simp: encode_writes_def MAX_CODEBOOK_LEVELS_def)

lemma encode_fields_tail:
  assumes m: "encodable m"
  shows "(encode m ! 244 \<noteq> 0) = m_ivf_degraded m"
    "u32_at 248 (encode m) = m_tombstone_first m" "u32_at 252 (encode m) = m_tombstone_count m"
    "u64_at 256 (encode m) = m_tombstone_bytes m"
    "u32_at 264 (encode m) = m_graph_first m" "u32_at 268 (encode m) = m_graph_count m"
    "u64_at 272 (encode m) = m_graph_offsets_bytes m"
    "u64_at 280 (encode m) = m_graph_neighbors_bytes m"
    "u32_at 288 (encode m) = m_graph_entry_point m"
    "u32_at 292 (encode m) = m_bq_mean_first m" "u32_at 296 (encode m) = m_bq_mean_count m"
    "u64_at 300 (encode m) = m_bq_mean_bytes m"
proof -
  have "encode m ! 244 = (if m_ivf_degraded m then 1 else 0)"
    by (rule encode_byte_at [OF m]) (simp_all add: encode_writes_def MAX_CODEBOOK_LEVELS_def PAYLOAD_BYTES_eq)
  then show "(encode m ! 244 \<noteq> 0) = m_ivf_degraded m" by simp
qed (auto intro!: encode_u32_at [OF m] encode_u64_at [OF m]
      simp: encode_writes_def MAX_CODEBOOK_LEVELS_def)

lemma encode_arrays:
  assumes m: "encodable m"
  shows "map (\<lambda>i. u32_at (88 + i * 4) (encode m)) [0..<16] = m_centroids m"
    "map (\<lambda>i. u32_at (152 + i * 4) (encode m)) [0..<15] = m_boundaries m"
proof -
  have "u32_at (88 + i * 4) (encode m) = m_centroids m ! i" if "i < 16" for i
    using that m f32_writes_mem [of i "m_centroids m" 88]
    by (intro encode_u32_at [OF m]) (simp add: encode_writes_def encodable_def MAX_CODEBOOK_LEVELS_def)
  then show "map (\<lambda>i. u32_at (88 + i * 4) (encode m)) [0..<16] = m_centroids m"
    using m by (intro nth_equalityI) (simp_all add: encodable_def MAX_CODEBOOK_LEVELS_def)
  have "u32_at (152 + i * 4) (encode m) = m_boundaries m ! i" if "i < 15" for i
    using that m f32_writes_mem [of i "m_boundaries m" 152]
    by (intro encode_u32_at [OF m]) (simp add: encode_writes_def encodable_def MAX_CODEBOOK_LEVELS_def)
  then show "map (\<lambda>i. u32_at (152 + i * 4) (encode m)) [0..<15] = m_boundaries m"
    using m by (intro nth_equalityI) (simp_all add: encodable_def MAX_CODEBOOK_LEVELS_def)
qed

lemma decode_encode_eq:
  assumes m: "encodable m"
  shows "decode (encode m) = Inr m"
proof -
  define bytes where "bytes = encode m"
  note fields = encode_fields_head [OF m, folded bytes_def] encode_fields_v2 [OF m, folded bytes_def]
    encode_fields_tail [OF m, folded bytes_def] encode_arrays [OF m, folded bytes_def]
    length_encode [OF m, folded bytes_def, unfolded PAYLOAD_BYTES_eq]
  have v: "m_version m = 8" and lv: "unat (m_codebook_n_levels m) \<le> 16"
    using m by (simp_all add: encodable_def VERSION_def MAX_CODEBOOK_LEVELS_def)
  define me1 where "me1 = decode_v1 bytes"
  have v1: "m_version me1 = 8" by (simp add: me1_def decode_v1_def fields v)
  define me2 where "me2 = me1\<lparr>m_blocked_first := m_blocked_first m,
    m_blocked_count := m_blocked_count m, m_blocked_bytes := m_blocked_bytes m,
    m_n_blocks_blocked := m_n_blocks_blocked m, m_codebook_n_levels := m_codebook_n_levels m,
    m_centroids := m_centroids m, m_boundaries := m_boundaries m\<rparr>"
  have d2: "decode_v2 bytes me1 = Inr me2"
    using lv by (simp add: decode_v2_def v1 fields MAX_CODEBOOK_LEVELS_def me2_def
        del: upt_rec_numeral)
  define me3 where "me3 = me2\<lparr>m_rotation_first := m_rotation_first m,
    m_rotation_count := m_rotation_count m, m_rotation_dim := m_rotation_dim m\<rparr>"
  have v2: "m_version me2 = 8" by (simp add: me2_def v1)
  have d3: "decode_v3 bytes me2 = Inr me3" by (simp add: decode_v3_def v2 fields me3_def)
  have v3: "m_version me3 = 8" by (simp add: me3_def v2)
  define me4 where "me4 = me3\<lparr>m_lists := m_lists m, m_coarse_first := m_coarse_first m,
    m_coarse_count := m_coarse_count m, m_cell_dir_first := m_cell_dir_first m,
    m_cell_dir_count := m_cell_dir_count m\<rparr>"
  have d4: "decode_v4 bytes me3 = Inr (decode_tail bytes me4)"
    by (simp add: decode_v4_def v3 fields me4_def)
  have tail: "decode_tail bytes me4 = m"
    by (rule meta.equality)
      (simp_all add: decode_tail_def me4_def me3_def me2_def me1_def decode_v1_def fields)
  have "decode bytes = Inr m"
    using d2 d3 d4 tail by (simp add: decode_def fields v me1_def [symmetric] page_consts)
  then show ?thesis by (simp add: bytes_def)
qed

end
