(* ===== verification/Layout.thy ===== *)
theory Layout
  imports Wire
begin

text \<open>
  Where the planners place the chains of a relation file.  The file is block 0 (the meta page)
  followed by up to ten chains; a planner that forgets one chain in a running sum places a later
  chain on top of it.  \<open>packed\<close> says that every non-empty chain starts exactly where the one before
  it ends; it is what the planners establish and every later step keeps, and it gives disjointness
  and containment in \<open>total_blocks\<close>.
\<close>

section \<open>The chains of a meta page, in file order\<close>

definition chain_list :: "meta \<Rightarrow> (nat \<times> nat) list" where
  "chain_list m =
    [(unat (m_codes_first m), unat (m_codes_count m)),
     (unat (m_scales_first m), unat (m_scales_count m)),
     (unat (m_ids_first m), unat (m_ids_count m)),
     (unat (m_blocked_first m), unat (m_blocked_count m)),
     (unat (m_rotation_first m), unat (m_rotation_count m)),
     (unat (m_bq_mean_first m), unat (m_bq_mean_count m)),
     (unat (m_coarse_first m), unat (m_coarse_count m)),
     (unat (m_cell_dir_first m), unat (m_cell_dir_count m)),
     (unat (m_graph_first m), unat (m_graph_count m)),
     (unat (m_tombstone_first m), unat (m_tombstone_count m))]"

definition block_sum :: "meta \<Rightarrow> nat" where
  "block_sum m = 1 + sum_list (map snd (chain_list m))"

text \<open>The plan stays within 32-bit block numbers (PostgreSQL's own limit on a relation).\<close>

definition fits :: "meta \<Rightarrow> bool" where
  "fits m \<longleftrightarrow> block_sum m < 4294967295"

fun packed_from :: "nat \<Rightarrow> (nat \<times> nat) list \<Rightarrow> bool" where
  "packed_from b [] = True"
| "packed_from b ((first, count) # cs) = ((count = 0 \<or> first = b) \<and> packed_from (b + count) cs)"

definition packed :: "meta \<Rightarrow> bool" where
  "packed m \<longleftrightarrow> packed_from 1 (chain_list m)"

lemma block_sum_eq:
  "block_sum m = 1 + unat (m_codes_count m) + unat (m_scales_count m) + unat (m_ids_count m)
     + unat (m_blocked_count m) + unat (m_rotation_count m) + unat (m_bq_mean_count m)
     + unat (m_coarse_count m) + unat (m_cell_dir_count m) + unat (m_graph_count m)
     + unat (m_tombstone_count m)"
  by (simp add: block_sum_def chain_list_def)

lemmas layout_defs = packed_def chain_list_def fits_def block_sum_eq

lemma total_blocks_fits: "fits m \<Longrightarrow> unat (total_blocks m) = block_sum m"
  by (simp add: total_blocks_def fits_def block_sum_eq unat_saturating_add)

section \<open>What packing gives\<close>

definition in_chain :: "nat \<Rightarrow> nat \<times> nat \<Rightarrow> bool" where
  "in_chain blk c \<longleftrightarrow> fst c \<le> blk \<and> blk < fst c + snd c"

lemma packed_from_bounds:
  "packed_from b cs \<Longrightarrow> c \<in> set cs \<Longrightarrow> in_chain blk c \<Longrightarrow>
   b \<le> blk \<and> blk < b + sum_list (map snd cs)"
proof (induction b cs rule: packed_from.induct)
  case (2 b first count cs)
  show ?case
  proof (cases "c = (first, count)")
    case True
    with "2.prems" show ?thesis by (auto simp: in_chain_def)
  next
    case False
    with 2 have "b + count \<le> blk \<and> blk < b + count + sum_list (map snd cs)" by auto
    then show ?thesis by simp
  qed
qed simp

lemma packed_from_disjoint:
  "packed_from b cs \<Longrightarrow> i < j \<Longrightarrow> j < length cs \<Longrightarrow>
   \<not> (in_chain blk (cs ! i) \<and> in_chain blk (cs ! j))"
proof (induction b cs arbitrary: i j rule: packed_from.induct)
  case (2 b first count cs)
  show ?case
  proof (cases i)
    case 0
    show ?thesis
    proof
      assume in2: "in_chain blk (((first, count) # cs) ! i) \<and> in_chain blk (((first, count) # cs) ! j)"
      from 0 2(3) obtain j' where j: "j = Suc j'" by (cases j) auto
      with "2.prems" have mem: "cs ! j' \<in> set cs" by simp
      from in2 j have "in_chain blk (cs ! j')" by simp
      with packed_from_bounds [OF _ mem] "2.prems" have "b + count \<le> blk" by auto
      moreover have "blk < b + count" using in2 0 "2.prems" by (auto simp: in_chain_def)
      ultimately show False by simp
    qed
  next
    case (Suc i')
    then obtain j' where "j = Suc j'" using "2.prems" by (cases j) auto
    with Suc 2 show ?thesis by simp
  qed
qed simp

lemma packed_disjoint:
  "packed m \<Longrightarrow> i < length (chain_list m) \<Longrightarrow> j < length (chain_list m) \<Longrightarrow> i \<noteq> j \<Longrightarrow>
   in_chain blk (chain_list m ! i) \<Longrightarrow> \<not> in_chain blk (chain_list m ! j)"
  unfolding packed_def
  by (metis packed_from_disjoint linorder_neqE_nat)

lemma packed_in_file:
  "packed m \<Longrightarrow> c \<in> set (chain_list m) \<Longrightarrow> in_chain blk c \<Longrightarrow> 0 < blk \<and> blk < block_sum m"
  unfolding packed_def block_sum_def
  by (frule (2) packed_from_bounds) simp

section \<open>Sizes of chains\<close>

lemma unat_pages_needed:
  "n \<noteq> 0 \<Longrightarrow> rpp \<noteq> 0 \<Longrightarrow>
   unat (pages_needed n rpp) = min 4294967295 (nat_div_ceil (unat n) (unat rpp))"
proof -
  assume "n \<noteq> 0" and rpp: "rpp \<noteq> 0"
  have "ucast rpp \<noteq> (0 :: u64)" using rpp by (metis unat_eq_0 unat_ucast_u32_u64)
  with \<open>n \<noteq> 0\<close> rpp show ?thesis
    by (simp add: pages_needed_def unat_u32_try_or_max unat_div_ceil)
qed

lemma pages_needed_0 [simp]: "pages_needed 0 rpp = 0" "pages_needed n 0 = 0"
  by (simp_all add: pages_needed_def)

lemma pad_chain_pages_small: "unat p < 256 \<Longrightarrow> pad_chain_pages p = p"
  by (simp add: pad_chain_pages_def PAD_PAGES_def word_less_nat_alt)

lemma unat_pad_chain_pages_big:
  "256 \<le> unat p \<Longrightarrow>
   unat (pad_chain_pages p) = min 4294967295 (nat_div_ceil (unat p) 256 * 256)"
proof -
  assume p: "256 \<le> unat p"
  then have "p \<noteq> 0" and "\<not> p < 256" by (auto simp: word_less_nat_alt)
  then have "pad_chain_pages p = saturating_mul (div_ceil p 256) 256"
    by (simp add: pad_chain_pages_def PAD_PAGES_def)
  moreover have "unat (div_ceil p 256) = nat_div_ceil (unat p) 256"
    using unat_div_ceil [of "256 :: u32" p] by simp
  ultimately show ?thesis by (simp add: unat_saturating_mul)
qed

lemma pad_chain_pages_ge: "unat p \<le> unat (pad_chain_pages p)"
proof (cases "unat p < 256")
  case False
  have "unat p \<le> nat_div_ceil (unat p) 256 * 256" by (rule nat_div_ceil_mult_ge) simp
  with False unat_u32_bound [of p] show ?thesis by (simp add: unat_pad_chain_pages_big)
qed (simp add: pad_chain_pages_small)

lemma pad_chain_pages_le: "unat (pad_chain_pages p) \<le> unat p + 255"
proof (cases "unat p < 256")
  case False
  have "nat_div_ceil (unat p) 256 * 256 \<le> unat p + 255"
    using nat_div_ceil_mult_less [of 256 "unat p"] by simp
  with False show ?thesis by (simp add: unat_pad_chain_pages_big)
qed (simp add: pad_chain_pages_small)

text \<open>A chain that did not saturate has room for all its rows.\<close>

lemma padded_pages_room:
  assumes "unat (padded_pages_needed n rpp) < 4294967295" and "rpp \<noteq> 0"
  shows "nat_div_ceil (unat n) (unat rpp) \<le> unat (padded_pages_needed n rpp)"
proof (cases "n = 0")
  case True
  then show ?thesis by (simp add: nat_div_ceil_def)
next
  case False
  have le: "unat (pages_needed n rpp) \<le> unat (padded_pages_needed n rpp)"
    by (simp add: padded_pages_needed_def pad_chain_pages_ge)
  with assms unat_pages_needed [OF False assms(2)]
  show ?thesis by simp
qed

lemma byte_pages_room:
  assumes "unat (byte_pages_needed b) < 4294967295"
  shows "nat_div_ceil (unat b) PAYLOAD_BYTES = unat (byte_pages_needed b)"
proof (cases "b = 0")
  case False
  with assms show ?thesis
    by (simp add: byte_pages_needed_def unat_u32_try_or_max unat_div_ceil PAYLOAD_BYTES_eq)
qed (simp add: byte_pages_needed_def nat_div_ceil_def)

lemma byte_pages_needed_0 [simp]: "byte_pages_needed 0 = 0"
  by (simp add: byte_pages_needed_def)

lemma byte_pages_needed_pos: "b \<noteq> 0 \<Longrightarrow> 0 < unat (byte_pages_needed b)"
proof -
  assume b: "b \<noteq> 0"
  then have "0 < unat b" by (simp add: unat_gt_0)
  moreover have "unat b \<le> nat_div_ceil (unat b) 8168 * 8168" by (rule nat_div_ceil_mult_ge) simp
  ultimately have "0 < nat_div_ceil (unat b) 8168" by (cases "nat_div_ceil (unat b) 8168") auto
  with b show ?thesis
    by (simp add: byte_pages_needed_def unat_u32_try_or_max unat_div_ceil PAYLOAD_BYTES_eq)
qed

section \<open>The planners pack\<close>

lemma plan_fields:
  assumes "plan_with_blocked bw dim n v bb nbb rb = Some m"
  shows "dim mod 8 = 0" "m_version m = VERSION" "m_bit_width m = bw" "m_kind m = KIND_SINGLE"
    "m_dim m = dim" "m_n_vectors m = n" "m_am_version m = v"
    "m_stride_bytes m = codes_stride bw dim"
    "m_rows_per_codes_page m = rows_per_page (codes_stride bw dim)"
    "m_rows_per_scales_page m = rows_per_page 4" "m_rows_per_ids_page m = rows_per_page 8"
    "m_codes_count m = padded_pages_needed n (rows_per_page (codes_stride bw dim))"
    "m_scales_count m = padded_pages_needed n (rows_per_page 4)"
    "m_ids_count m = padded_pages_needed n (rows_per_page 8)"
    "m_blocked_count m = byte_pages_needed bb" "m_rotation_count m = byte_pages_needed rb"
  using assms by (simp_all add: plan_with_blocked_def Let_def split: if_splits) auto

lemma plan_firsts:
  assumes "plan_with_blocked bw dim n v bb nbb rb = Some m"
  shows "m_codes_first m = 1" "m_scales_first m = 1 + m_codes_count m"
    "m_ids_first m = 1 + m_codes_count m + m_scales_count m"
    "m_blocked_first m =
       (if 0 < bb then 1 + m_codes_count m + m_scales_count m + m_ids_count m else 0)"
    "m_rotation_first m =
       (if 0 < rb then 1 + m_codes_count m + m_scales_count m + m_ids_count m + m_blocked_count m
        else 0)"
    "m_rotation_dim m = (if 0 < rb then dim else 0)"
  using assms by (simp_all add: plan_with_blocked_def Let_def split: if_splits) auto

lemma plan_absent:
  assumes "plan_with_blocked bw dim n v bb nbb rb = Some m"
  shows "m_lists m = 0" "m_coarse_first m = 0" "m_coarse_count m = 0" "m_cell_dir_first m = 0"
    "m_cell_dir_count m = 0" "\<not> m_ivf_degraded m" "m_tombstone_first m = 0"
    "m_tombstone_count m = 0" "m_tombstone_bytes m = 0" "m_graph_first m = 0"
    "m_graph_count m = 0" "m_graph_offsets_bytes m = 0" "m_graph_neighbors_bytes m = 0"
    "m_bq_mean_first m = 0" "m_bq_mean_count m = 0" "m_bq_mean_bytes m = 0"
    "m_codebook_n_levels m = 0" "m_centroids m = replicate 16 0" "m_boundaries m = replicate 15 0"
  using assms
  by (simp_all add: plan_with_blocked_def Let_def MAX_CODEBOOK_LEVELS_def split: if_splits) auto

lemma plan_bq_fields:
  assumes "plan_bq dim n v = Some m"
  shows "dim mod 8 = 0" "m_version m = VERSION" "m_kind m = KIND_BQ" "m_dim m = dim"
    "m_n_vectors m = n" "m_am_version m = v"
    "m_stride_bytes m = of_nat (onebit_codes_stride (unat dim))"
    "m_rows_per_codes_page m = rows_per_page (of_nat (onebit_codes_stride (unat dim)))"
    "m_rows_per_ids_page m = rows_per_page 8"
    "m_codes_first m = 1" "m_ids_first m = 1 + m_codes_count m"
    "m_bq_mean_first m =
       (if 0 < m_bq_mean_bytes m then 1 + m_codes_count m + m_ids_count m else 0)"
    "m_bq_mean_count m = byte_pages_needed (m_bq_mean_bytes m)"
    "m_bq_mean_bytes m = ucast dim * 4"
    "m_codes_count m = padded_pages_needed n (m_rows_per_codes_page m)"
    "m_ids_count m = padded_pages_needed n (m_rows_per_ids_page m)"
  using assms by (simp_all add: plan_bq_def Let_def split: if_splits) auto

lemma plan_bq_absent:
  assumes "plan_bq dim n v = Some m"
  shows "m_scales_count m = 0" "m_blocked_count m = 0" "m_rotation_count m = 0"
    "m_lists m = 0" "m_coarse_first m = 0" "m_coarse_count m = 0" "m_cell_dir_first m = 0"
    "m_cell_dir_count m = 0" "\<not> m_ivf_degraded m" "m_tombstone_first m = 0"
    "m_tombstone_count m = 0" "m_tombstone_bytes m = 0" "m_graph_first m = 0"
    "m_graph_count m = 0"
    "m_codebook_n_levels m = 0" "m_centroids m = replicate 16 0" "m_boundaries m = replicate 15 0"
  using assms
  by (simp_all add: plan_bq_def Let_def MAX_CODEBOOK_LEVELS_def split: if_splits) auto

lemma plan_packed:
  assumes p: "plan_with_blocked bw dim n v bb nbb rb = Some m" and f: "fits m"
  shows "packed m"
proof -
  from f have "block_sum m < 4294967295" by (simp add: fits_def)
  then show ?thesis
    by (simp add: packed_def chain_list_def block_sum_eq plan_firsts [OF p] plan_absent [OF p]
        unat_add_u32) (auto simp: plan_fields(15,16) [OF p] word_gt_0)
qed

lemma plan_bq_packed:
  assumes p: "plan_bq dim n v = Some m" and f: "fits m"
  shows "packed m"
proof -
  from f have "block_sum m < 4294967295" by (simp add: fits_def)
  then show ?thesis
    by (simp add: packed_def chain_list_def block_sum_eq plan_bq_fields(10,11,12) [OF p]
        plan_bq_absent [OF p] unat_add_u32) (auto simp: plan_bq_fields(13) [OF p] word_gt_0)
qed

lemma set_ivf_fields:
  "m_coarse_first (set_ivf_chains l cb db m) =
     (if l \<noteq> 0 \<and> 0 < cb then 1 + m_codes_count m + m_scales_count m + m_ids_count m
        + m_blocked_count m + m_rotation_count m + m_bq_mean_count m else 0)"
  "m_cell_dir_first (set_ivf_chains l cb db m) =
     (if l \<noteq> 0 \<and> 0 < db then 1 + m_codes_count m + m_scales_count m + m_ids_count m
        + m_blocked_count m + m_rotation_count m + m_bq_mean_count m + byte_pages_needed cb else 0)"
  "m_coarse_count (set_ivf_chains l cb db m) = (if l = 0 then 0 else byte_pages_needed cb)"
  "m_cell_dir_count (set_ivf_chains l cb db m) = (if l = 0 then 0 else byte_pages_needed db)"
  "m_lists (set_ivf_chains l cb db m) = l"
  by (auto simp: set_ivf_chains_def Let_def)

lemma set_ivf_frame [simp]:
  "m_version (set_ivf_chains l cb db m) = m_version m"
  "m_kind (set_ivf_chains l cb db m) = m_kind m" "m_dim (set_ivf_chains l cb db m) = m_dim m"
  "m_n_vectors (set_ivf_chains l cb db m) = m_n_vectors m"
  "m_am_version (set_ivf_chains l cb db m) = m_am_version m"
  "m_stride_bytes (set_ivf_chains l cb db m) = m_stride_bytes m"
  "m_rows_per_codes_page (set_ivf_chains l cb db m) = m_rows_per_codes_page m"
  "m_rows_per_scales_page (set_ivf_chains l cb db m) = m_rows_per_scales_page m"
  "m_rows_per_ids_page (set_ivf_chains l cb db m) = m_rows_per_ids_page m"
  "m_codes_first (set_ivf_chains l cb db m) = m_codes_first m"
  "m_codes_count (set_ivf_chains l cb db m) = m_codes_count m"
  "m_scales_first (set_ivf_chains l cb db m) = m_scales_first m"
  "m_scales_count (set_ivf_chains l cb db m) = m_scales_count m"
  "m_ids_first (set_ivf_chains l cb db m) = m_ids_first m"
  "m_ids_count (set_ivf_chains l cb db m) = m_ids_count m"
  "m_blocked_first (set_ivf_chains l cb db m) = m_blocked_first m"
  "m_blocked_count (set_ivf_chains l cb db m) = m_blocked_count m"
  "m_rotation_first (set_ivf_chains l cb db m) = m_rotation_first m"
  "m_rotation_count (set_ivf_chains l cb db m) = m_rotation_count m"
  "m_rotation_dim (set_ivf_chains l cb db m) = m_rotation_dim m"
  "m_bq_mean_first (set_ivf_chains l cb db m) = m_bq_mean_first m"
  "m_bq_mean_count (set_ivf_chains l cb db m) = m_bq_mean_count m"
  "m_bq_mean_bytes (set_ivf_chains l cb db m) = m_bq_mean_bytes m"
  "m_graph_first (set_ivf_chains l cb db m) = m_graph_first m"
  "m_graph_count (set_ivf_chains l cb db m) = m_graph_count m"
  "m_tombstone_first (set_ivf_chains l cb db m) = m_tombstone_first m"
  "m_tombstone_count (set_ivf_chains l cb db m) = m_tombstone_count m"
  "m_tombstone_bytes (set_ivf_chains l cb db m) = m_tombstone_bytes m"
  "m_ivf_degraded (set_ivf_chains l cb db m) = m_ivf_degraded m"
  "m_codebook_n_levels (set_ivf_chains l cb db m) = m_codebook_n_levels m"
  "m_centroids (set_ivf_chains l cb db m) = m_centroids m"
  "m_boundaries (set_ivf_chains l cb db m) = m_boundaries m"
  by (simp_all add: set_ivf_chains_def Let_def)

lemma set_graph_fields:
  "m_graph_first (set_graph_chain ob nb ep m) =
     (if ob = 0 \<and> nb = 0 then 0 else 1 + m_codes_count m + m_scales_count m + m_ids_count m
        + m_blocked_count m + m_rotation_count m + m_coarse_count m + m_cell_dir_count m
        + m_tombstone_count m + m_bq_mean_count m)"
  "m_graph_count (set_graph_chain ob nb ep m) = byte_pages_needed (if ob = 0 \<and> nb = 0 then 0 else ob + nb)"
  "m_graph_offsets_bytes (set_graph_chain ob nb ep m) = ob"
  "m_graph_neighbors_bytes (set_graph_chain ob nb ep m) = nb"
  "m_kind (set_graph_chain ob nb ep m) = (if ob = 0 \<and> nb = 0 then m_kind m else KIND_GRAPH)"
  by (auto simp: set_graph_chain_def Let_def)

lemma set_graph_frame [simp]:
  "m_version (set_graph_chain ob nb ep m) = m_version m" "m_dim (set_graph_chain ob nb ep m) = m_dim m"
  "m_n_vectors (set_graph_chain ob nb ep m) = m_n_vectors m"
  "m_am_version (set_graph_chain ob nb ep m) = m_am_version m"
  "m_stride_bytes (set_graph_chain ob nb ep m) = m_stride_bytes m"
  "m_rows_per_codes_page (set_graph_chain ob nb ep m) = m_rows_per_codes_page m"
  "m_rows_per_scales_page (set_graph_chain ob nb ep m) = m_rows_per_scales_page m"
  "m_rows_per_ids_page (set_graph_chain ob nb ep m) = m_rows_per_ids_page m"
  "m_codes_first (set_graph_chain ob nb ep m) = m_codes_first m"
  "m_codes_count (set_graph_chain ob nb ep m) = m_codes_count m"
  "m_scales_first (set_graph_chain ob nb ep m) = m_scales_first m"
  "m_scales_count (set_graph_chain ob nb ep m) = m_scales_count m"
  "m_ids_first (set_graph_chain ob nb ep m) = m_ids_first m"
  "m_ids_count (set_graph_chain ob nb ep m) = m_ids_count m"
  "m_blocked_first (set_graph_chain ob nb ep m) = m_blocked_first m"
  "m_blocked_count (set_graph_chain ob nb ep m) = m_blocked_count m"
  "m_rotation_first (set_graph_chain ob nb ep m) = m_rotation_first m"
  "m_rotation_count (set_graph_chain ob nb ep m) = m_rotation_count m"
  "m_rotation_dim (set_graph_chain ob nb ep m) = m_rotation_dim m"
  "m_bq_mean_first (set_graph_chain ob nb ep m) = m_bq_mean_first m"
  "m_bq_mean_count (set_graph_chain ob nb ep m) = m_bq_mean_count m"
  "m_bq_mean_bytes (set_graph_chain ob nb ep m) = m_bq_mean_bytes m"
  "m_lists (set_graph_chain ob nb ep m) = m_lists m"
  "m_coarse_first (set_graph_chain ob nb ep m) = m_coarse_first m"
  "m_coarse_count (set_graph_chain ob nb ep m) = m_coarse_count m"
  "m_cell_dir_first (set_graph_chain ob nb ep m) = m_cell_dir_first m"
  "m_cell_dir_count (set_graph_chain ob nb ep m) = m_cell_dir_count m"
  "m_tombstone_first (set_graph_chain ob nb ep m) = m_tombstone_first m"
  "m_tombstone_count (set_graph_chain ob nb ep m) = m_tombstone_count m"
  "m_tombstone_bytes (set_graph_chain ob nb ep m) = m_tombstone_bytes m"
  "m_ivf_degraded (set_graph_chain ob nb ep m) = m_ivf_degraded m"
  "m_codebook_n_levels (set_graph_chain ob nb ep m) = m_codebook_n_levels m"
  "m_centroids (set_graph_chain ob nb ep m) = m_centroids m"
  "m_boundaries (set_graph_chain ob nb ep m) = m_boundaries m"
  by (simp_all add: set_graph_chain_def Let_def)

lemma set_ivf_packed:
  assumes "packed m" "m_graph_count m = 0" "m_tombstone_count m = 0"
    and f: "fits (set_ivf_chains l cb db m)"
  shows "packed (set_ivf_chains l cb db m)"
proof -
  from f have "block_sum (set_ivf_chains l cb db m) < 4294967295" by (simp add: fits_def)
  with assms(1-3) show ?thesis
    by (cases "l = 0"; cases "cb = 0"; cases "db = 0")
      (simp_all add: packed_def chain_list_def block_sum_eq set_ivf_fields unat_add_u32 word_gt_0)
qed

lemma set_graph_packed:
  assumes "packed m" "m_tombstone_count m = 0"
    and f: "fits (set_graph_chain ob nb ep m)"
  shows "packed (set_graph_chain ob nb ep m)"
proof -
  from f have "block_sum (set_graph_chain ob nb ep m) < 4294967295" by (simp add: fits_def)
  with assms(1,2) show ?thesis
    by (cases "ob = 0 \<and> nb = 0")
      (simp_all add: packed_def chain_list_def block_sum_eq set_graph_fields unat_add_u32)
qed

end
