(* ===== verification/Store.thy ===== *)
theory Store
  imports Layout
begin

text \<open>
  The page store under a relation file, and the computations that run on it.  PostgreSQL's buffer
  manager and WAL are not part of the repository: a relation fork is a value of any type \<open>'r\<close> with
  the five operations the source calls (\<open>RelationGetNumberOfBlocksInFork\<close>, reading a block,
  installing a block image through \<open>GenericXLog\<close>, \<open>P_NEW\<close> extension, \<open>RelationTruncate\<close>), collected in
  a record that every definition takes as an argument; the locale \<open>page_store\<close> states the laws the
  code relies on.  A backend's \<open>world\<close> is the relation, the number of interrupt polls it still
  passes before a pending cancel is delivered (\<open>None\<close>: none is pending), the heavyweight rewrite
  locks it holds, and the count of pages registered for WAL.  A computation (\<open>io\<close>) returns a value
  or raises; what it wrote before raising stays written, as \<open>GenericXLog\<close> changes do.
\<close>

section \<open>The page store\<close>

text \<open>A page is its data region and whether its header says \<open>pd_lower = pd_upper\<close>.\<close>

record page =
  pg_no_hole :: bool
  pg_data :: "u8 list"

record 'r pstore =
  ps_nblocks :: "'r \<Rightarrow> nat"
  ps_read :: "'r \<Rightarrow> nat \<Rightarrow> page"
  ps_write :: "nat \<Rightarrow> page \<Rightarrow> 'r \<Rightarrow> 'r"
  ps_extend :: "'r \<Rightarrow> 'r"
  ps_truncate :: "nat \<Rightarrow> 'r \<Rightarrow> 'r"

locale page_store =
  fixes S :: "'r pstore"
  assumes nblocks_write: "b < ps_nblocks S r \<Longrightarrow> ps_nblocks S (ps_write S b p r) = ps_nblocks S r"
    and read_write: "b < ps_nblocks S r \<Longrightarrow> c < ps_nblocks S r \<Longrightarrow>
      ps_read S (ps_write S b p r) c = (if c = b then p else ps_read S r c)"
    and nblocks_extend: "ps_nblocks S (ps_extend S r) = Suc (ps_nblocks S r)"
    and read_extend: "c < ps_nblocks S r \<Longrightarrow> ps_read S (ps_extend S r) c = ps_read S r c"
    and nblocks_truncate: "k \<le> ps_nblocks S r \<Longrightarrow> ps_nblocks S (ps_truncate S k r) = k"
    and read_truncate: "k \<le> ps_nblocks S r \<Longrightarrow> c < k \<Longrightarrow>
      ps_read S (ps_truncate S k r) c = ps_read S r c"

text \<open>The reference store: a relation is the list of its pages.\<close>

definition list_store :: "page list pstore" where
  "list_store = \<lparr>ps_nblocks = length, ps_read = (!), ps_write = (\<lambda>b p r. r[b := p]),
     ps_extend = (\<lambda>r. r @ [\<lparr>pg_no_hole = False, pg_data = replicate PAYLOAD_BYTES 0\<rparr>]),
     ps_truncate = take\<rparr>"

interpretation ls: page_store list_store
  by unfold_locales (auto simp: list_store_def nth_append)

section \<open>Computations\<close>

datatype exn =
    Cancelled | CorruptMeta decode_error | RowsPerPageZero | ChainPastEnd | BlockPastEnd nat
  | OutOfBounds | Hang | AssertFailed
  | PersistIdZero nat | PersistDuplicate u64 nat | DuplicateOnDisk u64 | DuplicateAfterVacuum u64
  | CorruptGraph | Reported string

record 'r world =
  w_rel :: 'r
  w_polls :: "nat option"
  w_xlock :: nat
  w_slock :: nat
  w_wal :: nat

type_synonym ('r, 'a) io = "'r world \<Rightarrow> (exn + 'a) \<times> 'r world"

definition ret :: "'a \<Rightarrow> ('r, 'a) io" where "ret a w = (Inr a, w)"

definition raise :: "exn \<Rightarrow> ('r, 'a) io" where "raise e w = (Inl e, w)"

definition bind_io :: "('r, 'a) io \<Rightarrow> ('a \<Rightarrow> ('r, 'b) io) \<Rightarrow> ('r, 'b) io" where
  "bind_io c f w = (case c w of (Inl e, w') \<Rightarrow> (Inl e, w') | (Inr a, w') \<Rightarrow> f a w')"

definition seq_io :: "('r, unit) io \<Rightarrow> ('r, 'b) io \<Rightarrow> ('r, 'b) io" where
  "seq_io c d = bind_io c (\<lambda>_. d)"

definition when_io :: "bool \<Rightarrow> ('r, unit) io \<Rightarrow> ('r, unit) io" where
  "when_io b c = (if b then c else ret ())"

definition option_io :: "exn \<Rightarrow> 'a option \<Rightarrow> ('r, 'a) io" where
  "option_io e x = (case x of None \<Rightarrow> raise e | Some a \<Rightarrow> ret a)"

definition assert_io :: "bool \<Rightarrow> ('r, unit) io" where
  "assert_io b = (if b then ret () else raise AssertFailed)"

text \<open>\<open>check_for_interrupts!\<close>: delivers a pending cancel by a longjmp out of the caller.\<close>

definition check_for_interrupts :: "('r, unit) io" where
  "check_for_interrupts w =
     (case w_polls w of
        None \<Rightarrow> (Inr (), w)
      | Some 0 \<Rightarrow> (Inl Cancelled, w)
      | Some (Suc k) \<Rightarrow> (Inr (), w\<lparr>w_polls := Some k\<rparr>))"

definition lock_relfile_read :: "('r, unit) io" where
  "lock_relfile_read w = (Inr (), w\<lparr>w_slock := w_slock w + 1\<rparr>)"

definition unlock_relfile_read :: "('r, unit) io" where
  "unlock_relfile_read w = (Inr (), w\<lparr>w_slock := w_slock w - 1\<rparr>)"

definition lock_relfile_write :: "('r, unit) io" where
  "lock_relfile_write w = (Inr (), w\<lparr>w_xlock := w_xlock w + 1\<rparr>)"

definition unlock_relfile_write :: "('r, unit) io" where
  "unlock_relfile_write w = (Inr (), w\<lparr>w_xlock := w_xlock w - 1\<rparr>)"

named_theorems io_simps \<open>running computations\<close>

lemma bind_io_Inr [io_simps]: "c w = (Inr a, w') \<Longrightarrow> bind_io c f w = f a w'"
  by (simp add: bind_io_def)

lemma bind_io_Inl [io_simps]: "c w = (Inl e, w') \<Longrightarrow> bind_io c f w = (Inl e, w')"
  by (simp add: bind_io_def)

lemma bind_io_ret [simp]: "bind_io (ret a) f w = f a w"
  by (simp add: bind_io_def ret_def)

lemma bind_io_raise [simp]: "bind_io (raise e) f w = (Inl e, w)"
  by (simp add: bind_io_def raise_def)

lemma seq_io_Inr [io_simps]: "c w = (Inr a, w') \<Longrightarrow> seq_io c d w = d w'"
  by (simp add: seq_io_def bind_io_def)

lemma seq_io_ret [simp]: "seq_io (ret a) d w = d w"
  by (simp add: seq_io_def)

lemma when_io_simps [simp]: "when_io True c = c" "when_io False c = ret ()"
  by (simp_all add: when_io_def)

lemma assert_io_True [simp]: "assert_io True = ret ()"
  by (simp add: assert_io_def)

lemma option_io_simps [simp]: "option_io e (Some a) = ret a" "option_io e None = raise e"
  by (simp_all add: option_io_def)

lemma bind_io_cases:
  assumes "bind_io c f w = (x, w2)"
  obtains (err) e where "c w = (Inl e, w2)" and "x = Inl e"
  | (ok) a w1 where "c w = (Inr a, w1)" and "f a w1 = (x, w2)"
  using assms by (auto simp: bind_io_def split: prod.splits sum.splits)

lemma seq_io_cases:
  assumes "seq_io c d w = (x, w2)"
  obtains (err) e where "c w = (Inl e, w2)" and "x = Inl e"
  | (ok) w1 where "c w = (Inr (), w1)" and "d w1 = (x, w2)"
  using assms unfolding seq_io_def by (rule bind_io_cases) auto

section \<open>Relations between relation states\<close>

text \<open>\<open>r'\<close> has every block of \<open>r\<close>, unchanged outside the block numbers in \<open>X\<close>.\<close>

definition same_outside :: "'r pstore \<Rightarrow> nat set \<Rightarrow> 'r \<Rightarrow> 'r \<Rightarrow> bool" where
  "same_outside S X r r' \<longleftrightarrow> ps_nblocks S r \<le> ps_nblocks S r' \<and>
     (\<forall>b < ps_nblocks S r. b \<notin> X \<longrightarrow> ps_read S r' b = ps_read S r b)"

lemma same_outside_refl [simp]: "same_outside S X r r"
  by (simp add: same_outside_def)

lemma same_outside_trans:
  "same_outside S X r1 r2 \<Longrightarrow> same_outside S Y r2 r3 \<Longrightarrow> same_outside S (X \<union> Y) r1 r3"
  by (auto simp: same_outside_def)

lemma same_outside_mono: "same_outside S X r r' \<Longrightarrow> X \<subseteq> Y \<Longrightarrow> same_outside S Y r r'"
  by (auto simp: same_outside_def)

text \<open>The page holds \<open>src\<close> at the start of its data region.\<close>

definition page_holds :: "page \<Rightarrow> u8 list \<Rightarrow> bool" where
  "page_holds p src \<longleftrightarrow> take (length src) (pg_data p) = src"

text \<open>Blocks \<open>first\<close>, \<open>first + 1\<close>, \dots hold \<open>bytes\<close>, \<open>bpp\<close> bytes to a page.\<close>

definition stores :: "'r pstore \<Rightarrow> 'r \<Rightarrow> nat \<Rightarrow> nat \<Rightarrow> u8 list \<Rightarrow> bool" where
  "stores S r first bpp bytes \<longleftrightarrow>
     (\<forall>k. k * bpp < length bytes \<longrightarrow> first + k < ps_nblocks S r \<and>
        page_holds (ps_read S r (first + k)) (take bpp (drop (k * bpp) bytes)))"

text \<open>The number of pages \<open>len\<close> bytes take.\<close>

definition span_of :: "nat \<Rightarrow> nat \<Rightarrow> nat \<Rightarrow> nat set" where
  "span_of first bpp len = {b. first \<le> b \<and> (b - first) * bpp < len}"

lemma span_of_empty [simp]: "span_of first bpp 0 = {}"
  by (simp add: span_of_def)

lemma span_of_bound: "0 < bpp \<Longrightarrow> b \<in> span_of first bpp len \<longleftrightarrow> first \<le> b \<and> b < first + nat_div_ceil len bpp"
proof -
  assume bpp: "0 < bpp"
  have "(k * bpp < len) = (k < nat_div_ceil len bpp)" for k
    using nat_div_ceil_le_iff [OF bpp, of len k] by linarith
  then have "b \<in> span_of first bpp len \<longleftrightarrow> first \<le> b \<and> b - first < nat_div_ceil len bpp"
    by (simp add: span_of_def)
  then show ?thesis by linarith
qed

lemma stores_frame:
  assumes "stores S r first bpp bytes" and "same_outside S X r r'"
    and "X \<inter> span_of first bpp (length bytes) = {}"
  shows "stores S r' first bpp bytes"
proof -
  have "first + k < ps_nblocks S r' \<and>
      page_holds (ps_read S r' (first + k)) (take bpp (drop (k * bpp) bytes))"
    if k: "k * bpp < length bytes" for k
  proof -
    from k have "first + k \<in> span_of first bpp (length bytes)" by (simp add: span_of_def)
    with assms(3) have "first + k \<notin> X" by blast
    with k assms(1,2) show ?thesis unfolding stores_def same_outside_def
      by (metis order.strict_trans2)
  qed
  then show ?thesis by (simp add: stores_def)
qed

lemma stores_Nil [simp]: "stores S r first bpp []"
  by (simp add: stores_def)

lemma stores_Cons_page:
  assumes "0 < bpp" and "bytes \<noteq> []"
  shows "stores S r first bpp bytes \<longleftrightarrow>
    first < ps_nblocks S r \<and> page_holds (ps_read S r first) (take bpp bytes) \<and>
    stores S r (Suc first) bpp (drop bpp bytes)"
proof
  assume s: "stores S r first bpp bytes"
  have "first < ps_nblocks S r \<and> page_holds (ps_read S r first) (take bpp bytes)"
    using s [unfolded stores_def, rule_format, of 0] assms by simp
  moreover have "stores S r (Suc first) bpp (drop bpp bytes)"
    unfolding stores_def
  proof (intro allI impI)
    fix k assume "k * bpp < length (drop bpp bytes)"
    then have "Suc k * bpp < length bytes" by simp
    with s [unfolded stores_def, rule_format, of "Suc k"]
    show "Suc first + k < ps_nblocks S r \<and>
      page_holds (ps_read S r (Suc first + k)) (take bpp (drop (k * bpp) (drop bpp bytes)))"
      by (simp add: add.commute)
  qed
  ultimately show "first < ps_nblocks S r \<and> page_holds (ps_read S r first) (take bpp bytes) \<and>
    stores S r (Suc first) bpp (drop bpp bytes)" by simp
next
  assume a: "first < ps_nblocks S r \<and> page_holds (ps_read S r first) (take bpp bytes) \<and>
    stores S r (Suc first) bpp (drop bpp bytes)"
  show "stores S r first bpp bytes"
    unfolding stores_def
  proof (intro allI impI)
    fix k assume k: "k * bpp < length bytes"
    show "first + k < ps_nblocks S r \<and>
      page_holds (ps_read S r (first + k)) (take bpp (drop (k * bpp) bytes))"
    proof (cases k)
      case 0
      with a show ?thesis by simp
    next
      case (Suc j)
      with k have "j * bpp < length (drop bpp bytes)" by simp
      with a have "Suc first + j < ps_nblocks S r \<and> page_holds (ps_read S r (Suc first + j))
          (take bpp (drop (j * bpp) (drop bpp bytes)))"
        unfolding stores_def by blast
      with Suc show ?thesis by (simp add: add.commute [of _ bpp])
    qed
  qed
qed

end
