(* ===== verification/Relfile.thy ===== *)
theory Relfile
  imports Store
begin

text \<open>
  Page-level reads and writes of a relation file (\<open>src/index/relfile.rs\<close>): the meta page, chains of
  fixed-stride rows, extension and truncation, in-place slot copies and range gathers.  Every
  function is a computation over the page store; errors the source raises with \<open>ereport\<close> are
  exceptions.  Where a corrupt meta page would make the source read past the end of a page's data
  region the model raises \<open>OutOfBounds\<close>, and where it would loop for ever, \<open>Hang\<close>.
\<close>

section \<open>Blocks and the meta page\<close>

definition GENERIC_XLOG_BATCH :: nat where "GENERIC_XLOG_BATCH = 4"

definition nblocks :: "'r pstore \<Rightarrow> ('r, nat) io" where
  "nblocks S w = (Inr (ps_nblocks S (w_rel w)), w)"

definition read_block :: "'r pstore \<Rightarrow> nat \<Rightarrow> ('r, page) io" where
  "read_block S blkno w =
     (if blkno < ps_nblocks S (w_rel w) then (Inr (ps_read S (w_rel w) blkno), w)
      else (Inl (BlockPastEnd blkno), w))"

text \<open>Extend by one block and return its number.\<close>

definition extend_block :: "'r pstore \<Rightarrow> ('r, nat) io" where
  "extend_block S w =
     (Inr (ps_nblocks S (w_rel w)), w\<lparr>w_rel := ps_extend S (w_rel w)\<rparr>)"

text \<open>Register block \<open>b\<close> with a full image, re-initialised without a hole, holding \<open>src\<close>.\<close>

definition page_image :: "u8 list \<Rightarrow> page" where
  "page_image src =
     \<lparr>pg_no_hole = True, pg_data = blit 0 src (replicate PAYLOAD_BYTES 0)\<rparr>"

definition install_page :: "'r pstore \<Rightarrow> nat \<Rightarrow> page \<Rightarrow> ('r, unit) io" where
  "install_page S b p w = (Inr (), w\<lparr>w_rel := ps_write S b p (w_rel w), w_wal := w_wal w + 1\<rparr>)"

definition read_meta :: "'r pstore \<Rightarrow> ('r, meta option) io" where
  "read_meta S =
     bind_io (nblocks S) (\<lambda>nb.
       if nb = 0 then ret None
       else bind_io (read_block S 0) (\<lambda>p.
         case decode (pg_data p) of
           Inr m \<Rightarrow> ret (Some m)
         | Inl e \<Rightarrow> raise (CorruptMeta e)))"

definition write_meta :: "'r pstore \<Rightarrow> meta \<Rightarrow> ('r, unit) io" where
  "write_meta S m =
     bind_io (nblocks S) (\<lambda>nb.
       bind_io (if nb = 0 then extend_block S else ret 0) (\<lambda>b.
         install_page S b (page_image (encode m))))"

section \<open>Writing a chain\<close>

text \<open>
  One batch: take up to \<open>room\<close> pages that need writing off the front of \<open>rest\<close>, skipping full
  pages whose contents are already on disk; returns the registered images, which reach the file
  together when the batch's WAL record is finished.
\<close>

definition unchanged_page :: "'r pstore \<Rightarrow> bool \<Rightarrow> nat \<Rightarrow> nat \<Rightarrow> u8 list \<Rightarrow> nat \<Rightarrow> 'r \<Rightarrow> bool" where
  "unchanged_page S skip bpp existing src blkno r \<longleftrightarrow>
     skip \<and> blkno < existing \<and> length src = bpp \<and> pg_no_hole (ps_read S r blkno) \<and>
     take bpp (pg_data (ps_read S r blkno)) = src"

function fill_batch :: "'r pstore \<Rightarrow> bool \<Rightarrow> nat \<Rightarrow> nat \<Rightarrow> nat \<Rightarrow> u8 list \<Rightarrow> nat \<Rightarrow> 'r \<Rightarrow>
    (nat \<times> page) list \<Rightarrow> 'r \<times> (nat \<times> page) list \<times> u8 list \<times> nat" where
  "fill_batch S skip bpp existing room rest blkno r pend =
     (if room = 0 \<or> rest = [] \<or> bpp = 0 then (r, pend, rest, blkno)
      else if unchanged_page S skip bpp existing (take bpp rest) blkno r
      then fill_batch S skip bpp existing room (drop bpp rest) (Suc blkno) r pend
      else if blkno < existing
      then fill_batch S skip bpp existing (room - 1) (drop bpp rest) (Suc blkno) r
             (pend @ [(blkno, page_image (take bpp rest))])
      else fill_batch S skip bpp existing (room - 1) (drop bpp rest) (Suc blkno) (ps_extend S r)
             (pend @ [(ps_nblocks S r, page_image (take bpp rest))]))"
  by pat_completeness auto
termination
  by (relation "measure (\<lambda>(S, skip, bpp, existing, room, rest, blkno, r, pend). length rest)") auto

declare fill_batch.simps [simp del]

definition finish_batch :: "'r pstore \<Rightarrow> (nat \<times> page) list \<Rightarrow> 'r \<Rightarrow> 'r" where
  "finish_batch S pending r = foldl (\<lambda>r (b, p). ps_write S b p r) r pending"

lemma fill_batch_shrinks:
  "length (fst (snd (snd (fill_batch S skip bpp existing room rest blkno r pend)))) \<le> length rest"
proof (induction S skip bpp existing room rest blkno r pend rule: fill_batch.induct)
  case (1 S skip bpp existing room rest blkno r pend)
  then show ?case
    by (subst fill_batch.simps) (auto intro: order_trans [of _ "length rest - bpp"])
qed

lemma fill_batch_progress:
  assumes "rest \<noteq> []" and "bpp \<noteq> 0" and "room \<noteq> 0"
    and "fill_batch S skip bpp existing room rest blkno r pend = (r', pend', rest', blkno')"
  shows "length rest' < length rest"
proof -
  have "length (drop bpp rest) < length rest" using assms by simp
  moreover have "length rest' \<le> length (drop bpp rest)"
    using assms(4) fill_batch_shrinks [of S skip bpp existing room "drop bpp rest" "Suc blkno" r pend]
      fill_batch_shrinks [of S skip bpp existing "room - 1" "drop bpp rest" "Suc blkno" r
        "pend @ [(blkno, page_image (take bpp rest))]"]
      fill_batch_shrinks [of S skip bpp existing "room - 1" "drop bpp rest" "Suc blkno" "ps_extend S r"
        "pend @ [(ps_nblocks S r, page_image (take bpp rest))]"]
    by (simp add: fill_batch.simps [of S skip bpp existing room rest blkno r pend] assms(1-3)
        split: if_splits)
  ultimately show ?thesis by simp
qed

lemma fill_batch_decreases:
  "\<not> (rest = [] \<or> bpp = 0) \<Longrightarrow>
   (r', u) = fill_batch S skip bpp existing GENERIC_XLOG_BATCH rest blkno r [] \<Longrightarrow>
   (pend', v) = u \<Longrightarrow> (rest', blkno') = v \<Longrightarrow> length rest' < length rest"
  using fill_batch_progress [of rest bpp GENERIC_XLOG_BATCH S skip existing blkno r "[]" r' pend' rest' blkno']
  by (simp add: GENERIC_XLOG_BATCH_def)

function write_batches :: "'r pstore \<Rightarrow> bool \<Rightarrow> nat \<Rightarrow> nat \<Rightarrow> u8 list \<Rightarrow> nat \<Rightarrow> ('r, unit) io" where
  "write_batches S skip bpp existing rest blkno w =
     (if rest = [] \<or> bpp = 0 then (Inr (), w)
      else case check_for_interrupts w of
        (Inl e, w1) \<Rightarrow> (Inl e, w1)
      | (Inr _, w1) \<Rightarrow>
          (case fill_batch S skip bpp existing GENERIC_XLOG_BATCH rest blkno (w_rel w1) [] of
            (r, pending, rest', blkno') \<Rightarrow>
              write_batches S skip bpp existing rest' blkno'
                (w1\<lparr>w_rel := finish_batch S pending r, w_wal := w_wal w1 + length pending\<rparr>)))"
  by pat_completeness auto
termination
  by (relation "measure (\<lambda>(S, skip, bpp, existing, rest, blkno, w). length rest)")
    (simp, simp only: in_measure split_conv, rule fill_batch_decreases, assumption+)

declare write_batches.simps [simp del]

definition write_chain_at ::
  "'r pstore \<Rightarrow> bool \<Rightarrow> u32 \<Rightarrow> u8 list \<Rightarrow> u32 \<Rightarrow> u32 \<Rightarrow> u64 \<Rightarrow> ('r, unit) io" where
  "write_chain_at S skip start_blkno chain_bytes stride rpp n_vectors =
     (if n_vectors = 0 \<or> rpp = 0 then ret ()
      else let bytes_per_full_page = unat rpp * unat stride in
        if chain_bytes \<noteq> [] \<and> bytes_per_full_page = 0 then raise Hang
        else if PAYLOAD_BYTES < min bytes_per_full_page (length chain_bytes) then raise OutOfBounds
        else (\<lambda>w. write_batches S skip bytes_per_full_page (ps_nblocks S (w_rel w)) chain_bytes
                    (unat start_blkno) w))"

section \<open>Extending and truncating\<close>

text \<open>
  \<open>while nblocks(rel) < target\<close>: each round extends by one block, so \<open>target\<close> rounds are enough
  for any starting length; the fuel is that bound.
\<close>

fun extend_loop :: "'r pstore \<Rightarrow> nat \<Rightarrow> nat \<Rightarrow> ('r, unit) io" where
  "extend_loop S 0 target w = (if target \<le> ps_nblocks S (w_rel w) then (Inr (), w) else (Inl Hang, w))"
| "extend_loop S (Suc fuel) target w =
     (if target \<le> ps_nblocks S (w_rel w) then (Inr (), w)
      else bind_io (extend_block S) (\<lambda>b.
           seq_io (install_page S b (page_image []))
             (extend_loop S fuel target)) w)"

definition extend_to :: "'r pstore \<Rightarrow> u32 \<Rightarrow> ('r, unit) io" where
  "extend_to S target = extend_loop S (unat target) (unat target)"

definition relation_truncate :: "'r pstore \<Rightarrow> nat \<Rightarrow> ('r, unit) io" where
  "relation_truncate S k w = (Inr (), w\<lparr>w_rel := ps_truncate S k (w_rel w)\<rparr>)"

section \<open>Reading a chain\<close>

function read_pages :: "'r pstore \<Rightarrow> nat \<Rightarrow> nat \<Rightarrow> nat \<Rightarrow> u8 list \<Rightarrow> ('r, u8 list) io" where
  "read_pages S bpp remaining blkno out =
     (if remaining = 0 then ret out
      else if bpp = 0 then raise Hang
      else if PAYLOAD_BYTES < min bpp remaining then raise OutOfBounds
      else bind_io (read_block S blkno) (\<lambda>p.
        read_pages S bpp (remaining - min bpp remaining) (Suc blkno)
          (out @ take (min bpp remaining) (pg_data p))))"
  by pat_completeness auto
termination
  by (relation "measure (\<lambda>(S, bpp, remaining, blkno, out). remaining)") auto

declare read_pages.simps [simp del]

definition read_chain ::
  "'r pstore \<Rightarrow> u32 \<Rightarrow> u32 \<Rightarrow> u32 \<Rightarrow> u64 \<Rightarrow> ('r, u8 list) io" where
  "read_chain S first_blkno stride rpp n_vectors =
     (let total_bytes = n_vectors * ucast stride in
      if total_bytes = 0 then ret []
      else if rpp = 0 then raise RowsPerPageZero
      else
        let pages_needed = div_ceil n_vectors (ucast rpp);
            last_needed = ucast first_blkno + pages_needed
        in bind_io (nblocks S) (\<lambda>nblk.
          if nblk < unat last_needed then raise ChainPastEnd
          else read_pages S (unat rpp * unat stride) (unat total_bytes) (unat first_blkno) []))"

section \<open>What reads and writes do\<close>

lemma finish_batch_Nil [simp]: "finish_batch S [] r = r"
  by (simp add: finish_batch_def)

lemma finish_batch_append: "finish_batch S (xs @ ys) r = finish_batch S ys (finish_batch S xs r)"
  by (simp add: finish_batch_def)

lemma finish_batch_Cons: "finish_batch S ((b, p) # xs) r = finish_batch S xs (ps_write S b p r)"
  by (simp add: finish_batch_def)

lemma page_image_holds: "length src \<le> PAYLOAD_BYTES \<Longrightarrow> page_holds (page_image src) src"
  by (simp add: page_holds_def page_image_def blit_def)

lemma check_for_interrupts_cases:
  obtains "check_for_interrupts w = (Inl Cancelled, w)" and "w_polls w = Some 0"
  | k where "check_for_interrupts w = (Inr (), w\<lparr>w_polls := k\<rparr>)"
      and "w_polls w = None \<Longrightarrow> k = None"
proof (cases "w_polls w")
  case None
  then have "w\<lparr>w_polls := None\<rparr> = w" by (cases w) simp
  with None that(2) [of None] show ?thesis by (simp add: check_for_interrupts_def)
next
  case (Some n)
  then show ?thesis using that(1) that(2) by (cases n) (auto simp: check_for_interrupts_def)
qed

context page_store
begin

lemma nblocks_finish:
  "(\<And>b p. (b, p) \<in> set xs \<Longrightarrow> b < ps_nblocks S r) \<Longrightarrow>
   ps_nblocks S (finish_batch S xs r) = ps_nblocks S r"
proof (induction xs arbitrary: r)
  case (Cons x xs)
  obtain b p where x: "x = (b, p)" by (cases x)
  have "ps_nblocks S (ps_write S b p r) = ps_nblocks S r"
    using Cons.prems [of b p] x by (simp add: nblocks_write)
  moreover have "ps_nblocks S (finish_batch S xs (ps_write S b p r)) = ps_nblocks S (ps_write S b p r)"
    using Cons.prems x calculation by (intro Cons.IH) auto
  ultimately show ?case using x by (simp add: finish_batch_Cons)
qed simp

lemma read_finish_other:
  "(\<And>b p. (b, p) \<in> set xs \<Longrightarrow> b < ps_nblocks S r \<and> b \<noteq> c) \<Longrightarrow> c < ps_nblocks S r \<Longrightarrow>
   ps_read S (finish_batch S xs r) c = ps_read S r c"
proof (induction xs arbitrary: r)
  case (Cons x xs)
  obtain b p where x: "x = (b, p)" by (cases x)
  with Cons.prems(1) have b: "b < ps_nblocks S r" "b \<noteq> c" by auto
  then have "ps_read S (finish_batch S xs (ps_write S b p r)) c = ps_read S (ps_write S b p r) c"
    using Cons.prems x by (intro Cons.IH) (auto simp: nblocks_write)
  with b Cons.prems(2) x show ?case by (simp add: finish_batch_Cons read_write)
qed simp

lemma read_finish_cong:
  "(\<And>b p. (b, p) \<in> set xs \<Longrightarrow> b < ps_nblocks S r) \<Longrightarrow> ps_nblocks S r' = ps_nblocks S r \<Longrightarrow>
   c < ps_nblocks S r \<Longrightarrow> ps_read S r' c = ps_read S r c \<Longrightarrow>
   ps_read S (finish_batch S xs r') c = ps_read S (finish_batch S xs r) c"
proof (induction xs arbitrary: r r')
  case (Cons x xs)
  obtain b p where x: "x = (b, p)" by (cases x)
  with Cons.prems(1) have b: "b < ps_nblocks S r" by auto
  have "ps_read S (finish_batch S xs (ps_write S b p r')) c = ps_read S (finish_batch S xs (ps_write S b p r)) c"
  proof (rule Cons.IH)
    show "b' < ps_nblocks S (ps_write S b p r)" if "(b', p') \<in> set xs" for b' p'
      using Cons.prems(1) [of b' p'] that b by (simp add: nblocks_write)
  qed (use Cons.prems b in \<open>simp_all add: nblocks_write read_write\<close>)
  with x show ?case by (simp add: finish_batch_Cons)
qed simp

text \<open>
  One batch, when every block it may touch exists: it consumes whole pages off the front, touches
  only their blocks, and leaves each of them holding its piece, whether written or skipped.
\<close>

lemma fill_batch_spec:
  assumes "fill_batch S skip bpp existing room rest blkno r pend = (r2, pend2, rest2, blkno2)"
    and "0 < bpp" and "min bpp (length rest) \<le> PAYLOAD_BYTES" and "existing \<le> ps_nblocks S r"
    and "\<And>b. b \<in> span_of blkno bpp (length rest) \<Longrightarrow> b < existing"
  shows "\<exists>new j. r2 = r \<and> pend2 = pend @ new \<and> rest2 = drop (j * bpp) rest \<and> blkno2 = blkno + j \<and>
    (\<forall>(b, p) \<in> set new. blkno \<le> b \<and> b < blkno + j \<and> b < existing) \<and>
    (\<forall>k < j. k * bpp < length rest \<and>
       page_holds (ps_read S (finish_batch S new r) (blkno + k)) (take bpp (drop (k * bpp) rest)))"
  using assms
proof (induction "length rest" arbitrary: room rest blkno pend r2 pend2 rest2 blkno2 rule: less_induct)
  case less
  let ?src = "take bpp rest"
  show ?case
  proof (cases "room = 0 \<or> rest = [] \<or> bpp = 0")
    case True
    with less.prems(1) have "r2 = r \<and> pend2 = pend @ [] \<and> rest2 = drop (0 * bpp) rest \<and> blkno2 = blkno + 0"
      by (auto simp: fill_batch.simps [of S skip bpp existing room rest])
    then show ?thesis by fastforce
  next
    case go: False
    have blk: "blkno < existing"
      using go less.prems(5) [of blkno] by (simp add: span_of_def)
    have span: "b < existing" if "b \<in> span_of (Suc blkno) bpp (length (drop bpp rest))" for b
    proof -
      from that have "Suc blkno \<le> b" and "(b - Suc blkno) * bpp < length rest - bpp"
        by (auto simp: span_of_def)
      then obtain k where "b = Suc blkno + k" and "k * bpp < length rest - bpp"
        by (metis add_diff_cancel_left' le_Suc_ex)
      then have "b \<in> span_of blkno bpp (length rest)" by (auto simp: span_of_def)
      then show ?thesis by (rule less.prems(5))
    qed
    let ?tail = "\<lambda>new. \<exists>new' j. r2 = r \<and> pend2 = (pend @ new) @ new' \<and>
      rest2 = drop (j * bpp) (drop bpp rest) \<and> blkno2 = Suc blkno + j \<and>
      (\<forall>(b, p) \<in> set new'. Suc blkno \<le> b \<and> b < Suc blkno + j \<and> b < existing) \<and>
      (\<forall>k < j. k * bpp < length (drop bpp rest) \<and>
         page_holds (ps_read S (finish_batch S new' r) (Suc blkno + k))
           (take bpp (drop (k * bpp) (drop bpp rest))))"
    have IH: "?tail new"
      if "fill_batch S skip bpp existing room' (drop bpp rest) (Suc blkno) r (pend @ new)
            = (r2, pend2, rest2, blkno2)" for room' new
      using that span go less.prems(2,3,4) by (intro less.hyps) auto
    have step: ?thesis if tail: "?tail new"
      and new: "new = [] \<and> page_holds (ps_read S r blkno) ?src \<or> new = [(blkno, page_image ?src)]" for new
    proof -
      from tail obtain new' j where eqs: "r2 = r" "pend2 = pend @ (new @ new')"
          "rest2 = drop (Suc j * bpp) rest" "blkno2 = blkno + Suc j"
        and mem: "\<forall>(b, p) \<in> set new'. Suc blkno \<le> b \<and> b < Suc blkno + j \<and> b < existing"
        and hold: "\<forall>k < j. k * bpp < length (drop bpp rest) \<and>
          page_holds (ps_read S (finish_batch S new' r) (Suc blkno + k))
            (take bpp (drop (k * bpp) (drop bpp rest)))"
        by (auto simp: add.commute)
      have nb: "b < ps_nblocks S r" and ne: "b \<noteq> blkno" if "(b, p) \<in> set new'" for b p
        using mem that less.prems(4) by auto
      have blk_nb: "blkno < ps_nblocks S r" using blk less.prems(4) by simp
      have first: "page_holds (ps_read S (finish_batch S (new @ new') r) blkno) ?src"
        using new
      proof
        assume "new = [] \<and> page_holds (ps_read S r blkno) ?src"
        then show ?thesis using nb ne blk_nb by (simp add: read_finish_other)
      next
        assume n: "new = [(blkno, page_image ?src)]"
        have "ps_read S (finish_batch S new' (ps_write S blkno (page_image ?src) r)) blkno
            = page_image ?src"
          using nb ne blk_nb by (subst read_finish_other) (auto simp: nblocks_write read_write)
        with n less.prems(3) show ?thesis
          by (simp add: finish_batch_append finish_batch_Cons page_image_holds)
      qed
      have later: "page_holds (ps_read S (finish_batch S (new @ new') r) (Suc blkno + k))
          (take bpp (drop (k * bpp) (drop bpp rest)))" if k: "k < j" for k
      proof -
        from hold k have kl: "k * bpp < length rest - bpp" by simp
        then have "Suc blkno + k < ps_nblocks S r"
          using span [of "Suc blkno + k"] less.prems(4) by (simp add: span_of_def)
        moreover have "ps_nblocks S (ps_write S blkno (page_image ?src) r) = ps_nblocks S r"
          using blk_nb by (rule nblocks_write)
        ultimately have "ps_read S (finish_batch S (new @ new') r) (Suc blkno + k)
            = ps_read S (finish_batch S new' r) (Suc blkno + k)"
          using new nb blk_nb
          by (auto simp: finish_batch_append finish_batch_Cons read_write intro!: read_finish_cong)
        with hold k show ?thesis by simp
      qed
      have "i * bpp < length rest \<and> page_holds (ps_read S (finish_batch S (new @ new') r) (blkno + i))
          (take bpp (drop (i * bpp) rest))" if i: "i < Suc j" for i
      proof (cases i)
        case 0
        with first go show ?thesis by simp
      next
        case (Suc k)
        with i later [of k] hold show ?thesis by (auto simp: add.commute)
      qed
      moreover have "\<forall>(b, p) \<in> set (new @ new'). blkno \<le> b \<and> b < blkno + Suc j \<and> b < existing"
        using new mem blk by auto
      ultimately show ?thesis using eqs by blast
    qed
    show ?thesis
    proof (cases "unchanged_page S skip bpp existing ?src blkno r")
      case True
      then have "page_holds (ps_read S r blkno) ?src"
        by (simp add: unchanged_page_def page_holds_def)
      moreover have "fill_batch S skip bpp existing room (drop bpp rest) (Suc blkno) r (pend @ [])
          = (r2, pend2, rest2, blkno2)"
        using less.prems(1) go True by (simp add: fill_batch.simps [of S skip bpp existing room rest])
      ultimately show ?thesis using step [of "[]"] IH [of room "[]"] by blast
    next
      case False
      then have "fill_batch S skip bpp existing (room - 1) (drop bpp rest) (Suc blkno) r
          (pend @ [(blkno, page_image ?src)]) = (r2, pend2, rest2, blkno2)"
        using less.prems(1) go blk by (simp add: fill_batch.simps [of S skip bpp existing room rest])
      then show ?thesis using step [of "[(blkno, page_image ?src)]"] IH by blast
    qed
  qed
qed

lemma span_ofE:
  assumes "b \<in> span_of first bpp len"
  obtains k where "b = first + k" and "k * bpp < len"
  using assms by (auto simp: span_of_def) (metis le_add_diff_inverse)

lemma span_ofI: "k * bpp < len \<Longrightarrow> first + k \<in> span_of first bpp len"
  by (simp add: span_of_def)

lemma span_of_suffix: "span_of (blkno + j) bpp (len - j * bpp) \<subseteq> span_of blkno bpp len"
proof
  fix b assume "b \<in> span_of (blkno + j) bpp (len - j * bpp)"
  then obtain k where b: "b = blkno + j + k" and k: "k * bpp < len - j * bpp" by (rule span_ofE)
  from k have "(j + k) * bpp < len" by (simp add: add_mult_distrib)
  with b show "b \<in> span_of blkno bpp len" by (metis add.assoc span_ofI)
qed

text \<open>
  Writing the batches of a chain whose blocks all exist: whatever happens, nothing outside the
  chain's blocks changes; a run that is not cancelled leaves the whole chain stored; only a pending
  cancel stops it.
\<close>

lemma write_batches_spec:
  assumes "write_batches S skip bpp existing rest blkno w = (res, w')"
    and "0 < bpp" and "min bpp (length rest) \<le> PAYLOAD_BYTES" and "existing \<le> ps_nblocks S (w_rel w)"
    and "\<And>b. b \<in> span_of blkno bpp (length rest) \<Longrightarrow> b < existing"
  shows "same_outside S (span_of blkno bpp (length rest)) (w_rel w) (w_rel w') \<and>
    ps_nblocks S (w_rel w') = ps_nblocks S (w_rel w) \<and>
    w_xlock w' = w_xlock w \<and> w_slock w' = w_slock w \<and>
    (w_polls w = None \<longrightarrow> w_polls w' = None) \<and>
    (case res of Inl e \<Rightarrow> e = Cancelled \<and> w_polls w \<noteq> None
     | Inr _ \<Rightarrow> stores S (w_rel w') blkno bpp rest)"
  using assms
proof (induction "length rest" arbitrary: rest blkno w rule: less_induct)
  case less
  show ?case
  proof (cases "rest = []")
    case True
    with less.prems(1) have "res = Inr ()" and "w' = w"
      by (simp_all add: write_batches.simps [of S skip bpp existing "[]" blkno w])
    with True show ?thesis by simp
  next
    case ne: False
    consider "check_for_interrupts w = (Inl Cancelled, w)" "w_polls w = Some 0"
      | k where "check_for_interrupts w = (Inr (), w\<lparr>w_polls := k\<rparr>)" "w_polls w = None \<Longrightarrow> k = None"
      using check_for_interrupts_cases by blast
    then show ?thesis
    proof cases
      case 1
      with less.prems(1,2) ne have "res = Inl Cancelled" and "w' = w"
        by (simp_all add: write_batches.simps [of S skip bpp existing rest blkno w])
      with 1 show ?thesis by simp
    next
      case (2 k)
      define w1 where "w1 = w\<lparr>w_polls := k\<rparr>"
      obtain r2 pend2 rest2 blkno2 where fb:
        "fill_batch S skip bpp existing GENERIC_XLOG_BATCH rest blkno (w_rel w1) [] = (r2, pend2, rest2, blkno2)"
        by (metis prod_cases4)
      define w2 where "w2 = w1\<lparr>w_rel := finish_batch S pend2 r2, w_wal := w_wal w1 + length pend2\<rparr>"
      have run: "write_batches S skip bpp existing rest2 blkno2 w2 = (res, w')"
        using less.prems(1,2) ne 2(1) fb
        by (simp add: write_batches.simps [of S skip bpp existing rest blkno w] w1_def [symmetric] w2_def)
      have w1: "w_rel w1 = w_rel w" by (simp add: w1_def)
      obtain new j where eqs: "r2 = w_rel w" "pend2 = new" "rest2 = drop (j * bpp) rest" "blkno2 = blkno + j"
        and mem: "\<forall>(b, p) \<in> set new. blkno \<le> b \<and> b < blkno + j \<and> b < existing"
        and hold: "\<forall>k < j. k * bpp < length rest \<and>
          page_holds (ps_read S (finish_batch S new (w_rel w)) (blkno + k)) (take bpp (drop (k * bpp) rest))"
        using fill_batch_spec [OF fb less.prems(2,3)] less.prems(4,5) by (auto simp: w1)
      have len: "length rest2 < length rest"
        using fill_batch_progress [OF ne _ _ fb] less.prems(2) by (simp add: GENERIC_XLOG_BATCH_def)
      have mem': "b < ps_nblocks S (w_rel w) \<and> b \<in> span_of blkno bpp (length rest)"
        if "(b, p) \<in> set new" for b p
      proof -
        from mem that have b: "blkno \<le> b" "b < blkno + j" "b < existing" by auto
        then obtain k where k: "b = blkno + k" "k < j" by (metis add_less_cancel_left le_Suc_ex)
        with hold b less.prems(4) show ?thesis by (auto intro: span_ofI)
      qed
      have w2: "w_rel w2 = finish_batch S new (w_rel w)" by (simp add: w2_def eqs)
      have nb2: "ps_nblocks S (w_rel w2) = ps_nblocks S (w_rel w)"
        unfolding w2 using mem' by (intro nblocks_finish) auto
      have span2: "span_of blkno2 bpp (length rest2) \<subseteq> span_of blkno bpp (length rest)"
        using span_of_suffix [of blkno j bpp "length rest"] by (simp add: eqs)
      have same2: "same_outside S (span_of blkno bpp (length rest)) (w_rel w) (w_rel w2)"
        unfolding same_outside_def nb2
      proof (intro conjI allI impI)
        fix b assume b: "b < ps_nblocks S (w_rel w)" "b \<notin> span_of blkno bpp (length rest)"
        show "ps_read S (w_rel w2) b = ps_read S (w_rel w) b"
          unfolding w2 using b mem' by (intro read_finish_other) auto
      qed simp
      have IH: "same_outside S (span_of blkno2 bpp (length rest2)) (w_rel w2) (w_rel w') \<and>
          ps_nblocks S (w_rel w') = ps_nblocks S (w_rel w2) \<and>
          w_xlock w' = w_xlock w2 \<and> w_slock w' = w_slock w2 \<and>
          (w_polls w2 = None \<longrightarrow> w_polls w' = None) \<and>
          (case res of Inl e \<Rightarrow> e = Cancelled \<and> w_polls w2 \<noteq> None
           | Inr _ \<Rightarrow> stores S (w_rel w') blkno2 bpp rest2)"
      proof (rule less.hyps [OF len run less.prems(2)])
        show "min bpp (length rest2) \<le> PAYLOAD_BYTES" using less.prems(3) len by linarith
        show "existing \<le> ps_nblocks S (w_rel w2)" using less.prems(4) nb2 by simp
        show "b < existing" if "b \<in> span_of blkno2 bpp (length rest2)" for b
          using that span2 less.prems(5) by blast
      qed
      have same: "same_outside S (span_of blkno bpp (length rest)) (w_rel w) (w_rel w')"
        using same_outside_trans [OF same2 IH [THEN conjunct1]] span2 by (simp add: Un_absorb2)
      have whole: "stores S (w_rel w') blkno bpp rest" if "stores S (w_rel w') blkno2 bpp rest2"
        unfolding stores_def
      proof (intro allI impI)
        fix k assume k: "k * bpp < length rest"
        show "blkno + k < ps_nblocks S (w_rel w') \<and>
            page_holds (ps_read S (w_rel w') (blkno + k)) (take bpp (drop (k * bpp) rest))"
        proof (cases "k < j")
          case True
          have "blkno + k < ps_nblocks S (w_rel w)"
            using less.prems(4,5) span_ofI [OF k, of blkno] order_less_le_trans by blast
          moreover have "blkno + k \<notin> span_of blkno2 bpp (length rest2)"
            using True by (simp add: span_of_def eqs)
          ultimately have "ps_read S (w_rel w') (blkno + k) = ps_read S (w_rel w2) (blkno + k)"
            using IH nb2 by (simp add: same_outside_def)
          with hold True \<open>blkno + k < _\<close> IH nb2 show ?thesis by (simp add: w2)
        next
          case False
          then obtain i where i: "k = j + i" by (metis le_Suc_ex not_less)
          with k have "i * bpp < length rest2" by (simp add: eqs add_mult_distrib)
          with that i show ?thesis
            by (simp add: stores_def eqs add_mult_distrib) (metis add.assoc add.commute)
        qed
      qed
      have lk: "w_xlock w2 = w_xlock w" "w_slock w2 = w_slock w" "w_polls w = None \<Longrightarrow> w_polls w2 = None"
        using 2(2) by (auto simp: w2_def w1_def)
      from IH have res: "case res of Inl e \<Rightarrow> e = Cancelled \<and> w_polls w \<noteq> None
           | Inr _ \<Rightarrow> stores S (w_rel w') blkno bpp rest"
        using whole lk by (auto split: sum.splits)
      show ?thesis using same IH lk res nb2 by simp
    qed
  qed
qed

text \<open>
  A Hoare triple for the writers: run on \<open>w\<close>, the computation changes only blocks in \<open>X\<close> (never
  shrinking the file), keeps the locks, and either completes in a state satisfying \<open>P\<close> or is stopped
  by a cancel that was pending.
\<close>

end

definition touches ::
  "'r pstore \<Rightarrow> nat set \<Rightarrow> ('r, unit) io \<Rightarrow> 'r world \<Rightarrow> ('r \<Rightarrow> bool) \<Rightarrow> bool" where
  "touches S X c w P \<longleftrightarrow>
     (case c w of (res, w') \<Rightarrow> same_outside S X (w_rel w) (w_rel w') \<and>
        w_xlock w' = w_xlock w \<and> w_slock w' = w_slock w \<and>
        (w_polls w = None \<longrightarrow> w_polls w' = None) \<and>
        (case res of Inl e \<Rightarrow> e = Cancelled \<and> w_polls w \<noteq> None | Inr _ \<Rightarrow> P (w_rel w')))"

lemma touchesE:
  assumes "touches S X c w P"
  obtains (stopped) w' where "c w = (Inl Cancelled, w')" "w_polls w \<noteq> None"
      "same_outside S X (w_rel w) (w_rel w')" "w_xlock w' = w_xlock w" "w_slock w' = w_slock w"
  | (finished) w' where "c w = (Inr (), w')" "P (w_rel w')"
      "same_outside S X (w_rel w) (w_rel w')" "w_xlock w' = w_xlock w" "w_slock w' = w_slock w"
      "w_polls w = None \<Longrightarrow> w_polls w' = None"
  using assms by (auto simp: touches_def split: prod.splits sum.splits)

lemma touches_weaken:
  "touches S X c w P \<Longrightarrow> X \<subseteq> Y \<Longrightarrow> (\<And>r. P r \<Longrightarrow> Q r) \<Longrightarrow> touches S Y c w Q"
  by (auto simp: touches_def split: prod.splits sum.splits intro: same_outside_mono)

lemma touches_ret [simp]: "touches S X (ret ()) w P \<longleftrightarrow> P (w_rel w)"
  by (simp add: touches_def ret_def)

lemma touches_check [intro]: "P (w_rel w) \<Longrightarrow> touches S X check_for_interrupts w P"
  by (auto simp: touches_def check_for_interrupts_def split: option.splits nat.splits)

lemma touches_seq:
  fixes S :: "'r pstore"
  assumes "touches S X c w P"
    and "\<And>w1. P (w_rel w1) \<Longrightarrow> same_outside S X (w_rel w) (w_rel w1) \<Longrightarrow> touches S Y d w1 Q"
  shows "touches S (X \<union> Y) (seq_io c d) w Q"
  using assms(1)
proof (cases rule: touchesE)
  case (stopped w')
  then have "same_outside S (X \<union> Y) (w_rel w) (w_rel w')"
    by (auto intro: same_outside_mono)
  with stopped(1,4,5) have "w_polls w \<noteq> None \<Longrightarrow> ?thesis"
    by (auto simp: touches_def seq_io_def bind_io_def)
  with stopped(2) show ?thesis by blast
next
  case (finished w1)
  note first = finished
  have "touches S Y d w1 Q" using first(2,3) by (rule assms(2))
  then show ?thesis
  proof (cases rule: touchesE)
    case (stopped w2)
    with first(6) obtain y where "w_polls w = Some y" by fastforce
    then show ?thesis using first(1,4,5) stopped same_outside_trans [OF first(3) stopped(3)]
      by (simp add: touches_def seq_io_def bind_io_def)
  next
    case (finished w2)
    then show ?thesis using first same_outside_trans [OF first(3) finished(3)]
      by (simp add: touches_def seq_io_def bind_io_def)
  qed
qed

text \<open>The second computation may rely on what the first wrote, and does not destroy it.\<close>

lemma touches_seq_frame:
  fixes S :: "'r pstore"
  assumes "touches S X c w P" and "X \<subseteq> Z" and "Y \<subseteq> Z"
    and "\<And>w1. P (w_rel w1) \<Longrightarrow> same_outside S X (w_rel w) (w_rel w1) \<Longrightarrow> touches S Y d w1 Q"
    and "\<And>r1 r2. P r1 \<Longrightarrow> same_outside S Y r1 r2 \<Longrightarrow> P r2"
  shows "touches S Z (seq_io c d) w (\<lambda>r. P r \<and> Q r)"
proof (rule touches_weaken)
  show "touches S (X \<union> Y) (seq_io c d) w (\<lambda>r. P r \<and> Q r)"
  proof (rule touches_seq [OF assms(1)])
    fix w1 :: "'r world" assume w1: "P (w_rel w1)" "same_outside S X (w_rel w) (w_rel w1)"
    then have "touches S Y d w1 Q" by (rule assms(4))
    then show "touches S Y d w1 (\<lambda>r. P r \<and> Q r)"
      using assms(5) [OF w1(1)] by (auto simp: touches_def split: prod.splits sum.splits)
  qed
qed (use assms(2,3) in auto)

lemma touches_if: "(b \<Longrightarrow> touches S X c w P) \<Longrightarrow> (\<not> b \<Longrightarrow> P (w_rel w)) \<Longrightarrow> touches S X (when_io b c) w P"
  by (cases b) simp_all

context page_store
begin

lemma write_chain_touches:
  assumes "chain_bytes \<noteq> [] \<Longrightarrow> n \<noteq> 0 \<and> stride \<noteq> 0 \<and> rpp \<noteq> 0"
    and "unat rpp * unat stride \<le> PAYLOAD_BYTES"
    and "\<And>b. b \<in> span_of (unat start) (unat rpp * unat stride) (length chain_bytes) \<Longrightarrow>
      b < ps_nblocks S (w_rel w)"
  shows "touches S (span_of (unat start) (unat rpp * unat stride) (length chain_bytes))
    (write_chain_at S skip start chain_bytes stride rpp n) w
    (\<lambda>r. stores S r (unat start) (unat rpp * unat stride) chain_bytes)"
proof (cases "chain_bytes = []")
  case True
  then show ?thesis
    by (auto simp: write_chain_at_def Let_def touches_def ret_def
        write_batches.simps [of S skip _ _ "[]"])
next
  case False
  let ?bpp = "unat rpp * unat stride"
  from False assms(1) have pos: "0 < ?bpp" by (auto simp: unat_gt_0)
  obtain res w' where run: "write_batches S skip ?bpp (ps_nblocks S (w_rel w)) chain_bytes (unat start) w
      = (res, w')" by fastforce
  have "min ?bpp (length chain_bytes) \<le> PAYLOAD_BYTES" using assms(2) by simp
  from write_batches_spec [OF run pos this order_refl assms(3)]
  have spec: "same_outside S (span_of (unat start) ?bpp (length chain_bytes)) (w_rel w) (w_rel w') \<and>
    ps_nblocks S (w_rel w') = ps_nblocks S (w_rel w) \<and>
    w_xlock w' = w_xlock w \<and> w_slock w' = w_slock w \<and>
    (w_polls w = None \<longrightarrow> w_polls w' = None) \<and>
    (case res of Inl e \<Rightarrow> e = Cancelled \<and> w_polls w \<noteq> None
     | Inr _ \<Rightarrow> stores S (w_rel w') (unat start) ?bpp chain_bytes)" .
  have "write_chain_at S skip start chain_bytes stride rpp n w = (res, w')"
    using False assms(1,2) pos run by (simp add: write_chain_at_def Let_def)
  with spec show ?thesis by (simp add: touches_def)
qed

section \<open>Reading back\<close>

lemma read_pages_stores:
  assumes "stores S (w_rel w) blkno bpp bytes" and "0 < bpp" and "min bpp (length bytes) \<le> PAYLOAD_BYTES"
  shows "read_pages S bpp (length bytes) blkno out w = (Inr (out @ bytes), w)"
  using assms
proof (induction "length bytes" arbitrary: bytes blkno out rule: less_induct)
  case less
  show ?case
  proof (cases "bytes = []")
    case True
    then show ?thesis by (simp add: read_pages.simps [of S bpp 0] ret_def)
  next
    case False
    from less.prems(1,2) False have here: "blkno < ps_nblocks S (w_rel w)"
      "page_holds (ps_read S (w_rel w) blkno) (take bpp bytes)"
      "stores S (w_rel w) (Suc blkno) bpp (drop bpp bytes)"
      by (simp_all add: stores_Cons_page)
    have piece: "take (min bpp (length bytes)) (pg_data (ps_read S (w_rel w) blkno)) = take bpp bytes"
      using here(2) by (simp add: page_holds_def min.commute)
    have "read_pages S bpp (length bytes) blkno out w
        = read_pages S bpp (length bytes - min bpp (length bytes)) (Suc blkno) (out @ take bpp bytes) w"
      using False less.prems(2,3) here(1) piece
      by (auto simp: read_pages.simps [of S bpp "length bytes"] bind_io_def read_block_def)
    also have "length bytes - min bpp (length bytes) = length (drop bpp bytes)" by simp
    also have "read_pages S bpp (length (drop bpp bytes)) (Suc blkno) (out @ take bpp bytes) w
        = (Inr ((out @ take bpp bytes) @ drop bpp bytes), w)"
      using False less.prems(2,3) here(3) by (intro less.hyps) auto
    finally show ?thesis by simp
  qed
qed

end

end
