(* ===== verification/Chains.thy ===== *)
theory Chains
  imports Relfile
begin

text \<open>
  Whole-file facts about the chain primitives: the meta page and a chain read back what was written,
  extension keeps every block, and writers compose as long as the regions they fill are disjoint.
\<close>

lemma touches_prefix:
  assumes "touches S X d w1 P" and "c w = d w1" and "same_outside S X (w_rel w) (w_rel w1)"
    and "w_xlock w1 = w_xlock w" and "w_slock w1 = w_slock w" and "w_polls w1 = w_polls w"
  shows "touches S X c w P"
  using assms(1)
proof (cases rule: touchesE)
  case (stopped w2)
  then show ?thesis using assms same_outside_trans [OF assms(3) stopped(3)]
    by (simp add: touches_def)
next
  case (finished w2)
  then show ?thesis using assms same_outside_trans [OF assms(3) finished(3)]
    by (simp add: touches_def)
qed

section \<open>The meta page\<close>

lemma page_image_encode:
  assumes "encodable m"
  shows "pg_data (page_image (encode m)) = encode m"
  using length_encode [OF assms] by (simp add: page_image_def blit_def)

definition meta_stored :: "'r pstore \<Rightarrow> meta \<Rightarrow> 'r \<Rightarrow> bool" where
  "meta_stored S m r \<longleftrightarrow> 0 < ps_nblocks S r \<and> ps_read S r 0 = page_image (encode m)"

lemma read_meta_stored:
  assumes "meta_stored S m (w_rel w)" and "encodable m"
  shows "read_meta S w = (Inr (Some m), w)"
  using assms by (simp add: read_meta_def meta_stored_def bind_io_def nblocks_def read_block_def
      page_image_encode decode_encode_eq ret_def)

lemma meta_stored_frame:
  "meta_stored S m r \<Longrightarrow> same_outside S X r r' \<Longrightarrow> 0 \<notin> X \<Longrightarrow> meta_stored S m r'"
  by (auto simp: meta_stored_def same_outside_def)

context page_store
begin

lemma write_meta_touches:
  assumes "0 < ps_nblocks S (w_rel w)"
  shows "touches S {0} (write_meta S m) w
    (\<lambda>r. meta_stored S m r \<and> ps_nblocks S r = ps_nblocks S (w_rel w))"
  using assms
  by (auto simp: touches_def write_meta_def bind_io_def nblocks_def ret_def install_page_def
      same_outside_def meta_stored_def nblocks_write read_write)

lemma extend_block_run:
  "extend_block S w = (Inr (ps_nblocks S (w_rel w)), w\<lparr>w_rel := ps_extend S (w_rel w)\<rparr>)"
  by (simp add: extend_block_def)

lemma extend_loop_touches:
  assumes "target \<le> ps_nblocks S (w_rel w) + fuel"
  shows "touches S {} (extend_loop S fuel target) w
    (\<lambda>r. ps_nblocks S r = max target (ps_nblocks S (w_rel w)))"
  using assms
proof (induction fuel arbitrary: w)
  case 0
  then show ?case by (simp add: touches_def max_absorb2)
next
  case (Suc fuel)
  show ?case
  proof (cases "target \<le> ps_nblocks S (w_rel w)")
    case True
    then show ?thesis by (simp add: touches_def max_absorb2)
  next
    case False
    let ?r = "w_rel w"
    let ?w1 = "w\<lparr>w_rel := ps_write S (ps_nblocks S ?r) (page_image []) (ps_extend S ?r),
      w_wal := w_wal w + 1\<rparr>"
    have nb: "ps_nblocks S (w_rel ?w1) = Suc (ps_nblocks S ?r)"
      by (simp add: nblocks_write nblocks_extend)
    have run: "extend_loop S (Suc fuel) target w = extend_loop S fuel target ?w1"
      using False by (simp add: bind_io_def seq_io_def extend_block_run install_page_def)
    have same: "same_outside S {} ?r (w_rel ?w1)"
      using nb by (auto simp: same_outside_def nblocks_extend read_write read_extend)
    have "touches S {} (extend_loop S fuel target) ?w1
      (\<lambda>r. ps_nblocks S r = max target (ps_nblocks S (w_rel ?w1)))"
      using Suc.prems nb by (intro Suc.IH) simp
    moreover have "max target (ps_nblocks S (w_rel ?w1)) = max target (ps_nblocks S ?r)"
      using False nb by simp
    ultimately have "touches S {} (extend_loop S fuel target) ?w1
      (\<lambda>r. ps_nblocks S r = max target (ps_nblocks S ?r))"
      by (simp only:)
    then show ?thesis
      by (rule touches_prefix [where c = "extend_loop S (Suc fuel) target" and w = w])
        (use run same in \<open>simp_all del: extend_loop.simps\<close>)
  qed
qed

lemma extend_to_touches:
  "touches S {} (extend_to S target) w
     (\<lambda>r. ps_nblocks S r = max (unat target) (ps_nblocks S (w_rel w)))"
  unfolding extend_to_def by (rule extend_loop_touches) simp

section \<open>Reading a stored chain\<close>

lemma read_chain_stored:
  assumes "stores S (w_rel w) (unat first) (unat rpp * unat stride) bytes"
    and len: "length bytes = unat n * unat stride" and small: "unat n * unat stride < 2 ^ 64"
    and "rpp \<noteq> 0" and pay: "unat rpp * unat stride \<le> PAYLOAD_BYTES"
    and fit: "unat first + nat_div_ceil (unat n) (unat rpp) < 2 ^ 64"
  shows "read_chain S first stride rpp n w = (Inr bytes, w)"
proof (cases "bytes = []")
  case True
  with len have "unat n * unat stride = 0" by simp
  then have "n * ucast stride = 0" by (auto simp: unat_eq_0)
  with True show ?thesis by (simp add: read_chain_def Let_def ret_def)
next
  case False
  let ?bpp = "unat rpp * unat stride"
  have pos: "0 < unat stride \<and> 0 < unat n"
    using False len by (cases "unat stride = 0 \<or> unat n = 0") auto
  have total: "unat (n * ucast stride) = length bytes"
    using small len by (subst unat_mult_lem [THEN iffD1]) auto
  then have total0: "n * ucast stride \<noteq> 0" using False by (metis length_greater_0_conv unat_gt_0)
  have rpp: "0 < unat rpp" using assms(4) by (simp add: unat_gt_0)
  then have pages: "unat (div_ceil n (ucast rpp)) = nat_div_ceil (unat n) (unat rpp)"
    by (subst unat_div_ceil) (auto simp: unat_gt_0 [symmetric])
  then have last: "unat (ucast first + div_ceil n (ucast rpp)) = unat first + nat_div_ceil (unat n) (unat rpp)"
    using fit by (subst unat_add_lem [THEN iffD1]) auto
  define k where "k = nat_div_ceil (unat n) (unat rpp) - 1"
  have "nat_div_ceil (unat n) (unat rpp) \<noteq> 0"
    using nat_div_ceil_le_iff [OF rpp, of "unat n" 0] pos by simp
  then have k: "nat_div_ceil (unat n) (unat rpp) = Suc k" by (simp add: k_def)
  have "\<not> unat n \<le> k * unat rpp" using nat_div_ceil_le_iff [OF rpp, of "unat n" k] k by simp
  then have "k * ?bpp < length bytes" using pos by (simp add: len mult.assoc [symmetric])
  with assms(1) have "unat first + k < ps_nblocks S (w_rel w)" by (simp add: stores_def)
  with last k have bound: "\<not> ps_nblocks S (w_rel w) < unat (ucast first + div_ceil n (ucast rpp))" by simp
  have "read_pages S ?bpp (length bytes) (unat first) [] w = (Inr ([] @ bytes), w)"
    using assms(1) pay rpp pos by (intro read_pages_stores) simp_all
  with total total0 assms(4) bound show ?thesis
    by (simp add: read_chain_def Let_def bind_io_def nblocks_def)
qed

end

section \<open>Composing writers\<close>

text \<open>\<open>r'\<close> still has the blocks of \<open>r\<close> in \<open>X\<close>, unchanged.\<close>

definition agree_on :: "'r pstore \<Rightarrow> nat set \<Rightarrow> 'r \<Rightarrow> 'r \<Rightarrow> bool" where
  "agree_on S X r r' \<longleftrightarrow>
     (\<forall>b \<in> X. b < ps_nblocks S r \<longrightarrow> b < ps_nblocks S r' \<and> ps_read S r' b = ps_read S r b)"

lemma same_outside_agree: "same_outside S Y r r' \<Longrightarrow> X \<inter> Y = {} \<Longrightarrow> agree_on S X r r'"
  by (auto simp: same_outside_def agree_on_def)

lemma agree_on_mono: "agree_on S Y r r' \<Longrightarrow> X \<subseteq> Y \<Longrightarrow> agree_on S X r r'"
  by (auto simp: agree_on_def)

lemma stores_agree:
  assumes "stores S r first bpp bytes" and "agree_on S (span_of first bpp (length bytes)) r r'"
  shows "stores S r' first bpp bytes"
  unfolding stores_def
proof (intro allI impI)
  fix k assume "k * bpp < length bytes"
  then have "first + k < ps_nblocks S r"
    and "page_holds (ps_read S r (first + k)) (take bpp (drop (k * bpp) bytes))"
    and "first + k \<in> span_of first bpp (length bytes)"
    using assms(1) by (auto simp: stores_def span_of_def)
  with assms(2) show "first + k < ps_nblocks S r' \<and>
      page_holds (ps_read S r' (first + k)) (take bpp (drop (k * bpp) bytes))"
    by (simp add: agree_on_def)
qed

text \<open>
  \<open>c\<close> fills the region \<open>X\<close>: on any file of at least \<open>n\<close> blocks it changes only \<open>X\<close> and establishes
  \<open>P\<close>, and \<open>P\<close> depends on no block outside \<open>X\<close>.
\<close>

definition fills :: "'r pstore \<Rightarrow> nat \<Rightarrow> nat set \<Rightarrow> ('r \<Rightarrow> bool) \<Rightarrow> ('r, unit) io \<Rightarrow> bool" where
  "fills S n X P c \<longleftrightarrow>
     (\<forall>w. n \<le> ps_nblocks S (w_rel w) \<longrightarrow> touches S X c w P) \<and>
     (\<forall>r r'. P r \<and> agree_on S X r r' \<longrightarrow> P r')"

lemma fills_touches: "fills S n X P c \<Longrightarrow> n \<le> ps_nblocks S (w_rel w) \<Longrightarrow> touches S X c w P"
  by (simp add: fills_def)

lemma fills_agree: "fills S n X P c \<Longrightarrow> P r \<Longrightarrow> agree_on S X r r' \<Longrightarrow> P r'"
  unfolding fills_def by blast

lemma fills_frame:
  "fills S n X P c \<Longrightarrow> P r \<Longrightarrow> same_outside S Y r r' \<Longrightarrow> X \<inter> Y = {} \<Longrightarrow> P r'"
  by (erule fills_agree) (auto intro: same_outside_agree)

lemma fills_ret [simp]: "fills S n {} (\<lambda>r. True) (ret ())"
  by (simp add: fills_def)

lemma fills_seq:
  assumes c: "fills S n X P c" and d: "fills S n Y Q d" and "X \<inter> Y = {}"
  shows "fills S n (X \<union> Y) (\<lambda>r. P r \<and> Q r) (seq_io c d)"
proof -
  have "touches S (X \<union> Y) (seq_io c d) w (\<lambda>r. P r \<and> Q r)" if "n \<le> ps_nblocks S (w_rel w)" for w
  proof (rule touches_seq_frame)
    show "touches S X c w P" using c that by (rule fills_touches)
    show "touches S Y d w1 Q" if "same_outside S X (w_rel w) (w_rel w1)" for w1
      using d that \<open>n \<le> _\<close> by (auto intro!: fills_touches simp: same_outside_def)
    show "P r2" if "P r1" "same_outside S Y r1 r2" for r1 r2
      using c that assms(3) by (rule fills_frame)
  qed auto
  moreover have "P r' \<and> Q r'" if "P r \<and> Q r" "agree_on S (X \<union> Y) r r'" for r r'
    using fills_agree [OF c, of r r'] fills_agree [OF d, of r r'] that
      agree_on_mono [of S "X \<union> Y" r r'] by blast
  ultimately show ?thesis unfolding fills_def by blast
qed

lemma fills_when:
  "(b \<Longrightarrow> fills S n X P c) \<Longrightarrow> fills S n (if b then X else {}) (\<lambda>r. b \<longrightarrow> P r) (when_io b c)"
  by (cases b) simp_all

lemma fills_widen:
  fixes S :: "'r pstore"
  assumes "fills S n X P c" and "X \<subseteq> Y"
  shows "fills S n Y P c"
  unfolding fills_def
proof (intro conjI allI impI)
  fix w :: "'r world" assume "n \<le> ps_nblocks S (w_rel w)"
  with assms show "touches S Y c w P" by (blast intro: touches_weaken fills_touches)
next
  fix r r' assume "P r \<and> agree_on S Y r r'"
  with assms show "P r'" by (blast intro: fills_agree agree_on_mono)
qed

context page_store
begin

lemma fills_chain:
  assumes "bytes \<noteq> [] \<Longrightarrow> n \<noteq> 0 \<and> stride \<noteq> 0 \<and> rpp \<noteq> 0"
    and "unat rpp * unat stride \<le> PAYLOAD_BYTES"
    and "\<And>b. b \<in> span_of (unat start) (unat rpp * unat stride) (length bytes) \<Longrightarrow> b < N"
  shows "fills S N (span_of (unat start) (unat rpp * unat stride) (length bytes))
    (\<lambda>r. stores S r (unat start) (unat rpp * unat stride) bytes)
    (write_chain_at S skip start bytes stride rpp n)"
  unfolding fills_def
proof (intro conjI allI impI)
  fix w :: "'r world" assume "N \<le> ps_nblocks S (w_rel w)"
  with assms show "touches S (span_of (unat start) (unat rpp * unat stride) (length bytes))
    (write_chain_at S skip start bytes stride rpp n) w
    (\<lambda>r. stores S r (unat start) (unat rpp * unat stride) bytes)"
    by (intro write_chain_touches) (auto dest: order_less_le_trans)
qed (auto intro: stores_agree)

end

end
