(* ===== verification/Writer.thy ===== *)
theory Writer
  imports Chains
begin

text \<open>
  Whole-file rewrites (\<open>src/index/relfile.rs\<close>): \<open>write_full_inner_with_tombstones\<close> for the
  flat, IVF and graph kinds, \<open>write_full_bq_parts\<close> for the 1-bit kind, the in-place
  \<open>write_tombstones_and_meta\<close> and \<open>write_meta_shrink_in_place\<close>.  All of them write every chain
  first and the meta page last.  The derived codebook (\<open>turbovec::expected_codebook\<close>) is a
  parameter: the crate that computes it is not part of the repository.  The flag \<open>skip\<close> is
  \<open>skip_unchanged_enabled()\<close>, true outside the test build.
\<close>

section \<open>The parts of an index\<close>

record prepared =
  tqplus_shift :: "f32_bits list"
  tqplus_scale :: "f32_bits list"

record ivf_parts =
  ip_lists :: u32
  ip_coarse_centroids :: "f32_bits list"
  ip_cell_dir_bytes :: "u8 list"
  ip_colbert :: bool

record graph_parts =
  gp_offsets_bytes :: "u8 list"
  gp_neighbors_bytes :: "u8 list"
  gp_entry_point :: u32

definition len64 :: "'a list \<Rightarrow> u64" where "len64 xs = of_nat (length xs)"

definition tqplus_chain_len :: "prepared \<Rightarrow> u64" where
  "tqplus_chain_len p =
     (if tqplus_shift p = [] \<or> tqplus_scale p = [] then 0
      else of_nat (4 * length (tqplus_shift p) + 4 * length (tqplus_scale p)))"

definition tqplus_chain_bytes :: "prepared \<Rightarrow> u8 list" where
  "tqplus_chain_bytes p =
     (if tqplus_shift p = [] \<or> tqplus_scale p = [] then []
      else f32s_bytes (tqplus_shift p @ tqplus_scale p))"

section \<open>The guard at the persist site\<close>

fun persist_check :: "nat \<Rightarrow> u64 list \<Rightarrow> u64 list \<Rightarrow> exn option" where
  "persist_check slot seen [] = None"
| "persist_check slot seen (i # ids) =
     (if i = 0 then Some (PersistIdZero slot)
      else if i \<in> set seen then Some (PersistDuplicate i slot)
      else persist_check (Suc slot) (i # seen) ids)"

definition persist_guard ::
  "u64 \<Rightarrow> f32_bits list \<Rightarrow> u64 list \<Rightarrow> bool \<Rightarrow> ('r, unit) io" where
  "persist_guard n_vectors scales slot_to_id bijective =
     seq_io (assert_io (len64 slot_to_id = n_vectors))
     (seq_io (assert_io (len64 scales = n_vectors))
       (if bijective \<and> 0 < n_vectors
        then (case persist_check 0 [] slot_to_id of None \<Rightarrow> ret () | Some e \<Rightarrow> raise e)
        else ret ()))"

section \<open>Planning a rewrite\<close>

definition after_all_chains :: "meta \<Rightarrow> u32" where
  "after_all_chains m = 1 + m_codes_count m + m_scales_count m + m_ids_count m + m_blocked_count m
     + m_rotation_count m + m_coarse_count m + m_cell_dir_count m + m_graph_count m
     + m_bq_mean_count m"

definition plan_tombstones :: "u8 list \<Rightarrow> meta \<Rightarrow> meta" where
  "plan_tombstones tombs m =
     (if tombs = [] then m
      else m\<lparr>m_tombstone_first := after_all_chains m, m_tombstone_bytes := len64 tombs,
             m_tombstone_count := byte_pages_needed (len64 tombs)\<rparr>)"

definition plan_ivf :: "ivf_parts option \<Rightarrow> u32 \<Rightarrow> meta \<Rightarrow> meta" where
  "plan_ivf ivf degraded_lists m =
     (case ivf of
        Some iv \<Rightarrow>
          (let m' = set_ivf_chains (ip_lists iv) (of_nat (4 * length (ip_coarse_centroids iv)))
                      (len64 (ip_cell_dir_bytes iv)) m
           in if ip_colbert iv then mark_colbert m' else m')
      | None \<Rightarrow>
          if 0 < degraded_lists then m\<lparr>m_lists := degraded_lists, m_ivf_degraded := True\<rparr> else m)"

definition plan_graph :: "graph_parts option \<Rightarrow> meta \<Rightarrow> meta" where
  "plan_graph graph m =
     (case graph of
        None \<Rightarrow> m
      | Some g \<Rightarrow> set_graph_chain (len64 (gp_offsets_bytes g)) (len64 (gp_neighbors_bytes g))
                    (gp_entry_point g) m)"

type_synonym codebook_fn = "nat \<Rightarrow> nat \<Rightarrow> f32_bits list \<times> f32_bits list"

text \<open>The meta page of a rewrite; \<open>None\<close> is a failed assertion of a planner.\<close>

definition plan_full ::
  "codebook_fn \<Rightarrow> u8 \<Rightarrow> u32 \<Rightarrow> u64 \<Rightarrow> u32 \<Rightarrow> prepared option \<Rightarrow> ivf_parts option \<Rightarrow>
   graph_parts option \<Rightarrow> u8 list \<Rightarrow> u32 \<Rightarrow> meta option" where
  "plan_full expected_codebook bit_width dim n_vectors am_version prepared ivf graph tombs degraded_lists =
     Option.bind
       (plan_with_blocked bit_width dim n_vectors am_version 0 0
          (case prepared of Some p \<Rightarrow> tqplus_chain_len p | None \<Rightarrow> 0)) (\<lambda>m.
     Option.bind
       (case prepared of
          None \<Rightarrow> Some m
        | Some p \<Rightarrow>
            (case expected_codebook (unat bit_width) (unat dim) of (boundaries, centroids) \<Rightarrow>
              set_codebook centroids boundaries m)) (\<lambda>m.
     Some (plan_tombstones tombs (plan_graph graph (plan_ivf ivf degraded_lists m)))))"

section \<open>Writing the chains\<close>

definition write_byte_chain :: "'r pstore \<Rightarrow> bool \<Rightarrow> u32 \<Rightarrow> u8 list \<Rightarrow> ('r, unit) io" where
  "write_byte_chain S skip first bytes =
     write_chain_at S skip first bytes 1 (of_nat PAYLOAD_BYTES) (len64 bytes)"

definition write_row_chains ::
  "'r pstore \<Rightarrow> bool \<Rightarrow> meta \<Rightarrow> u64 \<Rightarrow> u8 list \<Rightarrow> f32_bits list \<Rightarrow> u64 list \<Rightarrow> ('r, unit) io" where
  "write_row_chains S skip m n_vectors packed_codes scales slot_to_id =
     seq_io (write_chain_at S skip (m_codes_first m) packed_codes (m_stride_bytes m)
               (m_rows_per_codes_page m) n_vectors)
     (seq_io (write_chain_at S skip (m_scales_first m) (f32s_bytes scales) 4
               (m_rows_per_scales_page m) n_vectors)
             (write_chain_at S skip (m_ids_first m) (u64s_bytes slot_to_id) 8
               (m_rows_per_ids_page m) n_vectors))"

definition write_tqplus :: "'r pstore \<Rightarrow> bool \<Rightarrow> meta \<Rightarrow> prepared option \<Rightarrow> ('r, unit) io" where
  "write_tqplus S skip m prepared =
     (case prepared of
        None \<Rightarrow> ret ()
      | Some p \<Rightarrow> when_io (tqplus_chain_bytes p \<noteq> [])
          (write_byte_chain S skip (m_rotation_first m) (tqplus_chain_bytes p)))"

definition write_ivf :: "'r pstore \<Rightarrow> bool \<Rightarrow> meta \<Rightarrow> ivf_parts option \<Rightarrow> ('r, unit) io" where
  "write_ivf S skip m ivf =
     (case ivf of
        None \<Rightarrow> ret ()
      | Some iv \<Rightarrow>
          seq_io (when_io (0 < ip_lists iv \<and> ip_coarse_centroids iv \<noteq> [])
                   (write_byte_chain S skip (m_coarse_first m) (f32s_bytes (ip_coarse_centroids iv))))
                 (when_io (0 < ip_lists iv \<and> ip_cell_dir_bytes iv \<noteq> [])
                   (write_byte_chain S skip (m_cell_dir_first m) (ip_cell_dir_bytes iv))))"

definition write_graph :: "'r pstore \<Rightarrow> bool \<Rightarrow> meta \<Rightarrow> graph_parts option \<Rightarrow> ('r, unit) io" where
  "write_graph S skip m graph =
     (case graph of
        None \<Rightarrow> ret ()
      | Some g \<Rightarrow> when_io (gp_offsets_bytes g \<noteq> [] \<or> gp_neighbors_bytes g \<noteq> [])
          (write_byte_chain S skip (m_graph_first m) (gp_offsets_bytes g @ gp_neighbors_bytes g)))"

definition write_all_chains ::
  "'r pstore \<Rightarrow> bool \<Rightarrow> meta \<Rightarrow> u64 \<Rightarrow> u8 list \<Rightarrow> f32_bits list \<Rightarrow> u64 list \<Rightarrow> prepared option \<Rightarrow>
   ivf_parts option \<Rightarrow> graph_parts option \<Rightarrow> u8 list \<Rightarrow> ('r, unit) io" where
  "write_all_chains S skip m n_vectors packed_codes scales slot_to_id prepared ivf graph tombs =
     seq_io (write_row_chains S skip m n_vectors packed_codes scales slot_to_id)
     (seq_io (write_tqplus S skip m prepared)
     (seq_io (write_ivf S skip m ivf)
     (seq_io (write_graph S skip m graph)
             (when_io (tombs \<noteq> []) (write_byte_chain S skip (m_tombstone_first m) tombs)))))"

text \<open>The tail of a rewrite: the meta page, then the truncation, then the lock.\<close>

definition commit_rewrite :: "'r pstore \<Rightarrow> meta \<Rightarrow> u32 \<Rightarrow> ('r, unit) io" where
  "commit_rewrite S m new_total =
     seq_io (write_meta S m)
     (seq_io (bind_io (nblocks S) (\<lambda>existing_after.
               when_io (unat new_total < existing_after) (relation_truncate S (unat new_total))))
       unlock_relfile_write)"

definition write_full_inner_with_tombstones ::
  "codebook_fn \<Rightarrow> 'r pstore \<Rightarrow> bool \<Rightarrow> u8 \<Rightarrow> u32 \<Rightarrow> u64 \<Rightarrow> u8 list \<Rightarrow> f32_bits list \<Rightarrow> u64 list \<Rightarrow>
   u32 \<Rightarrow> prepared option \<Rightarrow> ivf_parts option \<Rightarrow> graph_parts option \<Rightarrow> u8 list option \<Rightarrow> u32 \<Rightarrow>
   ('r, unit) io" where
  "write_full_inner_with_tombstones expected_codebook S skip bit_width dim n_vectors packed_codes
     scales slot_to_id am_version prepared ivf graph tombstones degraded_lists =
     seq_io (persist_guard n_vectors scales slot_to_id (ivf = None \<and> graph = None))
     (seq_io lock_relfile_write
     (bind_io (option_io AssertFailed
         (plan_full expected_codebook bit_width dim n_vectors am_version prepared ivf graph
           (case tombstones of None \<Rightarrow> [] | Some t \<Rightarrow> t) degraded_lists)) (\<lambda>m.
       let new_total = max (total_blocks m) 1 in
       seq_io (bind_io (nblocks S) (\<lambda>existing_before.
                when_io (existing_before < unat new_total) (extend_to S new_total)))
       (seq_io (when_io (0 < n_vectors)
                 (write_all_chains S skip m n_vectors packed_codes scales slot_to_id prepared ivf graph
                   (case tombstones of None \<Rightarrow> [] | Some t \<Rightarrow> t)))
               (commit_rewrite S m new_total)))))"

definition write_full_inner ::
  "codebook_fn \<Rightarrow> 'r pstore \<Rightarrow> bool \<Rightarrow> u8 \<Rightarrow> u32 \<Rightarrow> u64 \<Rightarrow> u8 list \<Rightarrow> f32_bits list \<Rightarrow> u64 list \<Rightarrow>
   u32 \<Rightarrow> prepared option \<Rightarrow> ivf_parts option \<Rightarrow> graph_parts option \<Rightarrow> u32 \<Rightarrow> ('r, unit) io" where
  "write_full_inner expected_codebook S skip bit_width dim n_vectors packed_codes scales slot_to_id
     am_version prepared ivf graph degraded_lists =
     write_full_inner_with_tombstones expected_codebook S skip bit_width dim n_vectors packed_codes
       scales slot_to_id am_version prepared ivf graph None degraded_lists"

section \<open>The 1-bit writer\<close>

definition plan_bq_parts ::
  "u32 \<Rightarrow> u64 \<Rightarrow> u32 \<Rightarrow> ivf_parts option \<Rightarrow> u8 list \<Rightarrow> u32 \<Rightarrow> meta \<Rightarrow> meta" where
  "plan_bq_parts dim n_vectors am_version ivf tombstones degraded_lists m =
     (let m = (case ivf of
          Some iv \<Rightarrow> set_ivf_chains (ip_lists iv) (of_nat (4 * length (ip_coarse_centroids iv)))
                      (len64 (ip_cell_dir_bytes iv)) m
        | None \<Rightarrow> if 0 < degraded_lists then m\<lparr>m_lists := degraded_lists, m_ivf_degraded := True\<rparr>
                  else m)
      in if 0 < n_vectors then plan_tombstones tombstones m else m)"

definition write_full_bq_parts ::
  "'r pstore \<Rightarrow> bool \<Rightarrow> u32 \<Rightarrow> u64 \<Rightarrow> u8 list \<Rightarrow> u64 list \<Rightarrow> f32_bits list \<Rightarrow> u32 \<Rightarrow>
   ivf_parts option \<Rightarrow> u8 list \<Rightarrow> u32 \<Rightarrow> ('r, unit) io" where
  "write_full_bq_parts S skip dim n_vectors packed_codes slot_to_id mean am_version ivf tombstones
     degraded_lists =
     bind_io (option_io AssertFailed (plan_bq dim n_vectors am_version)) (\<lambda>m0.
     seq_io (when_io (0 < n_vectors)
       (seq_io (assert_io (len64 packed_codes = n_vectors * ucast (m_stride_bytes m0)))
       (seq_io (assert_io (len64 slot_to_id = n_vectors))
               (assert_io (length mean = unat dim)))))
     (seq_io (assert_io (case ivf of None \<Rightarrow> True | Some iv \<Rightarrow> \<not> ip_colbert iv))
     (let m = plan_bq_parts dim n_vectors am_version ivf tombstones degraded_lists m0 in
      seq_io (extend_to S (max (total_blocks m) 1))
      (if 0 < n_vectors
       then seq_io (write_chain_at S skip (m_codes_first m) packed_codes (m_stride_bytes m)
                     (m_rows_per_codes_page m) n_vectors)
            (seq_io (write_chain_at S skip (m_ids_first m) (u64s_bytes slot_to_id) 8
                     (m_rows_per_ids_page m) n_vectors)
            (seq_io (write_byte_chain S skip (m_bq_mean_first m) (f32s_bytes mean))
            (seq_io (write_ivf S skip m ivf)
            (seq_io (when_io (0 < m_tombstone_count m)
                      (write_chain_at S skip (m_tombstone_first m) tombstones 1
                        (of_nat PAYLOAD_BYTES) (m_tombstone_bytes m)))
                    (write_meta S m)))))
       else write_meta S (m\<lparr>m_bq_mean_first := 0, m_bq_mean_count := 0, m_bq_mean_bytes := 0\<rparr>)))))"

section \<open>In-place meta changes\<close>

definition write_tombstones_and_meta ::
  "'r pstore \<Rightarrow> bool \<Rightarrow> meta \<Rightarrow> u8 list \<Rightarrow> u32 \<Rightarrow> ('r, unit) io" where
  "write_tombstones_and_meta S skip old bitmap new_am_version =
     (let tombstone_bytes = len64 bitmap;
          tombstone_count = byte_pages_needed tombstone_bytes;
          tombstone_first =
            (if m_tombstone_first old \<noteq> 0 then m_tombstone_first old else after_all_chains old);
          needed_total = tombstone_first + tombstone_count
      in seq_io (bind_io (nblocks S) (\<lambda>nb.
                  when_io (nb < unat needed_total) (extend_to S needed_total)))
         (seq_io (when_io (0 < tombstone_bytes)
                   (write_byte_chain S skip tombstone_first bitmap))
                 (write_meta S (old\<lparr>m_am_version := new_am_version,
                    m_tombstone_first := tombstone_first, m_tombstone_count := tombstone_count,
                    m_tombstone_bytes := tombstone_bytes\<rparr>))))"

definition shrink_meta :: "meta \<Rightarrow> u64 \<Rightarrow> u32 \<Rightarrow> meta" where
  "shrink_meta old new_n_vectors new_am_version =
     old\<lparr>m_n_vectors := new_n_vectors, m_am_version := new_am_version,
       m_codes_count := padded_pages_needed new_n_vectors (m_rows_per_codes_page old),
       m_scales_count := padded_pages_needed new_n_vectors (m_rows_per_scales_page old),
       m_ids_count := padded_pages_needed new_n_vectors (m_rows_per_ids_page old),
       m_blocked_first := 0, m_blocked_count := 0, m_blocked_bytes := 0,
       m_n_blocks_blocked := 0, m_codebook_n_levels := 0,
       m_centroids := replicate MAX_CODEBOOK_LEVELS 0,
       m_boundaries := replicate (MAX_CODEBOOK_LEVELS - 1) 0,
       m_ivf_degraded := index_was_ivf old\<rparr>"

definition write_meta_shrink_in_place :: "'r pstore \<Rightarrow> meta \<Rightarrow> u64 \<Rightarrow> u32 \<Rightarrow> ('r, unit) io" where
  "write_meta_shrink_in_place S old new_n_vectors new_am_version =
     write_meta S (shrink_meta old new_n_vectors new_am_version)"

definition truncate_ids_tail :: "'r pstore \<Rightarrow> meta \<Rightarrow> ('r, unit) io" where
  "truncate_ids_tail S m =
     (if m_n_vectors m = 0 \<and> m_ids_first m = 0 then ret ()
      else let new_total = m_ids_first m + padded_pages_needed (m_n_vectors m) (m_rows_per_ids_page m)
           in bind_io (nblocks S) (\<lambda>cur.
                when_io (unat new_total < cur) (relation_truncate S (unat new_total))))"

end
