(* ===== verification/Rewrite.thy ===== *)
theory Rewrite
  imports Writer
begin

text \<open>
  What the writers guarantee.  The planners keep every chain inside its own range of blocks; a
  rewrite that returns leaves the planned meta page and every chain on disk; a rewrite that is
  cancelled leaves the meta page as it was.
\<close>

section \<open>The planned meta page\<close>

definition meta_frame :: "meta \<Rightarrow> meta \<Rightarrow> bool" where
  "meta_frame m m' \<longleftrightarrow> m_version m' = m_version m \<and> m_dim m' = m_dim m \<and>
     m_n_vectors m' = m_n_vectors m \<and> m_am_version m' = m_am_version m \<and>
     m_stride_bytes m' = m_stride_bytes m \<and> m_rows_per_codes_page m' = m_rows_per_codes_page m \<and>
     m_rows_per_scales_page m' = m_rows_per_scales_page m \<and>
     m_rows_per_ids_page m' = m_rows_per_ids_page m \<and>
     m_codes_first m' = m_codes_first m \<and> m_codes_count m' = m_codes_count m \<and>
     m_scales_first m' = m_scales_first m \<and> m_scales_count m' = m_scales_count m \<and>
     m_ids_first m' = m_ids_first m \<and> m_ids_count m' = m_ids_count m \<and>
     m_blocked_count m' = m_blocked_count m \<and>
     m_rotation_first m' = m_rotation_first m \<and> m_rotation_count m' = m_rotation_count m \<and>
     m_rotation_dim m' = m_rotation_dim m \<and>
     m_codebook_n_levels m' = m_codebook_n_levels m \<and> m_centroids m' = m_centroids m \<and>
     m_boundaries m' = m_boundaries m"

lemma meta_frame_refl [simp]: "meta_frame m m"
  by (simp add: meta_frame_def)

lemma meta_frame_trans: "meta_frame m1 m2 \<Longrightarrow> meta_frame m2 m3 \<Longrightarrow> meta_frame m1 m3"
  by (simp add: meta_frame_def)

lemma mark_colbert_frame [simp]:
  "chain_list (mark_colbert m) = chain_list m" "m_lists (mark_colbert m) = m_lists m"
  "m_version m = VERSION \<Longrightarrow> meta_frame m (mark_colbert m)"
  by (simp_all add: mark_colbert_def chain_list_def meta_frame_def)

lemma set_codebook_Some:
  assumes "set_codebook centroids boundaries m = Some m'"
  shows "chain_list m' = chain_list m" "m_version m' = m_version m" "m_lists m' = m_lists m"
    "m_n_vectors m' = m_n_vectors m" "m_am_version m' = m_am_version m" "m_dim m' = m_dim m"
    "m_stride_bytes m' = m_stride_bytes m" "m_rows_per_codes_page m' = m_rows_per_codes_page m"
    "m_rows_per_scales_page m' = m_rows_per_scales_page m"
    "m_rows_per_ids_page m' = m_rows_per_ids_page m"
    "m_rotation_dim m' = m_rotation_dim m" "m_tombstone_bytes m' = m_tombstone_bytes m"
    "length (m_centroids m') = MAX_CODEBOOK_LEVELS"
    "length (m_boundaries m') = MAX_CODEBOOK_LEVELS - 1"
    "unat (m_codebook_n_levels m') \<le> MAX_CODEBOOK_LEVELS"
proof -
  from assms have le: "length centroids \<le> MAX_CODEBOOK_LEVELS" and b: "length boundaries + 1 = length centroids"
    and m': "m' = m\<lparr>m_codebook_n_levels := of_nat (length centroids),
                  m_centroids := blit 0 centroids (replicate MAX_CODEBOOK_LEVELS 0),
                  m_boundaries := blit 0 boundaries (replicate (MAX_CODEBOOK_LEVELS - 1) 0)\<rparr>"
    by (auto simp: set_codebook_def Let_def split: if_splits)
  show "chain_list m' = chain_list m" "m_version m' = m_version m" "m_lists m' = m_lists m"
    "m_n_vectors m' = m_n_vectors m" "m_am_version m' = m_am_version m" "m_dim m' = m_dim m"
    "m_stride_bytes m' = m_stride_bytes m" "m_rows_per_codes_page m' = m_rows_per_codes_page m"
    "m_rows_per_scales_page m' = m_rows_per_scales_page m"
    "m_rows_per_ids_page m' = m_rows_per_ids_page m"
    "m_rotation_dim m' = m_rotation_dim m" "m_tombstone_bytes m' = m_tombstone_bytes m"
    by (simp_all add: m' chain_list_def)
  show "length (m_centroids m') = MAX_CODEBOOK_LEVELS"
    "length (m_boundaries m') = MAX_CODEBOOK_LEVELS - 1"
    using le b by (simp_all add: m')
  have "unat (of_nat (length centroids) :: u32) = length centroids"
    using le by (simp add: unat_of_nat MAX_CODEBOOK_LEVELS_def)
  with le show "unat (m_codebook_n_levels m') \<le> MAX_CODEBOOK_LEVELS" by (simp add: m')
qed

lemma block_sum_cong: "chain_list m = chain_list m' \<Longrightarrow> block_sum m = block_sum m'"
  by (simp add: block_sum_def)

lemma packed_cong: "chain_list m = chain_list m' \<Longrightarrow> packed m = packed m'"
  by (simp add: packed_def)

lemma chain_list_eqD:
  assumes "chain_list m = chain_list m'"
  shows "m_codes_count m = m_codes_count m'" "m_scales_count m = m_scales_count m'"
    "m_ids_count m = m_ids_count m'" "m_rotation_count m = m_rotation_count m'"
    "m_coarse_count m = m_coarse_count m'" "m_cell_dir_count m = m_cell_dir_count m'"
    "m_tombstone_count m = m_tombstone_count m'" "m_graph_count m = m_graph_count m'"
  using assms by (auto simp: chain_list_def word_unat_eq_iff)

lemma fits_mono: "fits m' \<Longrightarrow> block_sum m \<le> block_sum m' \<Longrightarrow> fits m"
  by (simp add: fits_def)

lemma plan_tombstones_frame [simp]: "meta_frame m (plan_tombstones t m)"
  "m_lists (plan_tombstones t m) = m_lists m"
  by (simp_all add: plan_tombstones_def meta_frame_def)

lemma plan_tombstones_grows: "m_tombstone_count m = 0 \<Longrightarrow> block_sum m \<le> block_sum (plan_tombstones t m)"
  by (simp add: plan_tombstones_def block_sum_eq)

lemma unat_after_all_chains:
  "fits m \<Longrightarrow> m_tombstone_count m = 0 \<Longrightarrow> unat (after_all_chains m) = block_sum m"
  by (simp add: after_all_chains_def fits_def block_sum_eq unat_add_u32)

lemma plan_tombstones_packed:
  assumes "packed m" and "m_tombstone_count m = 0" and "fits (plan_tombstones t m)"
  shows "packed (plan_tombstones t m)"
proof (cases "t = []")
  case True
  with assms show ?thesis by (simp add: plan_tombstones_def)
next
  case False
  have "fits m" using assms(2,3) by (blast intro: fits_mono plan_tombstones_grows)
  with False assms(1,2) unat_after_all_chains [of m] show ?thesis
    by (simp add: plan_tombstones_def packed_def chain_list_def block_sum_eq)
qed

lemma plan_ivf_frame: "m_version m = VERSION \<Longrightarrow> meta_frame m (plan_ivf ivf d m)"
  by (auto simp: plan_ivf_def Let_def meta_frame_def mark_colbert_def split: option.split)

lemma plan_ivf_keeps:
  "m_tombstone_count (plan_ivf ivf d m) = m_tombstone_count m"
  "m_graph_count (plan_ivf ivf d m) = m_graph_count m"
  "m_bq_mean_count (plan_ivf ivf d m) = m_bq_mean_count m"
  by (auto simp: plan_ivf_def Let_def mark_colbert_def split: option.split)

lemma plan_ivf_grows:
  "m_coarse_count m = 0 \<Longrightarrow> m_cell_dir_count m = 0 \<Longrightarrow> block_sum m \<le> block_sum (plan_ivf ivf d m)"
  by (auto simp: plan_ivf_def Let_def mark_colbert_def block_sum_eq split: option.split)

lemma plan_ivf_packed:
  assumes "packed m" "m_graph_count m = 0" "m_tombstone_count m = 0" "fits (plan_ivf ivf d m)"
  shows "packed (plan_ivf ivf d m)"
proof (cases ivf)
  case None
  then have "chain_list (plan_ivf ivf d m) = chain_list m" by (simp add: plan_ivf_def chain_list_def)
  with assms show ?thesis by (simp add: packed_def)
next
  case (Some iv)
  define m1 where "m1 = set_ivf_chains (ip_lists iv) (of_nat (4 * length (ip_coarse_centroids iv)))
    (len64 (ip_cell_dir_bytes iv)) m"
  have "chain_list (plan_ivf ivf d m) = chain_list m1"
    using Some by (simp add: plan_ivf_def m1_def Let_def)
  moreover from this have "fits m1" using assms(4) by (simp add: fits_def block_sum_def)
  then have "packed m1" unfolding m1_def using assms by (intro set_ivf_packed)
  ultimately show ?thesis by (simp add: packed_def)
qed

lemma plan_graph_frame [simp]: "meta_frame m (plan_graph g m)" "m_lists (plan_graph g m) = m_lists m"
  by (auto simp: plan_graph_def meta_frame_def split: option.split)

lemma plan_graph_keeps [simp]:
  "m_tombstone_count (plan_graph g m) = m_tombstone_count m"
  "m_coarse_count (plan_graph g m) = m_coarse_count m"
  "m_cell_dir_count (plan_graph g m) = m_cell_dir_count m"
  "m_coarse_first (plan_graph g m) = m_coarse_first m"
  "m_cell_dir_first (plan_graph g m) = m_cell_dir_first m"
  by (auto simp: plan_graph_def split: option.split)

lemma plan_graph_grows: "m_graph_count m = 0 \<Longrightarrow> block_sum m \<le> block_sum (plan_graph g m)"
  by (auto simp: plan_graph_def block_sum_eq split: option.split)

lemma plan_graph_packed:
  assumes "packed m" "m_tombstone_count m = 0" "fits (plan_graph g m)"
  shows "packed (plan_graph g m)"
  using assms by (auto simp: plan_graph_def split: option.splits intro: set_graph_packed)

text \<open>The planned meta page of a rewrite, in one lemma: what the later proofs need of it.\<close>

lemma plan_full_SomeE:
  assumes "plan_full cb bw dim n v prepared ivf graph tombs d = Some m"
  obtains m0 m1 where
    "plan_with_blocked bw dim n v 0 0 (case prepared of Some p \<Rightarrow> tqplus_chain_len p | None \<Rightarrow> 0) = Some m0"
    "chain_list m1 = chain_list m0" "m_version m1 = VERSION" "encodable m1"
    "m_lists m1 = 0" "m_n_vectors m1 = n" "m_am_version m1 = v" "m_dim m1 = dim"
    "m_stride_bytes m1 = codes_stride bw dim" "m_tombstone_bytes m1 = 0"
    "m_rows_per_codes_page m1 = rows_per_page (codes_stride bw dim)"
    "m_rows_per_scales_page m1 = rows_per_page 4" "m_rows_per_ids_page m1 = rows_per_page 8"
    "m = plan_tombstones tombs (plan_graph graph (plan_ivf ivf d m1))"
proof -
  from assms obtain m0 m1 where
    p: "plan_with_blocked bw dim n v 0 0 (case prepared of Some p \<Rightarrow> tqplus_chain_len p | None \<Rightarrow> 0) = Some m0"
    and cb: "(case prepared of None \<Rightarrow> Some m0
        | Some p \<Rightarrow> (case cb (unat bw) (unat dim) of (boundaries, centroids) \<Rightarrow>
            set_codebook centroids boundaries m0)) = Some m1"
    and m: "m = plan_tombstones tombs (plan_graph graph (plan_ivf ivf d m1))"
    by (auto simp: plan_full_def bind_eq_Some_conv)
  note f = plan_fields [OF p] plan_absent [OF p]
  have e0: "encodable m0"
    by (simp add: encodable_def f(2) plan_absent(17-19) [OF p] MAX_CODEBOOK_LEVELS_def)
  show thesis
  proof (cases prepared)
    case None
    with cb have "m1 = m0" by simp
    with that p m e0 f show thesis by simp
  next
    case (Some pp)
    with cb obtain bs cs where s: "set_codebook cs bs m0 = Some m1"
      by (auto split: prod.splits)
    note c = set_codebook_Some [OF s]
    have "encodable m1" using c f(2) by (simp add: encodable_def)
    with that p m c f show thesis by simp
  qed
qed

lemma plan_full_meta:
  assumes p: "plan_full cb bw dim n v prepared ivf graph tombs d = Some m"
  shows "m_n_vectors m = n" "m_am_version m = v" "m_dim m = dim" "m_version m = VERSION"
    "m_stride_bytes m = codes_stride bw dim"
    "m_rows_per_codes_page m = rows_per_page (codes_stride bw dim)"
    "m_rows_per_scales_page m = rows_per_page 4" "m_rows_per_ids_page m = rows_per_page 8"
    "encodable m"
    "m_codes_count m = padded_pages_needed n (rows_per_page (codes_stride bw dim))"
    "m_scales_count m = padded_pages_needed n (rows_per_page 4)"
    "m_ids_count m = padded_pages_needed n (rows_per_page 8)"
    "m_rotation_count m =
       byte_pages_needed (case prepared of Some p \<Rightarrow> tqplus_chain_len p | None \<Rightarrow> 0)"
    "dim mod 8 = 0"
proof -
  from p obtain m0 m1 where
    p0: "plan_with_blocked bw dim n v 0 0 (case prepared of Some p \<Rightarrow> tqplus_chain_len p | None \<Rightarrow> 0) = Some m0"
    and c: "chain_list m1 = chain_list m0" "m_version m1 = VERSION" "encodable m1"
      "m_n_vectors m1 = n" "m_am_version m1 = v" "m_dim m1 = dim"
      "m_stride_bytes m1 = codes_stride bw dim"
      "m_rows_per_codes_page m1 = rows_per_page (codes_stride bw dim)"
      "m_rows_per_scales_page m1 = rows_per_page 4" "m_rows_per_ids_page m1 = rows_per_page 8"
    and m: "m = plan_tombstones tombs (plan_graph graph (plan_ivf ivf d m1))"
    by (rule plan_full_SomeE)
  have fr: "meta_frame m1 m"
    unfolding m
    by (rule meta_frame_trans [OF plan_ivf_frame [OF c(2)] meta_frame_trans
          [OF plan_graph_frame(1) plan_tombstones_frame(1)]])
  have cl: "m_codes_count m1 = m_codes_count m0" "m_scales_count m1 = m_scales_count m0"
    "m_ids_count m1 = m_ids_count m0" "m_rotation_count m1 = m_rotation_count m0"
    using chain_list_eqD [OF c(1)] by simp_all
  show "m_n_vectors m = n" "m_am_version m = v" "m_dim m = dim" "m_version m = VERSION"
    "m_stride_bytes m = codes_stride bw dim"
    "m_rows_per_codes_page m = rows_per_page (codes_stride bw dim)"
    "m_rows_per_scales_page m = rows_per_page 4" "m_rows_per_ids_page m = rows_per_page 8"
    using fr c by (simp_all add: meta_frame_def)
  show "m_codes_count m = padded_pages_needed n (rows_per_page (codes_stride bw dim))"
    "m_scales_count m = padded_pages_needed n (rows_per_page 4)"
    "m_ids_count m = padded_pages_needed n (rows_per_page 8)"
    "m_rotation_count m =
       byte_pages_needed (case prepared of Some p \<Rightarrow> tqplus_chain_len p | None \<Rightarrow> 0)"
    using fr cl plan_fields [OF p0] by (simp_all add: meta_frame_def)
  show "encodable m"
    using fr c(3) by (simp add: encodable_def meta_frame_def)
  show "dim mod 8 = 0" by (rule plan_fields(1) [OF p0])
qed

lemma plan_full_parts:
  assumes p: "plan_full cb bw dim n v prepared ivf graph tombs d = Some m"
  shows "ivf = Some iv \<Longrightarrow> 0 < ip_lists iv \<Longrightarrow>
      m_coarse_count m = byte_pages_needed (of_nat (4 * length (ip_coarse_centroids iv))) \<and>
      m_cell_dir_count m = byte_pages_needed (len64 (ip_cell_dir_bytes iv)) \<and>
      m_lists m = ip_lists iv"
    "graph = Some g \<Longrightarrow>
      m_graph_count m = byte_pages_needed (len64 (gp_offsets_bytes g) + len64 (gp_neighbors_bytes g))"
    "tombs \<noteq> [] \<Longrightarrow> m_tombstone_count m = byte_pages_needed (len64 tombs) \<and>
      m_tombstone_bytes m = len64 tombs"
proof -
  from p obtain m1 where m: "m = plan_tombstones tombs (plan_graph graph (plan_ivf ivf d m1))"
    by (rule plan_full_SomeE)
  show "ivf = Some iv \<Longrightarrow> 0 < ip_lists iv \<Longrightarrow>
      m_coarse_count m = byte_pages_needed (of_nat (4 * length (ip_coarse_centroids iv))) \<and>
      m_cell_dir_count m = byte_pages_needed (len64 (ip_cell_dir_bytes iv)) \<and>
      m_lists m = ip_lists iv"
    by (auto simp: m plan_tombstones_def plan_ivf_def Let_def mark_colbert_def set_ivf_fields)
  show "graph = Some g \<Longrightarrow>
      m_graph_count m = byte_pages_needed (len64 (gp_offsets_bytes g) + len64 (gp_neighbors_bytes g))"
    by (auto simp: m plan_tombstones_def plan_graph_def set_graph_fields)
  show "tombs \<noteq> [] \<Longrightarrow> m_tombstone_count m = byte_pages_needed (len64 tombs) \<and>
      m_tombstone_bytes m = len64 tombs"
    by (simp add: m plan_tombstones_def)
qed

lemma plan_full_packed:
  assumes p: "plan_full cb bw dim n v prepared ivf graph tombs d = Some m" and f: "fits m"
  shows "packed m"
proof -
  from p obtain m0 m1 where
    p0: "plan_with_blocked bw dim n v 0 0 (case prepared of Some p \<Rightarrow> tqplus_chain_len p | None \<Rightarrow> 0) = Some m0"
    and c: "chain_list m1 = chain_list m0"
    and m: "m = plan_tombstones tombs (plan_graph graph (plan_ivf ivf d m1))"
    by (rule plan_full_SomeE)
  have z0: "m_coarse_count m1 = 0" "m_cell_dir_count m1 = 0" "m_tombstone_count m1 = 0" "m_graph_count m1 = 0"
    using chain_list_eqD [OF c] plan_absent [OF p0] by simp_all
  note z = z0 plan_ivf_keeps
  define m2 where "m2 = plan_ivf ivf d m1"
  define m3 where "m3 = plan_graph graph m2"
  have mz: "m_tombstone_count m2 = 0" "m_graph_count m2 = 0" "m_tombstone_count m3 = 0"
    by (simp_all add: m3_def m2_def z)
  have f3: "fits m3" using f plan_tombstones_grows [OF mz(3), of tombs] by (auto simp: m m3_def m2_def intro: fits_mono)
  then have f2: "fits m2" unfolding m3_def using plan_graph_grows [OF mz(2), of graph] by (rule fits_mono)
  then have f1: "fits m1" unfolding m2_def using plan_ivf_grows [OF z0(1,2)] by (rule fits_mono)
  then have "fits m0" using c by (simp add: fits_def block_sum_def)
  then have "packed m1" using plan_packed [OF p0] c by (simp add: packed_def)
  then have "packed m2" unfolding m2_def using z f2 m2_def by (intro plan_ivf_packed) simp_all
  then have "packed m3" unfolding m3_def using mz f3 m3_def by (intro plan_graph_packed) simp_all
  then show ?thesis using mz f by (simp add: m m3_def m2_def plan_tombstones_packed)
qed

section \<open>Regions of a planned file\<close>

definition region :: "meta \<Rightarrow> nat \<Rightarrow> nat set" where
  "region m i = {b. in_chain b (chain_list m ! i)}"

lemma region_disjoint: "packed m \<Longrightarrow> i < 10 \<Longrightarrow> j < 10 \<Longrightarrow> i \<noteq> j \<Longrightarrow> region m i \<inter> region m j = {}"
  using packed_disjoint [of m i j] by (auto simp: region_def chain_list_def)

lemma region_in_file:
  assumes "packed m" and "i < 10" and "b \<in> region m i"
  shows "0 < b \<and> b < block_sum m"
proof (rule packed_in_file [OF assms(1)])
  show "chain_list m ! i \<in> set (chain_list m)"
    using assms(2) by (intro nth_mem) (simp add: chain_list_def)
qed (use assms(3) in \<open>simp add: region_def\<close>)

lemma nat_div_ceil_cancel:
  assumes "0 < s" and "0 < r"
  shows "nat_div_ceil (n * s) (r * s) = nat_div_ceil n r"
proof -
  have "nat_div_ceil (n * s) (r * s) \<le> k \<longleftrightarrow> nat_div_ceil n r \<le> k" for k
    using assms by (simp add: nat_div_ceil_le_iff mult.assoc [symmetric])
  then show ?thesis by (meson dual_order.refl order_antisym)
qed

lemma count_small: "fits m \<Longrightarrow> i < 10 \<Longrightarrow> snd (chain_list m ! i) < 4294967295"
proof -
  assume "fits m" and i: "i < 10"
  from i have "chain_list m ! i \<in> set (chain_list m)" by (intro nth_mem) (simp add: chain_list_def)
  then have "snd (chain_list m ! i) \<le> sum_list (map snd (chain_list m))"
    by (intro member_le_sum_list) simp_all
  with \<open>fits m\<close> show ?thesis by (simp add: fits_def block_sum_def)
qed

text \<open>A byte chain or a row chain that was planned has room inside its region.\<close>

lemma byte_span_region:
  assumes "chain_list m ! i = (unat first, unat (byte_pages_needed (len64 bytes)))" and "i < 10"
    and "fits m" and "length bytes < 2 ^ 64"
  shows "span_of (unat first) PAYLOAD_BYTES (length bytes) \<subseteq> region m i"
proof -
  have "unat (byte_pages_needed (len64 bytes)) < 4294967295"
    using count_small [OF assms(3,2)] assms(1) by simp
  then have "nat_div_ceil (length bytes) PAYLOAD_BYTES = unat (byte_pages_needed (len64 bytes))"
    using assms(4) by (subst byte_pages_room [symmetric]) (simp_all add: len64_def unat_of_nat)
  moreover have "0 < PAYLOAD_BYTES" by (simp add: PAYLOAD_BYTES_eq)
  ultimately show ?thesis using assms(1) by (auto simp: span_of_bound region_def in_chain_def)
qed

lemma rows_per_page_pos:
  assumes "stride \<noteq> 0" and "unat stride \<le> PAYLOAD_BYTES"
  shows "rows_per_page stride \<noteq> 0" "unat (rows_per_page stride) * unat stride \<le> PAYLOAD_BYTES"
proof -
  have u: "unat (rows_per_page stride) = PAYLOAD_BYTES div unat stride"
    using assms(1) by (simp add: rows_per_page_def unat_div PAYLOAD_BYTES_eq)
  have "0 < unat stride" using assms(1) by (simp add: unat_gt_0)
  with u assms(2) have "0 < unat (rows_per_page stride)" by (simp add: div_greater_zero_iff)
  then show "rows_per_page stride \<noteq> 0" by (simp add: unat_gt_0)
  show "unat (rows_per_page stride) * unat stride \<le> PAYLOAD_BYTES" using u by simp
qed

lemma row_span_region:
  assumes "chain_list m ! i = (unat first, unat (padded_pages_needed n (rows_per_page stride)))" and "i < 10"
    and "fits m" and "length bytes = unat n * unat stride"
    and "stride \<noteq> 0" and "unat stride \<le> PAYLOAD_BYTES"
  shows "span_of (unat first) (unat (rows_per_page stride) * unat stride) (length bytes) \<subseteq> region m i"
proof -
  note rp = rows_per_page_pos [OF assms(5,6)]
  have pos: "0 < unat (rows_per_page stride)" "0 < unat stride" using rp assms(5) by (auto simp: unat_gt_0)
  have "unat (padded_pages_needed n (rows_per_page stride)) < 4294967295"
    using count_small [OF assms(3,2)] assms(1) by simp
  from padded_pages_room [OF this rp(1)]
  have "nat_div_ceil (length bytes) (unat (rows_per_page stride) * unat stride)
      \<le> unat (padded_pages_needed n (rows_per_page stride))"
    using pos by (simp add: assms(4) nat_div_ceil_cancel)
  moreover have "0 < unat (rows_per_page stride) * unat stride" using pos by simp
  ultimately show ?thesis using assms(1) by (auto simp: span_of_bound region_def in_chain_def)
qed

section \<open>A rewrite puts every chain on disk\<close>

text \<open>
  The arguments of a rewrite are as its callers make them: one row of codes, one scale and one id per
  vector, a row that fits a page, and buffers that fit in memory.
\<close>

definition rewrite_inputs ::
  "u8 \<Rightarrow> u32 \<Rightarrow> u64 \<Rightarrow> u8 list \<Rightarrow> prepared option \<Rightarrow> ivf_parts option \<Rightarrow> graph_parts option \<Rightarrow>
   u8 list \<Rightarrow> bool" where
  "rewrite_inputs bw dim n codes prepared ivf graph tombs \<longleftrightarrow>
     codes_stride bw dim \<noteq> 0 \<and> unat (codes_stride bw dim) \<le> PAYLOAD_BYTES \<and>
     length codes = unat n * unat (codes_stride bw dim) \<and>
     (case prepared of None \<Rightarrow> True
      | Some p \<Rightarrow> 4 * length (tqplus_shift p) + 4 * length (tqplus_scale p) < 2 ^ 64) \<and>
     (case ivf of None \<Rightarrow> True
      | Some iv \<Rightarrow> 4 * length (ip_coarse_centroids iv) < 2 ^ 64 \<and> length (ip_cell_dir_bytes iv) < 2 ^ 64) \<and>
     (case graph of None \<Rightarrow> True
      | Some g \<Rightarrow> length (gp_offsets_bytes g) + length (gp_neighbors_bytes g) < 2 ^ 64) \<and>
     length tombs < 2 ^ 64"

text \<open>What a completed rewrite leaves on disk, chain by chain.\<close>

definition rows_stored ::
  "'r pstore \<Rightarrow> meta \<Rightarrow> u8 list \<Rightarrow> f32_bits list \<Rightarrow> u64 list \<Rightarrow> 'r \<Rightarrow> bool" where
  "rows_stored S m codes scales ids r \<longleftrightarrow>
     stores S r (unat (m_codes_first m)) (unat (m_rows_per_codes_page m) * unat (m_stride_bytes m)) codes \<and>
     stores S r (unat (m_scales_first m)) (unat (m_rows_per_scales_page m) * 4) (f32s_bytes scales) \<and>
     stores S r (unat (m_ids_first m)) (unat (m_rows_per_ids_page m) * 8) (u64s_bytes ids)"

definition parts_stored ::
  "'r pstore \<Rightarrow> meta \<Rightarrow> prepared option \<Rightarrow> ivf_parts option \<Rightarrow> graph_parts option \<Rightarrow> u8 list \<Rightarrow>
   'r \<Rightarrow> bool" where
  "parts_stored S m prepared ivf graph tombs r \<longleftrightarrow>
     (\<forall>p. prepared = Some p \<longrightarrow>
        stores S r (unat (m_rotation_first m)) PAYLOAD_BYTES (tqplus_chain_bytes p)) \<and>
     (\<forall>iv. ivf = Some iv \<and> 0 < ip_lists iv \<longrightarrow>
        stores S r (unat (m_coarse_first m)) PAYLOAD_BYTES (f32s_bytes (ip_coarse_centroids iv)) \<and>
        stores S r (unat (m_cell_dir_first m)) PAYLOAD_BYTES (ip_cell_dir_bytes iv)) \<and>
     (\<forall>g. graph = Some g \<longrightarrow>
        stores S r (unat (m_graph_first m)) PAYLOAD_BYTES (gp_offsets_bytes g @ gp_neighbors_bytes g)) \<and>
     stores S r (unat (m_tombstone_first m)) PAYLOAD_BYTES tombs"

lemma unat_PAYLOAD [simp]: "unat (of_nat PAYLOAD_BYTES :: u32) = PAYLOAD_BYTES"
  by (simp add: PAYLOAD_BYTES_eq)

lemma PAYLOAD_nonzero [simp]: "(of_nat PAYLOAD_BYTES :: u32) \<noteq> 0"
  by (simp add: PAYLOAD_BYTES_eq)

lemma unat_len64 [simp]: "length xs < 2 ^ 64 \<Longrightarrow> unat (len64 xs) = length xs"
  by (simp add: len64_def unat_of_nat)

lemma len64_nonzero: "length xs < 2 ^ 64 \<Longrightarrow> xs \<noteq> [] \<Longrightarrow> len64 xs \<noteq> 0"
  using unat_len64 [of xs] by (metis length_0_conv unat_0)

context page_store
begin

lemma fills_byte_chain:
  assumes "chain_list m ! i = (unat first, unat (byte_pages_needed (len64 bytes)))" and "i < 10"
    and "packed m" and "fits m" and len: "length bytes < 2 ^ 64" and "block_sum m \<le> N"
  shows "fills S N (region m i) (\<lambda>r. stores S r (unat first) PAYLOAD_BYTES bytes)
    (write_byte_chain S skip first bytes)"
proof -
  note sub = byte_span_region [OF assms(1,2,4,5)]
  have "fills S N (span_of (unat first) (unat (of_nat PAYLOAD_BYTES :: u32) * unat (1 :: u32)) (length bytes))
    (\<lambda>r. stores S r (unat first) (unat (of_nat PAYLOAD_BYTES :: u32) * unat (1 :: u32)) bytes)
    (write_chain_at S skip first bytes 1 (of_nat PAYLOAD_BYTES) (len64 bytes))"
  proof (rule fills_chain)
    fix b assume "b \<in> span_of (unat first) (unat (of_nat PAYLOAD_BYTES :: u32) * unat (1 :: u32)) (length bytes)"
    with sub have "b \<in> region m i" by auto
    with region_in_file [OF assms(3,2)] assms(6) show "b < N" by fastforce
  qed (use len len64_nonzero in \<open>auto simp del: of_nat_numeral\<close>)
  then show ?thesis using sub by (simp add: write_byte_chain_def fills_widen)
qed

lemma fills_row_chain:
  assumes "chain_list m ! i = (unat first, unat (padded_pages_needed n (rows_per_page stride)))" and "i < 10"
    and "packed m" and "fits m" and len: "length bytes = unat n * unat stride"
    and st: "stride \<noteq> 0" "unat stride \<le> PAYLOAD_BYTES" and "block_sum m \<le> N"
  shows "fills S N (region m i)
    (\<lambda>r. stores S r (unat first) (unat (rows_per_page stride) * unat stride) bytes)
    (write_chain_at S skip first bytes stride (rows_per_page stride) n)"
proof -
  note sub = row_span_region [OF assms(1,2,4,5,6,7)]
  have "fills S N (span_of (unat first) (unat (rows_per_page stride) * unat stride) (length bytes))
    (\<lambda>r. stores S r (unat first) (unat (rows_per_page stride) * unat stride) bytes)
    (write_chain_at S skip first bytes stride (rows_per_page stride) n)"
  proof (rule fills_chain)
    fix b assume "b \<in> span_of (unat first) (unat (rows_per_page stride) * unat stride) (length bytes)"
    with sub have "b \<in> region m i" by auto
    with region_in_file [OF assms(3,2)] assms(8) show "b < N" by fastforce
  qed (use len rows_per_page_pos [OF st] st in auto)
  then show ?thesis using sub by (rule fills_widen)
qed

lemma fills_when_part:
  assumes "b \<Longrightarrow> bytes \<noteq> [] \<Longrightarrow> fills S n X (\<lambda>r. stores S r f k bytes) c"
    and "c' = when_io (b \<and> bytes \<noteq> []) c"
  shows "fills S n X (\<lambda>r. b \<longrightarrow> stores S r f k bytes) c'"
proof (cases "b \<and> bytes \<noteq> []")
  case True
  with assms show ?thesis by simp
next
  case False
  then have "(b \<longrightarrow> stores S r f k bytes) = True" for r by auto
  moreover have "fills S n X (\<lambda>r. True) (ret ())" by (rule fills_widen [OF fills_ret]) simp
  ultimately show ?thesis using False assms(2) by auto
qed

lemma tqplus_chain_len64: "tqplus_chain_len p = len64 (tqplus_chain_bytes p)"
  by (simp add: tqplus_chain_len_def tqplus_chain_bytes_def len64_def mult.commute)

lemma fills_all_chains:
  assumes p: "plan_full cb bw dim n v prepared ivf graph tombs d = Some m" and f: "fits m"
    and inp: "rewrite_inputs bw dim n codes prepared ivf graph tombs"
    and len: "length scales = unat n" "length ids = unat n" and N: "block_sum m \<le> N"
  shows "fills S N {0<..<block_sum m}
    (\<lambda>r. rows_stored S m codes scales ids r \<and> parts_stored S m prepared ivf graph tombs r)
    (write_all_chains S skip m n codes scales ids prepared ivf graph tombs)"
proof -
  note me = plan_full_meta [OF p] and pa = plan_full_parts [OF p]
  have pk: "packed m" using p f by (rule plan_full_packed)
  note dis = region_disjoint [OF pk]
  have inp': "codes_stride bw dim \<noteq> 0" "unat (codes_stride bw dim) \<le> PAYLOAD_BYTES"
    "length codes = unat n * unat (codes_stride bw dim)" "length tombs < 2 ^ 64"
    "prepared = Some p \<Longrightarrow> length (tqplus_chain_bytes p) < 2 ^ 64" for p
    using inp by (auto simp: rewrite_inputs_def tqplus_chain_bytes_def mult.commute split: option.splits)
  have inp2: "ivf = Some iv \<Longrightarrow> length (f32s_bytes (ip_coarse_centroids iv)) < 2 ^ 64 \<and>
      length (ip_cell_dir_bytes iv) < 2 ^ 64"
    "graph = Some g \<Longrightarrow> length (gp_offsets_bytes g @ gp_neighbors_bytes g) < 2 ^ 64" for iv g
    using inp by (auto simp: rewrite_inputs_def mult.commute split: option.splits)
  have codes: "fills S N (region m 0)
      (\<lambda>r. stores S r (unat (m_codes_first m)) (unat (m_rows_per_codes_page m) * unat (m_stride_bytes m)) codes)
      (write_chain_at S skip (m_codes_first m) codes (m_stride_bytes m) (m_rows_per_codes_page m) n)"
    unfolding me(5,6) using pk f inp' N by (intro fills_row_chain) (simp_all add: chain_list_def me)
  have scales: "fills S N (region m 1)
      (\<lambda>r. stores S r (unat (m_scales_first m)) (unat (m_rows_per_scales_page m) * 4) (f32s_bytes scales))
      (write_chain_at S skip (m_scales_first m) (f32s_bytes scales) 4 (m_rows_per_scales_page m) n)"
    using fills_row_chain [of m 1 "m_scales_first m" n 4 "f32s_bytes scales" N skip] pk f len N
    by (simp add: chain_list_def me PAYLOAD_BYTES_eq)
  have ids: "fills S N (region m 2)
      (\<lambda>r. stores S r (unat (m_ids_first m)) (unat (m_rows_per_ids_page m) * 8) (u64s_bytes ids))
      (write_chain_at S skip (m_ids_first m) (u64s_bytes ids) 8 (m_rows_per_ids_page m) n)"
    using fills_row_chain [of m 2 "m_ids_first m" n 8 "u64s_bytes ids" N skip] pk f len N
    by (simp add: chain_list_def me PAYLOAD_BYTES_eq)
  have tq: "fills S N (region m 4)
      (\<lambda>r. \<forall>p. prepared = Some p \<longrightarrow>
        stores S r (unat (m_rotation_first m)) PAYLOAD_BYTES (tqplus_chain_bytes p))
      (write_tqplus S skip m prepared)"
  proof (cases prepared)
    case None
    then show ?thesis using fills_widen [OF fills_ret, of "region m 4" S N] by (simp add: write_tqplus_def)
  next
    case (Some pp)
    have "fills S N (region m 4)
      (\<lambda>r. True \<longrightarrow> stores S r (unat (m_rotation_first m)) PAYLOAD_BYTES (tqplus_chain_bytes pp))
      (write_tqplus S skip m prepared)"
    proof (rule fills_when_part)
      show "fills S N (region m 4)
        (\<lambda>r. stores S r (unat (m_rotation_first m)) PAYLOAD_BYTES (tqplus_chain_bytes pp))
        (write_byte_chain S skip (m_rotation_first m) (tqplus_chain_bytes pp))"
        using pk f N inp'(5) [OF Some] Some
        by (intro fills_byte_chain) (simp_all add: chain_list_def me tqplus_chain_len64)
    qed (simp add: Some write_tqplus_def)
    with Some show ?thesis by simp
  qed
  have ivfc: "fills S N (region m 6 \<union> region m 7)
      (\<lambda>r. \<forall>iv. ivf = Some iv \<and> 0 < ip_lists iv \<longrightarrow>
        stores S r (unat (m_coarse_first m)) PAYLOAD_BYTES (f32s_bytes (ip_coarse_centroids iv)) \<and>
        stores S r (unat (m_cell_dir_first m)) PAYLOAD_BYTES (ip_cell_dir_bytes iv))
      (write_ivf S skip m ivf)"
  proof (cases ivf)
    case None
    then show ?thesis using fills_widen [OF fills_ret, of _ S N] by (simp add: write_ivf_def)
  next
    case (Some iv)
    let ?c = "f32s_bytes (ip_coarse_centroids iv)"
    have ne: "(?c \<noteq> []) = (ip_coarse_centroids iv \<noteq> [])"
      by (metis length_0_conv length_f32s_bytes mult_is_0 zero_neq_numeral)
    have "fills S N (region m 6)
      (\<lambda>r. 0 < ip_lists iv \<longrightarrow> stores S r (unat (m_coarse_first m)) PAYLOAD_BYTES ?c)
      (when_io (0 < ip_lists iv \<and> ip_coarse_centroids iv \<noteq> [])
        (write_byte_chain S skip (m_coarse_first m) ?c))"
    proof (rule fills_when_part)
      show "fills S N (region m 6) (\<lambda>r. stores S r (unat (m_coarse_first m)) PAYLOAD_BYTES ?c)
        (write_byte_chain S skip (m_coarse_first m) ?c)" if "0 < ip_lists iv"
        using pk f N inp2(1) [OF Some] pa(1) [OF Some that]
        by (intro fills_byte_chain) (simp_all add: chain_list_def len64_def mult.commute)
    qed (simp add: ne)
    moreover have "fills S N (region m 7)
      (\<lambda>r. 0 < ip_lists iv \<longrightarrow> stores S r (unat (m_cell_dir_first m)) PAYLOAD_BYTES (ip_cell_dir_bytes iv))
      (when_io (0 < ip_lists iv \<and> ip_cell_dir_bytes iv \<noteq> [])
        (write_byte_chain S skip (m_cell_dir_first m) (ip_cell_dir_bytes iv)))"
    proof (rule fills_when_part)
      show "fills S N (region m 7) (\<lambda>r. stores S r (unat (m_cell_dir_first m)) PAYLOAD_BYTES (ip_cell_dir_bytes iv))
        (write_byte_chain S skip (m_cell_dir_first m) (ip_cell_dir_bytes iv))" if "0 < ip_lists iv"
        using pk f N inp2(1) [OF Some] pa(1) [OF Some that]
        by (intro fills_byte_chain) (simp_all add: chain_list_def)
    qed simp
    ultimately have "fills S N (region m 6 \<union> region m 7)
      (\<lambda>r. (0 < ip_lists iv \<longrightarrow> stores S r (unat (m_coarse_first m)) PAYLOAD_BYTES ?c) \<and>
        (0 < ip_lists iv \<longrightarrow> stores S r (unat (m_cell_dir_first m)) PAYLOAD_BYTES (ip_cell_dir_bytes iv)))
      (write_ivf S skip m ivf)"
      unfolding write_ivf_def Some option.case by (rule fills_seq) (rule dis; simp)
    moreover have "((0 < ip_lists iv \<longrightarrow> stores S r (unat (m_coarse_first m)) PAYLOAD_BYTES ?c) \<and>
        (0 < ip_lists iv \<longrightarrow> stores S r (unat (m_cell_dir_first m)) PAYLOAD_BYTES (ip_cell_dir_bytes iv)))
      = (\<forall>iv. ivf = Some iv \<and> 0 < ip_lists iv \<longrightarrow>
        stores S r (unat (m_coarse_first m)) PAYLOAD_BYTES (f32s_bytes (ip_coarse_centroids iv)) \<and>
        stores S r (unat (m_cell_dir_first m)) PAYLOAD_BYTES (ip_cell_dir_bytes iv))" for r
      using Some by auto
    ultimately show ?thesis by simp
  qed
  have gr: "fills S N (region m 8)
      (\<lambda>r. \<forall>g. graph = Some g \<longrightarrow>
        stores S r (unat (m_graph_first m)) PAYLOAD_BYTES (gp_offsets_bytes g @ gp_neighbors_bytes g))
      (write_graph S skip m graph)"
  proof (cases graph)
    case None
    then show ?thesis using fills_widen [OF fills_ret, of "region m 8" S N] by (simp add: write_graph_def)
  next
    case (Some g)
    let ?b = "gp_offsets_bytes g @ gp_neighbors_bytes g"
    have "fills S N (region m 8)
      (\<lambda>r. True \<longrightarrow> stores S r (unat (m_graph_first m)) PAYLOAD_BYTES ?b) (write_graph S skip m graph)"
    proof (rule fills_when_part)
      show "fills S N (region m 8) (\<lambda>r. stores S r (unat (m_graph_first m)) PAYLOAD_BYTES ?b)
        (write_byte_chain S skip (m_graph_first m) ?b)"
        using pk f N inp2(2) [OF Some] pa(2) [OF Some]
        by (intro fills_byte_chain) (simp_all add: chain_list_def len64_def)
    qed (simp add: Some write_graph_def)
    with Some show ?thesis by simp
  qed
  have tb: "fills S N (region m 9)
      (\<lambda>r. True \<longrightarrow> stores S r (unat (m_tombstone_first m)) PAYLOAD_BYTES tombs)
      (when_io (tombs \<noteq> []) (write_byte_chain S skip (m_tombstone_first m) tombs))"
  proof (rule fills_when_part)
    show "fills S N (region m 9) (\<lambda>r. stores S r (unat (m_tombstone_first m)) PAYLOAD_BYTES tombs)
        (write_byte_chain S skip (m_tombstone_first m) tombs)" if "tombs \<noteq> []"
      using pk f N inp'(4) pa(3) [OF that]
      by (intro fills_byte_chain) (simp_all add: chain_list_def)
  qed simp
  have d: "region m 1 \<inter> region m 2 = {}" "region m 0 \<inter> (region m 1 \<union> region m 2) = {}"
    "region m 8 \<inter> region m 9 = {}" "(region m 6 \<union> region m 7) \<inter> (region m 8 \<union> region m 9) = {}"
    "region m 4 \<inter> ((region m 6 \<union> region m 7) \<union> (region m 8 \<union> region m 9)) = {}"
    "(region m 0 \<union> (region m 1 \<union> region m 2)) \<inter>
      (region m 4 \<union> ((region m 6 \<union> region m 7) \<union> (region m 8 \<union> region m 9))) = {}"
    by (simp_all add: Int_Un_distrib Int_Un_distrib2 dis)
  note rows = fills_seq [OF codes fills_seq [OF scales ids d(1)] d(2)]
  note parts = fills_seq [OF tq fills_seq [OF ivfc fills_seq [OF gr tb d(3)] d(4)] d(5)]
  note all = fills_seq [OF rows parts d(6), folded write_row_chains_def, folded write_all_chains_def]
  have "region m i \<subseteq> {0<..<block_sum m}" if "i < 10" for i
    using region_in_file [OF pk that] by auto
  then have sub: "(region m 0 \<union> (region m 1 \<union> region m 2)) \<union>
      (region m 4 \<union> ((region m 6 \<union> region m 7) \<union> (region m 8 \<union> region m 9)))
      \<subseteq> {0<..<block_sum m}"
    by (intro Un_least) simp_all
  from fills_widen [OF all sub] show ?thesis
    by (simp add: rows_stored_def parts_stored_def conj_assoc)
qed

end

end
