(* ===== verification/Ivf.thy ===== *)
theory Ivf
  imports Codec
begin

text \<open>
  The cell structure of an IVF index (\<open>src/index/ivf.rs\<close>): the cell directory with its byte format,
  the slot mask of a probed scan, the partition check, and the build-time permutation that lays the
  rows of each cell out contiguously.  Training the coarse centroids is floating-point numerics and
  is not modelled.
\<close>

section \<open>The cell directory\<close>

record cell_entry =
  ce_code_offset :: u64
  ce_n_vectors :: u32

definition CellEntry_BYTES :: nat where "CellEntry_BYTES = 12"

definition cell_entry_encode :: "cell_entry \<Rightarrow> u8 list" where
  "cell_entry_encode e =
     blit 8 (le32 (ce_n_vectors e)) (blit 0 (le64 (ce_code_offset e)) (replicate CellEntry_BYTES 0))"

definition cell_entry_decode :: "u8 list \<Rightarrow> cell_entry" where
  "cell_entry_decode bytes =
     \<lparr>ce_code_offset = rd64 (bslice 0 8 bytes), ce_n_vectors = rd32 (bslice 8 4 bytes)\<rparr>"

interpretation cell_codec: fixed_codec cell_entry_encode cell_entry_decode CellEntry_BYTES
proof
  fix e :: cell_entry
  show "length (cell_entry_encode e) = CellEntry_BYTES"
    by (simp add: cell_entry_encode_def CellEntry_BYTES_def)
  have "bslice 8 4 (cell_entry_encode e) = le32 (ce_n_vectors e)"
    using bslice_blit_same [of 8 "le32 (ce_n_vectors e)"]
    by (simp add: cell_entry_encode_def CellEntry_BYTES_def)
  moreover have "bslice 0 8 (cell_entry_encode e) = le64 (ce_code_offset e)"
    using bslice_blit_same [of 0 "le64 (ce_code_offset e)" "replicate 12 0"]
    by (simp add: cell_entry_encode_def CellEntry_BYTES_def bslice_blit_disjoint)
  ultimately show "cell_entry_decode (cell_entry_encode e) = e"
    by (simp add: cell_entry_decode_def)
qed (simp add: CellEntry_BYTES_def)

type_synonym cell_directory = "cell_entry list"

definition total_vectors :: "cell_directory \<Rightarrow> u64" where
  "total_vectors dir = sum_list (map (\<lambda>e. ucast (ce_n_vectors e)) dir)"

definition dir_encode :: "cell_directory \<Rightarrow> u8 list" where
  "dir_encode dir = concat (map cell_entry_encode dir)"

text \<open>Slicing past the end of the buffer panics: \<open>None\<close>.\<close>

definition dir_decode :: "u8 list \<Rightarrow> nat \<Rightarrow> cell_directory option" where
  "dir_decode bytes nlists =
     (if length bytes < nlists * CellEntry_BYTES then None
      else Some (map (\<lambda>i. cell_entry_decode (bslice (i * CellEntry_BYTES) CellEntry_BYTES bytes))
                   [0..<nlists]))"

text \<open>\<open>for s in msk.iter_mut().take(end).skip(start) { *s = true }\<close>.\<close>

definition set_range :: "nat \<Rightarrow> nat \<Rightarrow> bool list \<Rightarrow> bool list" where
  "set_range start stop msk =
     map (\<lambda>(i, b). b \<or> start \<le> i \<and> i < stop) (zip [0..<length msk] msk)"

definition probe_cell :: "cell_directory \<Rightarrow> nat \<Rightarrow> u32 \<Rightarrow> bool list \<Rightarrow> bool list" where
  "probe_cell dir n c msk =
     (if length dir \<le> unat c then msk
      else let e = dir ! unat c in
        set_range (unat (ce_code_offset e))
          (min (unat (ce_code_offset e + ucast (ce_n_vectors e))) n) msk)"

definition probe_mask :: "cell_directory \<Rightarrow> u32 list \<Rightarrow> nat \<Rightarrow> bool list" where
  "probe_mask dir probed n_vectors =
     set_range (unat (total_vectors dir)) n_vectors
       (fold (probe_cell dir n_vectors) probed (replicate n_vectors False))"

datatype partition_fault = NotContiguous nat u64 u64 | WrongTotal u64 u64

fun check_entries :: "nat \<Rightarrow> u64 \<Rightarrow> cell_entry list \<Rightarrow> partition_fault + u64" where
  "check_entries c expected [] = Inr expected"
| "check_entries c expected (e # es) =
     (if ce_code_offset e \<noteq> expected then Inl (NotContiguous c (ce_code_offset e) expected)
      else check_entries (Suc c) (expected + ucast (ce_n_vectors e)) es)"

definition validate_partition :: "cell_directory \<Rightarrow> u64 \<Rightarrow> partition_fault + unit" where
  "validate_partition dir n_vectors =
     (case check_entries 0 0 dir of
        Inl f \<Rightarrow> Inl f
      | Inr e \<Rightarrow> if e \<noteq> n_vectors then Inl (WrongTotal e n_vectors) else Inr ())"

section \<open>The build permutation\<close>

text \<open>\<open>counts[c as usize] += 1\<close> for every assigned cell; an id out of range panics.\<close>

definition cell_counts :: "nat \<Rightarrow> u32 list \<Rightarrow> nat list option" where
  "cell_counts nlists cs =
     (if list_all (\<lambda>c. unat c < nlists) cs
      then Some (fold (\<lambda>c k. k[unat c := Suc (k ! unat c)]) cs (replicate nlists 0))
      else None)"

fun cell_entries :: "nat \<Rightarrow> nat list \<Rightarrow> cell_directory" where
  "cell_entries acc [] = []"
| "cell_entries acc (k # ks) =
     \<lparr>ce_code_offset = of_nat acc, ce_n_vectors = of_nat k\<rparr> # cell_entries (acc + k) ks"

text \<open>Visit the (row, cell) pairs in row order, placing each row at its cell's cursor.\<close>

fun place_rows :: "(u32 \<times> u32) list \<Rightarrow> nat list \<Rightarrow> u32 list \<Rightarrow> u32 list" where
  "place_rows [] cursor perm = perm"
| "place_rows ((old, c) # es) cursor perm =
     place_rows es (cursor[unat c := Suc (cursor ! unat c)]) (perm[cursor ! unat c := old])"

fun events_from :: "nat \<Rightarrow> u32 list list \<Rightarrow> (u32 \<times> u32) list" where
  "events_from i [] = []"
| "events_from i (cells # as) = map (\<lambda>c. (of_nat i, c)) cells @ events_from (Suc i) as"

definition build_permutation_soft :: "u32 list list \<Rightarrow> nat \<Rightarrow> (u32 list \<times> cell_directory) option" where
  "build_permutation_soft assignments nlists =
     (case cell_counts nlists (concat assignments) of
        None \<Rightarrow> None
      | Some counts \<Rightarrow>
          (let directory = cell_entries 0 counts;
               cursor = map (\<lambda>e. unat (ce_code_offset e)) directory
           in Some (place_rows (events_from 0 assignments) cursor (replicate (sum_list counts) 0),
                    directory)))"

definition build_permutation :: "u32 list \<Rightarrow> nat \<Rightarrow> (u32 list \<times> cell_directory) option" where
  "build_permutation assignment nlists =
     (case cell_counts nlists assignment of
        None \<Rightarrow> None
      | Some counts \<Rightarrow>
          (let directory = cell_entries 0 counts;
               cursor = map (\<lambda>e. unat (ce_code_offset e)) directory
           in Some (place_rows (zip (map of_nat [0..<length assignment]) assignment) cursor
                      (replicate (length assignment) 0),
                    directory)))"

section \<open>Directory facts\<close>

lemma dir_decode_encode: "dir_decode (dir_encode dir) (length dir) = Some dir"
proof -
  have "length (dir_encode dir) = length dir * CellEntry_BYTES"
    by (simp add: dir_encode_def cell_codec.length_concat_enc)
  moreover have "map (\<lambda>i. cell_entry_decode (bslice (i * CellEntry_BYTES) CellEntry_BYTES (dir_encode dir)))
      [0..<length dir] = map (\<lambda>i. dir ! i) [0..<length dir]"
    unfolding dir_encode_def by (rule map_cong) (simp_all add: cell_codec.decode_nth)
  ultimately show ?thesis by (simp add: dir_decode_def map_nth)
qed

lemma length_set_range [simp]: "length (set_range a b msk) = length msk"
  by (simp add: set_range_def)

lemma nth_set_range: "i < length msk \<Longrightarrow> set_range a b msk ! i = (msk ! i \<or> a \<le> i \<and> i < b)"
  by (simp add: set_range_def)

lemma length_probe_cell [simp]: "length (probe_cell dir n c msk) = length msk"
  by (simp add: probe_cell_def Let_def)

definition in_cell :: "cell_directory \<Rightarrow> u32 \<Rightarrow> nat \<Rightarrow> bool" where
  "in_cell dir c s \<longleftrightarrow> unat c < length dir \<and> unat (ce_code_offset (dir ! unat c)) \<le> s \<and>
     s < unat (ce_code_offset (dir ! unat c) + ucast (ce_n_vectors (dir ! unat c)))"

lemma probe_fold:
  "length (fold (probe_cell dir n) probed msk) = length msk \<and>
   (length msk = n \<longrightarrow> i < n \<longrightarrow>
      fold (probe_cell dir n) probed msk ! i = (msk ! i \<or> (\<exists>c \<in> set probed. in_cell dir c i)))"
proof (induction probed arbitrary: msk)
  case (Cons c probed)
  have "probe_cell dir n c msk ! i = (msk ! i \<or> in_cell dir c i)" if "i < n" "length msk = n"
    using that by (auto simp: probe_cell_def Let_def in_cell_def nth_set_range)
  with Cons show ?case by auto
qed simp

lemma length_probe_mask [simp]: "length (probe_mask dir probed n) = n"
  by (simp add: probe_mask_def probe_fold)

lemma nth_probe_mask:
  "s < n \<Longrightarrow> probe_mask dir probed n ! s \<longleftrightarrow>
    (\<exists>c \<in> set probed. in_cell dir c s) \<or> unat (total_vectors dir) \<le> s"
  by (simp add: probe_mask_def nth_set_range probe_fold)

section \<open>Permutation facts\<close>

definition offset_of :: "nat list \<Rightarrow> nat \<Rightarrow> nat" where
  "offset_of counts c = sum_list (take c counts)"

lemma length_cell_entries [simp]: "length (cell_entries acc ks) = length ks"
  by (induction ks arbitrary: acc) auto

lemma nth_cell_entries:
  "c < length ks \<Longrightarrow> cell_entries acc ks ! c
     = \<lparr>ce_code_offset = of_nat (acc + offset_of ks c), ce_n_vectors = of_nat (ks ! c)\<rparr>"
proof (induction ks arbitrary: acc c)
  case (Cons k ks)
  then show ?case by (cases c) (simp_all add: offset_of_def add.assoc)
qed simp

lemma offset_Suc: "c < length ks \<Longrightarrow> offset_of ks (Suc c) = offset_of ks c + ks ! c"
  by (simp add: offset_of_def take_Suc_conv_app_nth)

lemma offset_mono: "c \<le> c' \<Longrightarrow> offset_of ks c \<le> offset_of ks c'"
  unfolding offset_of_def by (metis le_add1 le_add_diff_inverse sum_list_append take_add)

lemma offset_le_sum: "offset_of ks c \<le> sum_list ks"
  unfolding offset_of_def by (metis append_take_drop_id le_add1 sum_list_append)

lemma fold_counts:
  "list_all (\<lambda>c. unat c < nlists) cs \<Longrightarrow> length k0 = nlists \<Longrightarrow>
   fold (\<lambda>c k. k[unat c := Suc (k ! unat c)]) cs k0
     = map (\<lambda>j. k0 ! j + length (filter (\<lambda>c. unat c = j) cs)) [0..<nlists]"
proof (induction cs arbitrary: k0)
  case Nil
  then show ?case by (auto intro: nth_equalityI)
next
  case (Cons c cs)
  then have "fold (\<lambda>c k. k[unat c := Suc (k ! unat c)]) cs (k0[unat c := Suc (k0 ! unat c)])
      = map (\<lambda>j. k0[unat c := Suc (k0 ! unat c)] ! j + length (filter (\<lambda>c. unat c = j) cs)) [0..<nlists]"
    by (intro Cons.IH) auto
  with Cons.prems show ?case by (auto simp: nth_list_update)
qed

lemma cell_counts_Some:
  assumes "cell_counts nlists cs = Some counts"
  shows "list_all (\<lambda>c. unat c < nlists) cs"
    and "counts = map (\<lambda>j. length (filter (\<lambda>c. unat c = j) cs)) [0..<nlists]"
proof -
  from assms have ok: "list_all (\<lambda>c. unat c < nlists) cs"
    and counts: "counts = fold (\<lambda>c k. k[unat c := Suc (k ! unat c)]) cs (replicate nlists 0)"
    by (auto simp: cell_counts_def split: if_splits)
  show "list_all (\<lambda>c. unat c < nlists) cs" by (rule ok)
  show "counts = map (\<lambda>j. length (filter (\<lambda>c. unat c = j) cs)) [0..<nlists]"
    unfolding counts fold_counts [OF ok length_replicate] by (rule map_cong) simp_all
qed

lemma sum_list_filter_counts:
  "list_all (\<lambda>c. unat c < nlists) (cs :: u32 list) \<Longrightarrow>
   sum_list (map (\<lambda>j. length (filter (\<lambda>c. unat c = j) cs)) [0..<nlists]) = length cs"
proof (induction cs)
  case (Cons c cs)
  have "sum_list (map (\<lambda>j. length (filter (\<lambda>c'. unat c' = j) (c # cs))) [0..<nlists])
      = sum_list (map (\<lambda>j. length (filter (\<lambda>c'. unat c' = j) cs) + (if j = unat c then 1 else 0)) [0..<nlists])"
    by (intro arg_cong [of _ _ sum_list] map_cong) auto
  also have "\<dots> = length cs + sum_list (map (\<lambda>j. if j = unat c then 1 else 0) [0..<nlists])"
    using Cons by (simp add: sum_list_addf)
  also have "sum_list (map (\<lambda>j. if j = unat c then 1 else (0 :: nat)) [0..<nlists]) = 1"
    using Cons.prems by (simp add: interv_sum_list_conv_sum_set_nat)
  finally show ?case by simp
qed (simp add: sum_list_0)

text \<open>The rows a list of (row, cell) pairs puts into cell \<open>c\<close>, in order.\<close>

definition rows_in :: "(u32 \<times> u32) list \<Rightarrow> nat \<Rightarrow> u32 list" where
  "rows_in es c = map fst (filter (\<lambda>(i, c'). unat c' = c) es)"

lemma rows_in_simps [simp]:
  "rows_in [] c = []" "rows_in (xs @ ys) c = rows_in xs c @ rows_in ys c"
  "rows_in [(i, c')] c = (if unat c' = c then [i] else [])"
  by (simp_all add: rows_in_def)

lemma length_rows_in: "length (rows_in es c) = length (filter (\<lambda>c'. unat c' = c) (map snd es))"
  by (induction es) (auto simp: rows_in_def)

lemma length_place_rows [simp]: "length (place_rows es cursor perm) = length perm"
  by (induction es cursor perm rule: place_rows.induct) simp_all

lemma bslice_snoc:
  "off + k < length xs \<Longrightarrow> bslice off (Suc k) (xs[off + k := x]) = bslice off k xs @ [x]"
  by (simp add: bslice_def drop_update_swap take_Suc_conv_app_nth)

lemma bslice_update_other: "i < off \<or> off + k \<le> i \<Longrightarrow> bslice off k (xs[i := x]) = bslice off k xs"
  by (rule nth_equalityI) (auto simp: bslice_def nth_list_update)

lemma place_rows_spec:
  assumes "length cursor = L" and "\<And>c. c < L \<Longrightarrow> cursor ! c = off c + length (rows_in before c)"
    and "\<And>c. c < L \<Longrightarrow> off c + length (rows_in (before @ es) c) \<le> off (Suc c)"
    and "\<And>c c'. c \<le> c' \<Longrightarrow> off c \<le> off c'" and "off L \<le> length perm"
    and "list_all (\<lambda>e. unat (snd e) < L) es"
    and "\<And>c. c < L \<Longrightarrow> bslice (off c) (length (rows_in before c)) perm = rows_in before c"
    and "c < L"
  shows "bslice (off c) (length (rows_in (before @ es) c)) (place_rows es cursor perm)
    = rows_in (before @ es) c"
  using assms
proof (induction es arbitrary: before cursor perm)
  case (Cons e es)
  obtain i c0 where e: "e = (i, c0)" by (cases e)
  let ?c0 = "unat c0"
  let ?before = "before @ [(i, c0)]"
  have c0: "?c0 < L" using Cons.prems(6) e by simp
  have pos: "cursor ! ?c0 = off ?c0 + length (rows_in before ?c0)" using Cons.prems(2) c0 by simp
  have room: "off ?c0 + length (rows_in before ?c0) < off (Suc ?c0)"
    using Cons.prems(3) [OF c0] e by (simp add: rows_in_def)
  also have "off (Suc ?c0) \<le> off L" using c0 by (intro Cons.prems(4)) simp
  finally have inside: "off ?c0 + length (rows_in before ?c0) < length perm"
    using Cons.prems(5) by simp
  have "bslice (off c) (length (rows_in (?before @ es) c))
      (place_rows es (cursor[?c0 := Suc (cursor ! ?c0)]) (perm[cursor ! ?c0 := i])) = rows_in (?before @ es) c"
  proof (rule Cons.IH)
    show "length (cursor[?c0 := Suc (cursor ! ?c0)]) = L" using Cons.prems(1) by simp
    show "cursor[?c0 := Suc (cursor ! ?c0)] ! c = off c + length (rows_in ?before c)" if "c < L" for c
      using that Cons.prems(1,2) pos by (auto simp: nth_list_update)
    show "off c + length (rows_in (?before @ es) c) \<le> off (Suc c)" if "c < L" for c
      using Cons.prems(3) [OF that] e by (simp add: rows_in_def)
    show "off L \<le> length (perm[cursor ! ?c0 := i])" using Cons.prems(5) by simp
    show "list_all (\<lambda>e. unat (snd e) < L) es" using Cons.prems(6) by simp
    show "bslice (off c) (length (rows_in ?before c)) (perm[cursor ! ?c0 := i]) = rows_in ?before c"
      if c: "c < L" for c
    proof (cases "c = ?c0")
      case True
      with inside Cons.prems(7) [OF c] show ?thesis by (simp add: pos bslice_snoc)
    next
      case False
      have len: "off c + length (rows_in before c) \<le> off (Suc c)"
        using Cons.prems(3) [OF c] by (simp add: rows_in_def)
      have "cursor ! ?c0 < off c \<or> off c + length (rows_in before c) \<le> cursor ! ?c0"
      proof (cases "c < ?c0")
        case True
        then have "off (Suc c) \<le> off ?c0" by (intro Cons.prems(4)) simp
        with len pos show ?thesis by simp
      next
        case not_less: False
        with False have "Suc ?c0 \<le> c" by simp
        then have "off (Suc ?c0) \<le> off c" by (rule Cons.prems(4))
        with room pos show ?thesis by simp
      qed
      with False Cons.prems(7) [OF c] show ?thesis by (simp add: bslice_update_other)
    qed
  qed (use Cons.prems in blast)+
  then show ?case by (simp add: e)
qed simp

text \<open>The whole permutation, from the counting pass to the last placement.\<close>

lemma placed_cells:
  assumes counts: "cell_counts nlists (map snd es) = Some counts" and fit: "length es < 2 ^ 32" and c: "c < nlists"
  shows "bslice (offset_of counts c) (counts ! c)
      (place_rows es (map (\<lambda>e. unat (ce_code_offset e)) (cell_entries 0 counts)) (replicate (length es) 0))
    = rows_in es c"
    and "sum_list counts = length es" and "length counts = nlists"
    and "counts ! c = length (rows_in es c)"
proof -
  note cc = cell_counts_Some [OF counts]
  have len: "length counts = nlists" by (simp add: cc(2))
  have cnt: "counts ! j = length (rows_in es j)" if "j < nlists" for j
    using that by (simp add: cc(2) length_rows_in)
  have sum: "sum_list counts = length es"
    using sum_list_filter_counts [OF cc(1)] by (simp add: cc(2))
  have small: "unat (of_nat (offset_of counts j) :: u64) = offset_of counts j" for j
    using offset_le_sum [of counts j] sum fit by (simp add: unat_of_nat)
  have "bslice (offset_of counts c) (length (rows_in ([] @ es) c))
      (place_rows es (map (\<lambda>e. unat (ce_code_offset e)) (cell_entries 0 counts)) (replicate (length es) 0))
    = rows_in ([] @ es) c"
  proof (rule place_rows_spec [where L = nlists and off = "offset_of counts"])
    show "length (map (\<lambda>e. unat (ce_code_offset e)) (cell_entries 0 counts)) = nlists" using len by simp
    show "map (\<lambda>e. unat (ce_code_offset e)) (cell_entries 0 counts) ! j
        = offset_of counts j + length (rows_in [] j)" if "j < nlists" for j
      using that len by (simp add: nth_cell_entries small)
    show "offset_of counts j + length (rows_in ([] @ es) j) \<le> offset_of counts (Suc j)" if "j < nlists" for j
      using that len by (simp add: offset_Suc cnt)
    show "offset_of counts nlists \<le> length (replicate (length es) 0)"
      using offset_le_sum [of counts nlists] sum by simp
    show "list_all (\<lambda>e. unat (snd e) < nlists) es" using cc(1) by (simp add: list_all_iff)
  qed (use c offset_mono in \<open>auto simp: bslice_def\<close>)
  then show "bslice (offset_of counts c) (counts ! c)
      (place_rows es (map (\<lambda>e. unat (ce_code_offset e)) (cell_entries 0 counts)) (replicate (length es) 0))
    = rows_in es c"
    using cnt [OF c] by simp
  show "sum_list counts = length es" by (rule sum)
  show "length counts = nlists" by (rule len)
  show "counts ! c = length (rows_in es c)" using c by (rule cnt)
qed

lemma ucast_of_nat_u64: "k < 2 ^ 32 \<Longrightarrow> ucast (of_nat k :: u32) = (of_nat k :: u64)"
  by (simp add: word_unat_eq_iff unat_of_nat)

lemma check_cell_entries:
  "acc + sum_list ks < 2 ^ 32 \<Longrightarrow>
   check_entries c (of_nat acc) (cell_entries acc ks) = Inr (of_nat (acc + sum_list ks))"
proof (induction ks arbitrary: acc c)
  case (Cons k ks)
  then have "ucast (of_nat k :: u32) = (of_nat k :: u64)" by (intro ucast_of_nat_u64) simp
  with Cons.IH [of "acc + k" "Suc c"] Cons.prems show ?case
    by (simp add: add.assoc)
qed simp

lemma events_snd: "map snd (events_from i as) = concat as"
  by (induction i as rule: events_from.induct) (auto simp: comp_def)

lemma length_events: "length (events_from i as) = length (concat as)"
  by (metis events_snd length_map)

lemma total_cell_entries:
  "sum_list ks < 2 ^ 32 \<Longrightarrow> total_vectors (cell_entries acc ks) = of_nat (sum_list ks)"
proof (induction ks arbitrary: acc)
  case (Cons k ks)
  then have "ucast (of_nat k :: u32) = (of_nat k :: u64)" by (intro ucast_of_nat_u64) simp
  with Cons show ?case by (simp add: total_vectors_def)
qed (simp add: total_vectors_def)

section \<open>Properties of the cell structure\<close>

lemma rows_in_copies: "rows_in (map (Pair i) cells) c = replicate (length (filter (\<lambda>x. unat x = c) cells)) i"
  by (induction cells) (auto simp: rows_in_def)

lemma rows_in_events:
  "rows_in (events_from k as) c
     = concat (map (\<lambda>i. replicate (length (filter (\<lambda>x. unat x = c) (as ! i))) (of_nat (k + i))) [0..<length as])"
proof (induction as arbitrary: k)
  case (Cons cells as)
  have u: "[0..<length (cells # as)] = 0 # map Suc [0..<length as]"
    by (simp add: map_Suc_upt upt_conv_Cons del: upt_Suc)
  show ?case unfolding u using Cons [of "Suc k"] by (simp add: rows_in_copies comp_def ac_simps)
qed simp

text \<open>
  C20: the soft permutation.  The directory passes the partition check for the expanded slot count,
  and the slots of cell \<open>c\<close> hold exactly the rows assigned to \<open>c\<close>, in ascending row order, once per
  assignment.
\<close>

theorem build_permutation_soft_cells:
  assumes b: "build_permutation_soft as n = Some (perm, dir)" and fit: "length (concat as) < 2 ^ 32"
  shows "length perm = length (concat as) \<and> length dir = n \<and>
    validate_partition dir (of_nat (length perm)) = Inr () \<and>
    (\<forall>c < n. bslice (unat (ce_code_offset (dir ! c))) (unat (ce_n_vectors (dir ! c))) perm
       = concat (map (\<lambda>i. replicate (length (filter (\<lambda>x. unat x = c) (as ! i))) (of_nat i))
           [0..<length as]))"
proof -
  let ?es = "events_from 0 as"
  from b obtain counts where counts: "cell_counts n (map snd ?es) = Some counts"
    and dir: "dir = cell_entries 0 counts"
    and perm: "perm = place_rows ?es (map (\<lambda>e. unat (ce_code_offset e)) (cell_entries 0 counts))
      (replicate (sum_list counts) 0)"
    by (auto simp: build_permutation_soft_def events_snd Let_def split: option.splits)
  have len: "length ?es < 2 ^ 32" using fit by (simp add: length_events)
  note pc = placed_cells [OF counts len]
  show ?thesis
  proof (cases "n = 0")
    case True
    with counts have "map snd ?es = []" by (cases ?es) (auto simp: cell_counts_def)
    then have "as = [] \<or> concat as = []" by (simp add: events_snd)
    moreover have "counts = []" using cell_counts_Some(2) [OF counts] True by simp
    ultimately show ?thesis using True \<open>map snd ?es = []\<close>
      by (auto simp: dir perm validate_partition_def)
  next
    case False
    have sum: "sum_list counts = length ?es" and lc: "length counts = n" using pc(2,3) [of 0] False by auto
    have "bslice (unat (ce_code_offset (dir ! c))) (unat (ce_n_vectors (dir ! c))) perm = rows_in ?es c"
      if "c < n" for c
    proof -
      have "offset_of counts c \<le> length ?es" "counts ! c \<le> length ?es"
        using offset_le_sum [of counts c] offset_le_sum [of counts "Suc c"] offset_Suc [of c counts]
          that lc sum by auto
      with len that lc sum pc(1) [OF that] show ?thesis
        by (simp add: dir perm nth_cell_entries unat_of_nat)
    qed
    moreover have "validate_partition dir (of_nat (length perm)) = Inr ()"
      using check_cell_entries [of 0 counts 0] sum len
      by (simp add: validate_partition_def dir perm length_events)
    ultimately show ?thesis using sum lc
      by (simp add: perm dir length_events rows_in_events [of 0, simplified])
  qed
qed

theorem build_permutation_soft_cells_witness:
  "build_permutation_soft [[1], [0, 1]] 2
     = Some ([1, 0, 1], [\<lparr>ce_code_offset = 0, ce_n_vectors = 1\<rparr>, \<lparr>ce_code_offset = 1, ce_n_vectors = 2\<rparr>]) \<and>
   bslice 1 2 [1, 0, 1 :: u32] = [0, 1]"
proof -
  have b: "build_permutation_soft [[1], [0, 1]] 2
     = Some ([1, 0, 1], [\<lparr>ce_code_offset = 0, ce_n_vectors = 1\<rparr>, \<lparr>ce_code_offset = 1, ce_n_vectors = 2\<rparr>])"
    by (simp add: build_permutation_soft_def cell_counts_def eval_nat_numeral)
  have "length (concat [[1], [0, 1 :: u32]]) < 2 ^ 32" by simp
  note t = build_permutation_soft_cells [OF b this]
  from t [THEN conjunct2, THEN conjunct2, THEN conjunct2, rule_format, of 1] b
  show ?thesis by (simp add: upt_rec)
qed

lemma events_single: "events_from k (map (\<lambda>c. [c]) cs) = zip (map of_nat [k..<k + length cs]) cs"
proof (induction cs arbitrary: k)
  case (Cons c cs)
  have "[k..<k + length (c # cs)] = k # [Suc k..<Suc k + length cs]" by (simp add: upt_rec)
  with Cons show ?case by simp
qed simp

text \<open>
  With one cell per row, the soft builder and the single-assignment reference agree, panics
  included.
\<close>

theorem build_permutation_soft_single:
  "build_permutation_soft (map (\<lambda>c. [c]) assignment) n = build_permutation assignment n"
proof -
  have "concat (map (\<lambda>c. [c]) assignment) = assignment" by (induction assignment) auto
  moreover have "sum_list counts = length assignment" if "cell_counts n assignment = Some counts" for counts
    using sum_list_filter_counts [OF cell_counts_Some(1) [OF that]]
    unfolding cell_counts_Some(2) [OF that] .
  ultimately show ?thesis
    using events_single [of 0 assignment]
    by (auto simp: build_permutation_soft_def build_permutation_def Let_def split: option.split)
qed

lemma check_entries_run:
  assumes "check_entries k e dir = Inr t" and "unat e + sum_list (map (\<lambda>x. unat (ce_n_vectors x)) dir) < 2 ^ 64"
  shows "unat t = unat e + sum_list (map (\<lambda>x. unat (ce_n_vectors x)) dir) \<and>
    (\<forall>c < length dir. unat (ce_code_offset (dir ! c))
       = unat e + sum_list (map (\<lambda>x. unat (ce_n_vectors x)) (take c dir)))"
  using assms
proof (induction k e dir rule: check_entries.induct)
  case (2 k e x es)
  then have off: "ce_code_offset x = e" and rest: "check_entries (Suc k) (e + ucast (ce_n_vectors x)) es = Inr t"
    by (auto split: if_splits)
  have add: "unat (e + ucast (ce_n_vectors x)) = unat e + unat (ce_n_vectors x)"
    using "2.prems"(2) by (subst unat_add_lem [THEN iffD1]) simp_all
  have "unat t = unat e + unat (ce_n_vectors x) + sum_list (map (\<lambda>x. unat (ce_n_vectors x)) es) \<and>
    (\<forall>c < length es. unat (ce_code_offset (es ! c))
       = unat e + unat (ce_n_vectors x) + sum_list (map (\<lambda>x. unat (ce_n_vectors x)) (take c es)))"
    using "2.IH" off rest "2.prems"(2) add by simp
  with off show ?case by (auto simp: less_Suc_eq_0_disj add.assoc)
qed simp

text \<open>Consecutive intervals of lengths \<open>ks\<close> cover each point below their sum exactly once.\<close>

lemma intervals_cover:
  assumes "s < sum_list ks"
  shows "\<exists>!c. c < length ks \<and> offset_of ks c \<le> s \<and> s < offset_of ks c + ks ! c"
proof -
  let ?P = "\<lambda>c. offset_of ks c \<le> s"
  have 0: "?P 0" by (simp add: offset_of_def)
  have bound: "c < length ks" if "?P c" for c
  proof (rule ccontr)
    assume "\<not> c < length ks"
    then have "offset_of ks c = sum_list ks" by (simp add: offset_of_def)
    with that assms show False by simp
  qed
  define c where "c = (GREATEST c. ?P c)"
  have bound': "y \<le> length ks" if "?P y" for y using bound [OF that] by simp
  have c: "?P c"
    unfolding c_def by (rule GreatestI_nat [of ?P 0 "length ks", OF 0 bound'])
  have next_: "\<not> ?P (Suc c)"
  proof
    assume "?P (Suc c)"
    from Greatest_le_nat [of ?P "Suc c" "length ks", OF this bound'] show False by (simp add: c_def)
  qed
  have cl: "c < length ks" using bound [OF c] .
  have "offset_of ks c \<le> s \<and> s < offset_of ks c + ks ! c"
    using c next_ offset_Suc [OF cl] by simp
  moreover have "c' = c" if "c' < length ks" "offset_of ks c' \<le> s" "s < offset_of ks c' + ks ! c'" for c'
  proof -
    have "\<not> Suc c' \<le> c" using offset_mono [of "Suc c'" c ks] offset_Suc [OF that(1)] that(3) c by auto
    moreover have "\<not> Suc c \<le> c'" using offset_mono [of "Suc c" c' ks] next_ that(2) by auto
    ultimately show "c' = c" by simp
  qed
  ultimately show ?thesis using cl by blast
qed

text \<open>
  A directory that passes the partition check splits the slots below its total: every such slot
  lies in exactly one cell.
\<close>

theorem validated_directory_partitions:
  assumes v: "validate_partition dir n = Inr ()" and len: "length dir < 2 ^ 32" and s: "s < unat n"
  shows "\<exists>!c. c < length dir \<and> unat (ce_code_offset (dir ! c)) \<le> s \<and>
    s < unat (ce_code_offset (dir ! c)) + unat (ce_n_vectors (dir ! c))"
proof -
  let ?ks = "map (\<lambda>x. unat (ce_n_vectors x)) dir"
  have "sum_list ?ks \<le> length dir * 4294967295"
  proof (induction dir)
    case (Cons x dir)
    with unat_u32_bound [of "ce_n_vectors x"] show ?case by simp
  qed simp
  with len have small: "unat (0 :: u64) + sum_list ?ks < 2 ^ 64" by simp
  from v have "check_entries 0 0 dir = Inr n"
    by (auto simp: validate_partition_def split: sum.splits if_splits)
  from check_entries_run [OF this small]
  have n: "unat n = sum_list ?ks" and off: "\<And>c. c < length dir \<Longrightarrow>
      unat (ce_code_offset (dir ! c)) = offset_of ?ks c"
    by (simp_all add: offset_of_def take_map)
  from intervals_cover [of s ?ks] s n
  have "\<exists>!c. c < length dir \<and> offset_of ?ks c \<le> s \<and> s < offset_of ?ks c + ?ks ! c" by simp
  moreover have "(c < length dir \<and> offset_of ?ks c \<le> s \<and> s < offset_of ?ks c + ?ks ! c)
      = (c < length dir \<and> unat (ce_code_offset (dir ! c)) \<le> s \<and>
         s < unat (ce_code_offset (dir ! c)) + unat (ce_n_vectors (dir ! c)))" for c
    by (auto simp: off)
  ultimately show ?thesis by simp
qed

theorem validated_directory_partitions_witness:
  "\<exists>!c. c < length [\<lparr>ce_code_offset = 0, ce_n_vectors = 1\<rparr>, \<lparr>ce_code_offset = 1, ce_n_vectors = 2\<rparr>] \<and>
    unat (ce_code_offset ([\<lparr>ce_code_offset = 0, ce_n_vectors = 1\<rparr>,
      \<lparr>ce_code_offset = 1, ce_n_vectors = 2\<rparr>] ! c)) \<le> 2 \<and>
    2 < unat (ce_code_offset ([\<lparr>ce_code_offset = 0, ce_n_vectors = 1\<rparr>,
      \<lparr>ce_code_offset = 1, ce_n_vectors = 2\<rparr>] ! c))
      + unat (ce_n_vectors ([\<lparr>ce_code_offset = 0, ce_n_vectors = 1\<rparr>,
      \<lparr>ce_code_offset = 1, ce_n_vectors = 2\<rparr>] ! c))"
  by (rule validated_directory_partitions [where n = 3]) (simp_all add: validate_partition_def)

text \<open>
  C21: the probe mask looks at exactly the slots of the probed cells and at every slot past the
  partitioned region; ids of cells that do not exist are ignored.
\<close>

theorem probe_mask_exact:
  "length (probe_mask dir probed n) = n \<and>
   (\<forall>s. s < n \<longrightarrow> probe_mask dir probed n ! s =
      ((\<exists>c \<in> set probed. unat c < length dir \<and> unat (ce_code_offset (dir ! unat c)) \<le> s \<and>
          s < unat (ce_code_offset (dir ! unat c) + ucast (ce_n_vectors (dir ! unat c))))
       \<or> unat (total_vectors dir) \<le> s))"
  by (simp add: nth_probe_mask in_cell_def)

theorem probe_mask_exact_witness:
  "probe_mask [\<lparr>ce_code_offset = 0, ce_n_vectors = 1\<rparr>, \<lparr>ce_code_offset = 1, ce_n_vectors = 2\<rparr>] [1, 9] 4 ! 3"
  using probe_mask_exact [of "[\<lparr>ce_code_offset = 0, ce_n_vectors = 1\<rparr>,
      \<lparr>ce_code_offset = 1, ce_n_vectors = 2\<rparr>]" "[1, 9]" 4]
  by (simp add: total_vectors_def)

end
