(* ===== verification/Reader.thy ===== *)
theory Reader
  imports Rewrite Ivf
begin

text \<open>
  Reading an index back (\<open>src/index/relfile.rs\<close>): the consistent whole-file read of the scan and
  insert paths, the single-chain reads, the range gather of the out-of-core scan, the scale check of
  \<open>turbovec_check\<close>, and the in-place slot copy of VACUUM.
\<close>

section \<open>Whole-file reads\<close>

definition read_chains_of ::
  "'r pstore \<Rightarrow> meta \<Rightarrow> ('r, u8 list \<times> u8 list \<times> u8 list) io" where
  "read_chains_of S m =
     bind_io (read_chain S (m_codes_first m) (m_stride_bytes m) (m_rows_per_codes_page m) (m_n_vectors m))
       (\<lambda>codes.
     bind_io (read_chain S (m_scales_first m) 4 (m_rows_per_scales_page m) (m_n_vectors m))
       (\<lambda>scales_bytes.
     bind_io (read_chain S (m_ids_first m) 8 (m_rows_per_ids_page m) (m_n_vectors m))
       (\<lambda>ids_bytes. ret (codes, scales_bytes, ids_bytes))))"

definition read_full_consistent ::
  "'r pstore \<Rightarrow> meta \<Rightarrow> ('r, meta \<times> u8 list \<times> f32_bits list \<times> u64 list) io" where
  "read_full_consistent S meta_hint =
     (if m_n_vectors meta_hint = 0 then ret (meta_hint, [], [], [])
      else
        seq_io lock_relfile_read
        (bind_io (read_meta S) (\<lambda>mo.
          case mo of
            None \<Rightarrow> seq_io unlock_relfile_read (ret (meta_hint, [], [], []))
          | Some m \<Rightarrow>
              if m_n_vectors m = 0 then seq_io unlock_relfile_read (ret (m, [], [], []))
              else bind_io (read_chains_of S m) (\<lambda>(codes, scales_bytes, ids_bytes).
                seq_io unlock_relfile_read
                  (ret (m, codes, bytes_f32s scales_bytes, bytes_u64s ids_bytes))))))"

definition read_full :: "'r pstore \<Rightarrow> meta \<Rightarrow> ('r, u8 list \<times> f32_bits list \<times> u64 list) io" where
  "read_full S m =
     bind_io (read_full_consistent S m) (\<lambda>(m', codes, scales, ids). ret (codes, scales, ids))"

definition read_ids_only :: "'r pstore \<Rightarrow> meta \<Rightarrow> ('r, u64 list) io" where
  "read_ids_only S m =
     (if m_n_vectors m = 0 then ret []
      else
        seq_io lock_relfile_read
        (bind_io (read_meta S) (\<lambda>mo.
          let cur = (case mo of None \<Rightarrow> m | Some c \<Rightarrow> c) in
          if m_n_vectors cur = 0 then seq_io unlock_relfile_read (ret [])
          else bind_io (read_chain S (m_ids_first cur) 8 (m_rows_per_ids_page cur) (m_n_vectors cur))
            (\<lambda>ids_bytes. seq_io unlock_relfile_read (ret (bytes_u64s ids_bytes))))))"

definition read_scales_only :: "'r pstore \<Rightarrow> meta \<Rightarrow> ('r, f32_bits list) io" where
  "read_scales_only S m =
     (if m_n_vectors m = 0 then ret []
      else bind_io (read_chain S (m_scales_first m) 4 (m_rows_per_scales_page m) (m_n_vectors m))
        (\<lambda>bytes. ret (bytes_f32s bytes)))"

section \<open>Byte chains\<close>

definition read_byte_chain :: "'r pstore \<Rightarrow> u32 \<Rightarrow> u64 \<Rightarrow> ('r, u8 list) io" where
  "read_byte_chain S first n_bytes = read_chain S first 1 (of_nat PAYLOAD_BYTES) n_bytes"

definition read_blocked :: "'r pstore \<Rightarrow> meta \<Rightarrow> ('r, u8 list) io" where
  "read_blocked S m =
     (if m_blocked_bytes m = 0 \<or> m_blocked_first m = 0 then ret []
      else read_byte_chain S (m_blocked_first m) (m_blocked_bytes m))"

definition read_tqplus :: "'r pstore \<Rightarrow> meta \<Rightarrow> ('r, f32_bits list \<times> f32_bits list) io" where
  "read_tqplus S m =
     (if m_rotation_count m = 0 \<or> m_rotation_first m = 0 \<or> m_rotation_dim m = 0 then ret ([], [])
      else
        let dim = unat (m_rotation_dim m); n_elems = 2 * dim in
        bind_io (read_byte_chain S (m_rotation_first m) (of_nat (n_elems * 4))) (\<lambda>bytes.
          let all = bytes_f32s bytes in
          if length all < dim then raise OutOfBounds else ret (take dim all, drop dim all)))"

definition read_coarse_centroids :: "'r pstore \<Rightarrow> meta \<Rightarrow> ('r, f32_bits list) io" where
  "read_coarse_centroids S m =
     (if m_lists m = 0 \<or> m_coarse_first m = 0 \<or> m_coarse_count m = 0 then ret []
      else bind_io (read_byte_chain S (m_coarse_first m)
                     (of_nat (unat (m_lists m) * unat (m_dim m) * 4)))
        (\<lambda>bytes. ret (bytes_f32s bytes)))"

definition read_cell_directory_bytes :: "'r pstore \<Rightarrow> meta \<Rightarrow> ('r, u8 list) io" where
  "read_cell_directory_bytes S m =
     (if m_lists m = 0 \<or> m_cell_dir_first m = 0 \<or> m_cell_dir_count m = 0 then ret []
      else read_byte_chain S (m_cell_dir_first m) (of_nat (unat (m_lists m) * CellEntry_BYTES)))"

definition read_cell_directory :: "'r pstore \<Rightarrow> meta \<Rightarrow> ('r, cell_directory option) io" where
  "read_cell_directory S m =
     (if m_lists m = 0 \<or> m_cell_dir_first m = 0 \<or> m_cell_dir_count m = 0 then ret None
      else bind_io (read_cell_directory_bytes S m) (\<lambda>bytes.
        bind_io (option_io OutOfBounds (dir_decode bytes (unat (m_lists m)))) (\<lambda>dir. ret (Some dir))))"

definition read_tombstones :: "'r pstore \<Rightarrow> meta \<Rightarrow> ('r, u8 list) io" where
  "read_tombstones S m =
     (if m_tombstone_bytes m = 0 \<or> m_tombstone_first m = 0 \<or> m_tombstone_count m = 0 then ret []
      else read_byte_chain S (m_tombstone_first m) (m_tombstone_bytes m))"

definition read_bq_mean :: "'r pstore \<Rightarrow> meta \<Rightarrow> ('r, f32_bits list) io" where
  "read_bq_mean S m =
     (if m_bq_mean_bytes m = 0 \<or> m_bq_mean_first m = 0 then ret []
      else bind_io (read_byte_chain S (m_bq_mean_first m) (m_bq_mean_bytes m))
        (\<lambda>bytes. ret (bytes_f32s bytes)))"

section \<open>Checking the scales\<close>

text \<open>
  \<open>!s.is_finite() || s < 0.0 || s > 1e22\<close> on the bits of an \<open>f32\<close>: the exponent is all ones, or the
  sign is set and the value is not a zero, or the magnitude is above that of \<open>1e22\<close>
  (\<open>0x6407_8678\<close>); finite non-negative floats are ordered as their bit patterns.
\<close>

definition f32_is_finite :: "f32_bits \<Rightarrow> bool" where
  "f32_is_finite b \<longleftrightarrow> b AND 0x7F800000 \<noteq> 0x7F800000"

definition f32_negative :: "f32_bits \<Rightarrow> bool" where
  "f32_negative b \<longleftrightarrow> bit b 31 \<and> b AND 0x7FFFFFFF \<noteq> 0"

definition MAX_SANE_SCALE :: f32_bits where "MAX_SANE_SCALE = 0x64078678"

definition bad_scale :: "f32_bits \<Rightarrow> bool" where
  "bad_scale b \<longleftrightarrow> \<not> f32_is_finite b \<or> f32_negative b \<or> (\<not> bit b 31 \<and> MAX_SANE_SCALE < b)"

datatype scale_fault = ShortScales nat nat | InvalidScale nat f32_bits

fun first_bad_scale :: "nat \<Rightarrow> f32_bits list \<Rightarrow> scale_fault option" where
  "first_bad_scale slot [] = None"
| "first_bad_scale slot (s # ss) =
     (if bad_scale s then Some (InvalidScale slot s) else first_bad_scale (Suc slot) ss)"

definition validate_scales :: "'r pstore \<Rightarrow> meta \<Rightarrow> ('r, scale_fault option) io" where
  "validate_scales S m =
     (if m_n_vectors m = 0 then ret None
      else bind_io (read_chain S (m_scales_first m) 4 (m_rows_per_scales_page m) (m_n_vectors m))
        (\<lambda>bytes.
          let want = unat (m_n_vectors m); got = length bytes div 4 in
          if got < want then ret (Some (ShortScales got want))
          else ret (first_bad_scale 0 (take want (bytes_f32s bytes)))))"

section \<open>Gathering ranges of rows\<close>

text \<open>
  One range \<open>[slot, end)\<close> of the codes chain, page by page.  \<open>page_idx as u32\<close> and the block sum wrap
  at 32 bits as in the source.
\<close>

function gather_range :: "'r pstore \<Rightarrow> u32 \<Rightarrow> nat \<Rightarrow> nat \<Rightarrow> nat \<Rightarrow> nat \<Rightarrow> u8 list \<Rightarrow> ('r, u8 list) io" where
  "gather_range S first stride rpp slot stop out =
     (if stop \<le> slot then ret out
      else if rpp = 0 then raise Hang
      else if PAYLOAD_BYTES < (slot mod rpp + min (rpp - slot mod rpp) (stop - slot)) * stride
      then raise OutOfBounds
      else bind_io (read_block S (unat (first + of_nat (slot div rpp) :: u32))) (\<lambda>p.
        gather_range S first stride rpp (slot + min (rpp - slot mod rpp) (stop - slot)) stop
          (out @ bslice (slot mod rpp * stride) (min (rpp - slot mod rpp) (stop - slot) * stride)
                   (pg_data p))))"
  by pat_completeness auto
termination
proof (relation "measure (\<lambda>(S, first, stride, rpp, slot, stop, out). stop - slot)", goal_cases)
  case (2 S first stride rpp slot stop out p)
  then have "slot mod rpp < rpp" by simp
  then have "0 < min (rpp - slot mod rpp) (stop - slot)" using 2 by simp
  then have "stop - (slot + min (rpp - slot mod rpp) (stop - slot)) < stop - slot"
    using 2(1) by (intro diff_less_mono2) simp_all
  then show ?case by simp
qed simp

declare gather_range.simps [simp del]

fun gather_ranges :: "'r pstore \<Rightarrow> u32 \<Rightarrow> nat \<Rightarrow> nat \<Rightarrow> (u64 \<times> u64) list \<Rightarrow> u8 list \<Rightarrow> ('r, u8 list) io" where
  "gather_ranges S first stride rpp [] out = ret out"
| "gather_ranges S first stride rpp ((start, count) # rs) out =
     bind_io (gather_range S first stride rpp (unat start) (unat (start + count)) out)
       (gather_ranges S first stride rpp rs)"

definition gather_codes_ranges ::
  "'r pstore \<Rightarrow> u32 \<Rightarrow> u32 \<Rightarrow> u32 \<Rightarrow> (u64 \<times> u64) list \<Rightarrow> ('r, u8 list) io" where
  "gather_codes_ranges S first_blkno stride rpp ranges =
     (if stride = 0 \<or> rpp = 0 then ret []
      else gather_ranges S first_blkno (unat stride) (unat rpp) ranges [])"

section \<open>Moving one row\<close>

definition copy_slot_in_chain ::
  "'r pstore \<Rightarrow> u32 \<Rightarrow> u32 \<Rightarrow> u32 \<Rightarrow> u64 \<Rightarrow> u64 \<Rightarrow> ('r, unit) io" where
  "copy_slot_in_chain S first_blkno stride rpp from_slot to_slot =
     (if from_slot = to_slot then ret ()
      else if rpp = 0 then raise AssertFailed
      else
        let n = unat stride;
            src_off = unat (from_slot mod ucast rpp) * n;
            dst_off = unat (to_slot mod ucast rpp) * n;
            src_blkno = unat (first_blkno + ucast (from_slot div ucast rpp));
            dst_blkno = unat (first_blkno + ucast (to_slot div ucast rpp))
        in if PAYLOAD_BYTES < src_off + n \<or> PAYLOAD_BYTES < dst_off + n then raise OutOfBounds
        else if src_blkno = dst_blkno then
          bind_io (read_block S src_blkno) (\<lambda>p.
            install_page S src_blkno
              (p\<lparr>pg_data := blit dst_off (bslice src_off n (pg_data p)) (pg_data p)\<rparr>))
        else
          bind_io (read_block S src_blkno) (\<lambda>src.
          bind_io (read_block S dst_blkno) (\<lambda>dst.
            install_page S dst_blkno
              (dst\<lparr>pg_data := blit dst_off (bslice src_off n (pg_data src)) (pg_data dst)\<rparr>))))"

end
