(* ===== verification/Persist.thy ===== *)
theory Persist
  imports Reader
begin

text \<open>
  The contract between the writers and the readers of a relation file: what a completed rewrite lets
  every reader return, and what an interrupted one leaves behind.
\<close>

section \<open>A rewrite from start to end\<close>

lemma seq_io_assoc: "seq_io (seq_io a b) c = seq_io a (seq_io b c)"
  by (auto simp: seq_io_def bind_io_def fun_eq_iff split: prod.split sum.split)


lemma seq_io_lock: "seq_io lock_relfile_write d w = d (w\<lparr>w_xlock := w_xlock w + 1\<rparr>)"
  by (simp add: seq_io_def bind_io_def lock_relfile_write_def)

lemma persist_guard_ok:
  assumes "len64 ids = n" "len64 scales = n" and "b \<Longrightarrow> 0 < n \<Longrightarrow> persist_check 0 [] ids = None"
  shows "persist_guard n scales ids b = ret ()"
  using assms by (auto simp: persist_guard_def seq_io_def bind_io_def ret_def fun_eq_iff)

lemma persist_check_spec:
  "persist_check slot seen ids = None \<longleftrightarrow> 0 \<notin> set ids \<and> distinct ids \<and> set ids \<inter> set seen = {}"
  by (induction slot seen ids rule: persist_check.induct) auto

text \<open>The state a completed rewrite establishes.\<close>

definition index_stored ::
  "'r pstore \<Rightarrow> meta \<Rightarrow> u8 list \<Rightarrow> f32_bits list \<Rightarrow> u64 list \<Rightarrow> prepared option \<Rightarrow> ivf_parts option \<Rightarrow>
   graph_parts option \<Rightarrow> u8 list \<Rightarrow> 'r \<Rightarrow> bool" where
  "index_stored S m codes scales ids prepared ivf graph tombs r \<longleftrightarrow>
     meta_stored S m r \<and> ps_nblocks S r = block_sum m \<and>
     (0 < m_n_vectors m \<longrightarrow>
        rows_stored S m codes scales ids r \<and> parts_stored S m prepared ivf graph tombs r)"

context page_store
begin

lemma commit_rewrite_run:
  assumes "unat tot = block_sum m" and "block_sum m \<le> ps_nblocks S (w_rel w)"
    and agree: "\<And>r r'. P r \<Longrightarrow> agree_on S {0<..<block_sum m} r r' \<Longrightarrow> P r'" and "P (w_rel w)"
  obtains w' where "commit_rewrite S m tot w = (Inr (), w')" and "meta_stored S m (w_rel w')"
    and "ps_nblocks S (w_rel w') = block_sum m" and "P (w_rel w')"
    and "w_xlock w' = w_xlock w - 1" and "w_slock w' = w_slock w" and "w_polls w' = w_polls w"
proof -
  let ?r = "w_rel w"
  let ?r1 = "ps_write S 0 (page_image (encode m)) ?r"
  have pos: "0 < block_sum m" by (simp add: block_sum_eq)
  then have nb: "0 < ps_nblocks S ?r" using assms(2) by simp
  have nb1: "ps_nblocks S ?r1 = ps_nblocks S ?r" using nb by (rule nblocks_write)
  define r2 where "r2 = (if block_sum m < ps_nblocks S ?r then ps_truncate S (block_sum m) ?r1 else ?r1)"
  define w' where "w' = w\<lparr>w_rel := r2, w_wal := w_wal w + 1, w_xlock := w_xlock w - 1\<rparr>"
  have nb2: "ps_nblocks S r2 = block_sum m"
    using assms(2) nb1 by (simp add: r2_def nblocks_truncate)
  have rd2: "ps_read S r2 b = ps_read S ?r1 b" if "b < block_sum m" for b
    using that nb1 assms(2) by (simp add: r2_def read_truncate)
  show thesis
  proof (rule that [of w'])
    show "commit_rewrite S m tot w = (Inr (), w')"
      using nb nb1 assms(1)
      by (auto simp: commit_rewrite_def write_meta_def seq_io_def bind_io_def nblocks_def ret_def
          install_page_def relation_truncate_def unlock_relfile_write_def w'_def r2_def when_io_def)
    show "meta_stored S m (w_rel w')"
      using nb2 rd2 [OF pos] nb pos by (simp add: meta_stored_def w'_def read_write)
    have "agree_on S {0<..<block_sum m} ?r r2"
      using nb nb2 rd2 by (auto simp: agree_on_def read_write)
    then show "P (w_rel w')" using agree assms(4) by (simp add: w'_def)
  qed (simp_all add: w'_def nb2)
qed

text \<open>
  The whole rewrite: it either completes, or is stopped by the pending cancel with the meta page and
  everything past the planned file untouched.
\<close>

lemma write_full_cases:
  assumes p: "plan_full cb bw dim n v prepared ivf graph (case tombs of None \<Rightarrow> [] | Some t \<Rightarrow> t) d = Some m"
    and f: "fits m"
    and inp: "rewrite_inputs bw dim n codes prepared ivf graph (case tombs of None \<Rightarrow> [] | Some t \<Rightarrow> t)"
    and len: "length scales = unat n" "length ids = unat n"
    and ok: "ivf = None \<Longrightarrow> graph = None \<Longrightarrow> 0 \<notin> set ids \<and> distinct ids"
  obtains (completed) w' where
    "write_full_inner_with_tombstones cb S skip bw dim n codes scales ids v prepared ivf graph tombs d w
      = (Inr (), w')"
    "index_stored S m codes scales ids prepared ivf graph (case tombs of None \<Rightarrow> [] | Some t \<Rightarrow> t) (w_rel w')"
    "w_xlock w' = w_xlock w" "w_slock w' = w_slock w" "w_polls w = None \<Longrightarrow> w_polls w' = None"
  | (stopped) w' where
    "write_full_inner_with_tombstones cb S skip bw dim n codes scales ids v prepared ivf graph tombs d w
      = (Inl Cancelled, w')"
    "w_polls w \<noteq> None" "same_outside S {0<..<block_sum m} (w_rel w) (w_rel w')"
proof -
  let ?t = "case tombs of None \<Rightarrow> [] | Some t \<Rightarrow> t"
  let ?w0 = "w\<lparr>w_xlock := w_xlock w + 1\<rparr>"
  define tot where "tot = max (total_blocks m) 1"
  have tb: "unat (total_blocks m) = block_sum m" using f by (rule total_blocks_fits)
  then have tot: "unat tot = block_sum m"
    by (simp add: tot_def max_def word_le_nat_alt block_sum_eq)
  have n64: "len64 ids = n" "len64 scales = n" using len by (simp_all add: len64_def)
  have guard: "persist_guard n scales ids (ivf = None \<and> graph = None) = ret ()"
    using n64 ok by (intro persist_guard_ok) (auto simp: persist_check_spec)
  let ?ext = "bind_io (nblocks S) (\<lambda>existing_before.
                when_io (existing_before < unat tot) (extend_to S tot))"
  let ?chains = "when_io (0 < n) (write_all_chains S skip m n codes scales ids prepared ivf graph ?t)"
  define P where "P r \<longleftrightarrow> (0 < n \<longrightarrow> rows_stored S m codes scales ids r \<and>
    parts_stored S m prepared ivf graph ?t r)" for r
  have run: "write_full_inner_with_tombstones cb S skip bw dim n codes scales ids v prepared ivf graph tombs d w
      = seq_io (seq_io ?ext ?chains) (commit_rewrite S m tot) ?w0"
    by (simp add: write_full_inner_with_tombstones_def guard p Let_def tot_def [symmetric]
        seq_io_assoc seq_io_lock)
  have ext: "touches S {} ?ext ?w0 (\<lambda>r. block_sum m \<le> ps_nblocks S r)"
  proof (cases "ps_nblocks S (w_rel w) < unat tot")
    case True
    then have "?ext ?w0 = extend_to S tot ?w0" by (simp add: bind_io_def nblocks_def)
    moreover have "touches S {} (extend_to S tot) ?w0 (\<lambda>r. block_sum m \<le> ps_nblocks S r)"
      by (rule touches_weaken [OF extend_to_touches]) (auto simp: tot)
    ultimately show ?thesis by (simp add: touches_def)
  next
    case False
    then have "?ext ?w0 = ret () ?w0" by (simp add: bind_io_def nblocks_def)
    then show ?thesis using False tot by (simp add: touches_def ret_def)
  qed
  have fl: "fills S (block_sum m) {0<..<block_sum m} P ?chains"
  proof (cases "0 < n")
    case True
    then show ?thesis using fills_all_chains [OF p f inp len, of "block_sum m" skip]
      by (simp add: P_def [abs_def])
  next
    case False
    then show ?thesis using fills_widen [OF fills_ret, of "{0<..<block_sum m}" S "block_sum m"]
      by (simp add: P_def [abs_def])
  qed
  have chains: "touches S {0<..<block_sum m} (seq_io ?ext ?chains) ?w0 (\<lambda>r. block_sum m \<le> ps_nblocks S r \<and> P r)"
    using ext
    by (rule touches_seq_frame) (use fl in \<open>auto intro: fills_touches simp: same_outside_def\<close>)
  show thesis
    using chains
  proof (cases rule: touchesE)
    case (stopped w1)
    with run have "write_full_inner_with_tombstones cb S skip bw dim n codes scales ids v prepared ivf
      graph tombs d w = (Inl Cancelled, w1)" by (simp add: seq_io_def bind_io_def)
    with stopped show thesis using that(2) by simp
  next
    case (finished w1)
    from finished(2) have "block_sum m \<le> ps_nblocks S (w_rel w1)" and "P (w_rel w1)" by auto
    with tot fills_agree [OF fl] obtain w' where "commit_rewrite S m tot w1 = (Inr (), w')"
      and "meta_stored S m (w_rel w')" "ps_nblocks S (w_rel w') = block_sum m" "P (w_rel w')"
      "w_xlock w' = w_xlock w1 - 1" "w_slock w' = w_slock w1" "w_polls w' = w_polls w1"
      by (elim commit_rewrite_run [where P = P]) auto
    moreover have "m_n_vectors m = n" using plan_full_meta [OF p] by simp
    ultimately show thesis using that(1) [of w'] run finished
      by (simp add: seq_io_def bind_io_def index_stored_def P_def)
  qed
qed

section \<open>What the readers return\<close>

lemma read_row_chain:
  assumes c: "chain_list m ! i = (unat first, unat (padded_pages_needed n (rows_per_page stride)))" "i < 10"
    and f: "fits m" and len: "length bytes = unat n * unat stride"
    and st: "stride \<noteq> 0" "unat stride \<le> PAYLOAD_BYTES"
    and stored: "stores S (w_rel w) (unat first) (unat (rows_per_page stride) * unat stride) bytes"
  shows "read_chain S first stride (rows_per_page stride) n w = (Inr bytes, w)"
proof -
  note rp = rows_per_page_pos [OF st]
  have cnt: "unat (padded_pages_needed n (rows_per_page stride)) < 4294967295"
    using count_small [OF f c(2)] c(1) by simp
  have pages: "nat_div_ceil (unat n) (unat (rows_per_page stride)) < 4294967295"
    using padded_pages_room [OF cnt rp(1)] cnt by simp
  have "unat n \<le> nat_div_ceil (unat n) (unat (rows_per_page stride)) * unat (rows_per_page stride)"
    using rp(1) by (intro nat_div_ceil_mult_ge) (simp add: unat_gt_0)
  then have "unat n * unat stride
      \<le> nat_div_ceil (unat n) (unat (rows_per_page stride)) * unat (rows_per_page stride) * unat stride"
    by (rule mult_le_mono1)
  also have "\<dots> \<le> nat_div_ceil (unat n) (unat (rows_per_page stride)) * PAYLOAD_BYTES"
    using rp(2) by (simp add: mult.assoc)
  also have "\<dots> \<le> 4294967295 * PAYLOAD_BYTES" using pages by (intro mult_le_mono1) simp
  finally have small: "unat n * unat stride < 2 ^ 64" by (simp add: PAYLOAD_BYTES_eq)
  show ?thesis
    using stored len small rp pages unat_u32_bound [of first]
    by (intro read_chain_stored) simp_all
qed

lemma read_byte_chain_stored:
  assumes len: "length bytes < 2 ^ 64" and n: "unat n = length bytes"
    and pages: "nat_div_ceil (length bytes) PAYLOAD_BYTES < 4294967295"
    and stored: "stores S (w_rel w) (unat first) PAYLOAD_BYTES bytes"
  shows "read_byte_chain S first n w = (Inr bytes, w)"
  unfolding read_byte_chain_def
  using stored len n pages unat_u32_bound [of first]
  by (intro read_chain_stored) simp_all

lemma read_chains_of_stored:
  assumes p: "plan_full cb bw dim n v prepared ivf graph tombs d = Some m" and f: "fits m"
    and inp: "rewrite_inputs bw dim n codes prepared ivf graph tombs"
    and len: "length scales = unat n" "length ids = unat n"
    and st: "rows_stored S m codes scales ids (w_rel w)"
  shows "read_chains_of S m w = (Inr (codes, f32s_bytes scales, u64s_bytes ids), w)"
proof -
  note me = plan_full_meta [OF p]
  have c: "read_chain S (m_codes_first m) (m_stride_bytes m) (m_rows_per_codes_page m) n w = (Inr codes, w)"
    unfolding me(5,6) using f inp st
    by (intro read_row_chain [of m 0]) (simp_all add: chain_list_def me rewrite_inputs_def rows_stored_def)
  have s: "read_chain S (m_scales_first m) 4 (m_rows_per_scales_page m) n w = (Inr (f32s_bytes scales), w)"
    unfolding me(7) using f len st
    by (intro read_row_chain [of m 1]) (simp_all add: chain_list_def me rows_stored_def PAYLOAD_BYTES_eq)
  have i: "read_chain S (m_ids_first m) 8 (m_rows_per_ids_page m) n w = (Inr (u64s_bytes ids), w)"
    unfolding me(8) using f len st
    by (intro read_row_chain [of m 2]) (simp_all add: chain_list_def me rows_stored_def PAYLOAD_BYTES_eq)
  from c s i show ?thesis by (simp add: read_chains_of_def me(1) bind_io_def ret_def)
qed

end

lemma read_lock_run:
  "seq_io lock_relfile_read d w = d (w\<lparr>w_slock := w_slock w + 1\<rparr>)"
  "seq_io unlock_relfile_read d w = d (w\<lparr>w_slock := w_slock w - 1\<rparr>)"
  by (simp_all add: seq_io_def bind_io_def lock_relfile_read_def unlock_relfile_read_def)

lemma world_slock_id [simp]: "w\<lparr>w_slock := w_slock w\<rparr> = w"
  by (cases w) simp

text \<open>Under a stored meta page whose chains read back, the consistent read returns them all.\<close>

lemma read_full_consistent_run:
  assumes "meta_stored S m (w_rel w)" and "encodable m" and "m_n_vectors hint \<noteq> 0" and "m_n_vectors m \<noteq> 0"
    and chains: "read_chains_of S m (w\<lparr>w_slock := w_slock w + 1\<rparr>)
      = (Inr (codes, f32s_bytes scales, u64s_bytes ids), w\<lparr>w_slock := w_slock w + 1\<rparr>)"
  shows "read_full_consistent S hint w = (Inr (m, codes, scales, ids), w)"
proof -
  have "read_meta S (w\<lparr>w_slock := w_slock w + 1\<rparr>) = (Inr (Some m), w\<lparr>w_slock := w_slock w + 1\<rparr>)"
    using assms(1,2) by (intro read_meta_stored) simp_all
  with assms show ?thesis
    by (simp add: read_full_consistent_def read_lock_run bind_io_def ret_def)
qed

text \<open>A stored index reads back whole, whatever meta page the reader held before.\<close>

lemma index_stored_reads:
  assumes S: "page_store S" and p: "plan_full cb bw dim n v prepared ivf graph tombs d = Some m"
    and f: "fits m" and inp: "rewrite_inputs bw dim n codes prepared ivf graph tombs"
    and len: "length scales = unat n" "length ids = unat n" and n: "n \<noteq> 0"
    and st: "index_stored S m codes scales ids prepared ivf graph tombs (w_rel w)"
    and h: "m_n_vectors hint \<noteq> 0"
  shows "read_full_consistent S hint w = (Inr (m, codes, scales, ids), w)"
proof -
  note me = plan_full_meta [OF p]
  have "0 < n" using n by (simp add: word_gt_0)
  with st me have rows: "rows_stored S m codes scales ids (w_rel w)" and meta: "meta_stored S m (w_rel w)"
    by (simp_all add: index_stored_def)
  show ?thesis
  proof (rule read_full_consistent_run [OF meta me(9) h])
    show "m_n_vectors m \<noteq> 0" using n me by simp
    show "read_chains_of S m (w\<lparr>w_slock := w_slock w + 1\<rparr>)
      = (Inr (codes, f32s_bytes scales, u64s_bytes ids), w\<lparr>w_slock := w_slock w + 1\<rparr>)"
      by (rule page_store.read_chains_of_stored [OF S p f inp len]) (use rows in simp)
  qed
qed

section \<open>The contract of a rewrite\<close>

text \<open>
  C1: a rewrite that no cancel interrupts returns, releases its lock, and a later consistent read
  returns exactly the meta page, codes, scales and ids that were written, whatever meta page the
  reader held before.
\<close>

theorem rewrite_reads_back:
  assumes S: "page_store S" and p: "plan_full cb bw dim n v prepared ivf graph [] d = Some m"
    and f: "fits m" and inp: "rewrite_inputs bw dim n codes prepared ivf graph []"
    and len: "length scales = unat n" "length ids = unat n"
    and ok: "ivf = None \<longrightarrow> graph = None \<longrightarrow> 0 \<notin> set ids \<and> distinct ids"
    and quiet: "w_polls w = None" and n: "n \<noteq> 0"
  shows "\<exists>w'. write_full_inner cb S skip bw dim n codes scales ids v prepared ivf graph d w
      = (Inr (), w') \<and> w_xlock w' = w_xlock w \<and>
    (\<forall>hint. m_n_vectors hint \<noteq> 0 \<longrightarrow>
       read_full_consistent S hint w' = (Inr (m, codes, scales, ids), w'))"
proof -
  have p': "plan_full cb bw dim n v prepared ivf graph (case None of None \<Rightarrow> [] | Some t \<Rightarrow> t) d = Some m"
    and inp': "rewrite_inputs bw dim n codes prepared ivf graph (case None of None \<Rightarrow> [] | Some t \<Rightarrow> t)"
    using p inp by simp_all
  show ?thesis
  proof (rule page_store.write_full_cases [OF S p' f inp' len, where skip = skip and w = w])
    show "0 \<notin> set ids \<and> distinct ids" if "ivf = None" "graph = None" using ok that by simp
  next
    fix w' assume run: "write_full_inner_with_tombstones cb S skip bw dim n codes scales ids v prepared
        ivf graph None d w = (Inr (), w')"
      and st: "index_stored S m codes scales ids prepared ivf graph (case None of None \<Rightarrow> [] | Some t \<Rightarrow> t) (w_rel w')"
      and lock: "w_xlock w' = w_xlock w"
    have "read_full_consistent S hint w' = (Inr (m, codes, scales, ids), w')" if "m_n_vectors hint \<noteq> 0" for hint
      by (rule index_stored_reads [OF S p f inp len n _ that]) (use st in simp)
    with run lock show ?thesis by (simp add: write_full_inner_def)
  qed (use quiet in simp)
qed

lemma plan_flat_block_sum:
  assumes p: "plan_full cb bw dim n v prepared None None [] 0 = Some m"
    and tq: "case prepared of None \<Rightarrow> True | Some p \<Rightarrow> tqplus_shift p = []"
  shows "block_sum m = 1 + unat (padded_pages_needed n (rows_per_page (codes_stride bw dim)))
    + unat (padded_pages_needed n (rows_per_page 4)) + unat (padded_pages_needed n (rows_per_page 8))"
proof -
  have tq0: "(case prepared of Some p \<Rightarrow> tqplus_chain_len p | None \<Rightarrow> 0) = 0"
    using tq by (simp add: tqplus_chain_len_def split: option.splits)
  from p obtain m0 m1 where p0: "plan_with_blocked bw dim n v 0 0
        (case prepared of Some p \<Rightarrow> tqplus_chain_len p | None \<Rightarrow> 0) = Some m0"
    and "chain_list m1 = chain_list m0"
    and "m = plan_tombstones [] (plan_graph None (plan_ivf None 0 m1))"
    by (rule plan_full_SomeE)
  then have "chain_list m = chain_list m0"
    by (simp add: plan_tombstones_def plan_graph_def plan_ivf_def)
  then have "block_sum m = block_sum m0" by (rule block_sum_cong)
  moreover note plan_fields [OF p0] plan_absent [OF p0]
  ultimately show ?thesis by (simp add: block_sum_eq tq0)
qed

text \<open>A concrete rewrite: one 8-dimensional vector at 4 bits, into an empty relation.\<close>

definition demo_world :: "page list world" where
  "demo_world = \<lparr>w_rel = [], w_polls = None, w_xlock = 0, w_slock = 0, w_wal = 0\<rparr>"

definition demo_meta :: meta where
  "demo_meta = the (plan_full (\<lambda>_ _. ([], [])) 4 8 1 1 None None None [] 0)"

lemma demo_plan: "plan_full (\<lambda>_ _. ([], [])) 4 8 1 1 None None None [] 0 = Some demo_meta"
proof -
  have "plan_with_blocked 4 8 1 1 0 0 0 \<noteq> None"
    by (simp add: plan_with_blocked_def Let_def)
  then show ?thesis by (auto simp: demo_meta_def plan_full_def)
qed

lemma demo_block_sum: "block_sum demo_meta = 4"
  by (simp add: plan_flat_block_sum [OF demo_plan] codes_stride_def)
    (simp add: padded_pages_needed_def pages_needed_def rows_per_page_def pad_chain_pages_def
      PAYLOAD_BYTES_eq u32_try_or_max_def div_ceil_def PAD_PAGES_def)

lemma demo_fits: "fits demo_meta"
  by (simp add: fits_def demo_block_sum)

theorem rewrite_reads_back_witness:
  "\<exists>w'. write_full_inner (\<lambda>_ _. ([], [])) list_store True 4 8 1 [1, 2, 3, 4] [0x3F800000] [7] 1
      None None None 0 demo_world = (Inr (), w') \<and> w_xlock w' = w_xlock demo_world \<and>
    (\<forall>hint. m_n_vectors hint \<noteq> 0 \<longrightarrow>
       read_full_consistent list_store hint w' = (Inr (demo_meta, [1, 2, 3, 4], [0x3F800000], [7]), w'))"
proof (rule rewrite_reads_back)
  show "page_store list_store" by unfold_locales
  show "rewrite_inputs 4 8 1 [1, 2, 3, 4] None None None []"
    by (simp add: rewrite_inputs_def codes_stride_def PAYLOAD_BYTES_eq)
qed (simp_all add: demo_plan demo_fits demo_world_def)

lemma persist_guard_stops:
  assumes "\<not> (len64 ids = n \<and> len64 scales = n \<and> (b \<longrightarrow> 0 < n \<longrightarrow> 0 \<notin> set ids \<and> distinct ids))"
  shows "\<exists>e. persist_guard n scales ids b w = (Inl e, w)"
proof (cases "len64 ids = n \<and> len64 scales = n")
  case True
  with assms have b: "b \<and> 0 < n" and "persist_check 0 [] ids \<noteq> None"
    by (auto simp: persist_check_spec simp del: not_None_eq)
  then obtain e where "persist_check 0 [] ids = Some e" by blast
  with True b have "persist_guard n scales ids b w = (Inl e, w)"
    by (simp add: persist_guard_def raise_def)
  then show ?thesis by blast
next
  case False
  then have "persist_guard n scales ids b w = (Inl AssertFailed, w)"
    by (auto simp: persist_guard_def assert_io_def seq_io_def bind_io_def raise_def ret_def)
  then show ?thesis by blast
qed



context page_store
begin

lemma extend_loop_run:
  "target \<le> ps_nblocks S (w_rel w) + fuel \<Longrightarrow>
   \<exists>r k. extend_loop S fuel target w = (Inr (), w\<lparr>w_rel := r, w_wal := k\<rparr>)"
proof (induction fuel arbitrary: w)
  case 0
  then have "extend_loop S 0 target w = (Inr (), w\<lparr>w_rel := w_rel w, w_wal := w_wal w\<rparr>)" by simp
  then show ?case by blast
next
  case (Suc fuel)
  show ?case
  proof (cases "target \<le> ps_nblocks S (w_rel w)")
    case True
    then have "extend_loop S (Suc fuel) target w = (Inr (), w\<lparr>w_rel := w_rel w, w_wal := w_wal w\<rparr>)" by simp
    then show ?thesis by blast
  next
    case False
    let ?w1 = "w\<lparr>w_rel := ps_write S (ps_nblocks S (w_rel w)) (page_image []) (ps_extend S (w_rel w)),
      w_wal := w_wal w + 1\<rparr>"
    have "extend_loop S (Suc fuel) target w = extend_loop S fuel target ?w1"
      using False by (simp add: bind_io_def seq_io_def extend_block_run install_page_def)
    moreover obtain r k where "extend_loop S fuel target ?w1 = (Inr (), ?w1\<lparr>w_rel := r, w_wal := k\<rparr>)"
      using Suc.IH [of ?w1] Suc.prems by (auto simp: nblocks_write nblocks_extend)
    ultimately show ?thesis by auto
  qed
qed

end




text \<open>
  The guard at the persist site.  A rewrite of a flat index that returns wrote one id per vector,
  none of them 0 and no two equal; a rewrite the guard refuses touches nothing.
\<close>

theorem persisted_ids_sound:
  assumes "write_full_inner_with_tombstones cb S skip bw dim n codes scales ids v prepared None None tombs d w
      = (r, w')" and "n \<noteq> 0" and "length ids < 2 ^ 64"
  shows "(r = Inr () \<longrightarrow> length ids = unat n \<and> 0 \<notin> set ids \<and> distinct ids) \<and>
    (length ids \<noteq> unat n \<or> 0 \<in> set ids \<or> \<not> distinct ids \<longrightarrow> w' = w)"
proof (cases "len64 ids = n \<and> len64 scales = n \<and> (True \<longrightarrow> 0 < n \<longrightarrow> 0 \<notin> set ids \<and> distinct ids)")
  case True
  with assms(2,3) show ?thesis by (auto simp: word_gt_0 dest: arg_cong [of _ _ unat])
next
  case False
  then obtain e where "persist_guard n scales ids True w = (Inl e, w)"
    using persist_guard_stops [of ids n scales True w] by blast
  with assms(1) show ?thesis
    by (auto simp: write_full_inner_with_tombstones_def seq_io_def bind_io_def)
qed

theorem persisted_ids_sound_witness:
  "snd (write_full_inner_with_tombstones (\<lambda>_ _. ([], [])) list_store True 4 8 2 [] [1, 2] [7, 7] 1
      None None None None 0 demo_world) = demo_world"
  using persisted_ids_sound [of "\<lambda>_ _. ([], [])" list_store True 4 8 2 "[]" "[1, 2]" "[7, 7]" 1 None None 0
      demo_world "fst (write_full_inner_with_tombstones (\<lambda>_ _. ([], [])) list_store True 4 8 2 [] [1, 2]
        [7, 7] 1 None None None None 0 demo_world)"
      "snd (write_full_inner_with_tombstones (\<lambda>_ _. ([], [])) list_store True 4 8 2 [] [1, 2]
        [7, 7] 1 None None None None 0 demo_world)"]
  by simp

end
