(* ===== verification/Flush.thy ===== *)
theory Flush
  imports Persist
begin

text \<open>
  The commit-time flush of inserted rows (\<open>src/index/relfile.rs\<close>, \<open>src/xact.rs\<close>): the pure
  reconciliation of a backend's snapshot with the current file, the version it stamps, the bound on
  the unpartitioned tail of an IVF index, and the whole flush under the rewrite lock.
\<close>

text \<open>Signed integers are words read with \<open>sint\<close>; a cast between signed and unsigned keeps the bits.\<close>

type_synonym i32 = "32 word"
type_synonym i64 = "64 word"

section \<open>Reconciling a snapshot with the file\<close>

text \<open>\<open>for (slot, &id) in ids.iter().enumerate() { map.insert(id, slot) }\<close>.\<close>

fun slot_map :: "nat \<Rightarrow> u64 list \<Rightarrow> (u64 \<rightharpoonup> nat) \<Rightarrow> (u64 \<rightharpoonup> nat)" where
  "slot_map k [] m = m"
| "slot_map k (i # ids) m = slot_map (Suc k) ids (m(i \<mapsto> k))"

text \<open>The elements of a list, each at its first occurrence.\<close>

fun first_occurrences :: "u64 list \<Rightarrow> u64 list \<Rightarrow> u64 list" where
  "first_occurrences seen [] = []"
| "first_occurrences seen (i # ids) =
     (if i \<in> set seen then first_occurrences seen ids
      else i # first_occurrences (i # seen) ids)"

record image =
  im_codes :: "u8 list"
  im_scales :: "f32_bits list"
  im_ids :: "u64 list"

text \<open>
  One touched id: nothing if the snapshot does not have it, else its row overwrites the slot that
  has the id or is appended.  An index out of range panics: \<open>None\<close>.
\<close>

definition splice_one ::
  "nat \<Rightarrow> image \<Rightarrow> (u64 \<rightharpoonup> nat) \<Rightarrow> u64 \<Rightarrow> image \<times> (u64 \<rightharpoonup> nat) \<Rightarrow> (image \<times> (u64 \<rightharpoonup> nat)) option" where
  "splice_one stride snap snap_slot i st =
     (case st of (im, disk_slot) \<Rightarrow>
       (case snap_slot i of
          None \<Rightarrow> Some (im, disk_slot)
        | Some s \<Rightarrow>
            if length (im_codes snap) < (s + 1) * stride \<or> length (im_scales snap) \<le> s then None
            else
              let src_codes = bslice (s * stride) stride (im_codes snap);
                  src_scale = im_scales snap ! s
              in (case disk_slot i of
                    Some dst \<Rightarrow>
                      if length (im_codes im) < (dst + 1) * stride \<or> length (im_scales im) \<le> dst then None
                      else Some (im\<lparr>im_codes := blit (dst * stride) src_codes (im_codes im),
                                   im_scales := (im_scales im)[dst := src_scale]\<rparr>, disk_slot)
                  | None \<Rightarrow>
                      Some (im\<lparr>im_codes := im_codes im @ src_codes,
                              im_scales := im_scales im @ [src_scale],
                              im_ids := im_ids im @ [i]\<rparr>,
                            disk_slot(i \<mapsto> length (im_ids im))))))"

fun splice_all ::
  "nat \<Rightarrow> image \<Rightarrow> (u64 \<rightharpoonup> nat) \<Rightarrow> u64 list \<Rightarrow> image \<times> (u64 \<rightharpoonup> nat) \<Rightarrow> image option" where
  "splice_all stride snap snap_slot [] st = Some (fst st)"
| "splice_all stride snap snap_slot (i # is) st =
     (case splice_one stride snap snap_slot i st of
        None \<Rightarrow> None
      | Some st' \<Rightarrow> splice_all stride snap snap_slot is st')"

definition reconcile_flush_image :: "nat \<Rightarrow> image \<Rightarrow> image \<Rightarrow> u64 list \<Rightarrow> image option" where
  "reconcile_flush_image stride disk snap touched_ids =
     splice_all stride snap (slot_map 0 (im_ids snap) Map.empty)
       (first_occurrences [] (rev touched_ids))
       (disk, slot_map 0 (im_ids disk) Map.empty)"

section \<open>Versions, bounds and checks\<close>

definition next_am_version :: "u32 option \<Rightarrow> u32 \<Rightarrow> u32" where
  "next_am_version on_disk proposed =
     (case on_disk of
        Some d \<Rightarrow> max proposed (saturating_add d 1)
      | None \<Rightarrow> proposed)"

definition delta_within_bound :: "u64 \<Rightarrow> u64 \<Rightarrow> i32 \<Rightarrow> bool" where
  "delta_within_bound cell_rows total_rows max_pct =
     (if sint max_pct \<le> 0 then False
      else if cell_rows = 0 then False
      else if total_rows < cell_rows then False
      else saturating_mul (total_rows - cell_rows) 100 \<le> saturating_mul cell_rows (scast max_pct))"

fun first_duplicate :: "u64 list \<Rightarrow> u64 list \<Rightarrow> u64 option" where
  "first_duplicate seen [] = None"
| "first_duplicate seen (i # ids) =
     (if i \<in> set seen then Some i else first_duplicate (i # seen) ids)"

definition first_duplicate_id :: "u64 list \<Rightarrow> u64 option" where
  "first_duplicate_id ids = first_duplicate [] ids"

definition reconciled_row_count :: "i64 \<Rightarrow> nat \<Rightarrow> (i64 \<times> nat) + u64" where
  "reconciled_row_count mirror slot_to_id_len =
     (if sint mirror < 0 \<or> mirror \<noteq> (of_nat slot_to_id_len :: u64)
      then Inl (mirror, slot_to_id_len) else Inr (of_nat slot_to_id_len))"

text \<open>An empty file: the touched rows of the snapshot, in snapshot order.\<close>

fun touched_rows :: "nat \<Rightarrow> image \<Rightarrow> u64 list \<Rightarrow> nat \<Rightarrow> u64 list \<Rightarrow> image \<Rightarrow> image option" where
  "touched_rows stride snap touched slot [] im = Some im"
| "touched_rows stride snap touched slot (i # ids) im =
     (if i \<in> set touched then
        (if length (im_codes snap) < (slot + 1) * stride \<or> length (im_scales snap) \<le> slot then None
         else touched_rows stride snap touched (Suc slot) ids
           (im\<lparr>im_codes := im_codes im @ bslice (slot * stride) stride (im_codes snap),
              im_scales := im_scales im @ [im_scales snap ! slot],
              im_ids := im_ids im @ [i]\<rparr>))
      else touched_rows stride snap touched (Suc slot) ids im)"

section \<open>Tombstones across a flush\<close>

text \<open>\<open>t[slot / 8] &= !(1 << (slot % 8))\<close> for every touched slot among the first \<open>disk_n\<close>.\<close>

definition clear_bit_at :: "nat \<Rightarrow> u8 list \<Rightarrow> u8 list option" where
  "clear_bit_at slot t =
     (if length t \<le> slot div 8 then None
      else Some (t[slot div 8 := unset_bit (slot mod 8) (t ! (slot div 8))]))"

fun clear_touched :: "u64 list \<Rightarrow> nat \<Rightarrow> u64 list \<Rightarrow> u8 list \<Rightarrow> u8 list option" where
  "clear_touched touched slot [] t = Some t"
| "clear_touched touched slot (i # ids) t =
     (if i \<in> set touched then
        (case clear_bit_at slot t of
           None \<Rightarrow> None
         | Some t' \<Rightarrow> clear_touched touched (Suc slot) ids t')
      else clear_touched touched (Suc slot) ids t)"

text \<open>\<open>t.resize(len, 0)\<close>.\<close>

definition resize0 :: "nat \<Rightarrow> u8 list \<Rightarrow> u8 list" where
  "resize0 n t = take n t @ replicate (n - length t) 0"

definition carry_tombstones :: "u8 list \<Rightarrow> nat \<Rightarrow> u64 list \<Rightarrow> nat \<Rightarrow> u64 list \<Rightarrow> u8 list option" where
  "carry_tombstones disk_tombstones n_vectors out_ids disk_n touched_ids =
     (if list_all (\<lambda>b. b = 0) disk_tombstones then Some []
      else clear_touched touched_ids 0 (take disk_n out_ids)
             (resize0 (nat_div_ceil n_vectors 8) disk_tombstones))"

section \<open>The flush\<close>

record flush_outcome =
  fo_stamped_version :: u32
  fo_snapshot_is_current :: bool
  fo_carries_tombstones :: bool

text \<open>The coarse centroids and the cell directory, if both are on disk in full.\<close>

definition preserved_ivf :: "'r pstore \<Rightarrow> meta option \<Rightarrow> ('r, (f32_bits list \<times> u8 list \<times> u32) option) io" where
  "preserved_ivf S disk_meta =
     (case disk_meta of
        None \<Rightarrow> ret None
      | Some m \<Rightarrow>
          if index_was_ivf m \<and> \<not> is_degraded m then
            bind_io (read_coarse_centroids S m) (\<lambda>centroids.
            bind_io (read_cell_directory_bytes S m) (\<lambda>dir_bytes.
              if length centroids = unat (m_lists m) * unat (m_dim m) \<and>
                 length dir_bytes = unat (m_lists m) * CellEntry_BYTES
              then ret (Some (centroids, dir_bytes, m_lists m)) else ret None))
          else ret None)"

text \<open>The image to write: the file reconciled with the snapshot.\<close>

definition flush_image ::
  "'r pstore \<Rightarrow> nat \<Rightarrow> meta option \<Rightarrow> image \<Rightarrow> u64 list \<Rightarrow> ('r, image) io" where
  "flush_image S stride disk_meta snap touched_ids =
     (let fresh = option_io OutOfBounds
            (touched_rows stride snap touched_ids 0 (im_ids snap)
              \<lparr>im_codes = [], im_scales = [], im_ids = []\<rparr>)
      in case disk_meta of
        None \<Rightarrow> fresh
      | Some m \<Rightarrow>
          if 0 < m_n_vectors m then
            bind_io (read_chains_of S m) (\<lambda>(codes, scales_bytes, ids_bytes).
              let disk_ids = bytes_u64s ids_bytes in
              case (if m_lists m = 0 then first_duplicate_id disk_ids else None) of
                Some bad \<Rightarrow> seq_io unlock_relfile_write (raise (DuplicateOnDisk bad))
              | None \<Rightarrow> option_io OutOfBounds
                  (reconcile_flush_image stride
                    \<lparr>im_codes = codes, im_scales = bytes_f32s scales_bytes, im_ids = disk_ids\<rparr>
                    snap touched_ids))
          else fresh)"

text \<open>Carry the cell layout forward while the appended tail is within the bound.\<close>

definition ivf_carry ::
  "i32 \<Rightarrow> (f32_bits list \<times> u8 list \<times> u32) option \<Rightarrow> u64 \<Rightarrow> ivf_parts option" where
  "ivf_carry max_pct preserved n_vectors =
     (case preserved of
        None \<Rightarrow> None
      | Some (centroids, dir_bytes, nl) \<Rightarrow>
          (case dir_decode dir_bytes (unat nl) of
             None \<Rightarrow> None
           | Some dir \<Rightarrow>
               if delta_within_bound (total_vectors dir) n_vectors max_pct
               then Some \<lparr>ip_lists = nl, ip_coarse_centroids = centroids,
                          ip_cell_dir_bytes = dir_bytes, ip_colbert = False\<rparr>
               else None))"

definition reconcile_and_write_flush ::
  "codebook_fn \<Rightarrow> i32 \<Rightarrow> 'r pstore \<Rightarrow> bool \<Rightarrow> u8 \<Rightarrow> u32 \<Rightarrow> image \<Rightarrow> u64 list \<Rightarrow> u32 \<Rightarrow>
   prepared \<Rightarrow> ('r, flush_outcome) io" where
  "reconcile_and_write_flush cb max_pct S skip bit_width dim snap touched_ids proposed prepared =
     seq_io lock_relfile_write
     (bind_io (read_meta S) (\<lambda>disk_meta.
     bind_io (preserved_ivf S disk_meta) (\<lambda>preserved.
     bind_io (case disk_meta of
                Some m \<Rightarrow> if 0 < m_n_vectors m then read_tombstones S m else ret []
              | None \<Rightarrow> ret []) (\<lambda>disk_tombstones.
     let am_version = next_am_version (map_option m_am_version disk_meta) proposed;
         degraded = (case disk_meta of
            Some m \<Rightarrow> if index_was_ivf m then m_lists m else 0 | None \<Rightarrow> 0);
         disk_n = (case disk_meta of None \<Rightarrow> 0 | Some m \<Rightarrow> unat (m_n_vectors m));
         stride = unat dim * unat bit_width div 8
     in bind_io (flush_image S stride disk_meta snap touched_ids) (\<lambda>out.
        let n_vectors = len64 (im_ids out);
            carry = ivf_carry max_pct preserved n_vectors
        in bind_io (option_io OutOfBounds
             (carry_tombstones disk_tombstones (length (im_ids out)) (im_ids out) disk_n touched_ids))
           (\<lambda>tombs.
        seq_io (write_full_inner_with_tombstones cb S skip bit_width dim n_vectors (im_codes out)
                  (im_scales out) (im_ids out) am_version (Some prepared) carry None
                  (if tombs = [] then None else Some tombs) (if carry = None then degraded else 0))
        (seq_io unlock_relfile_write
          (ret \<lparr>fo_stamped_version = am_version, fo_snapshot_is_current = (out = snap),
               fo_carries_tombstones = (tombs \<noteq> [])\<rparr>))))))))"

text \<open>\<open>validate_flush_snapshot\<close> and the row-count check of \<open>flush_to_relfile\<close>.\<close>

datatype snapshot_fault = RowCountDrift i64 nat | DuplicateInMemory u64

definition validate_flush_snapshot :: "u64 list \<Rightarrow> i64 \<Rightarrow> snapshot_fault + unit" where
  "validate_flush_snapshot slot_to_id mirror =
     (case reconciled_row_count mirror (length slot_to_id) of
        Inl (a, b) \<Rightarrow> Inl (RowCountDrift a b)
      | Inr _ \<Rightarrow>
          (case first_duplicate_id slot_to_id of
             Some dup \<Rightarrow> Inl (DuplicateInMemory dup)
           | None \<Rightarrow> Inr ()))"

section \<open>Reconciliation as an update of a map\<close>

definition wf_image :: "nat \<Rightarrow> image \<Rightarrow> bool" where
  "wf_image stride im \<longleftrightarrow>
     length (im_codes im) = length (im_ids im) * stride \<and> length (im_scales im) = length (im_ids im)"

definition row_at :: "nat \<Rightarrow> image \<Rightarrow> nat \<Rightarrow> u8 list \<times> f32_bits" where
  "row_at stride im s = (bslice (s * stride) stride (im_codes im), im_scales im ! s)"

text \<open>What an image means: the row its ids are served with.\<close>

definition image_map :: "nat \<Rightarrow> image \<Rightarrow> (u64 \<rightharpoonup> u8 list \<times> f32_bits)" where
  "image_map stride im i = map_option (row_at stride im) (slot_map 0 (im_ids im) Map.empty i)"

lemma slot_map_append: "slot_map k (xs @ ys) m = slot_map (k + length xs) ys (slot_map k xs m)"
  by (induction xs arbitrary: k m) simp_all

lemma slot_map_Some:
  "slot_map k ids m i = Some s \<Longrightarrow>
   (k \<le> s \<and> s < k + length ids \<and> ids ! (s - k) = i) \<or> (m i = Some s \<and> i \<notin> set ids)"
proof (induction ids arbitrary: k m)
  case (Cons j ids)
  then have "slot_map (Suc k) ids (m(j \<mapsto> k)) i = Some s" by simp
  from Cons.IH [OF this] consider "Suc k \<le> s \<and> s < Suc k + length ids \<and> ids ! (s - Suc k) = i"
    | "(m(j \<mapsto> k)) i = Some s" "i \<notin> set ids" by blast
  then show ?case
  proof cases
    case 1
    then have "s - k = Suc (s - Suc k)" by linarith
    with 1 show ?thesis by simp
  next
    case 2
    then show ?thesis by (cases "i = j") auto
  qed
qed simp

lemma slot_map_0: "slot_map 0 ids Map.empty i = Some s \<Longrightarrow> s < length ids \<and> ids ! s = i"
  by (auto dest: slot_map_Some)

lemma slot_map_dom: "dom (slot_map k ids m) = set ids \<union> dom m"
  by (induction ids arbitrary: k m) auto

lemma dom_image_map: "dom (image_map stride im) = set (im_ids im)"
  using slot_map_dom [of 0 "im_ids im" Map.empty] by (auto simp: image_map_def dom_def)

lemma mult_slot_le: "s < n \<Longrightarrow> (s + 1) * stride \<le> n * (stride :: nat)"
  by (intro mult_le_mono1) simp

lemma row_at_frame:
  assumes "s < n" "length codes = n * stride" "d < n" "d \<noteq> s" "length r = stride"
  shows "bslice (s * stride) stride (blit (d * stride) r codes) = bslice (s * stride) stride codes"
proof (rule bslice_blit_disjoint)
  show "d * stride + length r \<le> length codes" using mult_slot_le [OF assms(3), of stride] assms by simp
  show "s * stride + stride \<le> length codes" using mult_slot_le [OF assms(1), of stride] assms by simp
  show "s * stride + stride \<le> d * stride \<or> d * stride + length r \<le> s * stride"
  proof (cases "s < d")
    case True
    then show ?thesis using mult_slot_le [of s d stride] by simp
  next
    case False
    then have "d < s" using assms(4) by simp
    then show ?thesis using mult_slot_le [of d s stride] assms(5) by simp
  qed
qed

lemma splice_one_spec:
  assumes wf: "wf_image stride im" "wf_image stride snap"
    and dm: "dm = slot_map 0 (im_ids im) Map.empty" and sm: "sm = slot_map 0 (im_ids snap) Map.empty"
  obtains im' dm' where "splice_one stride snap sm i (im, dm) = Some (im', dm')"
    and "wf_image stride im'" and "dm' = slot_map 0 (im_ids im') Map.empty"
    and "image_map stride im' = image_map stride im ++ (image_map stride snap |` {i})"
    and "\<exists>new. im_ids im' = im_ids im @ new \<and> set new \<subseteq> {i} - set (im_ids im) \<and> length new \<le> 1"
    and "\<And>s. s < length (im_ids im) \<Longrightarrow> im_ids im ! s \<noteq> i \<Longrightarrow> row_at stride im' s = row_at stride im s"
proof (cases "sm i")
  case None
  then have "image_map stride snap |` {i} = Map.empty"
    by (auto simp: image_map_def sm restrict_map_def fun_eq_iff)
  with None show ?thesis using wf(1) dm by (intro that [of im dm]) (simp_all add: splice_one_def)
next
  case (Some s)
  then have s: "s < length (im_ids snap)" using slot_map_0 by (simp add: sm)
  have snap: "\<not> length (im_codes snap) < (s + 1) * stride" "\<not> length (im_scales snap) \<le> s"
    using s wf(2) mult_slot_le [OF s, of stride] by (auto simp: wf_image_def)
  define r where "r = bslice (s * stride) stride (im_codes snap)"
  define v where "v = im_scales snap ! s"
  have rlen: "length r = stride" using snap(1) by (simp add: r_def)
  have imap: "image_map stride snap |` {i} = [i \<mapsto> (r, v)]"
    using Some by (auto simp: image_map_def sm restrict_map_def fun_eq_iff row_at_def r_def v_def)
  show ?thesis
  proof (cases "dm i")
    case (Some d)
    then have d: "d < length (im_ids im)" "im_ids im ! d = i" using slot_map_0 by (auto simp: dm)
    have disk: "\<not> length (im_codes im) < (d + 1) * stride" "\<not> length (im_scales im) \<le> d"
      using d(1) wf(1) mult_slot_le [OF d(1), of stride] by (auto simp: wf_image_def)
    define im' where "im' = im\<lparr>im_codes := blit (d * stride) r (im_codes im), im_scales := (im_scales im)[d := v]\<rparr>"
    have fit: "d * stride + length r \<le> length (im_codes im)" using disk rlen by simp
    have other: "row_at stride im' t = row_at stride im t" if "t < length (im_ids im)" "t \<noteq> d" for t
      using row_at_frame [OF that(1), of "im_codes im" stride d r] that d(1) wf(1) rlen
      by (simp add: row_at_def im'_def wf_image_def)
    have here: "row_at stride im' d = (r, v)"
      using fit d(1) wf(1) rlen bslice_blit_same [of "d * stride" r "im_codes im"]
      by (simp add: row_at_def im'_def wf_image_def)
    show ?thesis
    proof (rule that [of im' dm])
      show "splice_one stride snap sm i (im, dm) = Some (im', dm)"
        using \<open>sm i = Some s\<close> Some snap disk by (simp add: splice_one_def im'_def r_def v_def Let_def)
      show "wf_image stride im'" using wf(1) fit by (simp add: wf_image_def im'_def)
      show "image_map stride im' = image_map stride im ++ (image_map stride snap |` {i})"
      proof
        fix j
        show "image_map stride im' j = (image_map stride im ++ (image_map stride snap |` {i})) j"
        proof (cases "j = i")
          case True
          with Some here show ?thesis by (simp add: imap image_map_def im'_def dm)
        next
          case False
          have "map_option (row_at stride im') (dm j) = map_option (row_at stride im) (dm j)"
          proof (cases "dm j")
            case (Some t)
            then have "t < length (im_ids im)" "im_ids im ! t = j" using slot_map_0 by (auto simp: dm)
            with False d(2) other [of t] Some show ?thesis by auto
          qed simp
          with False show ?thesis by (simp add: imap image_map_def im'_def dm)
        qed
      qed
    qed (use dm d other in \<open>auto simp: im'_def\<close>)
  next
    case None
    define im' where "im' = im\<lparr>im_codes := im_codes im @ r, im_scales := im_scales im @ [v], im_ids := im_ids im @ [i]\<rparr>"
    have fresh: "i \<notin> set (im_ids im)"
      using None slot_map_dom [of 0 "im_ids im" Map.empty] by (auto simp: dm)
    have old: "row_at stride im' t = row_at stride im t" if "t < length (im_ids im)" for t
      using that wf(1) mult_slot_le [OF that, of stride]
      by (simp add: row_at_def im'_def wf_image_def bslice_def nth_append)
    have new: "row_at stride im' (length (im_ids im)) = (r, v)"
      using wf(1) rlen by (simp add: row_at_def im'_def wf_image_def bslice_def nth_append)
    have dm': "slot_map 0 (im_ids im') Map.empty = dm(i \<mapsto> length (im_ids im))"
      by (simp add: im'_def slot_map_append dm)
    show ?thesis
    proof (rule that [of im' "dm(i \<mapsto> length (im_ids im))"])
      show "splice_one stride snap sm i (im, dm) = Some (im', dm(i \<mapsto> length (im_ids im)))"
        using \<open>sm i = Some s\<close> None snap by (simp add: splice_one_def im'_def r_def v_def Let_def)
      show "wf_image stride im'" using wf(1) rlen by (simp add: wf_image_def im'_def)
      show "image_map stride im' = image_map stride im ++ (image_map stride snap |` {i})"
      proof
        fix j
        have "map_option (row_at stride im') (dm j) = map_option (row_at stride im) (dm j)"
        proof (cases "dm j")
          case (Some t)
          then have "t < length (im_ids im)" using slot_map_0 by (auto simp: dm)
          with old Some show ?thesis by simp
        qed simp
        with new show "image_map stride im' j = (image_map stride im ++ (image_map stride snap |` {i})) j"
          by (simp add: imap image_map_def dm' dm)
      qed
    qed (use dm' fresh old in \<open>auto simp: im'_def\<close>)
  qed
qed

lemma splice_all_spec:
  assumes "wf_image stride im" and snap: "wf_image stride snap"
    and "dm = slot_map 0 (im_ids im) Map.empty" and sm: "sm = slot_map 0 (im_ids snap) Map.empty"
  shows "\<exists>out. splice_all stride snap sm is (im, dm) = Some out \<and> wf_image stride out \<and>
    image_map stride out = image_map stride im ++ (image_map stride snap |` set is) \<and>
    (\<exists>new. im_ids out = im_ids im @ new \<and> set new \<inter> set (im_ids im) = {} \<and> distinct new) \<and>
    (\<forall>s < length (im_ids im). im_ids im ! s \<notin> set is \<longrightarrow> row_at stride out s = row_at stride im s)"
  using assms(1,3)
proof (induction "is" arbitrary: im dm)
  case (Cons i "is")
  obtain im' dm' where step: "splice_one stride snap sm i (im, dm) = Some (im', dm')"
    and wf': "wf_image stride im'" and dm': "dm' = slot_map 0 (im_ids im') Map.empty"
    and map': "image_map stride im' = image_map stride im ++ (image_map stride snap |` {i})"
    and ids': "\<exists>new. im_ids im' = im_ids im @ new \<and> set new \<subseteq> {i} - set (im_ids im) \<and> length new \<le> 1"
    and rows': "\<And>s. s < length (im_ids im) \<Longrightarrow> im_ids im ! s \<noteq> i \<Longrightarrow> row_at stride im' s = row_at stride im s"
    using splice_one_spec [OF Cons.prems(1) snap Cons.prems(2) sm, of i] by blast
  from Cons.IH [OF wf' dm'] obtain out where out: "splice_all stride snap sm is (im', dm') = Some out"
    "wf_image stride out" and map: "image_map stride out = image_map stride im' ++ (image_map stride snap |` set is)"
    and ids: "\<exists>new. im_ids out = im_ids im' @ new \<and> set new \<inter> set (im_ids im') = {} \<and> distinct new"
    and rows: "\<forall>s < length (im_ids im'). im_ids im' ! s \<notin> set is \<longrightarrow> row_at stride out s = row_at stride im' s"
    by blast
  from ids' obtain n1 where n1: "im_ids im' = im_ids im @ n1" "set n1 \<subseteq> {i} - set (im_ids im)" "length n1 \<le> 1"
    by blast
  from ids obtain n2 where n2: "im_ids out = im_ids im' @ n2" "set n2 \<inter> set (im_ids im') = {}" "distinct n2" by blast
  have "distinct n1" using n1(3) by (cases n1) auto
  with n1 n2 have "im_ids out = im_ids im @ (n1 @ n2) \<and> set (n1 @ n2) \<inter> set (im_ids im) = {} \<and> distinct (n1 @ n2)"
    by auto
  moreover have "image_map stride out = image_map stride im ++ (image_map stride snap |` set (i # is))"
    unfolding map map' by (auto simp: fun_eq_iff map_add_def restrict_map_def split: option.splits)
  moreover have "row_at stride out s = row_at stride im s"
    if "s < length (im_ids im)" "im_ids im ! s \<notin> set (i # is)" for s
    using that rows rows' [of s] n1(1) by (auto simp: nth_append)
  ultimately show ?case using step out by auto
qed (auto simp: splice_all.simps)

lemma set_first_occurrences: "set (first_occurrences seen ids) = set ids - set seen"
  by (induction seen ids rule: first_occurrences.induct) auto

lemma reconcile_refines:
  assumes disk: "wf_image stride disk" and snap: "wf_image stride snap"
  shows "\<exists>out. reconcile_flush_image stride disk snap touched = Some out \<and> wf_image stride out \<and>
    image_map stride out = image_map stride disk ++ (image_map stride snap |` set touched) \<and>
    take (length (im_ids disk)) (im_ids out) = im_ids disk \<and>
    (distinct (im_ids disk) \<longrightarrow> distinct (im_ids out)) \<and>
    (\<forall>s < length (im_ids disk). im_ids disk ! s \<notin> set touched \<longrightarrow>
       row_at stride out s = row_at stride disk s)"
  using splice_all_spec [OF disk snap refl refl, of "first_occurrences [] (rev touched)"]
  by (auto simp: reconcile_flush_image_def set_first_occurrences)

text \<open>
  C5: the flush reconciles, it does not overwrite.  On well-formed images it never panics; every id
  of this transaction that the snapshot has is served with the snapshot's row, every other id with
  the row the file has, and no id is served that is in neither; existing slots keep their place and
  every slot of an untouched id keeps its row; a file without duplicate ids stays without.
\<close>

theorem reconcile_flush_image_refines:
  assumes disk: "wf_image stride disk" and snap: "wf_image stride snap"
  shows "\<exists>out. reconcile_flush_image stride disk snap touched = Some out \<and> wf_image stride out \<and>
    image_map stride out = image_map stride disk ++ (image_map stride snap |` set touched) \<and>
    take (length (im_ids disk)) (im_ids out) = im_ids disk \<and>
    (distinct (im_ids disk) \<longrightarrow> distinct (im_ids out)) \<and>
    (\<forall>s < length (im_ids disk). im_ids disk ! s \<notin> set touched \<longrightarrow>
       row_at stride out s = row_at stride disk s)"
  by (rule reconcile_refines [OF assms])

theorem reconcile_flush_image_refines_witness:
  "\<exists>out. reconcile_flush_image 1 \<lparr>im_codes = [1, 2], im_scales = [3, 4], im_ids = [5, 6]\<rparr>
      \<lparr>im_codes = [9, 7, 8], im_scales = [1, 1, 1], im_ids = [6, 7, 8]\<rparr> [7, 6] = Some out \<and>
    wf_image 1 out \<and> image_map 1 out = image_map 1 \<lparr>im_codes = [1, 2], im_scales = [3, 4], im_ids = [5, 6]\<rparr>
      ++ (image_map 1 \<lparr>im_codes = [9, 7, 8], im_scales = [1, 1, 1], im_ids = [6, 7, 8]\<rparr> |` {7, 6}) \<and>
    take (Suc (Suc 0)) (im_ids out) = [5, 6] \<and> distinct (im_ids out)"
  using reconcile_flush_image_refines [of 1 "\<lparr>im_codes = [1, 2], im_scales = [3, 4], im_ids = [5, 6]\<rparr>"
      "\<lparr>im_codes = [9, 7, 8], im_scales = [1, 1, 1], im_ids = [6, 7, 8]\<rparr>" "[7, 6]"]
  by (auto simp: wf_image_def)

text \<open>
  A row that VACUUM removed from the file stays removed: an id in the snapshot that is neither on
  disk nor touched by this transaction is not in the written image.
\<close>

theorem reconcile_never_resurrects:
  assumes disk: "wf_image stride disk" and snap: "wf_image stride snap"
    and r: "reconcile_flush_image stride disk snap touched = Some out"
  shows "set (im_ids out) = set (im_ids disk) \<union> (set touched \<inter> set (im_ids snap))"
proof -
  from reconcile_refines [OF disk snap, of touched] r
  have "dom (image_map stride out) = dom (image_map stride disk ++ (image_map stride snap |` set touched))"
    by auto
  then show ?thesis by (auto simp: dom_image_map)
qed

theorem reconcile_never_resurrects_witness:
  "set (im_ids \<lparr>im_codes = [1, 9, 7], im_scales = [3, 1, 1], im_ids = [5, 6, 7]\<rparr>)
     = set (im_ids \<lparr>im_codes = [1, 2], im_scales = [3, 4], im_ids = [5, 6]\<rparr>)
       \<union> (set [7, 6] \<inter> set (im_ids \<lparr>im_codes = [9, 7, 8], im_scales = [1, 1, 1], im_ids = [6, 7, 8]\<rparr>))"
  by (rule reconcile_never_resurrects [where stride = 1])
    (simp_all add: wf_image_def reconcile_flush_image_def splice_one_def Let_def bslice_def blit_def)

section \<open>The version, the bound and the checks\<close>

text \<open>
  A rewrite's version is strictly above the one on disk, and at least the writer's own, until the
  counter reaches its maximum, where it stays.
\<close>

theorem next_am_version_advances:
  "(unat d < 2 ^ 32 - 1 \<longrightarrow> d < next_am_version (Some d) p) \<and> p \<le> next_am_version (Some d) p \<and>
   (unat d = 2 ^ 32 - 1 \<longrightarrow> next_am_version (Some d) p = d)"
proof -
  have sat: "unat (saturating_add d 1) = min (2 ^ 32 - 1) (unat d + 1)"
    by (simp add: unat_saturating_add)
  have "unat (max p (saturating_add d 1)) = max (unat p) (unat (saturating_add d 1))"
    by (auto simp: max_def word_le_nat_alt)
  with sat unat_u32_bound [of p] show ?thesis
    by (auto simp: next_am_version_def word_less_nat_alt word_le_nat_alt word_unat_eq_iff max_def)
qed

theorem next_am_version_advances_witness:
  "(7 :: u32) < next_am_version (Some 7) 3"
  using next_am_version_advances [of 7 3] by simp

text \<open>
  The tail bound decides exactly whether the appended rows are at most \<open>max_pct\<close> percent of the
  partitioned rows, over the integers: saturation changes no decision while the bound fits 64 bits.
\<close>

theorem delta_within_bound_exact:
  assumes "unat cell_rows * nat (sint max_pct) < 2 ^ 64 - 1"
  shows "delta_within_bound cell_rows total_rows max_pct \<longleftrightarrow>
    0 < sint max_pct \<and> 0 < unat cell_rows \<and> unat cell_rows \<le> unat total_rows \<and>
    (unat total_rows - unat cell_rows) * 100 \<le> unat cell_rows * nat (sint max_pct)"
proof (cases "0 < sint max_pct")
  case True
  have "uint (scast max_pct :: u64) = sint max_pct"
  proof -
    have "sint max_pct < 2 ^ 31" using sint_lt [of max_pct] by simp
    then have "take_bit 64 (sint max_pct) = sint max_pct"
      using True by (intro take_bit_int_eq_self) auto
    then show ?thesis unfolding scast_eq uint_word_of_int_eq by simp
  qed
  then have u: "unat (scast max_pct :: u64) = nat (sint max_pct)" by (simp flip: nat_uint_eq)
  show ?thesis
  proof (cases "cell_rows \<le> total_rows")
    case le: True
    then have "unat (total_rows - cell_rows) = unat total_rows - unat cell_rows"
      by (simp add: unat_sub)
    with le True u assms show ?thesis
      by (auto simp: delta_within_bound_def word_le_nat_alt unat_saturating_mul unat_gt_0 not_less word_less_nat_alt)
  next
    case False
    then show ?thesis by (auto simp: delta_within_bound_def word_le_nat_alt not_less)
  qed
next
  case False
  then show ?thesis by (simp add: delta_within_bound_def)
qed

theorem delta_within_bound_exact_witness:
  "delta_within_bound 200 220 10 \<longleftrightarrow> 0 < sint (10 :: i32) \<and> 0 < unat (200 :: u64) \<and>
    unat (200 :: u64) \<le> unat (220 :: u64) \<and>
    (unat (220 :: u64) - unat (200 :: u64)) * 100 \<le> unat (200 :: u64) * nat (sint (10 :: i32))"
  by (rule delta_within_bound_exact) simp

lemma first_duplicate_spec:
  "case first_duplicate seen ids of
     None \<Rightarrow> distinct ids \<and> set ids \<inter> set seen = {}
   | Some i \<Rightarrow> \<exists>xs ys. ids = xs @ i # ys \<and> i \<in> set xs \<union> set seen \<and> distinct xs \<and> set xs \<inter> set seen = {}"
proof (induction seen ids rule: first_duplicate.induct)
  case (2 seen i ids)
  show ?case
  proof (cases "i \<in> set seen")
    case True
    then have "i # ids = [] @ i # ids \<and> i \<in> set [] \<union> set seen \<and> distinct [] \<and> set [] \<inter> set seen = {}" by simp
    with True show ?thesis by (simp only: first_duplicate.simps if_True option.case) blast
  next
    case False
    with 2 have IH: "case first_duplicate (i # seen) ids of
        None \<Rightarrow> distinct ids \<and> set ids \<inter> set (i # seen) = {}
      | Some j \<Rightarrow> \<exists>xs ys. ids = xs @ j # ys \<and> j \<in> set xs \<union> set (i # seen) \<and> distinct xs \<and>
          set xs \<inter> set (i # seen) = {}" by simp
    show ?thesis
    proof (cases "first_duplicate (i # seen) ids")
      case None
      with False IH show ?thesis by auto
    next
      case (Some j)
      with IH obtain xs ys where "ids = xs @ j # ys" "j \<in> set xs \<union> set (i # seen)" "distinct xs"
        "set xs \<inter> set (i # seen) = {}" by auto
      with False have "i # ids = (i # xs) @ j # ys \<and> j \<in> set (i # xs) \<union> set seen \<and> distinct (i # xs) \<and>
          set (i # xs) \<inter> set seen = {}" by auto
      then have "\<exists>xs ys. i # ids = xs @ j # ys \<and> j \<in> set xs \<union> set seen \<and> distinct xs \<and>
          set xs \<inter> set seen = {}" by blast
      with False Some show ?thesis by simp
    qed
  qed
qed simp

text \<open>The duplicate check returns an id that occurs twice, and none exactly for distinct lists.\<close>

theorem first_duplicate_id_spec:
  "(first_duplicate_id ids = None \<longleftrightarrow> distinct ids) \<and>
   (\<forall>i. first_duplicate_id ids = Some i \<longrightarrow>
      (\<exists>xs ys. ids = xs @ i # ys \<and> i \<in> set xs \<and> distinct xs))"
proof (cases "first_duplicate [] ids")
  case None
  from first_duplicate_spec [where seen = "[]" and ids = ids, unfolded None] have "distinct ids" by simp
  with None show ?thesis by (simp add: first_duplicate_id_def)
next
  case (Some i)
  from first_duplicate_spec [where seen = "[]" and ids = ids, unfolded Some] obtain xs ys
    where "ids = xs @ i # ys" "i \<in> set xs" "distinct xs" by auto
  with Some show ?thesis by (auto simp: first_duplicate_id_def)
qed

theorem first_duplicate_id_spec_witness:
  "\<exists>xs ys. [4, 7, 4, 7 :: u64] = xs @ 4 # ys \<and> 4 \<in> set xs \<and> distinct xs"
  using first_duplicate_id_spec [of "[4, 7, 4, 7]"] by (simp add: first_duplicate_id_def)

section \<open>Tombstones\<close>

text \<open>Slot \<open>s\<close> is dead: its bit of the bitmap is set (least significant bit first).\<close>

definition slot_dead :: "u8 list \<Rightarrow> nat \<Rightarrow> bool" where
  "slot_dead t s \<longleftrightarrow> s div 8 < length t \<and> bit (t ! (s div 8)) (s mod 8)"

lemma length_resize0 [simp]: "length (resize0 n t) = n"
  by (simp add: resize0_def)

lemma slot_dead_resize0: "s div 8 < n \<Longrightarrow> slot_dead (resize0 n t) s = slot_dead t s"
  by (auto simp: slot_dead_def resize0_def nth_append)

lemma clear_bit_at_spec:
  assumes "slot div 8 < length t"
  obtains t' where "clear_bit_at slot t = Some t'" and "length t' = length t"
    and "\<And>s. slot_dead t' s = (slot_dead t s \<and> s \<noteq> slot)"
proof
  let ?t = "t[slot div 8 := unset_bit (slot mod 8) (t ! (slot div 8))]"
  show "clear_bit_at slot t = Some ?t" using assms by (simp add: clear_bit_at_def)
  show "slot_dead ?t s = (slot_dead t s \<and> s \<noteq> slot)" for s
  proof (cases "s div 8 = slot div 8")
    case True
    have "s mod 8 = slot mod 8 \<longleftrightarrow> s = slot" using True by (metis div_mult_mod_eq)
    with True assms show ?thesis by (auto simp: slot_dead_def bit_unset_bit_iff)
  next
    case False
    then show ?thesis by (auto simp: slot_dead_def)
  qed
qed simp

lemma clear_touched_spec:
  "nat_div_ceil (slot + length ids) 8 \<le> length t \<Longrightarrow>
   \<exists>t'. clear_touched touched slot ids t = Some t' \<and> length t' = length t \<and>
     (\<forall>s. slot_dead t' s \<longleftrightarrow> slot_dead t s \<and>
        \<not> (slot \<le> s \<and> s < slot + length ids \<and> ids ! (s - slot) \<in> set touched))"
proof (induction touched slot ids t rule: clear_touched.induct)
  case (2 touched slot i ids t)
  have fit: "nat_div_ceil (Suc slot + length ids) 8 \<le> length t" using "2.prems" by simp
  have shift: "(slot \<le> s \<and> s < slot + length (i # ids) \<and> (i # ids) ! (s - slot) \<in> set touched) \<longleftrightarrow>
      (s = slot \<and> i \<in> set touched) \<or>
      (Suc slot \<le> s \<and> s < Suc slot + length ids \<and> ids ! (s - Suc slot) \<in> set touched)" for s
  proof (cases "s \<le> slot")
    case False
    then have "s - slot = Suc (s - Suc slot)" by simp
    with False show ?thesis by auto
  qed auto
  show ?case
  proof (cases "i \<in> set touched")
    case True
    have "slot < length t * 8"
      using nat_div_ceil_le_iff [of 8 "slot + length (i # ids)" "length t"] "2.prems" by simp
    then have "slot div 8 < length t" by (simp add: less_mult_imp_div_less)
    then obtain t1 where t1: "clear_bit_at slot t = Some t1" "length t1 = length t"
      "\<And>s. slot_dead t1 s = (slot_dead t s \<and> s \<noteq> slot)" by (metis clear_bit_at_spec)
    from "2.IH"(1) [OF True t1(1)] fit t1(2) obtain t' where
      "clear_touched touched (Suc slot) ids t1 = Some t'" "length t' = length t1"
      "\<forall>s. slot_dead t' s \<longleftrightarrow> slot_dead t1 s \<and>
        \<not> (Suc slot \<le> s \<and> s < Suc slot + length ids \<and> ids ! (s - Suc slot) \<in> set touched)" by auto
    with t1 True show ?thesis unfolding shift by auto
  next
    case False
    with "2.IH"(2) fit show ?thesis unfolding shift by simp
  qed
qed simp

text \<open>
  C27: a flush neither forgets nor invents a VACUUM delete: in the bitmap it writes, a slot is dead
  exactly if it was dead on disk and its id was not inserted again by this transaction; appended
  slots are live.
\<close>

theorem carry_tombstones_exact:
  assumes "disk_n \<le> length out_ids" and old: "\<And>s. disk_n \<le> s \<Longrightarrow> \<not> slot_dead disk s"
  shows "\<exists>t. carry_tombstones disk (length out_ids) out_ids disk_n touched = Some t \<and>
    (t = [] \<or> length t = nat_div_ceil (length out_ids) 8) \<and>
    (\<forall>s < length out_ids. slot_dead t s \<longleftrightarrow>
       s < disk_n \<and> slot_dead disk s \<and> out_ids ! s \<notin> set touched)"
proof (cases "list_all (\<lambda>b. b = 0) disk")
  case True
  then have "\<not> slot_dead disk s" for s by (auto simp: slot_dead_def list_all_length)
  moreover have "\<not> slot_dead [] s" for s by (simp add: slot_dead_def)
  ultimately show ?thesis using True by (simp add: carry_tombstones_def)
next
  case False
  let ?t0 = "resize0 (nat_div_ceil (length out_ids) 8) disk"
  have "nat_div_ceil (0 + length (take disk_n out_ids)) 8 \<le> length ?t0"
    using assms(1) nat_div_ceil_mult_ge [of 8 "length out_ids"]
    by (simp add: min_absorb2 nat_div_ceil_le_iff)
  from clear_touched_spec [OF this, of touched] obtain t where
    t: "clear_touched touched 0 (take disk_n out_ids) ?t0 = Some t" "length t = length ?t0"
    "\<forall>s. slot_dead t s \<longleftrightarrow> slot_dead ?t0 s \<and>
        \<not> (0 \<le> s \<and> s < 0 + length (take disk_n out_ids) \<and> take disk_n out_ids ! (s - 0) \<in> set touched)"
    by blast
  have "slot_dead ?t0 s = slot_dead disk s" if "s < length out_ids" for s
  proof (rule slot_dead_resize0)
    have "s < nat_div_ceil (length out_ids) 8 * 8"
      using that nat_div_ceil_mult_ge [of 8 "length out_ids"] by simp
    then show "s div 8 < nat_div_ceil (length out_ids) 8" by (simp add: less_mult_imp_div_less)
  qed
  moreover have "s < disk_n" if "slot_dead disk s" for s using old [of s] that by (cases "disk_n \<le> s") auto
  ultimately show ?thesis using t False assms(1)
    by (auto simp: carry_tombstones_def min_absorb2 not_less old)
qed

theorem carry_tombstones_exact_witness:
  "\<exists>t. carry_tombstones [3] (length [5, 6, 7 :: u64]) [5, 6, 7] 2 [6, 7] = Some t \<and>
    (t = [] \<or> length t = nat_div_ceil (length [5, 6, 7 :: u64]) 8) \<and>
    (\<forall>s < length [5, 6, 7 :: u64]. slot_dead t s \<longleftrightarrow>
       s < 2 \<and> slot_dead [3] s \<and> [5, 6, 7 :: u64] ! s \<notin> set [6, 7])"
proof (rule carry_tombstones_exact)
  show "\<not> slot_dead [3] s" if "2 \<le> s" for s
  proof -
    have "(3 :: u8) = mask 2" by (simp add: mask_eq_exp_minus_1)
    moreover have "\<not> bit (mask 2 :: u8) s" using that by (simp add: bit_mask_iff)
    ultimately have "\<not> bit (3 :: u8) s" by (simp only:) simp
    then show ?thesis by (auto simp: slot_dead_def)
  qed
qed simp

text \<open>
  C36: an id that the file already has is written at the slot the file has it in, whatever its new
  row is.  On an IVF index whose cell layout is carried over, that slot belongs to the cell of the
  old row: a scan that does not probe that cell does not visit the slot, although the slot is live
  and no appended slot holds the new row.
\<close>

theorem reinserted_row_keeps_old_cell:
  assumes disk: "wf_image stride disk" and snap: "wf_image stride snap" and dist: "distinct (im_ids disk)"
    and r: "reconcile_flush_image stride disk snap touched = Some out"
    and s: "s < length (im_ids disk)" and i: "im_ids disk ! s \<in> set touched"
    and cells: "s < unat (total_vectors dir)" and unprobed: "\<forall>c \<in> set probed. \<not> in_cell dir c s"
  shows "(\<forall>t < length (im_ids out). im_ids out ! t = im_ids disk ! s \<longleftrightarrow> t = s) \<and>
    \<not> probe_mask dir probed (length (im_ids out)) ! s"
proof -
  from splice_all_spec [OF disk snap refl refl, of "first_occurrences [] (rev touched)"] r
  obtain new where new: "im_ids out = im_ids disk @ new" "set new \<inter> set (im_ids disk) = {}" "distinct new"
    by (auto simp: reconcile_flush_image_def)
  then have "distinct (im_ids out)" and here: "im_ids out ! s = im_ids disk ! s" and "s < length (im_ids out)"
    using dist s by (auto simp: nth_append)
  then have "\<forall>t < length (im_ids out). im_ids out ! t = im_ids disk ! s \<longleftrightarrow> t = s"
    by (metis nth_eq_iff_index_eq)
  moreover have "\<not> probe_mask dir probed (length (im_ids out)) ! s"
    using cells unprobed \<open>s < length (im_ids out)\<close> by (simp add: nth_probe_mask)
  ultimately show ?thesis by blast
qed

theorem reinserted_row_keeps_old_cell_witness:
  "\<not> probe_mask [\<lparr>ce_code_offset = 0, ce_n_vectors = 1\<rparr>, \<lparr>ce_code_offset = 1, ce_n_vectors = 1\<rparr>] [1]
        (length [5, 6 :: u64]) ! 0"
  using reinserted_row_keeps_old_cell [of 1 "\<lparr>im_codes = [10, 20], im_scales = [1, 1], im_ids = [5, 6]\<rparr>"
      "\<lparr>im_codes = [20, 21], im_scales = [1, 1], im_ids = [6, 5]\<rparr>" "[5]"
      "\<lparr>im_codes = [21, 20], im_scales = [1, 1], im_ids = [5, 6]\<rparr>" 0
      "[\<lparr>ce_code_offset = 0, ce_n_vectors = 1\<rparr>, \<lparr>ce_code_offset = 1, ce_n_vectors = 1\<rparr>]" "[1]"]
  by (simp add: wf_image_def reconcile_flush_image_def splice_one_def Let_def bslice_def blit_def
      total_vectors_def in_cell_def)

section \<open>The whole flush\<close>

text \<open>A computation that only reads: its result depends on the file alone and it changes nothing.\<close>

definition reader :: "('r, 'a) io \<Rightarrow> bool" where
  "reader c \<longleftrightarrow> (\<forall>w w'. w_rel w = w_rel w' \<longrightarrow> c w = (fst (c w'), w))"

lemma reader_run: "reader c \<Longrightarrow> w_rel w = w_rel w' \<Longrightarrow> c w = (fst (c w'), w)"
  unfolding reader_def by (erule allE, erule allE, erule mp)

lemma readerD: "reader c \<Longrightarrow> c w = (x, w1) \<Longrightarrow> w_rel w' = w_rel w \<Longrightarrow> c w' = (x, w')"
  using reader_run [of c w' w] by simp

lemma reader_ret [intro]: "reader (ret a)" and reader_raise [intro]: "reader (raise e)"
  by (simp_all add: reader_def ret_def raise_def)

lemma reader_nblocks [intro]: "reader (nblocks S)" and reader_read_block [intro]: "reader (read_block S b)"
  by (simp_all add: reader_def nblocks_def read_block_def)

lemma reader_bind [intro]:
  fixes c :: "('r, 'a) io"
  assumes "reader c" and "\<And>a. reader (f a)"
  shows "reader (bind_io c f)"
  unfolding reader_def
proof (intro allI impI)
  fix w w' :: "'r world" assume rel: "w_rel w = w_rel w'"
  obtain x where "c w' = (x, w')" using reader_run [OF assms(1) refl [of "w_rel w'"]] by (rule that)
  moreover from this have "c w = (x, w)" using reader_run [OF assms(1) rel] by simp
  ultimately have x: "c w = (x, w)" "c w' = (x, w')" by simp_all
  show "bind_io c f w = (fst (bind_io c f w'), w)"
  proof (cases x)
    case (Inl e)
    with x show ?thesis by (simp add: bind_io_def)
  next
    case (Inr a)
    have "f a w = (fst (f a w'), w)" using assms(2) rel by (rule reader_run)
    with Inr x show ?thesis by (simp add: bind_io_def)
  qed
qed

lemma reader_if [intro]: "(b \<Longrightarrow> reader c) \<Longrightarrow> (\<not> b \<Longrightarrow> reader d) \<Longrightarrow> reader (if b then c else d)"
  by simp

lemma reader_read_pages: "reader (read_pages S bpp rem blk out)"
proof (induction S bpp rem blk out rule: read_pages.induct)
  case (1 S bpp rem blk out)
  show ?case
    by (subst read_pages.simps) (intro reader_if reader_bind reader_ret reader_raise reader_read_block 1)
qed

lemma reader_read_chain [intro]: "reader (read_chain S f s r n)"
  unfolding read_chain_def Let_def
  by (intro reader_if reader_bind reader_ret reader_raise reader_nblocks reader_read_pages)

lemma reader_read_chains_of: "reader (read_chains_of S m)"
  unfolding read_chains_of_def by (intro reader_bind reader_read_chain reader_ret)

lemma reader_read_meta: "reader (read_meta S)"
  unfolding read_meta_def
  by (intro reader_if reader_bind reader_ret reader_nblocks reader_read_block)
    (auto split: sum.split)

lemma image_eta [simp]: "\<lparr>im_codes = im_codes d, im_scales = im_scales d, im_ids = im_ids d\<rparr> = d"
  by (cases d) simp

lemma preserved_flat: "m_lists m = 0 \<Longrightarrow> preserved_ivf S (Some m) = ret None"
  by (simp add: preserved_ivf_def index_was_ivf_def)

text \<open>The image a flush of a flat index writes.\<close>

lemma flush_image_flat:
  assumes "m_n_vectors m0 \<noteq> 0" "m_lists m0 = 0"
    and chains: "read_chains_of S m0 w = (Inr (im_codes disk, f32s_bytes (im_scales disk), u64s_bytes (im_ids disk)), w)"
    and "distinct (im_ids disk)"
    and out: "reconcile_flush_image stride disk snap touched = Some out"
  shows "flush_image S stride (Some m0) snap touched w = (Inr out, w)"
proof -
  have "first_duplicate [] (im_ids disk) = None"
  proof (cases "first_duplicate [] (im_ids disk)")
    case (Some i)
    with first_duplicate_spec [where seen = "[]" and ids = "im_ids disk", unfolded Some] assms(4)
    show ?thesis by auto
  qed
  then show ?thesis using assms(1,2) chains out
    by (simp add: flush_image_def Let_def word_gt_0 bind_io_def first_duplicate_id_def ret_def)
qed

lemma plan_full_fields_flat:
  assumes "plan_full cb bw dim n v prepared None None [] 0 = Some m"
  shows "m_lists m = 0"
proof -
  from assms obtain m1 where "m_lists m1 = 0" "m = plan_tombstones [] (plan_graph None (plan_ivf None 0 m1))"
    by (rule plan_full_SomeE)
  then show ?thesis by (simp add: plan_ivf_def)
qed

lemma plan_full_no_tombstones:
  assumes "plan_full cb bw dim n v prepared None None [] 0 = Some m"
  shows "m_tombstone_bytes m = 0"
proof -
  from assms obtain m1 where "m_tombstone_bytes m1 = 0"
    "m = plan_tombstones [] (plan_graph None (plan_ivf None 0 m1))"
    by (rule plan_full_SomeE)
  then show ?thesis by (simp add: plan_ivf_def plan_graph_def plan_tombstones_def)
qed

text \<open>
  C3: the flush of a flat index, from the lock to the meta page.  If the file reads back as
  \<open>disk\<close>, the flush returns, stamps a version above the one on disk, leaves the rewrite lock as it
  found it, and from then on a consistent read returns the reconciled image under the new meta page.
\<close>

theorem flush_reads_back:
  assumes S: "page_store S"
    and meta: "read_meta S w = (Inr (Some m0), w)"
    and flat: "m_n_vectors m0 \<noteq> 0" "m_lists m0 = 0" "m_tombstone_bytes m0 = 0"
    and chains: "read_chains_of S m0 w = (Inr (im_codes disk, f32s_bytes (im_scales disk), u64s_bytes (im_ids disk)), w)"
    and wf: "wf_image (unat dim * unat bw div 8) disk" "wf_image (unat dim * unat bw div 8) snap"
    and ids: "distinct (im_ids disk)" "0 \<notin> set (im_ids disk)" "0 \<notin> set touched" "im_ids disk \<noteq> []"
    and out: "reconcile_flush_image (unat dim * unat bw div 8) disk snap touched = Some out"
    and plan: "plan_full cb bw dim (len64 (im_ids out)) (next_am_version (Some (m_am_version m0)) v)
      (Some prepared) None None [] 0 = Some m"
    and fit: "fits m" "length (im_ids out) < 2 ^ 64"
    and inp: "rewrite_inputs bw dim (len64 (im_ids out)) (im_codes out) (Some prepared) None None []"
    and quiet: "w_polls w = None"
  shows "\<exists>w' o'. reconcile_and_write_flush cb max_pct S skip bw dim snap touched v prepared w = (Inr o', w') \<and>
    fo_stamped_version o' = next_am_version (Some (m_am_version m0)) v \<and>
    fo_snapshot_is_current o' = (out = snap) \<and> w_xlock w' = w_xlock w \<and>
    (\<forall>hint. m_n_vectors hint \<noteq> 0 \<longrightarrow>
       read_full_consistent S hint w' = (Inr (m, im_codes out, im_scales out, im_ids out), w'))"
proof -
  let ?v = "next_am_version (Some (m_am_version m0)) v"
  let ?n = "len64 (im_ids out)"
  let ?w1 = "w\<lparr>w_xlock := w_xlock w + 1\<rparr>"
  have rec: "\<exists>o'. reconcile_flush_image (unat dim * unat bw div 8) disk snap touched = Some o' \<and>
      wf_image (unat dim * unat bw div 8) o' \<and>
      image_map (unat dim * unat bw div 8) o' = image_map (unat dim * unat bw div 8) disk
        ++ (image_map (unat dim * unat bw div 8) snap |` set touched) \<and>
      (\<exists>new. im_ids o' = im_ids disk @ new \<and> set new \<inter> set (im_ids disk) = {} \<and> distinct new)"
    using splice_all_spec [OF wf refl refl, of "first_occurrences [] (rev touched)"]
    by (auto simp: reconcile_flush_image_def set_first_occurrences)
  with out obtain new where wf': "wf_image (unat dim * unat bw div 8) out"
    and im: "image_map (unat dim * unat bw div 8) out = image_map (unat dim * unat bw div 8) disk
        ++ (image_map (unat dim * unat bw div 8) snap |` set touched)"
    and new: "im_ids out = im_ids disk @ new" "set new \<inter> set (im_ids disk) = {}" "distinct new" by auto
  have "set (im_ids out) = dom (image_map (unat dim * unat bw div 8) disk
        ++ (image_map (unat dim * unat bw div 8) snap |` set touched))"
    unfolding im [symmetric] by (simp add: dom_image_map)
  then have "set (im_ids out) \<subseteq> set (im_ids disk) \<union> set touched" by (auto simp: dom_image_map)
  with ids(2,3) have nz: "0 \<notin> set (im_ids out)" by auto
  have di: "distinct (im_ids out)" using new ids(1) by auto
  have len: "length (im_scales out) = unat ?n" "length (im_ids out) = unat ?n"
    using wf' fit(2) by (simp_all add: wf_image_def)
  have n0: "?n \<noteq> 0" using ids(4) new(1) fit(2) by (intro len64_nonzero) simp_all
  have meta1: "read_meta S ?w1 = (Inr (Some m0), ?w1)"
    using readerD [OF reader_read_meta meta, of ?w1] by simp
  have im1: "flush_image S (unat dim * unat bw div 8) (Some m0) snap touched ?w1 = (Inr out, ?w1)"
    using readerD [OF reader_read_chains_of chains, of ?w1] flat ids(1) out
    by (intro flush_image_flat) simp_all
  have p': "plan_full cb bw dim ?n ?v (Some prepared) None None (case None of None \<Rightarrow> [] | Some t \<Rightarrow> t) 0 = Some m"
    and inp': "rewrite_inputs bw dim ?n (im_codes out) (Some prepared) None None
      (case None of None \<Rightarrow> [] | Some t \<Rightarrow> t)"
    using plan inp by simp_all
  show ?thesis
  proof (rule page_store.write_full_cases [OF S p' fit(1) inp' len, where skip = skip and w = ?w1])
    fix w2
    assume run: "write_full_inner_with_tombstones cb S skip bw dim ?n (im_codes out) (im_scales out)
        (im_ids out) ?v (Some prepared) None None None 0 ?w1 = (Inr (), w2)"
      and st: "index_stored S m (im_codes out) (im_scales out) (im_ids out) (Some prepared) None None
        (case None of None \<Rightarrow> [] | Some t \<Rightarrow> t) (w_rel w2)" and lock: "w_xlock w2 = w_xlock ?w1"
    have meta_step: "bind_io (read_meta S) f ?w1 = f (Some m0) ?w1" for f :: "meta option \<Rightarrow> ('a, flush_outcome) io"
      using meta1 by (rule bind_io_Inr)
    have image_step: "bind_io (flush_image S (unat dim * unat bw div 8) (Some m0) snap touched) f ?w1 = f out ?w1"
      for f :: "image \<Rightarrow> ('a, flush_outcome) io"
      using im1 by (rule bind_io_Inr)
    have write_step: "seq_io (write_full_inner_with_tombstones cb S skip bw dim ?n (im_codes out) (im_scales out)
        (im_ids out) ?v (Some prepared) None None None 0) d ?w1 = d w2" for d :: "('a, flush_outcome) io"
      using run by (rule seq_io_Inr)
    define w3 where "w3 = w2\<lparr>w_xlock := w_xlock w2 - 1\<rparr>"
    have "reconcile_and_write_flush cb max_pct S skip bw dim snap touched v prepared w
        = (Inr \<lparr>fo_stamped_version = ?v, fo_snapshot_is_current = (out = snap), fo_carries_tombstones = False\<rparr>, w3)"
      using flat
      by (simp add: reconcile_and_write_flush_def seq_io_lock meta_step [simplified] preserved_flat
          read_tombstones_def word_gt_0 index_was_ivf_def image_step [simplified] ivf_carry_def
          carry_tombstones_def write_step [simplified] w3_def Let_def)
        (simp add: seq_io_def bind_io_def ret_def unlock_relfile_write_def)
    moreover have "read_full_consistent S hint w3 = (Inr (m, im_codes out, im_scales out, im_ids out), w3)"
      if "m_n_vectors hint \<noteq> 0" for hint
      by (rule index_stored_reads [OF S plan fit(1) inp len n0 _ that]) (use st in \<open>simp add: w3_def\<close>)
    ultimately show ?thesis using lock by (simp add: w3_def)
  qed (use nz di quiet in simp_all)
qed

text \<open>The demo index after its rewrite, and a flush that appends one row to it.\<close>

lemma demo_stored:
  obtains w :: "page list world" where "index_stored list_store demo_meta [1, 2, 3, 4] [0x3F800000] [7] None None None [] (w_rel w)"
    and "w_polls w = None"
proof -
  have p: "plan_full (\<lambda>_ _. ([], [])) 4 8 1 1 None None None (case None of None \<Rightarrow> [] | Some t \<Rightarrow> t) 0 = Some demo_meta"
    by (simp add: demo_plan)
  have inp: "rewrite_inputs 4 8 1 [1, 2, 3, 4] None None None (case None of None \<Rightarrow> [] | Some t \<Rightarrow> t)"
    by (simp add: rewrite_inputs_def codes_stride_def PAYLOAD_BYTES_eq)
  show thesis
    by (rule page_store.write_full_cases [OF ls.page_store_axioms p demo_fits inp,
          where scales = "[0x3F800000]" and ids = "[7]" and skip = True and w = demo_world])
      (use that in \<open>simp_all add: demo_world_def\<close>)
qed

definition demo_codebook :: codebook_fn where
  "demo_codebook bit_width dim = ([], [0])"

definition demo_prepared :: prepared where
  "demo_prepared = \<lparr>tqplus_shift = [], tqplus_scale = []\<rparr>"

definition demo_meta2 :: meta where
  "demo_meta2 = the (plan_full demo_codebook 4 8 2 2 (Some demo_prepared) None None [] 0)"

lemma demo_plan2: "plan_full demo_codebook 4 8 2 2 (Some demo_prepared) None None [] 0 = Some demo_meta2"
proof -
  have "plan_with_blocked 4 8 2 2 0 0 0 \<noteq> None"
    by (simp add: plan_with_blocked_def Let_def)
  then show ?thesis
    by (auto simp: demo_meta2_def plan_full_def demo_codebook_def demo_prepared_def tqplus_chain_len_def
        set_codebook_def MAX_CODEBOOK_LEVELS_def)
qed

lemma demo_fits2: "fits demo_meta2"
proof -
  have "block_sum demo_meta2 = 4"
    by (simp add: plan_flat_block_sum [OF demo_plan2] codes_stride_def demo_prepared_def)
      (simp add: padded_pages_needed_def pages_needed_def rows_per_page_def pad_chain_pages_def
        PAYLOAD_BYTES_eq u32_try_or_max_def div_ceil_def PAD_PAGES_def)
  then show ?thesis by (simp add: fits_def)
qed

definition demo_snapshot :: image where
  "demo_snapshot = \<lparr>im_codes = [1, 2, 3, 4, 5, 6, 7, 8], im_scales = [0x3F800000, 0x40000000], im_ids = [7, 9]\<rparr>"

theorem flush_reads_back_witness:
  "\<exists>w w' o'. reconcile_and_write_flush demo_codebook 10 list_store True 4 8 demo_snapshot [9] 2
      demo_prepared w = (Inr o', w') \<and>
    fo_stamped_version o' = next_am_version (Some 1) 2 \<and> fo_snapshot_is_current o' = (demo_snapshot = demo_snapshot) \<and>
    w_xlock w' = w_xlock w \<and>
    (\<forall>hint. m_n_vectors hint \<noteq> 0 \<longrightarrow> read_full_consistent list_store hint w'
       = (Inr (demo_meta2, im_codes demo_snapshot, im_scales demo_snapshot, im_ids demo_snapshot), w'))"
proof -
  obtain w :: "page list world" where st: "index_stored list_store demo_meta [1, 2, 3, 4] [0x3F800000] [7] None None None [] (w_rel w)"
    and quiet: "w_polls w = None" by (rule demo_stored)
  let ?disk = "\<lparr>im_codes = [1, 2, 3, 4], im_scales = [0x3F800000], im_ids = [7]\<rparr>"
  note me = plan_full_meta [OF demo_plan]
  have inp: "rewrite_inputs 4 8 1 [1, 2, 3, 4] None None None []"
    by (simp add: rewrite_inputs_def codes_stride_def PAYLOAD_BYTES_eq)
  have meta: "read_meta list_store w = (Inr (Some demo_meta), w)"
    using st me(9) by (intro read_meta_stored) (simp_all add: index_stored_def)
  have rows: "rows_stored list_store demo_meta [1, 2, 3, 4] [0x3F800000] [7] (w_rel w)"
    using st me(1) by (simp add: index_stored_def)
  have chains: "read_chains_of list_store demo_meta w
      = (Inr (im_codes ?disk, f32s_bytes (im_scales ?disk), u64s_bytes (im_ids ?disk)), w)"
    using page_store.read_chains_of_stored [OF ls.page_store_axioms demo_plan demo_fits inp _ _ rows] by simp
  have lists: "m_lists demo_meta = 0" by (rule plan_full_fields_flat [OF demo_plan])
  have tombs: "m_tombstone_bytes demo_meta = 0" by (rule plan_full_no_tombstones [OF demo_plan])
  have out: "reconcile_flush_image (unat (8 :: u32) * unat (4 :: u8) div 8) ?disk demo_snapshot [9] = Some demo_snapshot"
    by (simp add: reconcile_flush_image_def splice_one_def Let_def bslice_def demo_snapshot_def)
  have ver: "next_am_version (Some 1) 2 = 2"
    by (simp add: next_am_version_def saturating_add_def)
  have "\<exists>w' o'. reconcile_and_write_flush demo_codebook 10 list_store True 4 8 demo_snapshot [9] 2
      demo_prepared w = (Inr o', w') \<and>
    fo_stamped_version o' = next_am_version (Some (m_am_version demo_meta)) 2 \<and>
    fo_snapshot_is_current o' = (demo_snapshot = demo_snapshot) \<and> w_xlock w' = w_xlock w \<and>
    (\<forall>hint. m_n_vectors hint \<noteq> 0 \<longrightarrow> read_full_consistent list_store hint w'
       = (Inr (demo_meta2, im_codes demo_snapshot, im_scales demo_snapshot, im_ids demo_snapshot), w'))"
    using ls.page_store_axioms meta _ lists tombs chains _ _ _ _ _ _ out _ demo_fits2 _ _ quiet
  proof (rule flush_reads_back)
    show "plan_full demo_codebook 4 8 (len64 (im_ids demo_snapshot))
        (next_am_version (Some (m_am_version demo_meta)) 2) (Some demo_prepared) None None [] 0 = Some demo_meta2"
      using demo_plan2 by (simp add: me ver demo_snapshot_def len64_def)
    show "rewrite_inputs 4 8 (len64 (im_ids demo_snapshot)) (im_codes demo_snapshot) (Some demo_prepared) None None []"
      by (simp add: rewrite_inputs_def codes_stride_def PAYLOAD_BYTES_eq demo_snapshot_def len64_def demo_prepared_def)
  qed (simp_all add: me wf_image_def demo_snapshot_def)
  then show ?thesis by (auto simp: me)
qed

end
