(* ===== verification/Csr.thy ===== *)
theory Csr
  imports Codec
begin

text \<open>
  The compressed-sparse-row adjacency of a graph index (\<open>src/index/graph.rs\<close>, \<open>GraphAdjacency\<close>): its
  two arrays, the expansion to and from lists, the two byte sub-chains it is persisted as, and the
  structural check that \<open>turbovec_check\<close> runs.  A slice or an index out of range, which panics in
  the source, is \<open>None\<close>.
\<close>

section \<open>The adjacency\<close>

record adjacency =
  ga_offsets :: "u32 list"
  ga_neighbors :: "u32 list"

definition node_count :: "adjacency \<Rightarrow> nat" where
  "node_count g = length (ga_offsets g) - 1"

definition neighbors_of :: "adjacency \<Rightarrow> nat \<Rightarrow> u32 list option" where
  "neighbors_of g i =
     (if length (ga_offsets g) \<le> Suc i then None
      else let s = unat (ga_offsets g ! i); e = unat (ga_offsets g ! Suc i) in
        if s \<le> e \<and> e \<le> length (ga_neighbors g) then Some (bslice s (e - s) (ga_neighbors g))
        else None)"

definition edge_count :: "adjacency \<Rightarrow> nat" where
  "edge_count g = length (ga_neighbors g)"

definition empty_adjacency :: "nat \<Rightarrow> adjacency" where
  "empty_adjacency n = \<lparr>ga_offsets = replicate (n + 1) 0, ga_neighbors = []\<rparr>"

definition to_lists :: "adjacency \<Rightarrow> u32 list list option" where
  "to_lists g = those (map (neighbors_of g) [0..<node_count g])"

text \<open>\<open>offsets[i + 1] = offsets[i] + adj[i].len() as u32\<close>, the sum wrapping at 32 bits.\<close>

fun offsets_from :: "u32 \<Rightarrow> u32 list list \<Rightarrow> u32 list" where
  "offsets_from acc [] = [acc]"
| "offsets_from acc (row # rows) = acc # offsets_from (acc + of_nat (length row)) rows"

definition from_lists :: "u32 list list \<Rightarrow> adjacency" where
  "from_lists adj = \<lparr>ga_offsets = offsets_from 0 adj, ga_neighbors = concat (map sort adj)\<rparr>"

section \<open>The two byte chains\<close>

datatype graph_fault =
    OffsetsLength nat u64 | NeighborsLength nat | EdgeCountMismatch nat nat
  | NotMonotonic nat u32 u32 | OffsetsEndMismatch u32 nat | EntryOutOfRange u32 nat
  | NeighborOutOfRange u32 nat | SelfLoop nat | NotAscending nat u32 u32
  | NoEdges nat | EntryIsolated u32

definition encode_offsets :: "adjacency \<Rightarrow> u8 list" where
  "encode_offsets g = concat (map le32 (ga_offsets g))"

definition encode_neighbors :: "adjacency \<Rightarrow> u8 list" where
  "encode_neighbors g = concat (map le32 (ga_neighbors g))"

definition adjacency_decode :: "u8 list \<Rightarrow> u8 list \<Rightarrow> u64 \<Rightarrow> graph_fault + adjacency" where
  "adjacency_decode offsets_bytes neighbors_bytes n =
     (if of_nat (length offsets_bytes) \<noteq> (n + 1) * 4
      then Inl (OffsetsLength (length offsets_bytes) ((n + 1) * 4))
      else if length neighbors_bytes mod 4 \<noteq> 0 then Inl (NeighborsLength (length neighbors_bytes))
      else let offsets = map rd32 (chunks_exact 4 offsets_bytes);
               neighbors = map rd32 (chunks_exact 4 neighbors_bytes);
               expected_edges = (if offsets = [] then 0 else unat (last offsets))
           in if expected_edges \<noteq> length neighbors
              then Inl (EdgeCountMismatch expected_edges (length neighbors))
              else Inr \<lparr>ga_offsets = offsets, ga_neighbors = neighbors\<rparr>)"

section \<open>The structural check\<close>

fun first_descent :: "nat \<Rightarrow> u32 list \<Rightarrow> graph_fault option" where
  "first_descent i (a # b # os) = (if b < a then Some (NotMonotonic i a b) else first_descent (Suc i) (b # os))"
| "first_descent i os = None"

fun id_fault :: "nat \<Rightarrow> nat \<Rightarrow> u32 list \<Rightarrow> graph_fault option" where
  "id_fault n i [] = None"
| "id_fault n i (nb # nbs) =
     (if n \<le> unat nb then Some (NeighborOutOfRange nb i)
      else if unat nb = i then Some (SelfLoop i) else id_fault n i nbs)"

fun order_fault :: "nat \<Rightarrow> u32 list \<Rightarrow> graph_fault option" where
  "order_fault i (a # b # nbs) = (if b \<le> a then Some (NotAscending i a b) else order_fault i (b # nbs))"
| "order_fault i nbs = None"

text \<open>The per-node loop; the outer option is a panic, the inner one the first fault.\<close>

fun node_faults :: "adjacency \<Rightarrow> nat list \<Rightarrow> graph_fault option option" where
  "node_faults g [] = Some None"
| "node_faults g (i # is) =
     (case neighbors_of g i of
        None \<Rightarrow> None
      | Some nbs \<Rightarrow>
          (case id_fault (node_count g) i nbs of
             Some f \<Rightarrow> Some (Some f)
           | None \<Rightarrow>
               (case order_fault i nbs of Some f \<Rightarrow> Some (Some f) | None \<Rightarrow> node_faults g is)))"

definition entry_fault :: "adjacency \<Rightarrow> u32 \<Rightarrow> graph_fault option option" where
  "entry_fault g entry_point =
     (if node_count g \<le> 1 then Some None
      else if ga_neighbors g = [] then Some (Some (NoEdges (node_count g)))
      else map_option (\<lambda>nbs. if nbs = [] then Some (EntryIsolated entry_point) else None)
             (neighbors_of g (unat entry_point)))"

definition validate :: "adjacency \<Rightarrow> u32 \<Rightarrow> graph_fault option option" where
  "validate g entry_point =
     (let n = node_count g in
      if n = 0 then Some None
      else case first_descent 0 (ga_offsets g) of
        Some f \<Rightarrow> Some (Some f)
      | None \<Rightarrow>
          if unat (ga_offsets g ! n) \<noteq> length (ga_neighbors g)
          then Some (Some (OffsetsEndMismatch (ga_offsets g ! n) (length (ga_neighbors g))))
          else if n \<le> unat entry_point then Some (Some (EntryOutOfRange entry_point n))
          else case node_faults g [0..<n] of
            None \<Rightarrow> None
          | Some (Some f) \<Rightarrow> Some (Some f)
          | Some None \<Rightarrow> entry_fault g entry_point)"

section \<open>Facts about lists of options\<close>

lemma those_map_Some: "those (map f xs) = Some ys \<longleftrightarrow> map f xs = map Some ys"
proof (induction xs arbitrary: ys)
  case (Cons x xs)
  then show ?case by (cases ys) (auto split: option.splits)
qed auto

lemma those_Some_nth:
  assumes "those (map f [0..<n]) = Some ys"
  shows "length ys = n" and "i < n \<Longrightarrow> f i = Some (ys ! i)"
proof -
  from assms have m: "map f [0..<n] = map Some ys" by (simp add: those_map_Some)
  from arg_cong [OF m, of length] show len: "length ys = n" by simp
  from arg_cong [OF m, of "\<lambda>zs. zs ! i"] len show "i < n \<Longrightarrow> f i = Some (ys ! i)" by simp
qed

lemma those_nth: "length ys = n \<Longrightarrow> (\<And>i. i < n \<Longrightarrow> f i = Some (ys ! i)) \<Longrightarrow> those (map f [0..<n]) = Some ys"
  unfolding those_map_Some by (rule nth_equalityI) auto

section \<open>Offsets\<close>

lemma length_offsets_from [simp]: "length (offsets_from acc rows) = Suc (length rows)"
  by (induction rows arbitrary: acc) auto

lemma nth_offsets_from:
  "i \<le> length rows \<Longrightarrow> offsets_from acc rows ! i = acc + of_nat (length (concat (take i rows)))"
proof (induction rows arbitrary: acc i)
  case (Cons row rows)
  then show ?case by (cases i) (simp_all add: add.assoc)
qed simp

lemma node_count_from_lists [simp]: "node_count (from_lists rows) = length rows"
  by (simp add: node_count_def from_lists_def)

lemma length_concat_take_mono: "i \<le> j \<Longrightarrow> length (concat (take i xss)) \<le> length (concat (take j xss))"
  by (metis append_take_drop_id concat_append le_add1 length_append min_def take_take)

lemma length_concat_take_le: "length (concat (take i xss)) \<le> length (concat xss)"
  by (metis append_take_drop_id concat_append le_add1 length_append)

lemma length_concat_map_sort [simp]: "length (concat (map sort xss)) = length (concat xss)"
  by (induction xss) auto

lemma take_map_sort: "take (length (concat (take i xss))) (concat (map sort xss)) = concat (map sort (take i xss))"
proof (induction xss arbitrary: i)
  case (Cons xs xss)
  then show ?case by (cases i) auto
qed simp

lemma neighbors_of_from_lists:
  assumes small: "length (concat rows) < 2 ^ 32" and i: "i < length rows"
  shows "neighbors_of (from_lists rows) i = Some (sort (rows ! i))"
proof -
  let ?o = "\<lambda>i. length (concat (take i rows))"
  have off: "unat (offsets_from 0 rows ! j) = ?o j" if "j \<le> length rows" for j
    using that small length_concat_take_le [of j rows]
    by (simp add: nth_offsets_from unat_of_nat take_bit_nat_eq_self)
  have step: "?o (Suc i) = ?o i + length (rows ! i)" using i by (simp add: take_Suc_conv_app_nth)
  have "drop (?o i) (concat (map sort rows)) = concat (map sort (drop i rows))"
    using take_map_sort [of i rows] append_take_drop_id [of i rows]
    by (metis append_eq_conv_conj concat_append length_concat_map_sort map_append)
  also have "drop i rows = rows ! i # drop (Suc i) rows" using i by (simp add: Cons_nth_drop_Suc)
  finally have "bslice (?o i) (length (rows ! i)) (concat (map sort rows)) = sort (rows ! i)"
    by (simp add: bslice_def)
  then show ?thesis
    using i step off [of i] off [of "Suc i"] length_concat_take_le [of "Suc i" rows]
    by (simp add: neighbors_of_def from_lists_def Let_def)
qed


lemma to_lists_from_lists:
  "length (concat rows) < 2 ^ 32 \<Longrightarrow> to_lists (from_lists rows) = Some (map sort rows)"
  unfolding to_lists_def by (rule those_nth) (simp_all add: neighbors_of_from_lists)

section \<open>Healthy adjacencies\<close>

text \<open>What the structural check promises, stated over the lists of the nodes.\<close>

definition healthy :: "adjacency \<Rightarrow> u32 \<Rightarrow> bool" where
  "healthy g entry \<longleftrightarrow> node_count g = 0 \<or>
     (\<exists>rows. to_lists g = Some rows \<and> unat (last (ga_offsets g)) = length (ga_neighbors g) \<and>
        unat entry < node_count g \<and>
        (\<forall>i < node_count g. sorted_wrt (<) (rows ! i) \<and>
           (\<forall>nb \<in> set (rows ! i). unat nb < node_count g \<and> unat nb \<noteq> i)) \<and>
        (1 < node_count g \<longrightarrow> rows ! unat entry \<noteq> []))"

lemma first_descent_None: "first_descent i os = None \<longleftrightarrow> sorted_wrt (\<le>) os"
proof (induction i os rule: first_descent.induct)
  case (1 i a b os)
  then show ?case by (cases os) auto
qed auto

lemma id_fault_None: "id_fault n i nbs = None \<longleftrightarrow> (\<forall>nb \<in> set nbs. unat nb < n \<and> unat nb \<noteq> i)"
  by (induction nbs) auto

lemma order_fault_None: "order_fault i nbs = None \<longleftrightarrow> sorted_wrt (<) nbs"
proof (induction i nbs rule: order_fault.induct)
  case (1 i a b nbs)
  then show ?case by (cases nbs) auto
qed auto

lemma neighbors_of_sorted:
  assumes srt: "sorted_wrt (\<le>) (ga_offsets g)" and e: "unat (ga_offsets g ! node_count g) = length (ga_neighbors g)"
    and i: "i < node_count g"
  shows "\<exists>nbs. neighbors_of g i = Some nbs"
proof -
  have len: "length (ga_offsets g) = Suc (node_count g)" using i by (simp add: node_count_def)
  have "ga_offsets g ! i \<le> ga_offsets g ! Suc i"
    by (rule sorted_wrt_nth_less [OF srt]) (use i len in auto)
  moreover have "ga_offsets g ! Suc i \<le> ga_offsets g ! node_count g"
  proof (cases "Suc i = node_count g")
    case False
    show ?thesis by (rule sorted_wrt_nth_less [OF srt]) (use False i len in auto)
  qed simp
  ultimately show ?thesis using e i len by (simp add: neighbors_of_def Let_def word_le_nat_alt)
qed

lemma node_faults_spec:
  assumes "\<forall>i \<in> set is. \<exists>nbs. neighbors_of g i = Some nbs"
  shows "node_faults g is \<noteq> None \<and> (node_faults g is = Some None \<longleftrightarrow>
    (\<forall>i \<in> set is. \<forall>nbs. neighbors_of g i = Some nbs \<longrightarrow> sorted_wrt (<) nbs \<and>
       (\<forall>nb \<in> set nbs. unat nb < node_count g \<and> unat nb \<noteq> i)))"
  using assms
proof (induction "is")
  case (Cons i "is")
  then obtain nbs where "neighbors_of g i = Some nbs" by auto
  with Cons show ?case
    using id_fault_None [of "node_count g" i nbs] order_fault_None [of i nbs]
    by (cases "id_fault (node_count g) i nbs"; cases "order_fault i nbs") auto
qed simp

lemma validate_healthy: "validate g entry \<noteq> None \<and> (validate g entry = Some None \<longleftrightarrow> healthy g entry)"
proof (cases "node_count g = 0")
  case True
  then show ?thesis by (simp add: validate_def healthy_def)
next
  case False
  let ?n = "node_count g"
  have len: "length (ga_offsets g) = Suc ?n" using False by (simp add: node_count_def)
  then have last: "last (ga_offsets g) = ga_offsets g ! ?n" by (subst last_conv_nth) auto
  show ?thesis
  proof (cases "sorted_wrt (\<le>) (ga_offsets g) \<and> unat (ga_offsets g ! ?n) = length (ga_neighbors g)")
    case True
    then have all: "\<forall>i < ?n. \<exists>nbs. neighbors_of g i = Some nbs"
      using neighbors_of_sorted [of g] by blast
    define rows where "rows = map (\<lambda>i. the (neighbors_of g i)) [0..<?n]"
    have nb: "neighbors_of g i = Some (rows ! i)" if "i < ?n" for i
      using all that by (auto simp: rows_def)
    have rows: "to_lists g = Some rows"
      unfolding to_lists_def by (rule those_nth) (simp_all add: nb, simp add: rows_def)
    have nf: "node_faults g [0..<?n] \<noteq> None" "node_faults g [0..<?n] = Some None \<longleftrightarrow>
      (\<forall>i < ?n. sorted_wrt (<) (rows ! i) \<and> (\<forall>nb \<in> set (rows ! i). unat nb < ?n \<and> unat nb \<noteq> i))"
      using node_faults_spec [of "[0..<?n]" g] by (auto simp: nb)
    have empty: "rows ! i = []" if "ga_neighbors g = []" "i < ?n" for i
      using nb [OF that(2)] that(1) by (auto simp: neighbors_of_def bslice_def Let_def split: if_splits)
    have ef: "entry_fault g entry \<noteq> None \<and> (entry_fault g entry = Some None \<longleftrightarrow> (1 < ?n \<longrightarrow> rows ! unat entry \<noteq> []))"
      if "unat entry < ?n"
      using that nb [OF that] empty [OF _ that] by (auto simp: entry_fault_def)
    from nf(1) obtain f where f: "node_faults g [0..<?n] = Some f" by auto
    have fd: "first_descent 0 (ga_offsets g) = None" using True first_descent_None by blast
    show ?thesis
      using True False nf(2) f ef
      by (cases f) (auto simp: validate_def healthy_def Let_def fd rows last)
  next
    case bad: False
    have "\<not> healthy g entry"
    proof
      assume "healthy g entry"
      with False obtain rows where rows: "to_lists g = Some rows"
        and e: "unat (ga_offsets g ! ?n) = length (ga_neighbors g)"
        by (auto simp: healthy_def last)
      have "ga_offsets g ! i \<le> ga_offsets g ! Suc i" if "i < ?n" for i
        using those_Some_nth(2) [OF rows [unfolded to_lists_def] that]
        by (auto simp: neighbors_of_def Let_def word_le_nat_alt split: if_splits)
      then have "sorted_wrt (\<le>) (ga_offsets g)"
        using len by (simp add: sorted_iff_nth_Suc)
      with bad e show False by simp
    qed
    with False bad first_descent_None [of 0 "ga_offsets g"] show ?thesis
      by (auto simp: validate_def Let_def split: option.splits)
  qed
qed

lemma healthy_neighbors:
  assumes "healthy g entry" and "i < node_count g"
  obtains nbs where "neighbors_of g i = Some nbs" "\<forall>nb \<in> set nbs. unat nb < node_count g \<and> unat nb \<noteq> i"
    "sorted_wrt (<) nbs"
proof -
  from assms obtain rows where "to_lists g = Some rows" "sorted_wrt (<) (rows ! i)"
    "\<forall>nb \<in> set (rows ! i). unat nb < node_count g \<and> unat nb \<noteq> i"
    by (auto simp: healthy_def)
  with those_Some_nth(2) [of "neighbors_of g" "node_count g" rows i] assms(2) that show thesis
    by (auto simp: to_lists_def)
qed


lemma chunks_le32: "length bs mod 4 = 0 \<Longrightarrow> concat (map le32 (map rd32 (chunks_exact 4 bs))) = bs"
proof (induction "length bs" arbitrary: bs rule: less_induct)
  case less
  show ?case
  proof (cases "length bs < 4")
    case True
    with less.prems have "bs = []" by simp
    then show ?thesis by simp
  next
    case False
    then have len: "length (take 4 bs) = 4" and "length (drop 4 bs) < length bs" by auto
    moreover have "length (drop 4 bs) mod 4 = 0" using less.prems False le_mod_geq [of 4 "length bs"] by simp
    ultimately have "concat (map le32 (map rd32 (chunks_exact 4 (drop 4 bs)))) = drop 4 bs"
      by (intro less.hyps)
    moreover have "chunks_exact 4 bs = take 4 bs # chunks_exact 4 (drop 4 bs)"
      using False by (simp add: chunks_exact.simps [of 4 bs])
    ultimately show ?thesis by (simp add: le32_rd32 [OF len])
  qed
qed

lemma length_chunks_exact: "0 < w \<Longrightarrow> length (chunks_exact w bs) = length bs div w"
proof (induction w bs rule: chunks_exact.induct)
  case (1 w xs)
  show ?case
  proof (cases "length xs < w")
    case False
    then show ?thesis using 1 by (simp add: chunks_exact.simps [of w xs] le_div_geq)
  qed simp
qed

section \<open>Properties\<close>

lemma adjacency_round_trip_lemma:
  assumes "length (concat rows) < 2 ^ 32"
  shows "adjacency_decode (encode_offsets (from_lists rows)) (encode_neighbors (from_lists rows)) (of_nat (length rows))
      = Inr (from_lists rows) \<and>
    to_lists (from_lists rows) = Some (map sort rows)"
proof -
  have "last (offsets_from 0 rows) = of_nat (length (concat rows))"
    by (subst last_conv_nth) (auto simp: nth_offsets_from simp flip: length_0_conv)
  moreover have "offsets_from 0 rows \<noteq> []" by (simp flip: length_0_conv)
  ultimately show ?thesis
    using assms to_lists_from_lists [OF assms]
    by (simp add: adjacency_decode_def encode_offsets_def encode_neighbors_def u32c.length_concat_enc
        u32c.decode_all from_lists_def unat_of_nat take_bit_nat_eq_self)
qed

text \<open>
  C17: persisting an adjacency loses nothing.  The two byte chains of an adjacency built from lists
  decode to that adjacency, and its lists are the given ones in ascending order, as long as the
  edges can be counted in 32 bits.
\<close>

theorem adjacency_round_trip:
  assumes "length (concat rows) < 2 ^ 32"
  shows "adjacency_decode (encode_offsets (from_lists rows)) (encode_neighbors (from_lists rows)) (of_nat (length rows))
      = Inr (from_lists rows) \<and>
    to_lists (from_lists rows) = Some (map sort rows)"
  by (rule adjacency_round_trip_lemma [OF assms])

theorem adjacency_round_trip_witness:
  "to_lists (from_lists [[1], [2, 0], []]) = Some [[1], [0, 2], []]"
  using adjacency_round_trip [of "[[1], [2, 0], []]"] by simp

text \<open>
  Bytes that decode are the encoding of what they decode to, for the expected number of nodes:
  no two byte chains stand for one adjacency.
\<close>

theorem adjacency_decode_faithful:
  assumes d: "adjacency_decode ob nb n = Inr g" and small: "unat n < 2 ^ 61" "length ob < 2 ^ 64"
  shows "encode_offsets g = ob \<and> encode_neighbors g = nb \<and> node_count g = unat n \<and>
    unat (last (ga_offsets g)) = edge_count g"
proof -
  have n1: "unat ((n + 1) * 4) = (unat n + 1) * 4"
  proof -
    have a: "unat (n + 1) = unat n + 1" using small(1) by (subst unat_add_lem [THEN iffD1]) simp_all
    have "unat ((n + 1) * 4) = unat (n + 1) * unat (4 :: u64)"
      by (rule unat_mult_lem [THEN iffD1]) (use a small(1) in simp)
    with a show ?thesis by simp
  qed
  from d have "of_nat (length ob) = (n + 1) * 4"
    by (auto simp: adjacency_decode_def Let_def split: if_splits)
  from arg_cong [OF this, of unat] n1 small(2) have len1: "length ob = (unat n + 1) * 4"
    by (simp add: unat_of_nat take_bit_nat_eq_self)
  from d have len: "length nb mod 4 = 0"
    and g: "g = \<lparr>ga_offsets = map rd32 (chunks_exact 4 ob), ga_neighbors = map rd32 (chunks_exact 4 nb)\<rparr>"
    and e: "(if ga_offsets g = [] then 0 else unat (last (ga_offsets g))) = length (ga_neighbors g)"
    by (auto simp: adjacency_decode_def Let_def split: if_splits)
  have "length (ga_offsets g) = unat n + 1" using len1 by (simp add: g length_chunks_exact)
  then have ne: "ga_offsets g \<noteq> []" and cnt: "node_count g = unat n" by (auto simp: node_count_def)
  have "encode_offsets g = ob" "encode_neighbors g = nb"
    using chunks_le32 [of ob] chunks_le32 [of nb] len len1 by (simp_all add: encode_offsets_def encode_neighbors_def g)
  with ne cnt e show ?thesis by (simp add: edge_count_def)
qed

theorem adjacency_decode_faithful_witness:
  "encode_offsets (from_lists [[1], []]) = concat (map le32 [0, 1, 1])"
proof -
  have "adjacency_decode (concat (map le32 [0, 1, 1])) (concat (map le32 [1])) 2 = Inr (from_lists [[1], []])"
    unfolding adjacency_decode_def u32c.decode_all by (simp add: from_lists_def)
  from adjacency_decode_faithful [OF this] show ?thesis by simp
qed

text \<open>
  C16: the structural check never panics, whatever bytes the adjacency was decoded from, and it
  accepts exactly the healthy adjacencies: every node's list can be read, is strictly ascending and
  stays inside the graph without self-loops, the entry point exists, and in a graph of several nodes
  it has somewhere to go.
\<close>

theorem validate_exact:
  "validate g entry \<noteq> None \<and> (validate g entry = Some None \<longleftrightarrow> healthy g entry)"
  by (rule validate_healthy)

text \<open>
  On an adjacency that passes the structural check, reading the neighbors of any node returns a
  list, its ids are below the number of nodes, strictly ascending and not the node itself.
\<close>

theorem validated_neighbors_safe:
  assumes "validate g entry = Some None" and "i < node_count g"
  shows "\<exists>nbs. neighbors_of g i = Some nbs \<and> sorted_wrt (<) nbs \<and>
    (\<forall>nb \<in> set nbs. unat nb < node_count g \<and> unat nb \<noteq> i)"
  using healthy_neighbors [of g entry i] assms validate_healthy [of g entry] by metis

theorem validated_neighbors_safe_witness:
  "\<exists>nbs. neighbors_of (from_lists [[1], [0]]) 1 = Some nbs \<and> sorted_wrt (<) nbs \<and>
    (\<forall>nb \<in> set nbs. unat nb < node_count (from_lists [[1], [0]]) \<and> unat nb \<noteq> 1)"
proof (rule validated_neighbors_safe [where entry = 0])
  show "validate (from_lists [[1], [0]]) 0 = Some None"
    by (simp add: validate_def from_lists_def node_count_def entry_fault_def neighbors_of_def bslice_def
        Let_def upt_rec)
qed simp

end
