(* ===== verification/Entry.thy ===== *)
theory Entry
  imports Flush Csr
begin

text \<open>
  The entry points of the writer that the build, insert and vacuum paths call
  (\<open>src/index/relfile.rs\<close>), the split two-phase write, and the readers of the chains beside the
  rows: the coarse centroids and the cell directory of an IVF index, the adjacency and the tombstone
  bitmap of a graph index.  The properties follow a rewrite by the reads that come after it.
\<close>

section \<open>Entry points\<close>

definition write_full ::
  "codebook_fn \<Rightarrow> 'r pstore \<Rightarrow> bool \<Rightarrow> u8 \<Rightarrow> u32 \<Rightarrow> u64 \<Rightarrow> u8 list \<Rightarrow> f32_bits list \<Rightarrow> u64 list \<Rightarrow>
   u32 \<Rightarrow> ('r, unit) io" where
  "write_full cb S skip bit_width dim n_vectors packed_codes scales slot_to_id am_version =
     write_full_inner cb S skip bit_width dim n_vectors packed_codes scales slot_to_id am_version
       None None None 0"

definition write_full_with_prepared ::
  "codebook_fn \<Rightarrow> 'r pstore \<Rightarrow> bool \<Rightarrow> u8 \<Rightarrow> u32 \<Rightarrow> u64 \<Rightarrow> u8 list \<Rightarrow> f32_bits list \<Rightarrow> u64 list \<Rightarrow>
   u32 \<Rightarrow> prepared \<Rightarrow> ('r, unit) io" where
  "write_full_with_prepared cb S skip bit_width dim n_vectors packed_codes scales slot_to_id am_version p =
     write_full_inner cb S skip bit_width dim n_vectors packed_codes scales slot_to_id am_version
       (Some p) None None 0"

definition write_full_with_prepared_ivf ::
  "codebook_fn \<Rightarrow> 'r pstore \<Rightarrow> bool \<Rightarrow> u8 \<Rightarrow> u32 \<Rightarrow> u64 \<Rightarrow> u8 list \<Rightarrow> f32_bits list \<Rightarrow> u64 list \<Rightarrow>
   u32 \<Rightarrow> prepared \<Rightarrow> ivf_parts \<Rightarrow> ('r, unit) io" where
  "write_full_with_prepared_ivf cb S skip bit_width dim n_vectors packed_codes scales slot_to_id
     am_version p ivf =
     write_full_inner cb S skip bit_width dim n_vectors packed_codes scales slot_to_id am_version
       (Some p) (Some ivf) None 0"

definition write_full_with_prepared_graph ::
  "codebook_fn \<Rightarrow> 'r pstore \<Rightarrow> bool \<Rightarrow> u8 \<Rightarrow> u32 \<Rightarrow> u64 \<Rightarrow> u8 list \<Rightarrow> f32_bits list \<Rightarrow> u64 list \<Rightarrow>
   u32 \<Rightarrow> prepared \<Rightarrow> graph_parts \<Rightarrow> ('r, unit) io" where
  "write_full_with_prepared_graph cb S skip bit_width dim n_vectors packed_codes scales slot_to_id
     am_version p graph =
     write_full_inner cb S skip bit_width dim n_vectors packed_codes scales slot_to_id am_version
       (Some p) None (Some graph) 0"

definition write_full_with_prepared_graph_and_tombstones ::
  "codebook_fn \<Rightarrow> 'r pstore \<Rightarrow> bool \<Rightarrow> u8 \<Rightarrow> u32 \<Rightarrow> u64 \<Rightarrow> u8 list \<Rightarrow> f32_bits list \<Rightarrow> u64 list \<Rightarrow>
   u32 \<Rightarrow> prepared \<Rightarrow> graph_parts \<Rightarrow> u8 list \<Rightarrow> ('r, unit) io" where
  "write_full_with_prepared_graph_and_tombstones cb S skip bit_width dim n_vectors packed_codes scales
     slot_to_id am_version p graph tombstones =
     write_full_inner_with_tombstones cb S skip bit_width dim n_vectors packed_codes scales slot_to_id
       am_version (Some p) None (Some graph) (if tombstones = [] then None else Some tombstones) 0"

definition write_full_empty_ivf_degraded ::
  "codebook_fn \<Rightarrow> 'r pstore \<Rightarrow> bool \<Rightarrow> u8 \<Rightarrow> u32 \<Rightarrow> u32 \<Rightarrow> u32 \<Rightarrow> ('r, unit) io" where
  "write_full_empty_ivf_degraded cb S skip bit_width dim am_version n_lists =
     write_full_inner cb S skip bit_width dim 0 [] [] [] am_version None None None n_lists"

definition write_full_bq ::
  "'r pstore \<Rightarrow> bool \<Rightarrow> u32 \<Rightarrow> u64 \<Rightarrow> u8 list \<Rightarrow> u64 list \<Rightarrow> f32_bits list \<Rightarrow> u32 \<Rightarrow> ('r, unit) io" where
  "write_full_bq S skip dim n_vectors packed_codes slot_to_id mean am_version =
     write_full_bq_parts S skip dim n_vectors packed_codes slot_to_id mean am_version None [] 0"

definition write_full_bq_ivf ::
  "'r pstore \<Rightarrow> bool \<Rightarrow> u32 \<Rightarrow> u64 \<Rightarrow> u8 list \<Rightarrow> u64 list \<Rightarrow> f32_bits list \<Rightarrow> u32 \<Rightarrow> ivf_parts \<Rightarrow>
   ('r, unit) io" where
  "write_full_bq_ivf S skip dim n_vectors packed_codes slot_to_id mean am_version ivf =
     write_full_bq_parts S skip dim n_vectors packed_codes slot_to_id mean am_version (Some ivf) [] 0"

definition write_full_empty_bq_ivf_degraded ::
  "'r pstore \<Rightarrow> bool \<Rightarrow> u32 \<Rightarrow> u32 \<Rightarrow> u32 \<Rightarrow> ('r, unit) io" where
  "write_full_empty_bq_ivf_degraded S skip dim am_version n_lists =
     write_full_bq_parts S skip dim 0 [] [] [] am_version None [] n_lists"

section \<open>The two-phase write\<close>

record packed_layout =
  pl_bit_width :: u8
  pl_dim :: u32
  pl_n_vectors :: u64
  pl_am_version :: u32
  pl_codes_first :: u32
  pl_codes_pages :: u32
  pl_scales_first :: u32
  pl_scales_pages :: u32
  pl_ids_first :: u32
  pl_ids_pages :: u32

definition layout_of :: "u8 \<Rightarrow> u32 \<Rightarrow> u64 \<Rightarrow> u32 \<Rightarrow> meta \<Rightarrow> packed_layout" where
  "layout_of bit_width dim n_vectors am_version m =
     \<lparr>pl_bit_width = bit_width, pl_dim = dim, pl_n_vectors = n_vectors, pl_am_version = am_version,
      pl_codes_first = m_codes_first m, pl_codes_pages = m_codes_count m,
      pl_scales_first = m_scales_first m, pl_scales_pages = m_scales_count m,
      pl_ids_first = m_ids_first m, pl_ids_pages = m_ids_count m\<rparr>"

definition write_packed_phase ::
  "'r pstore \<Rightarrow> bool \<Rightarrow> u8 \<Rightarrow> u32 \<Rightarrow> u64 \<Rightarrow> u8 list \<Rightarrow> f32_bits list \<Rightarrow> u64 list \<Rightarrow> u32 \<Rightarrow>
   ('r, packed_layout) io" where
  "write_packed_phase S skip bit_width dim n_vectors packed_codes scales slot_to_id am_version =
     seq_io (assert_io (len64 slot_to_id = n_vectors))
     (seq_io (assert_io (len64 scales = n_vectors))
     (bind_io (option_io AssertFailed (plan_with_blocked bit_width dim n_vectors am_version 0 0 0)) (\<lambda>plan.
       let layout = layout_of bit_width dim n_vectors am_version plan in
       if n_vectors = 0 then ret layout
       else
         let row_chain_total = 1 + pl_codes_pages layout + pl_scales_pages layout + pl_ids_pages layout in
         seq_io (bind_io (nblocks S) (\<lambda>existing_before.
                  when_io (existing_before < unat row_chain_total) (extend_to S row_chain_total)))
         (seq_io (write_row_chains S skip plan n_vectors packed_codes scales slot_to_id)
                 (ret layout)))))"

definition write_blocked_phase_and_meta ::
  "codebook_fn \<Rightarrow> 'r pstore \<Rightarrow> bool \<Rightarrow> packed_layout \<Rightarrow> prepared option \<Rightarrow> ('r, unit) io" where
  "write_blocked_phase_and_meta cb S skip layout prepared =
     bind_io (option_io AssertFailed
         (plan_full cb (pl_bit_width layout) (pl_dim layout) (pl_n_vectors layout)
           (pl_am_version layout) prepared None None [] 0)) (\<lambda>m.
       let new_total = max (total_blocks m) 1 in
       seq_io (bind_io (nblocks S) (\<lambda>existing_before.
                when_io (existing_before < unat new_total) (extend_to S new_total)))
       (seq_io (when_io (0 < pl_n_vectors layout) (write_tqplus S skip m prepared))
       (seq_io (write_meta S m)
               (bind_io (nblocks S) (\<lambda>existing_after.
                  when_io (unat new_total < existing_after) (relation_truncate S (unat new_total)))))))"

section \<open>Reading a graph\<close>

datatype graph_read_fault =
    GraphPastEnd u32 nat nat | SplitPastChain | BadAdjacency graph_fault

definition try_read_graph_adjacency ::
  "'r pstore \<Rightarrow> meta \<Rightarrow> ('r, graph_read_fault + adjacency option) io" where
  "try_read_graph_adjacency S m =
     (if \<not> has_graph m then ret (Inr None)
      else
        let total_bytes = m_graph_offsets_bytes m + m_graph_neighbors_bytes m;
            pages = unat (byte_pages_needed total_bytes)
        in bind_io (nblocks S) (\<lambda>nblk.
          if nblk < unat (m_graph_first m) + pages
          then ret (Inl (GraphPastEnd (m_graph_first m) pages nblk))
          else bind_io (read_byte_chain S (m_graph_first m) total_bytes) (\<lambda>combined.
            let split = unat (m_graph_offsets_bytes m) in
            if length combined < split then ret (Inl SplitPastChain)
            else case adjacency_decode (take split combined) (drop split combined) (m_n_vectors m) of
              Inl f \<Rightarrow> ret (Inl (BadAdjacency f))
            | Inr g \<Rightarrow> ret (Inr (Some g)))))"

definition read_graph_adjacency :: "'r pstore \<Rightarrow> meta \<Rightarrow> ('r, adjacency option) io" where
  "read_graph_adjacency S m =
     bind_io (try_read_graph_adjacency S m) (\<lambda>res.
       case res of Inr g \<Rightarrow> ret g | Inl e \<Rightarrow> raise CorruptGraph)"

section \<open>Reading planned byte chains\<close>

context page_store
begin

lemma read_planned_bytes:
  assumes "chain_list m ! i = (unat first, unat (byte_pages_needed (len64 bytes)))" and "i < 10"
    and "fits m" and "length bytes < 2 ^ 64"
    and "stores S (w_rel w) (unat first) PAYLOAD_BYTES bytes"
  shows "read_byte_chain S first (len64 bytes) w = (Inr bytes, w)"
proof (rule read_byte_chain_stored)
  have small: "unat (byte_pages_needed (len64 bytes)) < 4294967295"
    using count_small [OF assms(3,2)] assms(1) by simp
  from byte_pages_room [OF this] assms(4)
  have "nat_div_ceil (length bytes) PAYLOAD_BYTES = unat (byte_pages_needed (len64 bytes))" by simp
  with small show "nat_div_ceil (length bytes) PAYLOAD_BYTES < 4294967295" by simp
qed (use assms in simp_all)

end

lemma byte_pages_pos: "bytes \<noteq> [] \<Longrightarrow> length bytes < 2 ^ 64 \<Longrightarrow> byte_pages_needed (len64 bytes) \<noteq> 0"
proof
  assume ne: "bytes \<noteq> []" and len: "length bytes < 2 ^ 64" and z: "byte_pages_needed (len64 bytes) = 0"
  then have "nat_div_ceil (length bytes) PAYLOAD_BYTES = 0"
    using byte_pages_room [of "len64 bytes"] by simp
  moreover have "0 < PAYLOAD_BYTES" by (simp add: PAYLOAD_BYTES_eq)
  ultimately show False using nat_div_ceil_le_iff [of PAYLOAD_BYTES "length bytes" 0] ne by simp
qed

lemma packed_from_first:
  "packed_from b cs \<Longrightarrow> i < length cs \<Longrightarrow> snd (cs ! i) \<noteq> 0 \<Longrightarrow> b \<le> fst (cs ! i)"
proof (induction b cs arbitrary: i rule: packed_from.induct)
  case (2 b first count cs)
  show ?case
  proof (cases i)
    case 0
    with 2 show ?thesis by auto
  next
    case (Suc j)
    with "2.IH" [of j] "2.prems" have "b + count \<le> fst (cs ! j)" by simp
    with Suc show ?thesis by simp
  qed
qed simp

text \<open>A chain that a packed layout gives pages does not start at the meta page.\<close>

lemma packed_first_nonzero:
  assumes "packed m" and "i < 10" and "chain_list m ! i = (unat first, unat count)" and "count \<noteq> 0"
  shows "first \<noteq> 0"
proof -
  have "length (chain_list m) = 10" by (simp add: chain_list_def)
  with packed_from_first [OF assms(1) [unfolded packed_def], of i] assms(2-4)
  have "1 \<le> unat first" by (simp add: unat_eq_0)
  then show ?thesis by auto
qed


section \<open>What a plan says about the graph\<close>

lemma plan_full_graph:
  assumes p: "plan_full cb bw dim n v prepared ivf (Some g) tombs d = Some m"
    and ne: "len64 (gp_offsets_bytes g) \<noteq> 0"
  shows "m_kind m = KIND_GRAPH" "m_graph_offsets_bytes m = len64 (gp_offsets_bytes g)"
    "m_graph_neighbors_bytes m = len64 (gp_neighbors_bytes g)" "m_graph_entry_point m = gp_entry_point g"
proof -
  from p obtain m1 where m: "m = plan_tombstones tombs (plan_graph (Some g) (plan_ivf ivf d m1))"
    by (rule plan_full_SomeE)
  show "m_kind m = KIND_GRAPH" "m_graph_offsets_bytes m = len64 (gp_offsets_bytes g)"
    "m_graph_neighbors_bytes m = len64 (gp_neighbors_bytes g)" "m_graph_entry_point m = gp_entry_point g"
    using ne by (simp_all add: m plan_tombstones_def plan_graph_def set_graph_fields set_graph_chain_def Let_def)
qed

lemma plan_full_no_bitmap:
  assumes p: "plan_full cb bw dim n v prepared ivf graph [] d = Some m"
  shows "m_tombstone_bytes m = 0"
proof -
  from p obtain m1 where m: "m = plan_tombstones [] (plan_graph graph (plan_ivf ivf d m1))" "m_tombstone_bytes m1 = 0"
    by (rule plan_full_SomeE)
  then show ?thesis
    by (auto simp: plan_tombstones_def plan_graph_def plan_ivf_def set_graph_chain_def set_ivf_chains_def
        mark_colbert_def Let_def split: option.split)
qed

text \<open>A planned, non-empty, stored byte chain reads back, is not at block 0 and lies inside the file.\<close>

lemma planned_chain_reads:
  assumes S: "page_store S" and pk: "packed m" and f: "fits m" and i: "i < 10"
    and c: "chain_list m ! i = (unat first, unat count)" and count: "count = byte_pages_needed (len64 bytes)"
    and ne: "bytes \<noteq> []" and len: "length bytes < 2 ^ 64"
    and st: "stores S (w_rel w) (unat first) PAYLOAD_BYTES bytes"
  shows "read_byte_chain S first (len64 bytes) w = (Inr bytes, w) \<and> first \<noteq> 0 \<and> count \<noteq> 0 \<and>
    unat first + unat count \<le> block_sum m"
proof -
  have cnt: "count \<noteq> 0" using byte_pages_pos [OF ne len] count by simp
  have first: "first \<noteq> 0" by (rule packed_first_nonzero [OF pk i c cnt])
  have pos: "0 < unat count" using cnt by (simp add: unat_gt_0)
  then have "unat first + unat count - 1 \<in> region m i"
    by (simp add: region_def in_chain_def c)
  from region_in_file [OF pk i this] have "unat first + unat count - 1 < block_sum m" by simp
  with pos have "unat first + unat count \<le> block_sum m" by simp
  moreover have "read_byte_chain S first (len64 bytes) w = (Inr bytes, w)"
    using c count by (intro page_store.read_planned_bytes [OF S _ i f len st]) simp
  ultimately show ?thesis using first cnt by simp
qed

text \<open>The parts of a stored index.\<close>

lemma stored_parts:
  assumes p: "plan_full cb bw dim n v prepared ivf graph tombs d = Some m" and n: "n \<noteq> 0"
    and st: "index_stored S m codes scales ids prepared ivf graph tombs r"
  shows "parts_stored S m prepared ivf graph tombs r" and "ps_nblocks S r = block_sum m"
  using st plan_full_meta(1) [OF p] n by (simp_all add: index_stored_def word_gt_0)

lemma stored_tombstones_read:
  assumes S: "page_store S" and p: "plan_full cb bw dim n v prepared ivf graph tombs d = Some m"
    and f: "fits m" and inp: "rewrite_inputs bw dim n codes prepared ivf graph tombs"
    and st: "parts_stored S m prepared ivf graph tombs (w_rel w)"
  shows "read_tombstones S m w = (Inr tombs, w)"
proof (cases "tombs = []")
  case True
  with plan_full_no_bitmap [of cb bw dim n v prepared ivf graph d m] p show ?thesis
    by (simp add: read_tombstones_def ret_def)
next
  case False
  have len: "length tombs < 2 ^ 64" using inp by (simp add: rewrite_inputs_def)
  note t = plan_full_parts(3) [OF p False]
  have "read_byte_chain S (m_tombstone_first m) (len64 tombs) w = (Inr tombs, w) \<and>
      m_tombstone_first m \<noteq> 0 \<and> m_tombstone_count m \<noteq> 0 \<and>
      unat (m_tombstone_first m) + unat (m_tombstone_count m) \<le> block_sum m"
  proof (rule planned_chain_reads [OF S plan_full_packed [OF p f] f, of 9])
    show "stores S (w_rel w) (unat (m_tombstone_first m)) PAYLOAD_BYTES tombs"
      using st by (simp add: parts_stored_def)
  qed (use t False len in \<open>simp_all add: chain_list_def\<close>)
  then show ?thesis
    using t len64_nonzero [OF len False] by (simp add: read_tombstones_def)
qed

lemma stored_graph_chain_read:
  assumes S: "page_store S" and p: "plan_full cb bw dim n v prepared ivf (Some g) tombs d = Some m"
    and f: "fits m" and inp: "rewrite_inputs bw dim n codes prepared ivf (Some g) tombs"
    and st: "parts_stored S m prepared ivf (Some g) tombs (w_rel w)" and ne: "gp_offsets_bytes g \<noteq> []"
  shows "read_byte_chain S (m_graph_first m) (len64 (gp_offsets_bytes g) + len64 (gp_neighbors_bytes g)) w
      = (Inr (gp_offsets_bytes g @ gp_neighbors_bytes g), w) \<and> m_graph_first m \<noteq> 0 \<and> m_graph_count m \<noteq> 0 \<and>
    unat (m_graph_first m) + unat (m_graph_count m) \<le> block_sum m"
proof -
  have l: "len64 (gp_offsets_bytes g) + len64 (gp_neighbors_bytes g) = len64 (gp_offsets_bytes g @ gp_neighbors_bytes g)"
    by (simp add: len64_def)
  show ?thesis
    unfolding l
  proof (rule planned_chain_reads [OF S plan_full_packed [OF p f] f, of 8])
    show "m_graph_count m = byte_pages_needed (len64 (gp_offsets_bytes g @ gp_neighbors_bytes g))"
      using plan_full_parts(2) [OF p refl] by (simp add: l)
    show "stores S (w_rel w) (unat (m_graph_first m)) PAYLOAD_BYTES (gp_offsets_bytes g @ gp_neighbors_bytes g)"
      using st by (simp add: parts_stored_def)
  qed (use inp ne in \<open>simp_all add: chain_list_def rewrite_inputs_def\<close>)
qed

lemma stored_ivf_read:
  assumes S: "page_store S" and p: "plan_full cb bw dim n v prepared (Some iv) graph tombs d = Some m"
    and f: "fits m" and inp: "rewrite_inputs bw dim n codes prepared (Some iv) graph tombs"
    and st: "parts_stored S m prepared (Some iv) graph tombs (w_rel w)" and l: "0 < ip_lists iv"
    and ne: "ip_coarse_centroids iv \<noteq> []" "ip_cell_dir_bytes iv \<noteq> []"
  shows "read_byte_chain S (m_coarse_first m) (of_nat (4 * length (ip_coarse_centroids iv))) w
      = (Inr (f32s_bytes (ip_coarse_centroids iv)), w) \<and> m_coarse_first m \<noteq> 0 \<and> m_coarse_count m \<noteq> 0"
    and "read_byte_chain S (m_cell_dir_first m) (len64 (ip_cell_dir_bytes iv)) w
      = (Inr (ip_cell_dir_bytes iv), w) \<and> m_cell_dir_first m \<noteq> 0 \<and> m_cell_dir_count m \<noteq> 0"
proof -
  note q = plan_full_parts(1) [OF p refl l]
  have e: "of_nat (4 * length (ip_coarse_centroids iv)) = len64 (f32s_bytes (ip_coarse_centroids iv))"
    by (simp add: len64_def mult.commute)
  have "length (f32s_bytes (ip_coarse_centroids iv)) \<noteq> 0" using ne by simp
  then have "f32s_bytes (ip_coarse_centroids iv) \<noteq> []" by (metis list.size(3))
  then have "read_byte_chain S (m_coarse_first m) (len64 (f32s_bytes (ip_coarse_centroids iv))) w
      = (Inr (f32s_bytes (ip_coarse_centroids iv)), w) \<and> m_coarse_first m \<noteq> 0 \<and> m_coarse_count m \<noteq> 0 \<and>
    unat (m_coarse_first m) + unat (m_coarse_count m) \<le> block_sum m"
  proof (intro planned_chain_reads [OF S plan_full_packed [OF p f] f, of 6])
    show "m_coarse_count m = byte_pages_needed (len64 (f32s_bytes (ip_coarse_centroids iv)))"
      using q by (simp only: e)
    show "length (f32s_bytes (ip_coarse_centroids iv)) < 2 ^ 64"
      using inp by (simp add: rewrite_inputs_def)
    show "stores S (w_rel w) (unat (m_coarse_first m)) PAYLOAD_BYTES (f32s_bytes (ip_coarse_centroids iv))"
      using st l by (simp add: parts_stored_def)
  qed (simp_all add: chain_list_def)
  then show "read_byte_chain S (m_coarse_first m) (of_nat (4 * length (ip_coarse_centroids iv))) w
      = (Inr (f32s_bytes (ip_coarse_centroids iv)), w) \<and> m_coarse_first m \<noteq> 0 \<and> m_coarse_count m \<noteq> 0"
    unfolding e by simp
  have "read_byte_chain S (m_cell_dir_first m) (len64 (ip_cell_dir_bytes iv)) w
      = (Inr (ip_cell_dir_bytes iv), w) \<and> m_cell_dir_first m \<noteq> 0 \<and> m_cell_dir_count m \<noteq> 0 \<and>
    unat (m_cell_dir_first m) + unat (m_cell_dir_count m) \<le> block_sum m"
    using q st l inp ne
    by (intro planned_chain_reads [OF S plan_full_packed [OF p f] f, of 7])
      (simp_all add: chain_list_def parts_stored_def rewrite_inputs_def)
  then show "read_byte_chain S (m_cell_dir_first m) (len64 (ip_cell_dir_bytes iv)) w
      = (Inr (ip_cell_dir_bytes iv), w) \<and> m_cell_dir_first m \<noteq> 0 \<and> m_cell_dir_count m \<noteq> 0" by simp
qed


text \<open>The size of a planned file whose calibration is the identity.\<close>

lemma plan_parts_block_sum:
  assumes p: "plan_full cb bw dim n v (Some pr) ivf graph tombs d = Some m" and tq: "tqplus_shift pr = []"
  shows "block_sum m = 1 + unat (padded_pages_needed n (rows_per_page (codes_stride bw dim)))
    + unat (padded_pages_needed n (rows_per_page 4)) + unat (padded_pages_needed n (rows_per_page 8))
    + unat (m_coarse_count m) + unat (m_cell_dir_count m) + unat (m_graph_count m) + unat (m_tombstone_count m)"
proof -
  from p obtain m0 m1 where p0: "plan_with_blocked bw dim n v 0 0 (tqplus_chain_len pr) = Some m0"
    and c: "chain_list m1 = chain_list m0"
    and m: "m = plan_tombstones tombs (plan_graph graph (plan_ivf ivf d m1))"
    by (rule plan_full_SomeE) simp
  have keep: "m_bq_mean_count m = m_bq_mean_count m1" "m_blocked_count m = m_blocked_count m1"
    by (auto simp: m plan_tombstones_def plan_graph_def set_graph_chain_def plan_ivf_def set_ivf_chains_def
        mark_colbert_def Let_def split: option.split)
  have "m_bq_mean_count m = 0" "m_blocked_count m = 0"
    using keep c plan_absent(15) [OF p0] plan_fields [OF p0] by (auto simp: chain_list_def unat_eq_0)
  moreover have "m_rotation_count m = 0"
    using plan_full_meta(13) [OF p] tq by (simp add: tqplus_chain_len_def)
  ultimately show ?thesis by (simp add: block_sum_eq plan_full_meta(10-12) [OF p])
qed

section \<open>What readers find after a rewrite\<close>

lemma graph_stored_reads:
  assumes S: "page_store S"
    and p: "plan_full cb bw dim n v (Some pr) None (Some \<lparr>gp_offsets_bytes = encode_offsets g,
      gp_neighbors_bytes = encode_neighbors g, gp_entry_point = entry\<rparr>) tombs 0 = Some m"
    and f: "fits m"
    and inp: "rewrite_inputs bw dim n codes (Some pr) None (Some \<lparr>gp_offsets_bytes = encode_offsets g,
      gp_neighbors_bytes = encode_neighbors g, gp_entry_point = entry\<rparr>) tombs"
    and len: "length scales = unat n" "length ids = unat n" and n: "n \<noteq> 0"
    and g: "g = from_lists rows" "length rows = unat n" "length (concat rows) < 2 ^ 32"
    and st: "index_stored S m codes scales ids (Some pr) None (Some \<lparr>gp_offsets_bytes = encode_offsets g,
      gp_neighbors_bytes = encode_neighbors g, gp_entry_point = entry\<rparr>) tombs (w_rel w)"
  shows "read_graph_adjacency S m w = (Inr (Some g), w)" "read_tombstones S m w = (Inr tombs, w)"
    "m_graph_entry_point m = entry" "is_graph m"
    "m_n_vectors hint \<noteq> 0 \<Longrightarrow> read_full_consistent S hint w = (Inr (m, codes, scales, ids), w)"
proof -
  let ?gp = "\<lparr>gp_offsets_bytes = encode_offsets g, gp_neighbors_bytes = encode_neighbors g, gp_entry_point = entry\<rparr>"
  note parts = stored_parts [OF p n st]
  have offs: "length (encode_offsets g) = 4 * Suc (unat n)"
    using g(2) by (simp add: encode_offsets_def u32c.length_concat_enc g(1) from_lists_def)
  then have ne: "gp_offsets_bytes ?gp \<noteq> []" by auto
  note ch = stored_graph_chain_read [OF S p f inp parts(1) ne]
  have olen: "length (encode_offsets g) < 2 ^ 64" using inp by (simp add: rewrite_inputs_def)
  then have o0: "len64 (gp_offsets_bytes ?gp) \<noteq> 0" using ne by (intro len64_nonzero) simp_all
  note gm = plan_full_graph [OF p o0]
  show "is_graph m" "m_graph_entry_point m = entry" using gm by (simp_all add: is_graph_def)
  have hg: "has_graph m"
    using gm(1) ch n plan_full_meta(1) [OF p] by (simp add: has_graph_def is_graph_def word_gt_0)
  have dec: "adjacency_decode (encode_offsets g) (encode_neighbors g) n = Inr g"
    using adjacency_round_trip_lemma [OF g(3)] g(2) by (simp add: g(1))
  have "unat (m_graph_count m) = unat (byte_pages_needed (m_graph_offsets_bytes m + m_graph_neighbors_bytes m))"
    using plan_full_parts(2) [OF p refl] gm by simp
  with ch parts(2) gm hg dec olen plan_full_meta(1) [OF p]
  have "try_read_graph_adjacency S m w = (Inr (Inr (Some g)), w)"
    by (simp add: try_read_graph_adjacency_def Let_def bind_io_def nblocks_def ret_def)
  then show "read_graph_adjacency S m w = (Inr (Some g), w)"
    by (simp add: read_graph_adjacency_def bind_io_def ret_def)
  show "read_tombstones S m w = (Inr tombs, w)"
    by (rule stored_tombstones_read [OF S p f inp parts(1)])
  show "m_n_vectors hint \<noteq> 0 \<Longrightarrow> read_full_consistent S hint w = (Inr (m, codes, scales, ids), w)"
    by (rule index_stored_reads [OF S p f inp len n st])
qed

lemma graph_rewrite_run:
  assumes S: "page_store S" and p: "plan_full cb bw dim n v (Some pr) None (Some gp) tombs 0 = Some m" and f: "fits m"
    and inp: "rewrite_inputs bw dim n codes (Some pr) None (Some gp) tombs"
    and len: "length scales = unat n" "length ids = unat n" and quiet: "w_polls w = None"
  obtains w' where "write_full_with_prepared_graph_and_tombstones cb S skip bw dim n codes scales ids v pr gp tombs w
      = (Inr (), w')"
    and "index_stored S m codes scales ids (Some pr) None (Some gp) tombs (w_rel w')"
    and "w_xlock w' = w_xlock w" and "w_slock w' = w_slock w" and "w_polls w' = None"
proof -
  let ?t = "if tombs = [] then None else Some tombs"
  have t: "(case ?t of None \<Rightarrow> [] | Some t \<Rightarrow> t) = tombs" by simp
  from page_store.write_full_cases [OF S, where tombs = ?t, unfolded t, OF p f inp len, of skip w] quiet that
  show thesis by (auto simp: write_full_with_prepared_graph_and_tombstones_def)
qed

text \<open>
  C18: a graph rewrite.  Once it returns, the adjacency read back is the one that was written, the
  tombstone bitmap is the one that was written, and the meta page holds the entry point.
\<close>

theorem graph_rewrite_reads_back:
  assumes S: "page_store S"
    and p: "plan_full cb bw dim n v (Some pr) None (Some \<lparr>gp_offsets_bytes = encode_offsets g,
      gp_neighbors_bytes = encode_neighbors g, gp_entry_point = entry\<rparr>) tombs 0 = Some m"
    and f: "fits m"
    and inp: "rewrite_inputs bw dim n codes (Some pr) None (Some \<lparr>gp_offsets_bytes = encode_offsets g,
      gp_neighbors_bytes = encode_neighbors g, gp_entry_point = entry\<rparr>) tombs"
    and len: "length scales = unat n" "length ids = unat n" and n: "n \<noteq> 0"
    and g: "g = from_lists rows" "length rows = unat n" "length (concat rows) < 2 ^ 32"
    and quiet: "w_polls w = None"
  shows "\<exists>w'. write_full_with_prepared_graph_and_tombstones cb S skip bw dim n codes scales ids v pr
      \<lparr>gp_offsets_bytes = encode_offsets g, gp_neighbors_bytes = encode_neighbors g, gp_entry_point = entry\<rparr>
      tombs w = (Inr (), w') \<and>
    read_graph_adjacency S m w' = (Inr (Some g), w') \<and> read_tombstones S m w' = (Inr tombs, w') \<and>
    m_graph_entry_point m = entry \<and>
    (\<forall>hint. m_n_vectors hint \<noteq> 0 \<longrightarrow> read_full_consistent S hint w' = (Inr (m, codes, scales, ids), w'))"
proof (rule graph_rewrite_run [OF S p f inp len quiet, of skip])
  fix w' :: "'a world"
  assume run: "write_full_with_prepared_graph_and_tombstones cb S skip bw dim n codes scales ids v pr
      \<lparr>gp_offsets_bytes = encode_offsets g, gp_neighbors_bytes = encode_neighbors g, gp_entry_point = entry\<rparr> tombs w = (Inr (), w')"
    and st: "index_stored S m codes scales ids (Some pr) None (Some \<lparr>gp_offsets_bytes = encode_offsets g,
      gp_neighbors_bytes = encode_neighbors g, gp_entry_point = entry\<rparr>) tombs (w_rel w')"
  from run graph_stored_reads [OF S p f inp len n g st] show ?thesis by blast
qed


definition demo_graph :: adjacency where
  "demo_graph = from_lists [[1], [0]]"

definition demo_graph_parts :: graph_parts where
  "demo_graph_parts = \<lparr>gp_offsets_bytes = encode_offsets demo_graph,
     gp_neighbors_bytes = encode_neighbors demo_graph, gp_entry_point = 1\<rparr>"

definition demo_graph_meta :: meta where
  "demo_graph_meta = the (plan_full demo_codebook 4 8 2 1 (Some demo_prepared) None (Some demo_graph_parts) [2] 0)"

lemma demo_graph_lengths:
  "length (encode_offsets demo_graph) = 12" "length (encode_neighbors demo_graph) = 8"
  by (simp_all add: encode_offsets_def encode_neighbors_def demo_graph_def from_lists_def u32c.length_concat_enc)

lemma demo_graph_plan:
  "plan_full demo_codebook 4 8 2 1 (Some demo_prepared) None (Some demo_graph_parts) [2] 0 = Some demo_graph_meta"
proof -
  have "plan_with_blocked 4 8 2 1 0 0 0 \<noteq> None"
    by (simp add: plan_with_blocked_def Let_def)
  then show ?thesis
    by (auto simp: demo_graph_meta_def plan_full_def demo_codebook_def demo_prepared_def tqplus_chain_len_def
        set_codebook_def MAX_CODEBOOK_LEVELS_def)
qed

lemmas page_counts = padded_pages_needed_def pages_needed_def rows_per_page_def pad_chain_pages_def
  PAYLOAD_BYTES_eq u32_try_or_max_def div_ceil_def PAD_PAGES_def codes_stride_def byte_pages_needed_def

lemma demo_graph_fits: "fits demo_graph_meta"
proof -
  from plan_full_SomeE [OF demo_graph_plan] obtain m0 m1 where
    p0: "plan_with_blocked 4 8 2 1 0 0 0 = Some m0" and c: "chain_list m1 = chain_list m0"
    and m: "demo_graph_meta = plan_tombstones [2] (plan_graph (Some demo_graph_parts) (plan_ivf None 0 m1))"
    by (metis demo_prepared_def option.simps(5) prepared.select_convs(1) tqplus_chain_len_def)
  have z: "m_coarse_count m1 = 0" "m_cell_dir_count m1 = 0"
    using chain_list_eqD [OF c] plan_absent [OF p0] by simp_all
  have "m_coarse_count demo_graph_meta = 0" "m_cell_dir_count demo_graph_meta = 0"
    by (simp_all add: m plan_tombstones_def plan_ivf_def z)
  moreover have "m_graph_count demo_graph_meta = 1"
    using plan_full_parts(2) [OF demo_graph_plan refl]
    by (simp add: demo_graph_parts_def len64_def demo_graph_lengths byte_pages_needed_def PAYLOAD_BYTES_eq
        u32_try_or_max_def div_ceil_def)
  moreover have "m_tombstone_count demo_graph_meta = 1"
    using plan_full_parts(3) [OF demo_graph_plan]
    by (simp add: len64_def byte_pages_needed_def PAYLOAD_BYTES_eq u32_try_or_max_def div_ceil_def)
  ultimately show ?thesis
    using plan_parts_block_sum [OF demo_graph_plan]
    by (simp add: fits_def demo_prepared_def page_counts)
qed

theorem graph_rewrite_reads_back_witness:
  "\<exists>w'. write_full_with_prepared_graph_and_tombstones demo_codebook list_store True 4 8 2
      [1, 2, 3, 4, 5, 6, 7, 8] [0x3F800000, 0x3F800000] [7, 9] 1 demo_prepared demo_graph_parts [2] demo_world
      = (Inr (), w') \<and>
    read_graph_adjacency list_store demo_graph_meta w' = (Inr (Some demo_graph), w') \<and>
    read_tombstones list_store demo_graph_meta w' = (Inr [2], w') \<and>
    m_graph_entry_point demo_graph_meta = 1 \<and>
    (\<forall>hint. m_n_vectors hint \<noteq> 0 \<longrightarrow> read_full_consistent list_store hint w'
       = (Inr (demo_graph_meta, [1, 2, 3, 4, 5, 6, 7, 8], [0x3F800000, 0x3F800000], [7, 9]), w'))"
  unfolding demo_graph_parts_def
proof (rule graph_rewrite_reads_back [OF ls.page_store_axioms])
  show "rewrite_inputs 4 8 2 [1, 2, 3, 4, 5, 6, 7, 8] (Some demo_prepared) None
      (Some \<lparr>gp_offsets_bytes = encode_offsets demo_graph, gp_neighbors_bytes = encode_neighbors demo_graph,
        gp_entry_point = 1\<rparr>) [2]"
    by (simp add: rewrite_inputs_def codes_stride_def PAYLOAD_BYTES_eq demo_prepared_def demo_graph_lengths)
  show "demo_graph = from_lists [[1], [0]]" by (rule demo_graph_def)
qed (simp_all add: demo_graph_plan [unfolded demo_graph_parts_def] demo_graph_fits demo_world_def)


text \<open>
  C19: an IVF rewrite.  Once it returns, the coarse centroids and the cell directory read back are the
  ones that were written, beside the rows in their permuted order.
\<close>

theorem ivf_rewrite_reads_back:
  assumes S: "page_store S"
    and p: "plan_full cb bw dim n v (Some pr) (Some \<lparr>ip_lists = of_nat (length dir), ip_coarse_centroids = cents,
      ip_cell_dir_bytes = dir_encode dir, ip_colbert = cbrt\<rparr>) None [] 0 = Some m"
    and f: "fits m"
    and inp: "rewrite_inputs bw dim n codes (Some pr) (Some \<lparr>ip_lists = of_nat (length dir),
      ip_coarse_centroids = cents, ip_cell_dir_bytes = dir_encode dir, ip_colbert = cbrt\<rparr>) None []"
    and len: "length scales = unat n" "length ids = unat n" and n: "n \<noteq> 0"
    and dir: "dir \<noteq> []" "length dir < 2 ^ 32" "length cents = length dir * unat dim" "dim \<noteq> 0"
    and quiet: "w_polls w = None"
  shows "\<exists>w'. write_full_with_prepared_ivf cb S skip bw dim n codes scales ids v pr
      \<lparr>ip_lists = of_nat (length dir), ip_coarse_centroids = cents, ip_cell_dir_bytes = dir_encode dir,
       ip_colbert = cbrt\<rparr> w = (Inr (), w') \<and>
    read_coarse_centroids S m w' = (Inr cents, w') \<and> read_cell_directory S m w' = (Inr (Some dir), w') \<and>
    (\<forall>hint. m_n_vectors hint \<noteq> 0 \<longrightarrow> read_full_consistent S hint w' = (Inr (m, codes, scales, ids), w'))"
proof -
  let ?iv = "\<lparr>ip_lists = of_nat (length dir) :: u32, ip_coarse_centroids = cents,
    ip_cell_dir_bytes = dir_encode dir, ip_colbert = cbrt\<rparr>"
  have t: "(case None of None \<Rightarrow> [] | Some t \<Rightarrow> t) = []" by simp
  from page_store.write_full_cases [OF S, where tombs = None, unfolded t, OF p f inp len, of skip w] quiet
  obtain w' where run: "write_full_inner_with_tombstones cb S skip bw dim n codes scales ids v (Some pr) (Some ?iv)
      None None 0 w = (Inr (), w')"
    and st: "index_stored S m codes scales ids (Some pr) (Some ?iv) None [] (w_rel w')" by auto
  have ul: "unat (of_nat (length dir) :: u32) = length dir"
    using dir(2) by (simp add: unat_of_nat take_bit_nat_eq_self)
  then have l: "0 < ip_lists ?iv" using dir(1) by (simp add: word_gt_0 flip: unat_gt_0)
  have dlen: "length (dir_encode dir) = length dir * CellEntry_BYTES"
    by (simp add: dir_encode_def cell_codec.length_concat_enc)
  have ne: "ip_coarse_centroids ?iv \<noteq> []" "ip_cell_dir_bytes ?iv \<noteq> []"
    using dir dlen by (auto simp: unat_eq_0 CellEntry_BYTES_def)
  note rd = stored_ivf_read [OF S p f inp stored_parts(1) [OF p n st] l ne]
  note lists = plan_full_parts(1) [OF p refl l]
  have "of_nat (unat (m_lists m) * unat (m_dim m) * 4) = (of_nat (4 * length cents) :: u64)"
    using lists ul plan_full_meta(3) [OF p] by (simp add: dir(3) mult.commute)
  with rd(1) lists l have "read_coarse_centroids S m w' = (Inr cents, w')"
    by (simp add: read_coarse_centroids_def bind_io_def ret_def word_gt_0)
  moreover have "of_nat (unat (m_lists m) * CellEntry_BYTES) = len64 (dir_encode dir)"
    using lists ul by (simp add: len64_def dlen)
  with rd(2) lists l ul have "read_cell_directory S m w' = (Inr (Some dir), w')"
    by (simp add: read_cell_directory_def read_cell_directory_bytes_def bind_io_def ret_def dir_decode_encode
        word_gt_0)
  ultimately show ?thesis
    using run index_stored_reads [OF S p f inp len n st]
    by (auto simp: write_full_with_prepared_ivf_def write_full_inner_def)
qed

definition demo_dir :: cell_directory where
  "demo_dir = [\<lparr>ce_code_offset = 0, ce_n_vectors = 1\<rparr>, \<lparr>ce_code_offset = 1, ce_n_vectors = 1\<rparr>]"

definition demo_ivf :: ivf_parts where
  "demo_ivf = \<lparr>ip_lists = 2, ip_coarse_centroids = replicate 16 0, ip_cell_dir_bytes = dir_encode demo_dir,
     ip_colbert = False\<rparr>"

definition demo_ivf_meta :: meta where
  "demo_ivf_meta = the (plan_full demo_codebook 4 8 2 1 (Some demo_prepared) (Some demo_ivf) None [] 0)"

lemma demo_ivf_plan:
  "plan_full demo_codebook 4 8 2 1 (Some demo_prepared) (Some demo_ivf) None [] 0 = Some demo_ivf_meta"
proof -
  have "plan_with_blocked 4 8 2 1 0 0 0 \<noteq> None"
    by (simp add: plan_with_blocked_def Let_def)
  then show ?thesis
    by (auto simp: demo_ivf_meta_def plan_full_def demo_codebook_def demo_prepared_def tqplus_chain_len_def
        set_codebook_def MAX_CODEBOOK_LEVELS_def)
qed

lemma length_demo_dir: "length demo_dir = 2" "length (dir_encode demo_dir) = 24"
  by (simp_all add: demo_dir_def dir_encode_def cell_entry_encode_def CellEntry_BYTES_def)

lemma demo_ivf_fits: "fits demo_ivf_meta"
proof -
  have "0 < ip_lists demo_ivf" by (simp add: demo_ivf_def)
  note c = plan_full_parts(1) [OF demo_ivf_plan refl this]
  from plan_full_SomeE [OF demo_ivf_plan] obtain m0 m1 where c1: "chain_list m1 = chain_list m0"
    and m: "demo_ivf_meta = plan_tombstones [] (plan_graph None (plan_ivf (Some demo_ivf) 0 m1))"
    and p0: "plan_with_blocked 4 8 2 1 0 0 0 = Some m0"
    by (metis demo_prepared_def option.simps(5) prepared.select_convs(1) tqplus_chain_len_def)
  have "m_graph_count demo_ivf_meta = 0" "m_tombstone_count demo_ivf_meta = 0"
    using chain_list_eqD [OF c1] plan_absent [OF p0] by (simp_all add: m plan_tombstones_def plan_graph_def plan_ivf_keeps)
  moreover have "m_coarse_count demo_ivf_meta = 1" "m_cell_dir_count demo_ivf_meta = 1"
    using c by (simp_all add: demo_ivf_def len64_def length_demo_dir byte_pages_needed_def PAYLOAD_BYTES_eq
        u32_try_or_max_def div_ceil_def)
  ultimately show ?thesis
    using plan_parts_block_sum [OF demo_ivf_plan] by (simp add: fits_def demo_prepared_def page_counts)
qed

theorem ivf_rewrite_reads_back_witness:
  "\<exists>w'. write_full_with_prepared_ivf demo_codebook list_store True 4 8 2
      [1, 2, 3, 4, 5, 6, 7, 8] [0x3F800000, 0x3F800000] [7, 9] 1 demo_prepared
      \<lparr>ip_lists = of_nat (length demo_dir), ip_coarse_centroids = replicate 16 0,
       ip_cell_dir_bytes = dir_encode demo_dir, ip_colbert = False\<rparr> demo_world = (Inr (), w') \<and>
    read_coarse_centroids list_store demo_ivf_meta w' = (Inr (replicate 16 0), w') \<and>
    read_cell_directory list_store demo_ivf_meta w' = (Inr (Some demo_dir), w') \<and>
    (\<forall>hint. m_n_vectors hint \<noteq> 0 \<longrightarrow> read_full_consistent list_store hint w'
       = (Inr (demo_ivf_meta, [1, 2, 3, 4, 5, 6, 7, 8], [0x3F800000, 0x3F800000], [7, 9]), w'))"
proof (rule ivf_rewrite_reads_back [OF ls.page_store_axioms _ demo_ivf_fits])
  show "plan_full demo_codebook 4 8 2 1 (Some demo_prepared) (Some \<lparr>ip_lists = of_nat (length demo_dir),
      ip_coarse_centroids = replicate 16 0, ip_cell_dir_bytes = dir_encode demo_dir, ip_colbert = False\<rparr>)
      None [] 0 = Some demo_ivf_meta"
    using demo_ivf_plan by (simp add: demo_ivf_def length_demo_dir)
  show "demo_dir \<noteq> []" by (simp add: demo_dir_def)
qed (simp_all add: demo_world_def rewrite_inputs_def codes_stride_def PAYLOAD_BYTES_eq demo_prepared_def
  length_demo_dir)

section \<open>The monitor's read of a graph\<close>





end
