(* ===== verification/Beam.thy ===== *)
theory Beam
  imports Csr "HOL-Library.Multiset"
begin

text \<open>
  The beam search that the graph index and the centroid graph share: \<open>graph_search_with_ef\<close> and
  \<open>greedy_search_collect_visited_via\<close> (\<open>src/index/graph.rs\<close>) and \<open>graph_probe\<close>
  (\<open>src/index/ivf.rs\<close>) each write out the same loop, once with higher scores better and twice with
  lower distances better.  Here it is one loop over a \<open>sense\<close>: the order in which candidates are
  expanded, and which score is no improvement on another.  A \<open>BinaryHeap\<close> is a list kept in popping
  order.  Scores are values of a linear order: the code's \<open>f32\<close> without NaNs; nothing here computes
  with them.  A panic (an index or a slice out of range) is \<open>None\<close>.
\<close>

section \<open>Candidates\<close>

text \<open>\<open>Cand(f32, u32)\<close>, ordered by score and then by id.\<close>

datatype 's cand = Cand (cand_score: 's) (cand_id: u32)

instantiation cand :: (linorder) linorder
begin

definition less_eq_cand :: "'a cand \<Rightarrow> 'a cand \<Rightarrow> bool" where
  "less_eq_cand a b \<longleftrightarrow> cand_score a < cand_score b \<or> cand_score a = cand_score b \<and> cand_id a \<le> cand_id b"

definition less_cand :: "'a cand \<Rightarrow> 'a cand \<Rightarrow> bool" where
  "less_cand a b \<longleftrightarrow> cand_score a < cand_score b \<or> cand_score a = cand_score b \<and> cand_id a < cand_id b"

instance
proof
  fix a b c :: "'a cand"
  show "a < b \<longleftrightarrow> a \<le> b \<and> \<not> b \<le> a" by (auto simp: less_cand_def less_eq_cand_def)
  show "a \<le> a" by (simp add: less_eq_cand_def)
  show "a \<le> b \<Longrightarrow> b \<le> c \<Longrightarrow> a \<le> c" by (auto simp: less_eq_cand_def)
  show "a \<le> b \<Longrightarrow> b \<le> a \<Longrightarrow> a = b" by (cases a; cases b) (auto simp: less_eq_cand_def)
  show "a \<le> b \<or> b \<le> a" by (auto simp: less_eq_cand_def)
qed

end

text \<open>
  Which way is better: the candidate popped first from the frontier, and whether a score is no better
  than another.
\<close>

record 's sense =
  sn_before :: "'s cand \<Rightarrow> 's cand \<Rightarrow> bool"
  sn_no_better :: "'s \<Rightarrow> 's \<Rightarrow> bool"

definition nearest :: "'s::linorder sense" where
  "nearest = \<lparr>sn_before = (\<le>), sn_no_better = (\<ge>)\<rparr>"

definition highest :: "'s::linorder sense" where
  "highest = \<lparr>sn_before = (\<ge>), sn_no_better = (\<le>)\<rparr>"

section \<open>The loop\<close>

fun heap_push :: "('c \<Rightarrow> 'c \<Rightarrow> bool) \<Rightarrow> 'c \<Rightarrow> 'c list \<Rightarrow> 'c list" where
  "heap_push le x [] = [x]"
| "heap_push le x (y # ys) = (if le x y then x # y # ys else y # heap_push le x ys)"

record 's beam =
  bm_visited :: "bool list"
  bm_frontier :: "'s cand list"
  bm_results :: "'s cand list"
  bm_expanded :: "u32 list"

text \<open>
  One scored neighbor: below the beam width it is kept; at the width it replaces the worst kept one,
  the head of \<open>bm_results\<close>, unless it is no better.
\<close>

definition keep :: "'s sense \<Rightarrow> 's cand \<Rightarrow> 's cand list \<Rightarrow> 's beam \<Rightarrow> 's beam" where
  "keep sn c kept b = b\<lparr>bm_results := heap_push (\<lambda>x y. sn_before sn y x) c kept,
     bm_frontier := heap_push (sn_before sn) c (bm_frontier b)\<rparr>"

definition admit :: "'s sense \<Rightarrow> nat \<Rightarrow> 's cand \<Rightarrow> 's beam \<Rightarrow> 's beam" where
  "admit sn ef c b =
     (if length (bm_results b) < ef then keep sn c (bm_results b) b
      else case bm_results b of
        [] \<Rightarrow> keep sn c [] b
      | worst # kept \<Rightarrow>
          if sn_no_better sn (cand_score c) (cand_score worst) then b else keep sn c kept b)"

text \<open>
  The not yet visited neighbors of a hop, marked as they are seen.  A neighbor that \<open>skip\<close> holds of is
  passed over unmarked; one that \<open>dead\<close> holds of is marked and dropped.
\<close>

fun fresh :: "(u32 \<Rightarrow> bool) \<Rightarrow> (u32 \<Rightarrow> bool) \<Rightarrow> u32 list \<Rightarrow> bool list \<Rightarrow> (bool list \<times> u32 list) option" where
  "fresh skip dead [] vis = Some (vis, [])"
| "fresh skip dead (nb # nbs) vis =
     (if skip nb then fresh skip dead nbs vis
      else if length vis \<le> unat nb then None
      else if vis ! unat nb then fresh skip dead nbs vis
      else map_option (apsnd (\<lambda>ids. if dead nb then ids else nb # ids))
             (fresh skip dead nbs (vis[unat nb := True])))"

text \<open>One round: pop the best candidate, stop when it cannot improve a full result set, else expand it.\<close>

definition stops :: "'s sense \<Rightarrow> nat \<Rightarrow> 's cand \<Rightarrow> 's cand list \<Rightarrow> bool" where
  "stops sn ef cur results \<longleftrightarrow> ef \<le> length results \<and>
     (case results of [] \<Rightarrow> False | worst # _ \<Rightarrow> sn_no_better sn (cand_score cur) (cand_score worst))"

definition expand ::
  "'s sense \<Rightarrow> nat \<Rightarrow> (u32 \<Rightarrow> u32 list option) \<Rightarrow> (u32 \<Rightarrow> bool) \<Rightarrow> (u32 \<Rightarrow> bool) \<Rightarrow> (u32 list \<Rightarrow> 's list) \<Rightarrow>
   u32 \<Rightarrow> 's beam \<Rightarrow> 's beam option" where
  "expand sn ef nbrs skip dead score_batch cur b =
     Option.bind (nbrs cur) (\<lambda>nbs.
     Option.bind (fresh skip dead nbs (bm_visited b)) (\<lambda>(vis, ids).
     Some (fold (admit sn ef) (map2 (\<lambda>i s. Cand s i) ids (score_batch ids))
             (b\<lparr>bm_visited := vis, bm_expanded := bm_expanded b @ [cur]\<rparr>))))"

definition open_slots :: "'s beam \<Rightarrow> nat" where
  "open_slots b = length (filter Not (bm_visited b)) + length (bm_frontier b)"

lemma length_heap_push [simp]: "length (heap_push le x ys) = Suc (length ys)"
  by (induction ys) auto

lemma mset_heap_push [simp]: "mset (heap_push le x ys) = add_mset x (mset ys)"
  by (induction ys) auto

lemma set_heap_push [simp]: "set (heap_push le x ys) = insert x (set ys)"
  by (induction ys) auto

lemma admit_visited [simp]: "bm_visited (admit sn ef c b) = bm_visited b"
  "bm_expanded (admit sn ef c b) = bm_expanded b"
  by (simp_all add: admit_def keep_def split: list.split)

lemma fold_admit_visited [simp]: "bm_visited (fold (admit sn ef) cs b) = bm_visited b"
  "bm_expanded (fold (admit sn ef) cs b) = bm_expanded b"
  by (induction cs arbitrary: b) simp_all

lemma admit_frontier_le: "length (bm_frontier (admit sn ef c b)) \<le> Suc (length (bm_frontier b))"
  by (simp add: admit_def keep_def split: list.split)

lemma fold_admit_frontier_le: "length (bm_frontier (fold (admit sn ef) cs b)) \<le> length cs + length (bm_frontier b)"
proof (induction cs arbitrary: b)
  case (Cons c cs)
  from Cons [of "admit sn ef c b"] admit_frontier_le [of sn ef c b] show ?case by simp
qed simp

lemma count_set_True:
  "i < length vis \<Longrightarrow> \<not> vis ! i \<Longrightarrow>
   length (filter Not vis) = Suc (length (filter Not (vis[i := True])))"
proof (induction vis arbitrary: i)
  case (Cons v vis)
  then show ?case by (cases i) auto
qed simp

lemma fresh_count:
  "fresh skip dead nbs vis = Some (vis', ids) \<Longrightarrow>
   length (filter Not vis') + length ids \<le> length (filter Not vis)"
proof (induction nbs arbitrary: vis ids)
  case (Cons nb nbs)
  show ?case
  proof (cases "skip nb \<or> vis ! unat nb")
    case True
    with Cons show ?thesis by (auto split: if_splits)
  next
    case False
    with Cons.prems obtain ids' where "fresh skip dead nbs (vis[unat nb := True]) = Some (vis', ids')"
      and "ids = (if dead nb then ids' else nb # ids')" and len: "unat nb < length vis"
      by (auto split: if_splits)
    with Cons.IH [of "vis[unat nb := True]" ids'] count_set_True [OF len] False show ?thesis by auto
  qed
qed simp

lemma expand_decreases:
  assumes "expand sn ef nbrs skip dead score_batch cur (b\<lparr>bm_frontier := rest\<rparr>) = Some b'"
  shows "open_slots b' \<le> length (filter Not (bm_visited b)) + length rest"
proof -
  from assms obtain nbs vis ids where f: "fresh skip dead nbs (bm_visited b) = Some (vis, ids)"
    and b': "b' = fold (admit sn ef) (map2 (\<lambda>i s. Cand s i) ids (score_batch ids))
      (b\<lparr>bm_frontier := rest, bm_visited := vis, bm_expanded := bm_expanded b @ [cur]\<rparr>)"
    by (auto simp: expand_def split: Option.bind_splits)
  have "length (bm_frontier b') \<le> length ids + length rest"
    unfolding b' by (rule order_trans [OF fold_admit_frontier_le]) simp
  with fresh_count [OF f] show ?thesis by (simp add: open_slots_def b')
qed

function beam_loop ::
  "'s sense \<Rightarrow> nat \<Rightarrow> (u32 \<Rightarrow> u32 list option) \<Rightarrow> (u32 \<Rightarrow> bool) \<Rightarrow> (u32 \<Rightarrow> bool) \<Rightarrow> (u32 list \<Rightarrow> 's list) \<Rightarrow>
   's beam \<Rightarrow> 's beam option" where
  "beam_loop sn ef nbrs skip dead score_batch b =
     (case bm_frontier b of
        [] \<Rightarrow> Some b
      | cur # rest \<Rightarrow>
          if stops sn ef cur (bm_results b) then Some (b\<lparr>bm_frontier := rest\<rparr>)
          else case expand sn ef nbrs skip dead score_batch (cand_id cur) (b\<lparr>bm_frontier := rest\<rparr>) of
            None \<Rightarrow> None
          | Some b' \<Rightarrow> beam_loop sn ef nbrs skip dead score_batch b')"
  by pat_completeness auto
termination
proof (relation "measure (\<lambda>(sn, ef, nbrs, skip, dead, score_batch, b). open_slots b)", goal_cases)
  case (2 sn ef nbrs skip dead score_batch b cur rest b')
  from expand_decreases [OF 2(3)] 2(1) show ?case by (simp add: open_slots_def)
qed simp

declare beam_loop.simps [simp del]

text \<open>The state before the first round: the entry point, visited and kept.\<close>

definition beam_start :: "nat \<Rightarrow> u32 \<Rightarrow> 's \<Rightarrow> 's beam" where
  "beam_start n entry s =
     \<lparr>bm_visited = (replicate n False)[unat entry := True], bm_frontier = [Cand s entry],
      bm_results = [Cand s entry], bm_expanded = []\<rparr>"


section \<open>What a sense of direction promises\<close>

locale beam_sense =
  fixes sn :: "'s sense"
  assumes before_total: "sn_before sn x y \<or> sn_before sn y x"
    and before_trans: "sn_before sn x y \<Longrightarrow> sn_before sn y z \<Longrightarrow> sn_before sn x z"
    and before_no_better: "sn_before sn x y \<Longrightarrow> sn_no_better sn (cand_score y) (cand_score x)"
    and no_better_trans: "sn_no_better sn r s \<Longrightarrow> sn_no_better sn s t \<Longrightarrow> sn_no_better sn r t"
    and no_better_total: "sn_no_better sn s t \<or> sn_no_better sn t s"
begin

lemma no_better_refl: "sn_no_better sn s s"
  using no_better_total by blast

lemma sorted_heap_push:
  "sorted_wrt (sn_before sn) xs \<Longrightarrow> sorted_wrt (sn_before sn) (heap_push (sn_before sn) x xs)"
proof (induction xs)
  case (Cons y ys)
  then show ?case using before_total before_trans by (auto 4 3)
qed simp

lemma sorted_heap_push_worst:
  "sorted_wrt (\<lambda>x y. sn_before sn y x) xs \<Longrightarrow>
   sorted_wrt (\<lambda>x y. sn_before sn y x) (heap_push (\<lambda>x y. sn_before sn y x) x xs)"
proof (induction xs)
  case (Cons y ys)
  then show ?case using before_total before_trans by (auto 4 3)
qed simp

lemma worst_first:
  "sorted_wrt (\<lambda>x y. sn_before sn y x) (w # ws) \<Longrightarrow> c \<in> set (w # ws) \<Longrightarrow>
   sn_no_better sn (cand_score w) (cand_score c)"
  using before_no_better no_better_refl by auto

end

interpretation nearest_sense: beam_sense nearest
  by unfold_locales (auto simp: nearest_def less_eq_cand_def)

interpretation highest_sense: beam_sense highest
  by unfold_locales (auto simp: highest_def less_eq_cand_def)

section \<open>Fresh neighbors\<close>

lemma fresh_spec:
  "fresh skip dead nbs vis = Some (vis', ids) \<Longrightarrow>
   length vis' = length vis \<and> distinct ids \<and>
   set ids = {nb \<in> set nbs. \<not> skip nb \<and> \<not> vis ! unat nb \<and> \<not> dead nb} \<and>
   (\<forall>j < length vis. vis' ! j \<longleftrightarrow> vis ! j \<or> (\<exists>nb \<in> set nbs. unat nb = j \<and> \<not> skip nb))"
proof (induction nbs arbitrary: vis ids)
  case (Cons nb nbs)
  show ?case
  proof (cases "skip nb \<or> vis ! unat nb")
    case True
    with Cons.prems have "fresh skip dead nbs vis = Some (vis', ids)" by (auto split: if_splits)
    from Cons.IH [OF this] True show ?thesis by auto
  next
    case False
    with Cons.prems obtain ids' where f: "fresh skip dead nbs (vis[unat nb := True]) = Some (vis', ids')"
      and ids: "ids = (if dead nb then ids' else nb # ids')" and len: "unat nb < length vis"
      by (auto split: if_splits)
    have upd: "vis[unat nb := True] ! unat x = (vis ! unat x \<or> x = nb)" for x
      using len by (cases "unat x = unat nb") (auto simp: word_unat_eq_iff)
    from Cons.IH [OF f] False show ?thesis
      using len by (auto simp: ids upd nth_list_update)
  qed
qed auto

lemma fresh_total:
  "\<forall>nb \<in> set nbs. skip nb \<or> unat nb < length vis \<Longrightarrow> \<exists>vis' ids. fresh skip dead nbs vis = Some (vis', ids)"
proof (induction nbs arbitrary: vis)
  case (Cons nb nbs)
  from Cons.prems have "\<exists>vis' ids. fresh skip dead nbs vis = Some (vis', ids)"
    and "\<exists>vis' ids. fresh skip dead nbs (vis[unat nb := True]) = Some (vis', ids)"
    by (auto intro!: Cons.IH)
  with Cons.prems show ?case by auto
qed simp

section \<open>The invariant of the loop\<close>

text \<open>
  The ids in \<open>pending\<close> are visited and not yet admitted.  What is kept, waits, was expanded or is
  pending is visited and live; no node is kept twice or expanded twice.
\<close>

abbreviation kept_ids :: "'s beam \<Rightarrow> u32 set" where
  "kept_ids b \<equiv> cand_id ` set (bm_results b)"

abbreviation waiting_ids :: "'s beam \<Rightarrow> u32 set" where
  "waiting_ids b \<equiv> cand_id ` set (bm_frontier b)"

definition seen :: "nat \<Rightarrow> (u32 \<Rightarrow> bool) \<Rightarrow> 's beam \<Rightarrow> u32 \<Rightarrow> bool" where
  "seen n dead b i \<longleftrightarrow> unat i < n \<and> bm_visited b ! unat i \<and> \<not> dead i"

definition beam_nodes :: "nat \<Rightarrow> (u32 \<Rightarrow> bool) \<Rightarrow> (u32 \<Rightarrow> 's) \<Rightarrow> u32 list \<Rightarrow> 's beam \<Rightarrow> bool" where
  "beam_nodes n dead sc pending b \<longleftrightarrow> length (bm_visited b) = n \<and>
     distinct (pending @ bm_expanded b @ map cand_id (bm_frontier b)) \<and>
     distinct (pending @ map cand_id (bm_results b)) \<and>
     (\<forall>i \<in> set pending \<union> kept_ids b \<union> waiting_ids b \<union> set (bm_expanded b). seen n dead b i) \<and>
     (\<forall>c \<in> set (bm_results b) \<union> set (bm_frontier b). cand_score c = sc (cand_id c))"

definition beam_heaps :: "'s sense \<Rightarrow> nat \<Rightarrow> 's beam \<Rightarrow> bool" where
  "beam_heaps sn ef b \<longleftrightarrow> length (bm_results b) \<le> ef \<and>
     sorted_wrt (\<lambda>x y. sn_before sn y x) (bm_results b) \<and> sorted_wrt (sn_before sn) (bm_frontier b)"

text \<open>
  A seen node that is not pending is kept, or the beam is full and the node no better than anything
  kept; while the beam is not full it has been expanded or waits.
\<close>

definition beam_covers ::
  "'s sense \<Rightarrow> nat \<Rightarrow> nat \<Rightarrow> (u32 \<Rightarrow> bool) \<Rightarrow> (u32 \<Rightarrow> 's) \<Rightarrow> u32 list \<Rightarrow> 's beam \<Rightarrow> bool" where
  "beam_covers sn ef n dead sc pending b \<longleftrightarrow> (\<forall>i. seen n dead b i \<longrightarrow> i \<notin> set pending \<longrightarrow>
     i \<in> kept_ids b \<or>
     length (bm_results b) = ef \<and> (\<forall>c \<in> set (bm_results b). sn_no_better sn (sc i) (cand_score c)))"

definition beam_open :: "nat \<Rightarrow> nat \<Rightarrow> (u32 \<Rightarrow> bool) \<Rightarrow> u32 list \<Rightarrow> 's beam \<Rightarrow> bool" where
  "beam_open ef n dead pending b \<longleftrightarrow> (length (bm_results b) < ef \<longrightarrow>
     (\<forall>i. seen n dead b i \<longrightarrow> i \<notin> set pending \<longrightarrow> i \<in> set (bm_expanded b) \<union> waiting_ids b))"

definition beam_closed :: "nat \<Rightarrow> (u32 \<Rightarrow> u32 list option) \<Rightarrow> (u32 \<Rightarrow> bool) \<Rightarrow> 's beam \<Rightarrow> bool" where
  "beam_closed n nbrs skip b \<longleftrightarrow> (\<forall>x \<in> set (bm_expanded b). \<forall>nbs. nbrs x = Some nbs \<longrightarrow>
     (\<forall>nb \<in> set nbs. skip nb \<or> unat nb < n \<and> bm_visited b ! unat nb))"

lemma seen_cong: "bm_visited b' = bm_visited b \<Longrightarrow> seen n dead b' i = seen n dead b i"
  by (simp add: seen_def)

lemma keep_simps [simp]:
  "bm_results (keep sn c kept b) = heap_push (\<lambda>x y. sn_before sn y x) c kept"
  "bm_frontier (keep sn c kept b) = heap_push (sn_before sn) c (bm_frontier b)"
  "bm_visited (keep sn c kept b) = bm_visited b" "bm_expanded (keep sn c kept b) = bm_expanded b"
  by (simp_all add: keep_def)

lemma distinct_map_heap_push:
  "distinct (map f (heap_push le x xs)) \<longleftrightarrow> f x \<notin> f ` set xs \<and> distinct (map f xs)"
  by (induction xs) auto

text \<open>Admitting a candidate keeps it, replaces the worst one by it, or drops it.\<close>

lemma admit_cases:
  obtains (kept) "length (bm_results b) < ef" "admit sn ef c b = keep sn c (bm_results b) b"
  | (empty) "ef = 0" "bm_results b = []" "admit sn ef c b = keep sn c [] b"
  | (dropped) w ws where "ef \<le> length (bm_results b)" "bm_results b = w # ws"
      "sn_no_better sn (cand_score c) (cand_score w)" "admit sn ef c b = b"
  | (evicted) w ws where "ef \<le> length (bm_results b)" "bm_results b = w # ws"
      "\<not> sn_no_better sn (cand_score c) (cand_score w)" "admit sn ef c b = keep sn c ws b"
proof (cases "length (bm_results b) < ef")
  case True
  then show thesis using kept by (simp add: admit_def)
next
  case False
  then show thesis
    using empty dropped evicted
    by (cases "bm_results b"; cases "sn_no_better sn (cand_score c) (cand_score (hd (bm_results b)))")
      (auto simp: admit_def)
qed

lemma admit_nodes:
  assumes "beam_nodes n dead sc (i # pending) b" and "0 < ef"
  shows "beam_nodes n dead sc pending (admit sn ef (Cand (sc i) i) b)"
proof (cases rule: admit_cases [of b ef sn "Cand (sc i) i"])
  case kept
  with assms show ?thesis
    by (auto simp: beam_nodes_def distinct_map_heap_push seen_def)
next
  case (dropped w ws)
  with assms show ?thesis by (auto simp: beam_nodes_def)
next
  case (evicted w ws)
  with assms show ?thesis
    by (auto simp: beam_nodes_def distinct_map_heap_push seen_def)
qed (use assms in simp)

context beam_sense
begin

lemma admit_heaps:
  assumes "beam_heaps sn ef b" and "0 < ef"
  shows "beam_heaps sn ef (admit sn ef c b)"
proof (cases rule: admit_cases [of b ef sn c])
  case kept
  with assms show ?thesis by (simp add: beam_heaps_def sorted_heap_push sorted_heap_push_worst)
next
  case (evicted w ws)
  with assms show ?thesis by (simp add: beam_heaps_def sorted_heap_push sorted_heap_push_worst)
qed (use assms in simp_all)

lemma admit_covers:
  assumes cov: "beam_covers sn ef n dead sc (i # pending) b" and heaps: "beam_heaps sn ef b" and ef: "0 < ef"
    and nodes: "beam_nodes n dead sc (i # pending) b"
  shows "beam_covers sn ef n dead sc pending (admit sn ef (Cand (sc i) i) b)"
proof (cases rule: admit_cases [of b ef sn "Cand (sc i) i"])
  case kept
  with cov show ?thesis by (auto simp: beam_covers_def seen_def)
next
  case (dropped w ws)
  have "sn_no_better sn (sc i) (cand_score c)" if "c \<in> set (bm_results b)" for c
    using worst_first [of w ws c] heaps dropped that no_better_trans by (auto simp: beam_heaps_def)
  with cov dropped heaps show ?thesis by (auto simp: beam_covers_def beam_heaps_def)
next
  case (evicted w ws)
  have full: "length (bm_results b) = ef" using evicted heaps by (simp add: beam_heaps_def)
  have srt: "sorted_wrt (\<lambda>x y. sn_before sn y x) (w # ws)" using heaps evicted by (simp add: beam_heaps_def)
  have better: "sn_no_better sn (cand_score w) (sc i)" using evicted(3) no_better_total by auto
  have worst: "sn_no_better sn (cand_score w) (cand_score c)" if "c \<in> set (Cand (sc i) i # ws)" for c
    using that better worst_first [OF srt, of c] by auto
  have w: "cand_score w = sc (cand_id w)" using nodes evicted by (auto simp: beam_nodes_def)
  have "x \<in> insert i (cand_id ` set ws) \<or> (\<forall>c \<in> set (Cand (sc i) i # ws). sn_no_better sn (sc x) (cand_score c))"
    if "seen n dead b x" "x \<notin> set pending" for x
  proof (cases "x = i \<or> x \<in> cand_id ` set ws")
    case False
    then consider "x = cand_id w" | "x \<notin> kept_ids b" using evicted by auto
    then show ?thesis
    proof cases
      case 1
      with worst w show ?thesis by auto
    next
      case 2
      with cov that False have "sn_no_better sn (sc x) (cand_score w)"
        using evicted by (auto simp: beam_covers_def)
      with worst no_better_trans show ?thesis by blast
    qed
  qed auto
  with evicted full show ?thesis by (auto simp: beam_covers_def seen_def)
qed (use ef in simp)

end

lemma admit_open:
  assumes "beam_open ef n dead (i # pending) b" and "0 < ef" and "beam_heaps sn ef b"
  shows "beam_open ef n dead pending (admit sn ef (Cand (sc i) i) b)"
proof (cases rule: admit_cases [of b ef sn "Cand (sc i) i"])
  case kept
  with assms show ?thesis by (auto simp: beam_open_def seen_def)
next
  case (dropped w ws)
  with assms show ?thesis by (simp add: beam_open_def)
next
  case (evicted w ws)
  with assms show ?thesis by (auto simp: beam_open_def beam_heaps_def)
qed (use assms in simp)


definition beam_ok ::
  "'s sense \<Rightarrow> nat \<Rightarrow> nat \<Rightarrow> (u32 \<Rightarrow> u32 list option) \<Rightarrow> (u32 \<Rightarrow> bool) \<Rightarrow> (u32 \<Rightarrow> bool) \<Rightarrow> (u32 \<Rightarrow> 's) \<Rightarrow>
   u32 list \<Rightarrow> 's beam \<Rightarrow> bool" where
  "beam_ok sn ef n nbrs skip dead sc pending b \<longleftrightarrow> beam_nodes n dead sc pending b \<and> beam_heaps sn ef b \<and>
     beam_covers sn ef n dead sc pending b \<and> beam_open ef n dead pending b \<and> beam_closed n nbrs skip b"

text \<open>A graph the loop can walk: every node's neighbors can be read and exist.\<close>

definition walkable :: "nat \<Rightarrow> (u32 \<Rightarrow> u32 list option) \<Rightarrow> bool" where
  "walkable n nbrs \<longleftrightarrow> (\<forall>i. unat i < n \<longrightarrow> (\<exists>nbs. nbrs i = Some nbs \<and> (\<forall>nb \<in> set nbs. unat nb < n)))"

lemma admit_closed: "beam_closed n nbrs skip (admit sn ef c b) = beam_closed n nbrs skip b"
  by (simp add: beam_closed_def)

lemma map2_Cand: "map2 (\<lambda>i s. Cand s i) ids (map sc ids) = map (\<lambda>i. Cand (sc i) i) ids"
  by (induction ids) auto

context beam_sense
begin

lemma admit_ok:
  "beam_ok sn ef n nbrs skip dead sc (i # pending) b \<Longrightarrow> 0 < ef \<Longrightarrow>
   beam_ok sn ef n nbrs skip dead sc pending (admit sn ef (Cand (sc i) i) b)"
  unfolding beam_ok_def admit_closed
  by (blast intro: admit_nodes admit_heaps admit_covers admit_open)

lemma fold_admit_ok:
  "beam_ok sn ef n nbrs skip dead sc ids b \<Longrightarrow> 0 < ef \<Longrightarrow>
   beam_ok sn ef n nbrs skip dead sc [] (fold (admit sn ef) (map (\<lambda>i. Cand (sc i) i) ids) b)"
  by (induction ids arbitrary: b) (simp_all add: admit_ok)

text \<open>Popping a candidate and marking the neighbors found makes those pending.\<close>

lemma mark_ok:
  assumes ok: "beam_ok sn ef n nbrs skip dead sc [] b" and fr: "bm_frontier b = cur # rest"
    and nbs: "nbrs (cand_id cur) = Some nbs" "\<forall>nb \<in> set nbs. unat nb < n"
    and f: "fresh skip dead nbs (bm_visited b) = Some (vis, ids)"
  shows "beam_ok sn ef n nbrs skip dead sc ids
    (b\<lparr>bm_frontier := rest, bm_visited := vis, bm_expanded := bm_expanded b @ [cand_id cur]\<rparr>)"
    (is "beam_ok _ _ _ _ _ _ _ _ ?b")
proof -
  note defs = beam_ok_def beam_nodes_def beam_heaps_def beam_covers_def beam_open_def beam_closed_def
  have len: "length (bm_visited b) = n" using ok by (simp add: beam_ok_def beam_nodes_def)
  from fresh_spec [OF f] len have fs: "length vis = n" "distinct ids"
    "set ids = {nb \<in> set nbs. \<not> skip nb \<and> \<not> bm_visited b ! unat nb \<and> \<not> dead nb}"
    and vis: "\<And>j. j < n \<Longrightarrow> vis ! j \<longleftrightarrow> bm_visited b ! j \<or> (\<exists>nb \<in> set nbs. unat nb = j \<and> \<not> skip nb)"
    by auto
  have seen: "seen n dead ?b i \<longleftrightarrow> seen n dead b i \<or> i \<in> set ids" for i
    using vis [of "unat i"] nbs(2) by (auto simp: seen_def fs(3) word_unat_eq_iff [symmetric])
  have old: "\<not> seen n dead b i" if "i \<in> set ids" for i using that by (auto simp: fs(3) seen_def)
  from ok fr have nodes: "beam_nodes n dead sc [] b" by (simp add: beam_ok_def)
  have "\<forall>i \<in> kept_ids b \<union> waiting_ids b \<union> set (bm_expanded b). seen n dead b i"
    using nodes by (simp add: beam_nodes_def)
  with old have "\<forall>i \<in> kept_ids b \<union> waiting_ids b \<union> set (bm_expanded b). i \<notin> set ids" by blast
  then have disj: "set ids \<inter> set (bm_expanded b) = {}" "set ids \<inter> kept_ids b = {}"
    "set ids \<inter> cand_id ` set rest = {}" "cand_id cur \<notin> set ids"
    using fr by auto
  have "beam_nodes n dead sc ids ?b"
    using nodes fr disj fs(1,2) by (auto simp: beam_nodes_def seen)
  moreover have "beam_heaps sn ef ?b" using ok fr by (simp add: beam_ok_def beam_heaps_def)
  moreover have "beam_covers sn ef n dead sc ids ?b"
    using ok by (auto simp: beam_ok_def beam_covers_def seen)
  moreover have "beam_open ef n dead ids ?b"
    using ok fr by (auto simp: beam_ok_def beam_open_def seen)
  moreover have "beam_closed n nbrs skip ?b"
  proof -
    have "skip nb \<or> unat nb < n \<and> vis ! unat nb"
      if "x \<in> set (bm_expanded b @ [cand_id cur])" "nbrs x = Some nbs'" "nb \<in> set nbs'" for x nbs' nb
    proof (cases "x \<in> set (bm_expanded b)")
      case True
      with ok that have "skip nb \<or> unat nb < n \<and> bm_visited b ! unat nb"
        by (auto simp: beam_ok_def beam_closed_def)
      with vis show ?thesis by auto
    next
      case False
      with that nbs have "nb \<in> set nbs" by simp
      with nbs(2) vis show ?thesis by auto
    qed
    then show ?thesis by (auto simp: beam_closed_def)
  qed
  ultimately show ?thesis by (simp add: beam_ok_def)
qed

lemma expand_ok:
  assumes ok: "beam_ok sn ef n nbrs skip dead sc [] b" and fr: "bm_frontier b = cur # rest"
    and walk: "walkable n nbrs" and score: "\<And>ids. score_batch ids = map sc ids" and ef: "0 < ef"
  shows "\<exists>b'. expand sn ef nbrs skip dead score_batch (cand_id cur) (b\<lparr>bm_frontier := rest\<rparr>) = Some b' \<and>
    beam_ok sn ef n nbrs skip dead sc [] b' \<and> (\<forall>j < n. bm_visited b ! j \<longrightarrow> bm_visited b' ! j)"
proof -
  have "unat (cand_id cur) < n" and len: "length (bm_visited b) = n"
    using ok fr by (auto simp: beam_ok_def beam_nodes_def seen_def)
  with walk obtain nbs where nbs: "nbrs (cand_id cur) = Some nbs" "\<forall>nb \<in> set nbs. unat nb < n"
    by (auto simp: walkable_def)
  with len obtain vis ids where f: "fresh skip dead nbs (bm_visited b) = Some (vis, ids)"
    using fresh_total [of nbs skip "bm_visited b" dead] by auto
  let ?b = "b\<lparr>bm_frontier := rest, bm_visited := vis, bm_expanded := bm_expanded b @ [cand_id cur]\<rparr>"
  have "expand sn ef nbrs skip dead score_batch (cand_id cur) (b\<lparr>bm_frontier := rest\<rparr>)
      = Some (fold (admit sn ef) (map (\<lambda>i. Cand (sc i) i) ids) ?b)"
    by (simp add: expand_def nbs(1) f score map2_Cand)
  moreover have "beam_ok sn ef n nbrs skip dead sc [] (fold (admit sn ef) (map (\<lambda>i. Cand (sc i) i) ids) ?b)"
    by (rule fold_admit_ok [OF mark_ok [OF ok fr nbs f] ef])
  moreover have "vis ! j" if "j < n" "bm_visited b ! j" for j
    using fresh_spec [OF f] len that by auto
  ultimately show ?thesis by simp
qed

text \<open>
  The loop returns, keeps the invariant, never unmarks a node, and ends with an empty frontier or a
  full beam.
\<close>

lemma beam_loop_ok:
  assumes "walkable n nbrs" and "\<And>ids. score_batch ids = map sc ids" and "0 < ef"
    and "beam_ok sn ef n nbrs skip dead sc [] b"
  shows "\<exists>b'. beam_loop sn ef nbrs skip dead score_batch b = Some b' \<and>
    beam_ok sn ef n nbrs skip dead sc [] b' \<and> (\<forall>j < n. bm_visited b ! j \<longrightarrow> bm_visited b' ! j) \<and>
    (bm_frontier b' = [] \<or> ef \<le> length (bm_results b'))"
  using assms(4)
proof (induction "open_slots b" arbitrary: b rule: less_induct)
  case less
  show ?case
  proof (cases "bm_frontier b")
    case Nil
    then show ?thesis using less.prems by (subst beam_loop.simps) simp
  next
    case (Cons cur rest)
    show ?thesis
    proof (cases "stops sn ef cur (bm_results b)")
      case True
      then have full: "ef \<le> length (bm_results b)" by (simp add: stops_def)
      have "beam_ok sn ef n nbrs skip dead sc [] (b\<lparr>bm_frontier := rest\<rparr>)"
        using less.prems Cons full
        by (auto simp: beam_ok_def beam_nodes_def beam_heaps_def beam_covers_def beam_open_def beam_closed_def
            seen_def)
      with True Cons full show ?thesis by (subst beam_loop.simps) simp
    next
      case False
      obtain b1 where b1: "expand sn ef nbrs skip dead score_batch (cand_id cur) (b\<lparr>bm_frontier := rest\<rparr>) = Some b1"
        and ok1: "beam_ok sn ef n nbrs skip dead sc [] b1" and mono: "\<forall>j < n. bm_visited b ! j \<longrightarrow> bm_visited b1 ! j"
        using expand_ok [OF less.prems Cons assms(1-3)] by blast
      have "open_slots b1 < open_slots b" using expand_decreases [OF b1] Cons by (simp add: open_slots_def)
      from less.hyps [OF this ok1] mono b1 Cons False show ?thesis by (subst beam_loop.simps) auto
    qed
  qed
qed

lemma beam_start_ok:
  assumes "unat entry < n" and "\<not> dead entry" and "0 < ef"
  shows "beam_ok sn ef n nbrs skip dead sc [] (beam_start n entry (sc entry))"
proof -
  have v: "(replicate n False)[unat entry := True] ! unat i \<longleftrightarrow> i = entry" if "unat i < n" for i
    using that assms(1) by (auto simp: nth_list_update word_unat_eq_iff)
  then have seen: "seen n dead (beam_start n entry (sc entry)) i \<longleftrightarrow> i = entry" for i
    using assms by (auto simp: seen_def beam_start_def)
  have "beam_nodes n dead sc [] (beam_start n entry (sc entry))"
    unfolding beam_nodes_def seen by (simp add: beam_start_def)
  moreover have "beam_covers sn ef n dead sc [] (beam_start n entry (sc entry))"
    unfolding beam_covers_def seen by (simp add: beam_start_def)
  moreover have "beam_open ef n dead [] (beam_start n entry (sc entry))"
    unfolding beam_open_def seen by (simp add: beam_start_def)
  ultimately show ?thesis
    using assms(3) by (simp add: beam_ok_def beam_heaps_def beam_closed_def beam_start_def)
qed

end

section \<open>What is reached\<close>

text \<open>The live nodes a search can come to from \<open>e\<close> through live nodes.\<close>

inductive reaches :: "nat \<Rightarrow> (u32 \<Rightarrow> u32 list option) \<Rightarrow> (u32 \<Rightarrow> bool) \<Rightarrow> (u32 \<Rightarrow> bool) \<Rightarrow> u32 \<Rightarrow> u32 \<Rightarrow> bool"
  for n nbrs skip dead e where
  here: "reaches n nbrs skip dead e e"
| hop: "reaches n nbrs skip dead e i \<Longrightarrow> nbrs i = Some nbs \<Longrightarrow> j \<in> set nbs \<Longrightarrow> \<not> skip j \<Longrightarrow> \<not> dead j \<Longrightarrow>
    reaches n nbrs skip dead e j"

text \<open>A search that ended with room in its beam has seen all of them.\<close>

lemma reaches_seen:
  assumes ok: "beam_ok sn ef n nbrs skip dead sc [] b" and room: "length (bm_results b) < ef"
    and fr: "bm_frontier b = []" and e: "seen n dead b e"
  shows "reaches n nbrs skip dead e i \<Longrightarrow> seen n dead b i"
proof (induction rule: reaches.induct)
  case (hop i nbs j)
  then have "i \<in> set (bm_expanded b)" using ok room fr by (auto simp: beam_ok_def beam_open_def)
  with ok hop show ?case by (auto simp: beam_ok_def beam_closed_def seen_def)
qed (rule e)

end
