(* ===== verification/Prune.thy ===== *)
theory Prune
  imports Beam
begin

text \<open>
  Vamana's edge selection (\<open>src/index/graph.rs\<close>, \<open>robust_prune_via\<close>) and the build-time greedy search
  that feeds it (\<open>greedy_search_collect_visited_via\<close>).  The distance oracles are arguments, as in the
  source; \<open>scale\<close> is the multiplication by \<open>alpha\<close>.  Distances are values of a linear order: the
  code's \<open>f32\<close> without NaNs.
\<close>

section \<open>Definitions\<close>

text \<open>
  The selection loop.  Its first argument is the number of places left, \<open>r - selected.len()\<close>: each
  round takes the nearest remaining candidate and drops those it covers.
\<close>

definition covers :: "('s::linorder \<Rightarrow> 's) \<Rightarrow> (u32 \<Rightarrow> u32 \<Rightarrow> 's) \<Rightarrow> u32 \<Rightarrow> 's cand \<Rightarrow> bool" where
  "covers scale dist pstar c \<longleftrightarrow> scale (dist pstar (cand_id c)) \<le> cand_score c"

fun prune_loop :: "('s::linorder \<Rightarrow> 's) \<Rightarrow> (u32 \<Rightarrow> u32 \<Rightarrow> 's) \<Rightarrow> nat \<Rightarrow> 's cand list \<Rightarrow> u32 list" where
  "prune_loop scale dist 0 remaining = []"
| "prune_loop scale dist (Suc r) remaining =
     (case sort remaining of
        [] \<Rightarrow> []
      | c # cs \<Rightarrow> let pstar = cand_id c in
          pstar # prune_loop scale dist r
            (filter (\<lambda>c'. cand_id c' \<noteq> pstar \<and> \<not> covers scale dist pstar c') (c # cs)))"

definition robust_prune_via ::
  "('s::linorder \<Rightarrow> 's) \<Rightarrow> (u32 \<Rightarrow> u32 \<Rightarrow> 's) \<Rightarrow> (u32 \<Rightarrow> u32 list \<Rightarrow> 's list) \<Rightarrow> nat \<Rightarrow> u32 \<Rightarrow> u32 list \<Rightarrow>
   u32 list" where
  "robust_prune_via scale dist dist_p_many r p candidates =
     (let cand = remdups_adj (sort (filter (\<lambda>c. c \<noteq> p) candidates)) in
      if cand = [] then []
      else prune_loop scale dist r (map2 (\<lambda>d i. Cand d i) (dist_p_many p cand) cand))"

definition list_neighbors :: "u32 list list \<Rightarrow> u32 \<Rightarrow> u32 list option" where
  "list_neighbors adj i = (if unat i < length adj then Some (adj ! unat i) else None)"

definition greedy_search_collect_visited_via ::
  "u32 \<Rightarrow> nat \<Rightarrow> nat \<Rightarrow> u32 list list \<Rightarrow> (nat \<Rightarrow> 's::linorder) \<Rightarrow> (u32 list \<Rightarrow> 's list) \<Rightarrow> u32 list option" where
  "greedy_search_collect_visited_via entry query_id l adj dist_to dist_to_many =
     (if length adj \<le> unat entry then None
      else map_option bm_expanded
        (beam_loop nearest l (list_neighbors adj) (\<lambda>nb. unat nb = query_id) (\<lambda>_. False) dist_to_many
          (beam_start (length adj) entry (dist_to (unat entry)))))"

section \<open>What is selected\<close>

abbreviation pool :: "u32 \<Rightarrow> u32 list \<Rightarrow> u32 set" where
  "pool p candidates \<equiv> set candidates - {p}"

text \<open>
  The choice a prune is meant to make among candidates scored by \<open>d\<close>: different candidates, at most
  \<open>r\<close> of them, nearest first, none covered by an earlier one, and every candidate left out is covered
  by a chosen one or there was no place for it.
\<close>

definition diverse_choice ::
  "('s::linorder \<Rightarrow> 's) \<Rightarrow> (u32 \<Rightarrow> u32 \<Rightarrow> 's) \<Rightarrow> nat \<Rightarrow> (u32 \<Rightarrow> 's) \<Rightarrow> u32 set \<Rightarrow> u32 list \<Rightarrow> bool" where
  "diverse_choice scale dist r d C chosen \<longleftrightarrow> distinct chosen \<and> set chosen \<subseteq> C \<and> length chosen \<le> r \<and>
     sorted_wrt (\<lambda>a b. Cand (d a) a \<le> Cand (d b) b \<and> \<not> scale (dist a b) \<le> d b) chosen \<and>
     (\<forall>c \<in> C. c \<in> set chosen \<or> length chosen = r \<or> (\<exists>a \<in> set chosen. scale (dist a c) \<le> d c))"

lemma prune_loop_choice:
  assumes "\<forall>c \<in> set cs. cand_score c = d (cand_id c)"
  shows "diverse_choice scale dist r d (cand_id ` set cs) (prune_loop scale dist r cs)"
  using assms
proof (induction r arbitrary: cs)
  case 0
  then show ?case by (simp add: diverse_choice_def)
next
  case (Suc r)
  show ?case
  proof (cases "sort cs")
    case Nil
    then have "cs = []" by (metis length_0_conv length_sort)
    then show ?thesis by (simp add: diverse_choice_def)
  next
    case (Cons c rest)
    let ?a = "cand_id c"
    let ?left = "filter (\<lambda>c'. cand_id c' \<noteq> ?a \<and> \<not> covers scale dist ?a c') (c # rest)"
    let ?sel = "prune_loop scale dist r ?left"
    have run: "prune_loop scale dist (Suc r) cs = ?a # ?sel" using Cons by (simp add: Let_def)
    have set: "set cs = set (c # rest)" using Cons by (metis set_sort)
    have srt: "\<forall>c' \<in> set rest. c \<le> c'" using Cons sorted_sort [of cs] by simp
    have score: "\<forall>c' \<in> set (c # rest). cand_score c' = d (cand_id c')" using Suc.prems set by simp
    have self: "c' = Cand (d (cand_id c')) (cand_id c')" if "c' \<in> set (c # rest)" for c'
      using score that by (metis cand.collapse)
    have IH: "diverse_choice scale dist r d (cand_id ` set ?left) ?sel"
      by (rule Suc.IH) (use score in auto)
    have left: "x \<noteq> ?a \<and> Cand (d ?a) ?a \<le> Cand (d x) x \<and> \<not> scale (dist ?a x) \<le> d x"
      if "x \<in> cand_id ` set ?left" for x
    proof -
      from that obtain c' where c': "c' \<in> set (c # rest)" "x = cand_id c'" "x \<noteq> ?a" "\<not> covers scale dist ?a c'"
        by auto
      with srt have "c \<le> c'" by auto
      with c' self [OF c'(1)] self [of c] score show ?thesis by (simp add: covers_def)
    qed
    have out: "x = ?a \<or> x \<in> cand_id ` set ?left \<or> scale (dist ?a x) \<le> d x" if "x \<in> cand_id ` set cs" for x
      using that score by (auto simp: set covers_def image_iff)
    have sub: "cand_id ` set ?left \<subseteq> cand_id ` set cs" by (auto simp: set)
    from IH have d: "distinct ?sel" and sel: "set ?sel \<subseteq> cand_id ` set ?left"
      unfolding diverse_choice_def by blast+
    from sel left have fst: "\<forall>x \<in> set ?sel. x \<noteq> ?a \<and> Cand (d ?a) ?a \<le> Cand (d x) x \<and> \<not> scale (dist ?a x) \<le> d x"
      by blast
    have a: "?a \<in> cand_id ` set cs" using set by simp
    show ?thesis
      unfolding run diverse_choice_def
    proof (intro conjI)
      show "distinct (?a # ?sel)" unfolding distinct.simps using d fst by blast
      show "set (?a # ?sel) \<subseteq> cand_id ` set cs" 
        unfolding list.simps(15) insert_subset using a order_trans [OF sel sub] by (rule conjI)
      show "length (?a # ?sel) \<le> Suc r" using IH by (simp add: diverse_choice_def)
      show "sorted_wrt (\<lambda>a b. Cand (d a) a \<le> Cand (d b) b \<and> \<not> scale (dist a b) \<le> d b) (?a # ?sel)"
        unfolding sorted_wrt.simps
      proof
        show "\<forall>b \<in> set ?sel. Cand (d ?a) ?a \<le> Cand (d b) b \<and> \<not> scale (dist ?a b) \<le> d b" using fst by blast
        show "sorted_wrt (\<lambda>a b. Cand (d a) a \<le> Cand (d b) b \<and> \<not> scale (dist a b) \<le> d b) ?sel"
          using IH unfolding diverse_choice_def by (elim conjE)
      qed
      show "\<forall>x \<in> cand_id ` set cs. x \<in> set (?a # ?sel) \<or> length (?a # ?sel) = Suc r \<or>
          (\<exists>a \<in> set (?a # ?sel). scale (dist a x) \<le> d x)"
      proof
        fix x assume "x \<in> cand_id ` set cs"
        with out consider "x = ?a" | "x \<in> cand_id ` set ?left" | "scale (dist ?a x) \<le> d x" by blast
        then show "x \<in> set (?a # ?sel) \<or> length (?a # ?sel) = Suc r \<or> (\<exists>a \<in> set (?a # ?sel). scale (dist a x) \<le> d x)"
        proof cases
          case 2
          with IH have "x \<in> set ?sel \<or> length ?sel = r \<or> (\<exists>a \<in> set ?sel. scale (dist a x) \<le> d x)"
            unfolding diverse_choice_def by (elim conjE) (rule bspec)
          then show ?thesis by (elim disjE) auto
        qed simp_all
      qed
    qed
  qed
qed

lemma set_pool: "set (remdups_adj (sort (filter (\<lambda>c. c \<noteq> p) candidates))) = pool p candidates"
  by auto

lemma robust_prune_choice:
  assumes many: "\<And>ids. dist_p_many p ids = map d ids"
  shows "diverse_choice scale dist r d (pool p candidates) (robust_prune_via scale dist dist_p_many r p candidates)"
proof -
  define cand where "cand = remdups_adj (sort (filter (\<lambda>c. c \<noteq> p) candidates))"
  have pool: "set cand = pool p candidates" unfolding cand_def by (rule set_pool)
  have m: "map2 (\<lambda>d i. Cand d i) (map d cand) cand = map (\<lambda>i. Cand (d i) i) cand"
    by (induction cand) auto
  have "diverse_choice scale dist r d (cand_id ` set (map (\<lambda>i. Cand (d i) i) cand))
      (prune_loop scale dist r (map (\<lambda>i. Cand (d i) i) cand))"
    by (rule prune_loop_choice) auto
  also have "cand_id ` set (map (\<lambda>i. Cand (d i) i) cand) = pool p candidates" by (simp add: image_image pool)
  finally have *: "diverse_choice scale dist r d (pool p candidates)
      (prune_loop scale dist r (map (\<lambda>i. Cand (d i) i) cand))" .
  show ?thesis
  proof (cases "cand = []")
    case True
    then have C: "pool p candidates = {}" using pool by (metis list.set(1))
    show ?thesis
      unfolding C robust_prune_via_def cand_def [symmetric] True diverse_choice_def by simp
  next
    case False
    with * show ?thesis
      unfolding robust_prune_via_def cand_def [symmetric] by (simp add: many m Let_def)
  qed
qed

lemma diverse_choice_nonempty:
  "diverse_choice scale dist r d C chosen \<Longrightarrow> c \<in> C \<Longrightarrow> 0 < r \<Longrightarrow> chosen \<noteq> []"
  by (auto simp: diverse_choice_def)

section \<open>The greedy search\<close>

lemma list_neighbors_walkable:
  assumes "\<forall>i < length adj. \<forall>nb \<in> set (adj ! i). unat nb < length adj"
  shows "walkable (length adj) (list_neighbors adj)"
  using assms by (auto simp: walkable_def list_neighbors_def)

lemma expand_expanded:
  "expand sn ef nbrs skip dead score_batch cur b = Some b' \<Longrightarrow> bm_expanded b' = bm_expanded b @ [cur]"
  by (auto simp: expand_def split: Option.bind_splits)

lemma beam_loop_expanded:
  "beam_loop sn ef nbrs skip dead score_batch b = Some b' \<Longrightarrow> \<exists>more. bm_expanded b' = bm_expanded b @ more"
proof (induction sn ef nbrs skip dead score_batch b rule: beam_loop.induct)
  case (1 sn ef nbrs skip dead score_batch b)
  show ?case
  proof (cases "bm_frontier b")
    case Nil
    with 1(2) show ?thesis by (simp add: beam_loop.simps [of sn ef nbrs skip dead score_batch b])
  next
    case (Cons cur rest)
    show ?thesis
    proof (cases "stops sn ef cur (bm_results b)")
      case True
      with 1(2) Cons show ?thesis by (auto simp: beam_loop.simps [of sn ef nbrs skip dead score_batch b])
    next
      case False
      with 1(2) Cons obtain b1
        where b1: "expand sn ef nbrs skip dead score_batch (cand_id cur) (b\<lparr>bm_frontier := rest\<rparr>) = Some b1"
          and l: "beam_loop sn ef nbrs skip dead score_batch b1 = Some b'"
        by (auto simp: beam_loop.simps [of sn ef nbrs skip dead score_batch b] split: option.splits)
      from 1(1) [OF Cons False b1 l] expand_expanded [OF b1] show ?thesis by auto
    qed
  qed
qed

text \<open>The search returns; it visits existing nodes, each once, never the query, and the entry first.\<close>

lemma greedy_search_visits:
  fixes dist_to :: "nat \<Rightarrow> 's::linorder"
  assumes rows: "\<forall>i < length adj. \<forall>nb \<in> set (adj ! i). unat nb < length adj"
    and e: "unat entry < length adj" and l: "0 < l" and many: "\<And>ids. dist_to_many ids = map (dist_to \<circ> unat) ids"
  shows "\<exists>V. greedy_search_collect_visited_via entry q l adj dist_to dist_to_many = Some V \<and> distinct V \<and>
    (\<forall>v \<in> set V. unat v < length adj) \<and> (1 < l \<longrightarrow> (\<exists>V'. V = entry # V')) \<and>
    (adj ! unat entry = [] \<longrightarrow> set V \<subseteq> {entry})"
proof -
  let ?n = "length adj" and ?nbrs = "list_neighbors adj" and ?skip = "\<lambda>nb :: u32. unat nb = q"
  let ?run = "beam_loop nearest l ?nbrs ?skip (\<lambda>_. False) dist_to_many"
  let ?b = "beam_start ?n entry (dist_to (unat entry))"
  obtain b where b: "?run ?b = Some b"
    and ok: "beam_ok nearest l ?n ?nbrs ?skip (\<lambda>_. False) (dist_to \<circ> unat) [] b"
    using nearest_sense.beam_loop_ok [where skip = ?skip and score_batch = dist_to_many,
        OF list_neighbors_walkable [OF rows] many l
        nearest_sense.beam_start_ok [where entry = entry and dead = "\<lambda>_. False" and sc = "dist_to \<circ> unat", OF e _ l]]
    by auto
  have V: "distinct (bm_expanded b)" "\<forall>v \<in> set (bm_expanded b). unat v < ?n"
    using ok by (auto simp: beam_ok_def beam_nodes_def seen_def)
  have step: "?run ?b = (if stops nearest l (Cand (dist_to (unat entry)) entry) (bm_results ?b)
      then Some (?b\<lparr>bm_frontier := []\<rparr>)
      else case expand nearest l ?nbrs ?skip (\<lambda>_. False) dist_to_many entry (?b\<lparr>bm_frontier := []\<rparr>) of
        None \<Rightarrow> None | Some b' \<Rightarrow> ?run b')"
    by (subst beam_loop.simps) (simp add: beam_start_def)
  have first: "\<exists>V'. bm_expanded b = entry # V'" if "1 < l"
  proof -
    have "\<not> stops nearest l (Cand (dist_to (unat entry)) entry) (bm_results ?b)"
      using that by (simp add: stops_def beam_start_def)
    with step b obtain b1 where "expand nearest l ?nbrs ?skip (\<lambda>_. False) dist_to_many entry (?b\<lparr>bm_frontier := []\<rparr>) = Some b1"
      and "?run b1 = Some b"
      by (auto split: option.splits)
    from expand_expanded [OF this(1)] beam_loop_expanded [OF this(2)] show ?thesis by (auto simp: beam_start_def)
  qed
  have lonely: "set (bm_expanded b) \<subseteq> {entry}" if none: "adj ! unat entry = []"
  proof -
    have "expand nearest l ?nbrs ?skip (\<lambda>_. False) dist_to_many entry (?b\<lparr>bm_frontier := []\<rparr>)
        = Some (?b\<lparr>bm_frontier := [], bm_expanded := [entry]\<rparr>)"
      by (simp add: expand_def list_neighbors_def e none beam_start_def)
    with step b show ?thesis
      by (subst (asm) (2) beam_loop.simps) (auto simp: beam_start_def split: if_splits)
  qed
  have "greedy_search_collect_visited_via entry q l adj dist_to dist_to_many = Some (bm_expanded b)"
    using e b by (simp add: greedy_search_collect_visited_via_def)
  with V first lonely show ?thesis by blast
qed

section \<open>Properties\<close>

text \<open>
  C22: the edge selection makes a diverse choice: at most \<open>r\<close> different candidates other than the node
  itself, nearest first, no chosen one covered by an earlier one, and whatever is left out is covered
  by a chosen one unless all \<open>r\<close> places are taken.
\<close>

theorem robust_prune_diverse:
  assumes "\<And>ids. dist_p_many p ids = map (dist p) ids"
  shows "diverse_choice scale dist r (dist p) (pool p candidates)
    (robust_prune_via scale dist dist_p_many r p candidates)"
  by (rule robust_prune_choice) (rule assms)

theorem robust_prune_diverse_witness:
  "diverse_choice (\<lambda>d. d) (\<lambda>a b. if a = b then 0 else 3 :: nat) (Suc (Suc 0)) (\<lambda>b. if 5 = b then 0 else 3)
    {4, 3} [3]"
proof -
  let ?dist = "\<lambda>a b :: u32. if a = b then 0 else 3 :: nat"
  have "robust_prune_via (\<lambda>d. d) ?dist (\<lambda>p. map (?dist p)) (Suc (Suc 0)) 5 [4, 5, 4, 3] = [3]"
    by (simp add: robust_prune_via_def covers_def less_eq_cand_def Let_def)
  moreover have "pool 5 [4, 5, 4, 3] = {4, 3 :: u32}" by auto
  ultimately show ?thesis
    using robust_prune_diverse [where p = 5 and dist = ?dist and dist_p_many = "\<lambda>p. map (?dist p)" and
        scale = "\<lambda>d. d" and r = "Suc (Suc 0)" and candidates = "[4, 5, 4, 3]"] by simp
qed

end
