(* ===== verification/GraphSearch.thy ===== *)
theory GraphSearch
  imports Beam
begin

text \<open>
  The scan-time search of a graph index (\<open>src/index/graph.rs\<close>, \<open>graph_search_with_ef\<close>): the choice of
  a live entry point, the beam search over live rows, the backfill that keeps the promise of \<open>k\<close>
  rows when the beam comes up short, and the final ranking.  \<open>score_batch\<close> is the caller's scoring
  oracle.
\<close>

section \<open>Definitions\<close>

definition GRAPH_SCAN_EF_MULTIPLIER :: nat where "GRAPH_SCAN_EF_MULTIPLIER = 4"
definition GRAPH_SCAN_EF_FLOOR :: nat where "GRAPH_SCAN_EF_FLOOR = 64"

definition default_scan_ef :: "nat \<Rightarrow> nat \<Rightarrow> nat" where
  "default_scan_ef k n =
     min (max (min (k * GRAPH_SCAN_EF_MULTIPLIER) (2 ^ 64 - 1)) GRAPH_SCAN_EF_FLOOR) n"

definition is_dead :: "u8 list \<Rightarrow> u32 \<Rightarrow> bool" where
  "is_dead tombstones i \<longleftrightarrow> tombstones \<noteq> [] \<and>
     (let slot = unat i; byte = slot div 8 in
      byte < length tombstones \<and> bit (tombstones ! byte) (slot mod 8))"

text \<open>\<open>0..n as u32\<close>.\<close>

definition ids_below :: "nat \<Rightarrow> u32 list" where
  "ids_below n = map of_nat [0..<unat (of_nat n :: u32)]"

fun find_first :: "('a \<Rightarrow> bool option) \<Rightarrow> 'a list \<Rightarrow> 'a option option" where
  "find_first p [] = Some None"
| "find_first p (x # xs) =
     (case p x of None \<Rightarrow> None | Some True \<Rightarrow> Some (Some x) | Some False \<Rightarrow> find_first p xs)"

definition has_live_neighbor :: "adjacency \<Rightarrow> (u32 \<Rightarrow> bool) \<Rightarrow> u32 \<Rightarrow> bool option" where
  "has_live_neighbor g dead i = map_option (list_ex (\<lambda>nb. \<not> dead nb)) (neighbors_of g (unat i))"

text \<open>The entry point to start from; the inner \<open>None\<close> is an index whose rows are all dead.\<close>

definition fallback_entry :: "adjacency \<Rightarrow> (u32 \<Rightarrow> bool) \<Rightarrow> u32 option option" where
  "fallback_entry g dead =
     (case find_first (\<lambda>i. if dead i then Some False else has_live_neighbor g dead i) (ids_below (node_count g)) of
        None \<Rightarrow> None
      | Some (Some e) \<Rightarrow> Some (Some e)
      | Some None \<Rightarrow> Some (find (\<lambda>i. \<not> dead i) (ids_below (node_count g))))"

definition choose_entry :: "adjacency \<Rightarrow> (u32 \<Rightarrow> bool) \<Rightarrow> u32 \<Rightarrow> u32 option option" where
  "choose_entry g dead entry =
     (if dead entry then fallback_entry g dead
      else case has_live_neighbor g dead entry of
        None \<Rightarrow> None
      | Some True \<Rightarrow> Some (Some entry)
      | Some False \<Rightarrow> fallback_entry g dead)"

text \<open>Descending score, ties by ascending id.\<close>

definition ranks_before :: "'s::linorder cand \<Rightarrow> 's cand \<Rightarrow> bool" where
  "ranks_before a b \<longleftrightarrow> cand_score b < cand_score a \<or> cand_score a = cand_score b \<and> cand_id a \<le> cand_id b"

definition sort_cands :: "('s cand \<Rightarrow> 's cand \<Rightarrow> bool) \<Rightarrow> 's cand list \<Rightarrow> 's cand list" where
  "sort_cands le cs = foldr (heap_push le) cs []"

definition backfill ::
  "nat \<Rightarrow> nat \<Rightarrow> (u32 \<Rightarrow> bool) \<Rightarrow> (u32 list \<Rightarrow> 's list) \<Rightarrow> bool list \<Rightarrow> 's cand list \<Rightarrow> 's cand list" where
  "backfill n k dead score_batch visited out =
     (let extra = take (k - length out) (filter (\<lambda>i. \<not> visited ! unat i \<and> \<not> dead i) (ids_below n))
      in if extra = [] then out else out @ map2 (\<lambda>i s. Cand s i) extra (score_batch extra))"

definition graph_search_with_ef ::
  "adjacency \<Rightarrow> u32 \<Rightarrow> nat \<Rightarrow> nat \<Rightarrow> u8 list \<Rightarrow> (u32 list \<Rightarrow> 's::linorder list) \<Rightarrow> 's cand list option" where
  "graph_search_with_ef g entry k ef tombstones score_batch =
     (let n = node_count g; dead = is_dead tombstones in
      if n = 0 \<or> k = 0 then Some []
      else
        let ef = min (max ef k) n;
            entry = of_nat (min (unat entry) (n - 1))
        in case choose_entry g dead entry of
          None \<Rightarrow> None
        | Some None \<Rightarrow> Some []
        | Some (Some e) \<Rightarrow>
            (case score_batch [e] of
               [] \<Rightarrow> None
             | s # _ \<Rightarrow>
                 Option.bind
                   (beam_loop highest ef (\<lambda>i. neighbors_of g (unat i)) (\<lambda>_. False) dead score_batch
                     (beam_start n e s)) (\<lambda>b.
                 Some (take k (sort_cands ranks_before
                   (backfill n k dead score_batch (bm_visited b) (bm_results b)))))))"

definition graph_search ::
  "adjacency \<Rightarrow> u32 \<Rightarrow> nat \<Rightarrow> u8 list \<Rightarrow> (u32 list \<Rightarrow> 's::linorder list) \<Rightarrow> 's cand list option" where
  "graph_search g entry k tombstones score_batch =
     graph_search_with_ef g entry k (default_scan_ef k (node_count g)) tombstones score_batch"

section \<open>Ids and sorting\<close>

lemma ids_below:
  assumes "n < 2 ^ 32"
  shows "set (ids_below n) = {i. unat i < n}" and "distinct (ids_below n)" and "length (ids_below n) = n"
proof -
  have n: "unat (of_nat n :: u32) = n" using assms by (simp add: unat_of_nat take_bit_nat_eq_self)
  have u: "unat (of_nat j :: u32) = j" if "j < n" for j
    using that assms by (simp add: unat_of_nat take_bit_nat_eq_self)
  show "length (ids_below n) = n" by (simp add: ids_below_def n)
  show "distinct (ids_below n)"
    unfolding ids_below_def n distinct_map by (auto intro!: inj_onI) (metis u)
  have "i \<in> of_nat ` {0..<n}" if "unat i < n" for i :: u32
    using that by (intro image_eqI [of _ _ "unat i"]) simp_all
  then show "set (ids_below n) = {i. unat i < n}"
    by (auto simp: ids_below_def n u)
qed

lemma sort_cands_Cons [simp]: "sort_cands le (c # cs) = heap_push le c (sort_cands le cs)"
  and sort_cands_Nil [simp]: "sort_cands le [] = []"
  by (simp_all add: sort_cands_def)

lemma mset_sort_cands [simp]: "mset (sort_cands le cs) = mset cs"
  by (induction cs) simp_all

lemma set_sort_cands [simp]: "set (sort_cands le cs) = set cs"
  by (induction cs) simp_all

lemma length_sort_cands [simp]: "length (sort_cands le cs) = length cs"
  by (induction cs) simp_all

lemma distinct_ids_sort_cands: "distinct (map cand_id (sort_cands le cs)) = distinct (map cand_id cs)"
  by (induction cs) (auto simp: distinct_map_heap_push)

lemma sorted_push:
  assumes "\<And>x y. le x y \<or> le y x" and "\<And>x y z. le x y \<Longrightarrow> le y z \<Longrightarrow> le x z"
  shows "sorted_wrt le xs \<Longrightarrow> sorted_wrt le (heap_push le x xs)"
proof (induction xs)
  case (Cons y ys)
  then show ?case using assms by (auto 4 3)
qed simp

lemma sorted_sort_cands:
  assumes "\<And>x y. le x y \<or> le y x" and "\<And>x y z. le x y \<Longrightarrow> le y z \<Longrightarrow> le x z"
  shows "sorted_wrt le (sort_cands le cs)"
  by (induction cs) (simp_all add: sorted_push [OF assms])

lemma sorted_wrt_unique:
  assumes "\<And>x y. le x y \<Longrightarrow> le y x \<Longrightarrow> x = y"
  shows "sorted_wrt le xs \<Longrightarrow> sorted_wrt le ys \<Longrightarrow> mset xs = mset ys \<Longrightarrow> xs = ys"
proof (induction xs arbitrary: ys)
  case (Cons x xs)
  then obtain y ys' where ys: "ys = y # ys'" by (cases ys) auto
  have "x \<in> set ys" "y \<in> set (x # xs)"
    using Cons.prems(3) ys by (metis list.set_intros(1) set_mset_mset)+
  then have "x = y" using Cons.prems ys assms by auto
  with Cons ys show ?case by auto
qed simp

lemma ranks_before_order:
  "ranks_before a b \<or> ranks_before b a" "ranks_before a b \<Longrightarrow> ranks_before b c \<Longrightarrow> ranks_before a c"
  "ranks_before a b \<Longrightarrow> ranks_before b a \<Longrightarrow> a = b"
  by (auto simp: ranks_before_def intro: cand.expand)

lemmas sorted_ranked = sorted_sort_cands [OF ranks_before_order(1,2)]

section \<open>Choosing the entry point\<close>

lemma find_first_total:
  "\<forall>x \<in> set xs. p x \<noteq> None \<Longrightarrow> \<exists>r. find_first p xs = Some r \<and> (\<forall>x. r = Some x \<longrightarrow> x \<in> set xs \<and> p x = Some True)"
  by (induction xs) (auto split: option.splits bool.splits)

lemma walkable_neighbors:
  "walkable (node_count g) (\<lambda>i. neighbors_of g (unat i)) \<Longrightarrow> unat i < node_count g \<Longrightarrow>
   has_live_neighbor g dead i \<noteq> None"
  by (auto simp: walkable_def has_live_neighbor_def)

lemma healthy_walkable: "healthy g entry \<Longrightarrow> walkable (node_count g) (\<lambda>i. neighbors_of g (unat i))"
  unfolding walkable_def by (metis healthy_neighbors)

lemma fallback_entry_total:
  assumes w: "walkable (node_count g) (\<lambda>i. neighbors_of g (unat i))" and n: "node_count g < 2 ^ 32"
  shows "\<exists>r. fallback_entry g dead = Some r \<and>
    (case r of Some e \<Rightarrow> unat e < node_count g \<and> \<not> dead e | None \<Rightarrow> \<forall>i. unat i < node_count g \<longrightarrow> dead i)"
proof -
  let ?p = "\<lambda>i. if dead i then Some False else has_live_neighbor g dead i"
  have "\<forall>i \<in> set (ids_below (node_count g)). ?p i \<noteq> None"
    using walkable_neighbors [OF w] ids_below(1) [OF n] by auto
  from find_first_total [OF this] obtain r where r: "find_first ?p (ids_below (node_count g)) = Some r"
    and t: "\<forall>x. r = Some x \<longrightarrow> x \<in> set (ids_below (node_count g)) \<and> ?p x = Some True" by blast
  show ?thesis
  proof (cases r)
    case (Some e)
    with t ids_below(1) [OF n] r show ?thesis by (auto simp: fallback_entry_def split: if_splits)
  next
    case None
    with r ids_below(1) [OF n] show ?thesis
      by (auto simp: fallback_entry_def find_None_iff find_Some_iff split: option.split)
  qed
qed

lemma choose_entry_total:
  assumes w: "walkable (node_count g) (\<lambda>i. neighbors_of g (unat i))" and n: "node_count g < 2 ^ 32"
    and e: "unat entry < node_count g"
  shows "\<exists>r. choose_entry g dead entry = Some r \<and>
    (case r of Some e \<Rightarrow> unat e < node_count g \<and> \<not> dead e | None \<Rightarrow> \<forall>i. unat i < node_count g \<longrightarrow> dead i)"
proof -
  obtain b where "has_live_neighbor g dead entry = Some b" using walkable_neighbors [OF w e] by auto
  with fallback_entry_total [OF w n, of dead] e show ?thesis
    by (cases b; cases "dead entry") (auto simp: choose_entry_def)
qed

section \<open>The whole search\<close>

text \<open>The rows a search may return, each with its score.\<close>

definition live_rows :: "nat \<Rightarrow> (u32 \<Rightarrow> bool) \<Rightarrow> u32 list" where
  "live_rows n dead = filter (\<lambda>i. \<not> dead i) (ids_below n)"

definition scored :: "(u32 \<Rightarrow> 's) \<Rightarrow> u32 list \<Rightarrow> 's cand list" where
  "scored sc ids = map (\<lambda>i. Cand (sc i) i) ids"

abbreviation csr_neighbors :: "adjacency \<Rightarrow> u32 \<Rightarrow> u32 list option" where
  "csr_neighbors g \<equiv> (\<lambda>i. neighbors_of g (unat i))"

lemma set_live_rows: "n < 2 ^ 32 \<Longrightarrow> set (live_rows n dead) = {i. unat i < n \<and> \<not> dead i}"
  by (auto simp: live_rows_def ids_below(1))

lemma distinct_live_rows: "n < 2 ^ 32 \<Longrightarrow> distinct (live_rows n dead)"
  by (simp add: live_rows_def ids_below(2))

lemma length_live_rows_le: "n < 2 ^ 32 \<Longrightarrow> length (live_rows n dead) \<le> n"
  using length_filter_le [of "\<lambda>i. \<not> dead i" "ids_below n"] by (simp add: live_rows_def ids_below(3))

text \<open>The candidates the beam kept, and the whole search as a run of the loop.\<close>

lemma kept_scored:
  assumes "beam_nodes n dead sc [] b"
  shows "bm_results b = scored sc (map cand_id (bm_results b))"
  using assms unfolding scored_def beam_nodes_def
  by (auto intro!: map_idI [symmetric] simp: o_def) (metis UnI1 cand.collapse)

lemma graph_search_run [consumes 5, case_names none found]:
  assumes g: "walkable (node_count g) (csr_neighbors g)" and n: "node_count g < 2 ^ 32" "node_count g \<noteq> 0"
    and k: "k \<noteq> 0" and score: "\<And>ids. score_batch ids = map sc ids"
  obtains (none) "graph_search_with_ef g entry k ef tombs score_batch = Some []"
      "live_rows (node_count g) (is_dead tombs) = []"
  | (found) e b where "choose_entry g (is_dead tombs) (of_nat (min (unat entry) (node_count g - 1))) = Some (Some e)"
      "beam_ok highest (min (max ef k) (node_count g)) (node_count g) (csr_neighbors g) (\<lambda>_. False)
        (is_dead tombs) sc [] b"
      "seen (node_count g) (is_dead tombs) b e"
      "bm_frontier b = [] \<or> min (max ef k) (node_count g) \<le> length (bm_results b)"
      "graph_search_with_ef g entry k ef tombs score_batch = Some (take k (sort_cands ranks_before
        (backfill (node_count g) k (is_dead tombs) score_batch (bm_visited b) (bm_results b))))"
proof -
  let ?n = "node_count g" and ?dead = "is_dead tombs"
  let ?entry = "of_nat (min (unat entry) (?n - 1)) :: u32" and ?ef = "min (max ef k) ?n"
  have "min (unat entry) (?n - 1) < ?n" using n(2) by auto
  then have "unat ?entry < ?n"
    using n(1) by (simp add: unat_of_nat take_bit_nat_eq_self)
  from choose_entry_total [OF g n(1) this, of ?dead] obtain r where r: "choose_entry g ?dead ?entry = Some r"
    and spec: "case r of Some e \<Rightarrow> unat e < ?n \<and> \<not> ?dead e | None \<Rightarrow> \<forall>i. unat i < ?n \<longrightarrow> ?dead i" by blast
  show thesis
  proof (cases r)
    case None
    with spec set_live_rows [OF n(1), of ?dead] have "set (live_rows ?n ?dead) = {}" by auto
    then have "live_rows ?n ?dead = []" by simp
    moreover have "graph_search_with_ef g entry k ef tombs score_batch = Some []"
      using r None n k by (simp add: graph_search_with_ef_def Let_def)
    ultimately show thesis by (intro none)
  next
    case (Some e)
    with spec have e: "unat e < ?n" "\<not> ?dead e" by auto
    have ef: "0 < ?ef" using n k by simp
    obtain b where loop: "beam_loop highest ?ef (csr_neighbors g) (\<lambda>_. False) ?dead score_batch
        (beam_start ?n e (sc e)) = Some b"
      and ok: "beam_ok highest ?ef ?n (csr_neighbors g) (\<lambda>_. False) ?dead sc [] b"
      and mono: "\<forall>j < ?n. bm_visited (beam_start ?n e (sc e)) ! j \<longrightarrow> bm_visited b ! j"
      and fin: "bm_frontier b = [] \<or> ?ef \<le> length (bm_results b)"
      using highest_sense.beam_loop_ok [where nbrs = "csr_neighbors g", OF g score ef
          highest_sense.beam_start_ok [where dead = ?dead and n = ?n and entry = e, OF e ef]] by blast
    have "seen ?n ?dead b e" using mono e by (auto simp: seen_def beam_start_def)
    moreover have "graph_search_with_ef g entry k ef tombs score_batch = Some (take k (sort_cands ranks_before
        (backfill ?n k ?dead score_batch (bm_visited b) (bm_results b))))"
      using r Some n k loop by (simp add: graph_search_with_ef_def Let_def score)
    ultimately show thesis using found r Some ok fin by blast
  qed
qed

text \<open>A beam that kept fewer than \<open>k\<close> rows kept every live row it saw.\<close>

lemma short_beam_keeps_seen:
  assumes ok: "beam_ok sn (min (max ef k) n) n nbrs skip dead sc [] b" and n: "n < 2 ^ 32"
    and short: "length (bm_results b) < k \<or> length (bm_results b) < min (max ef k) n \<or> n \<le> max ef k"
    and i: "seen n dead b i"
  shows "i \<in> kept_ids b"
proof (cases "length (bm_results b) < min (max ef k) n")
  case True
  with ok i show ?thesis by (auto simp: beam_ok_def beam_covers_def)
next
  case False
  moreover have "length (bm_results b) \<le> min (max ef k) n" using ok by (simp add: beam_ok_def beam_heaps_def)
  ultimately have len: "length (bm_results b) = n" using short by auto
  have sub: "kept_ids b \<subseteq> set (ids_below n)" and d: "distinct (map cand_id (bm_results b))"
    using ok by (auto simp: beam_ok_def beam_nodes_def seen_def ids_below(1) [OF n])
  have "card (kept_ids b) = n" using distinct_card [OF d] len by simp
  moreover have "card (set (ids_below n)) = n" using distinct_card [OF ids_below(2) [OF n]] ids_below(3) [OF n] by simp
  ultimately have "kept_ids b = set (ids_below n)" using sub by (intro card_subset_eq) auto
  with i show ?thesis by (simp add: ids_below(1) [OF n] seen_def)
qed

text \<open>A beam as wide as the graph that reaches every live row keeps exactly the live rows.\<close>

lemma full_beam_keeps_live:
  assumes ok: "beam_ok sn (min (max ef k) n) n nbrs skip dead sc [] b" and n: "n < 2 ^ 32" and wide: "n \<le> max ef k"
    and e: "seen n dead b e" and fin: "bm_frontier b = [] \<or> min (max ef k) n \<le> length (bm_results b)"
    and conn: "\<And>i. i \<in> set (live_rows n dead) \<Longrightarrow> reaches n nbrs skip dead e i"
  shows "mset (map cand_id (bm_results b)) = mset (live_rows n dead)"
proof -
  define kept where "kept = map cand_id (bm_results b)"
  have nodes: "beam_nodes n dead sc [] b" using ok by (simp add: beam_ok_def)
  have keeps: "i \<in> set kept" if "seen n dead b i" for i
    unfolding kept_def set_map by (rule short_beam_keeps_seen [OF ok n _ that]) (use wide in auto)
  have sub: "set kept \<subseteq> set (ids_below n)" and d: "distinct kept"
    using nodes by (auto simp: kept_def beam_nodes_def seen_def ids_below(1) [OF n])
  have all: "set (live_rows n dead) \<subseteq> set kept"
  proof (cases "length kept < n")
    case True
    then have "bm_frontier b = []" and room: "length (bm_results b) < min (max ef k) n"
      using fin wide by (auto simp: kept_def)
    then show ?thesis using keeps reaches_seen [OF ok room _ e] conn by blast
  next
    case False
    have "set kept = set (ids_below n)"
      using sub False distinct_card [OF d] distinct_card [OF ids_below(2) [OF n]] ids_below(3) [OF n]
      by (intro card_seteq) auto
    then show ?thesis by (auto simp: live_rows_def)
  qed
  have "set kept = set (live_rows n dead)"
    using all nodes by (auto simp: kept_def beam_nodes_def seen_def set_live_rows [OF n])
  with d distinct_live_rows [OF n] have "mset kept = mset (live_rows n dead)"
    by (simp add: set_eq_iff_mset_eq_distinct)
  then show ?thesis unfolding kept_def .
qed

lemma backfill_spec:
  fixes sc :: "u32 \<Rightarrow> 's::linorder"
  assumes ok: "beam_ok highest (min (max ef k) n) n nbrs skip dead sc [] b" and n: "n < 2 ^ 32"
    and score: "\<And>ids. score_batch ids = map sc ids"
  shows "\<exists>ids. backfill n k dead score_batch (bm_visited b) (bm_results b) = scored sc ids \<and> distinct ids \<and>
    set ids \<subseteq> set (live_rows n dead) \<and> min k (length ids) = min k (length (live_rows n dead))"
proof -
  define kept where "kept = map cand_id (bm_results b)"
  define more where "more = filter (\<lambda>i. \<not> bm_visited b ! unat i \<and> \<not> dead i) (ids_below n)"
  define ids where "ids = kept @ take (k - length kept) more"
  have nodes: "beam_nodes n dead sc [] b" using ok by (simp add: beam_ok_def)
  have res: "bm_results b = scored sc kept" unfolding kept_def by (rule kept_scored [OF nodes])
  have out: "backfill n k dead score_batch (bm_visited b) (bm_results b) = scored sc ids"
    by (simp add: backfill_def res ids_def more_def scored_def score map2_Cand Let_def)
  have dk: "distinct kept" and seen: "\<forall>i \<in> set kept. seen n dead b i"
    using nodes by (auto simp: kept_def beam_nodes_def)
  have dm: "distinct more" and sm: "set more = {i. unat i < n \<and> \<not> dead i \<and> \<not> bm_visited b ! unat i}"
    by (auto simp: more_def ids_below [OF n])
  have sk: "set kept \<subseteq> set (live_rows n dead)"
    using seen by (auto simp: set_live_rows [OF n] seen_def)
  have disj: "set kept \<inter> set more = {}" using seen by (auto simp: sm seen_def)
  have sub: "set ids \<subseteq> set (live_rows n dead)"
    using sk set_take_subset [of "k - length kept" more] by (auto simp: ids_def sm set_live_rows [OF n])
  have d: "distinct ids"
    using dk dm disj set_take_subset [of "k - length kept" more] by (auto simp: ids_def)
  have "min k (length ids) = min k (length (live_rows n dead))"
  proof (cases "length kept < k")
    case True
    then have "set kept \<union> set more = set (live_rows n dead)"
      using short_beam_keeps_seen [OF ok n] sk by (auto simp: sm set_live_rows [OF n] kept_def seen_def)
    then have "set (kept @ more) = set (live_rows n dead)" by simp
    moreover have "distinct (kept @ more)" using dk dm disj by simp
    ultimately have "length (kept @ more) = length (live_rows n dead)"
      using distinct_live_rows [OF n] by (metis distinct_card)
    then show ?thesis using True by (auto simp: ids_def min_def)
  next
    case False
    have "length kept \<le> length (live_rows n dead)"
      using card_mono [OF _ sk] distinct_card [OF dk] distinct_card [OF distinct_live_rows [OF n]] by simp
    with False show ?thesis by (simp add: ids_def min_def)
  qed
  with out d sub show ?thesis by blast
qed

lemma cand_ids_scored [simp]: "map cand_id (scored sc ids) = ids"
  by (simp add: scored_def o_def)

lemma length_scored [simp]: "length (scored sc ids) = length ids"
  by (simp add: scored_def)

lemma ranked_take:
  fixes sc :: "u32 \<Rightarrow> 's::linorder"
  assumes d: "distinct ids" and sub: "set ids \<subseteq> set rows"
    and out: "out = take k (sort_cands ranks_before (scored sc ids))"
  shows "length out = min k (length ids) \<and> distinct (map cand_id out) \<and> sorted_wrt ranks_before out \<and>
    (\<forall>c \<in> set out. cand_id c \<in> set rows \<and> cand_score c = sc (cand_id c))"
proof -
  have "length out = min k (length ids)" by (simp add: out)
  moreover have "distinct (map cand_id out)"
    unfolding out take_map [symmetric]
    by (rule distinct_take) (simp add: distinct_ids_sort_cands d)
  moreover have "sorted_wrt ranks_before out"
    unfolding out by (rule sorted_wrt_take [OF sorted_ranked])
  moreover have "set out \<subseteq> set (scored sc ids)" unfolding out using set_take_subset by fastforce
  ultimately show ?thesis using sub by (auto simp: scored_def dest!: subsetD)
qed

section \<open>Properties\<close>

text \<open>
  C7: the contract of the graph scan.  On a healthy adjacency the search returns, and however the
  tombstones cut the graph apart it returns \<open>k\<close> rows, or all live rows when there are fewer: each
  once, each live, each with its score, best score first and ties by id.
\<close>

theorem graph_search_contract:
  fixes sc :: "u32 \<Rightarrow> 's::linorder"
  assumes h: "healthy g ep" and n: "node_count g < 2 ^ 32" and score: "\<And>ids. score_batch ids = map sc ids"
  shows "\<exists>out. graph_search_with_ef g entry k ef tombs score_batch = Some out \<and>
    length out = min k (length (live_rows (node_count g) (is_dead tombs))) \<and>
    distinct (map cand_id out) \<and> sorted_wrt ranks_before out \<and>
    (\<forall>c \<in> set out. cand_id c \<in> set (live_rows (node_count g) (is_dead tombs)) \<and> cand_score c = sc (cand_id c))"
proof (cases "node_count g = 0 \<or> k = 0")
  case True
  then show ?thesis by (auto simp: graph_search_with_ef_def live_rows_def ids_below_def)
next
  case False
  then have n0: "node_count g \<noteq> 0" and k: "k \<noteq> 0" by auto
  from healthy_walkable [OF h] n n0 k score show ?thesis
  proof (cases rule: graph_search_run [where entry = entry and ef = ef and tombs = tombs])
    case none
    then show ?thesis by simp
  next
    case (found e b)
    from backfill_spec [OF found(2) n score] obtain ids
      where out: "backfill (node_count g) k (is_dead tombs) score_batch (bm_visited b) (bm_results b) = scored sc ids"
        and ids: "distinct ids" "set ids \<subseteq> set (live_rows (node_count g) (is_dead tombs))"
          "min k (length ids) = min k (length (live_rows (node_count g) (is_dead tombs)))" by blast
    show ?thesis
      unfolding found(5) out using ranked_take [OF ids(1,2) refl, of k sc] ids(3) by simp
  qed
qed

definition demo_chain :: adjacency where
  "demo_chain = from_lists [[1], [0], []]"

lemma demo_chain_healthy: "healthy demo_chain 0"
proof -
  have "validate demo_chain 0 = Some None"
    by (simp add: demo_chain_def validate_def from_lists_def node_count_def entry_fault_def neighbors_of_def
        bslice_def Let_def upt_rec)
  then show ?thesis using validate_healthy by blast
qed

lemma demo_chain_nodes: "node_count demo_chain = 3"
  by (simp add: demo_chain_def)

theorem graph_search_contract_witness:
  "\<exists>out. graph_search_with_ef demo_chain 0 2 1 [1] (map unat) = Some out \<and> length out = 2 \<and>
    distinct (map cand_id out)"
proof -
  have "length (live_rows 3 (is_dead [1])) = 2"
    by (simp add: live_rows_def ids_below_def is_dead_def Let_def upt_rec)
  then show ?thesis
    using graph_search_contract [OF demo_chain_healthy, of "map unat" unat 0 2 1 "[1]"] by (auto simp: demo_chain_nodes)
qed

text \<open>
  C23: with a beam as wide as the corpus, and every live row reachable through live rows from the entry
  point the search picks, the graph search is exhaustive search: it returns the first \<open>k\<close> of the
  ranking of all live rows.
\<close>

theorem graph_search_full_beam_exact:
  fixes sc :: "u32 \<Rightarrow> 's::linorder"
  assumes h: "healthy g ep" and n: "node_count g < 2 ^ 32" and score: "\<And>ids. score_batch ids = map sc ids"
    and wide: "node_count g \<le> ef"
    and conn: "\<And>e i. choose_entry g (is_dead tombs) (of_nat (min (unat entry) (node_count g - 1))) = Some (Some e) \<Longrightarrow>
      i \<in> set (live_rows (node_count g) (is_dead tombs)) \<Longrightarrow>
      reaches (node_count g) (csr_neighbors g) (\<lambda>_. False) (is_dead tombs) e i"
  shows "graph_search_with_ef g entry k ef tombs score_batch =
    Some (take k (sort_cands ranks_before (scored sc (live_rows (node_count g) (is_dead tombs)))))"
proof (cases "node_count g = 0 \<or> k = 0")
  case True
  then show ?thesis by (auto simp: graph_search_with_ef_def live_rows_def ids_below_def scored_def)
next
  case False
  let ?n = "node_count g" and ?dead = "is_dead tombs"
  have n0: "?n \<noteq> 0" and k: "k \<noteq> 0" using False by auto
  from healthy_walkable [OF h] n n0 k score show ?thesis
  proof (cases rule: graph_search_run [where entry = entry and ef = ef and tombs = tombs])
    case none
    then show ?thesis by (simp add: scored_def)
  next
    case (found e b)
    define kept where "kept = map cand_id (bm_results b)"
    have nodes: "beam_nodes ?n ?dead sc [] b" using found(2) by (simp add: beam_ok_def)
    have res: "bm_results b = scored sc kept" unfolding kept_def by (rule kept_scored [OF nodes])
    have "?n \<le> max ef k" using wide by simp
    from full_beam_keeps_live [OF found(2) n this found(3,4) conn [OF found(1)]]
    have perm: "mset kept = mset (live_rows ?n ?dead)" by (simp add: kept_def)
    then have all: "set (live_rows ?n ?dead) \<subseteq> set kept" by (metis mset_eq_setD order_refl)
    have vis: "bm_visited b ! unat i" if "i \<in> set kept" for i
      using that nodes by (auto simp: kept_def beam_nodes_def seen_def)
    have "filter (\<lambda>i. \<not> bm_visited b ! unat i \<and> \<not> ?dead i) (ids_below ?n) = []"
      using vis all by (auto simp: filter_empty_conv live_rows_def)
    then have "backfill ?n k ?dead score_batch (bm_visited b) (bm_results b) = scored sc kept"
      by (simp add: backfill_def res)
    moreover have "sort_cands ranks_before (scored sc kept) = sort_cands ranks_before (scored sc (live_rows ?n ?dead))"
      by (rule sorted_wrt_unique [OF ranks_before_order(3) sorted_ranked sorted_ranked])
        (simp_all add: scored_def perm)
    ultimately show ?thesis using found(5) by simp
  qed
qed

theorem graph_search_full_beam_exact_witness:
  "graph_search_with_ef (from_lists [[1], [0]]) 0 1 2 [] (map unat) = Some [Cand 1 1]"
proof -
  let ?g = "from_lists [[1], [0]]"
  have h: "healthy ?g 0"
  proof -
    have "validate ?g 0 = Some None"
      by (simp add: validate_def from_lists_def node_count_def entry_fault_def neighbors_of_def
          bslice_def Let_def upt_rec)
    then show ?thesis using validate_healthy by blast
  qed
  have nb: "neighbors_of ?g 0 = Some [1]" by (simp add: from_lists_def neighbors_of_def bslice_def Let_def)
  have e: "choose_entry ?g (is_dead []) 0 = Some (Some 0)"
    by (simp add: choose_entry_def is_dead_def has_live_neighbor_def nb)
  have rows: "live_rows (Suc (Suc 0)) (is_dead []) = [0, 1]" by (simp add: live_rows_def ids_below_def is_dead_def upt_rec)
  have "reaches (Suc (Suc 0)) (csr_neighbors ?g) (\<lambda>_. False) (is_dead []) 0 1"
    by (rule reaches.hop [OF reaches.here, where nbs = "[1]"]) (simp_all add: nb is_dead_def)
  then have "reaches (Suc (Suc 0)) (csr_neighbors ?g) (\<lambda>_. False) (is_dead []) 0 i" if "i \<in> set [0, 1]" for i
    using that reaches.here by auto
  then show ?thesis
    using graph_search_full_beam_exact [OF h, of "map unat" unat 2 "[]" 0 1] e rows
    by (simp add: scored_def ranks_before_def)
qed

end
