(* ===== verification/Vamana.thy ===== *)
theory Vamana
  imports Prune GraphSearch
begin

text \<open>
  The single-pass Vamana build and the incremental insert (\<open>src/index/graph.rs\<close>:
  \<open>insert_node_into_graph_via\<close> and its callers, \<open>approx_medoid\<close>, \<open>build_vamana_with_params\<close>,
  \<open>insert_one_node\<close>, \<open>insert_one_node_via_oracle\<close>).  The \<open>f32\<close> operations are a record of functions on
  a linear order (the floats without NaNs); the shuffle of the \<open>rand\<close> crate is an argument.  The rows of
  \<open>vectors\<close> are slices of length \<open>dim\<close>: the callers pass \<open>n * dim\<close> coordinates, which the source
  asserts.  A panic is \<open>None\<close>.
\<close>

section \<open>Distances\<close>

record 'f arith =
  ar_zero :: 'f
  ar_one :: 'f
  ar_infinity :: 'f
  ar_add :: "'f \<Rightarrow> 'f \<Rightarrow> 'f"
  ar_sub :: "'f \<Rightarrow> 'f \<Rightarrow> 'f"
  ar_mul :: "'f \<Rightarrow> 'f \<Rightarrow> 'f"
  ar_div :: "'f \<Rightarrow> 'f \<Rightarrow> 'f"
  ar_neg :: "'f \<Rightarrow> 'f"
  ar_abs :: "'f \<Rightarrow> 'f"
  ar_of_nat :: "nat \<Rightarrow> 'f"

definition sq_dist :: "'f arith \<Rightarrow> 'f list \<Rightarrow> 'f list \<Rightarrow> 'f" where
  "sq_dist ar a b =
     fold (\<lambda>(x, y) s. let d = ar_sub ar x y in ar_add ar s (ar_mul ar d d)) (zip a b) (ar_zero ar)"

definition row_of :: "'f list \<Rightarrow> nat \<Rightarrow> nat \<Rightarrow> 'f list" where
  "row_of vectors dim i = bslice (i * dim) dim vectors"

definition build_row_dists :: "'f arith \<Rightarrow> 'f list \<Rightarrow> u32 list \<Rightarrow> 'f list \<Rightarrow> nat \<Rightarrow> 'f list" where
  "build_row_dists ar query ids vectors dim =
     map (\<lambda>i. sq_dist ar query (row_of vectors dim (unat i))) ids"

text \<open>The mean of the rows, and the first row nearest to it.\<close>

definition mean_row :: "'f arith \<Rightarrow> 'f list \<Rightarrow> nat \<Rightarrow> nat \<Rightarrow> 'f list" where
  "mean_row ar vectors n dim =
     (let sums = fold (\<lambda>i mean. map2 (ar_add ar) mean (row_of vectors dim i)) [0..<n] (replicate dim (ar_zero ar));
          inv_n = ar_div ar (ar_one ar) (ar_of_nat ar n)
      in map (\<lambda>m. ar_mul ar m inv_n) sums)"

definition nearer :: "(nat \<Rightarrow> 'f::linorder) \<Rightarrow> nat \<Rightarrow> 'f \<times> u32 \<Rightarrow> 'f \<times> u32" where
  "nearer d i = (\<lambda>(best_d, best). if d i < best_d then (d i, of_nat i) else (best_d, best))"

definition approx_medoid :: "'f::linorder arith \<Rightarrow> 'f list \<Rightarrow> nat \<Rightarrow> nat \<Rightarrow> u32" where
  "approx_medoid ar vectors n dim =
     (let mean = mean_row ar vectors n dim
      in snd (fold (nearer (\<lambda>i. sq_dist ar mean (row_of vectors dim i))) [0..<n] (ar_infinity ar, 0)))"

section \<open>Inserting a node\<close>

text \<open>The reverse edge \<open>q -> p\<close>; a list that grows past the degree bound is pruned again.\<close>

definition add_reverse ::
  "(u32 \<Rightarrow> u32 list \<Rightarrow> u32 list) \<Rightarrow> nat \<Rightarrow> u32 \<Rightarrow> u32 \<Rightarrow> u32 list list \<Rightarrow> u32 list list option" where
  "add_reverse prune r p q adj =
     (if length adj \<le> unat q then None
      else let ns = adj ! unat q in
        if p \<in> set ns then Some adj
        else let ns = ns @ [p] in
          Some (adj[unat q := if r < length ns then prune q ns else ns]))"

fun fold_option :: "('a \<Rightarrow> 'b \<Rightarrow> 'b option) \<Rightarrow> 'a list \<Rightarrow> 'b \<Rightarrow> 'b option" where
  "fold_option f [] b = Some b"
| "fold_option f (x # xs) b = Option.bind (f x b) (fold_option f xs)"

definition insert_node_into_graph_via ::
  "(nat \<Rightarrow> 's::linorder) \<Rightarrow> (u32 \<Rightarrow> u32 \<Rightarrow> 's) \<Rightarrow> (u32 list \<Rightarrow> 's list) \<Rightarrow> (u32 \<Rightarrow> u32 list \<Rightarrow> 's list) \<Rightarrow>
   ('s \<Rightarrow> 's) \<Rightarrow> nat \<Rightarrow> nat \<Rightarrow> u32 \<Rightarrow> u32 \<Rightarrow> u32 list list \<Rightarrow> u32 list list option" where
  "insert_node_into_graph_via dist_to dist dist_to_many dist_p_many scale r l entry p adj =
     Option.bind (greedy_search_collect_visited_via entry (unat p) l adj dist_to dist_to_many) (\<lambda>visited.
     if length adj \<le> unat p then None
     else let prune = robust_prune_via scale dist dist_p_many r;
              selected = prune p (visited @ adj ! unat p)
       in fold_option (add_reverse prune r p) selected (adj[unat p := selected]))"

definition insert_node_into_graph ::
  "'f::linorder arith \<Rightarrow> u32 list list \<Rightarrow> u32 \<Rightarrow> u32 \<Rightarrow> 'f list \<Rightarrow> nat \<Rightarrow> nat \<Rightarrow> 'f \<Rightarrow> nat \<Rightarrow> u32 list list option" where
  "insert_node_into_graph ar adj entry p vectors dim l alpha r =
     (let row = (\<lambda>a :: u32. row_of vectors dim (unat a));
          query = row p
      in insert_node_into_graph_via (\<lambda>i. sq_dist ar query (row_of vectors dim i))
           (\<lambda>a b. sq_dist ar (row a) (row b)) (\<lambda>ids. build_row_dists ar query ids vectors dim)
           (\<lambda>a ids. build_row_dists ar (row a) ids vectors dim) (ar_mul ar alpha) r l entry p adj)"

section \<open>Building and growing a graph\<close>

definition GRAPH_DEGREE_R :: nat where "GRAPH_DEGREE_R = 32"
definition GRAPH_BUILD_L :: nat where "GRAPH_BUILD_L = GRAPH_DEGREE_R * 2"
definition GRAPH_SEED :: u64 where "GRAPH_SEED = 0x6A2E6EA55EED"

definition build_vamana_with_params ::
  "'f::linorder arith \<Rightarrow> (u64 \<Rightarrow> u32 list \<Rightarrow> u32 list) \<Rightarrow> 'f list \<Rightarrow> nat \<Rightarrow> nat \<Rightarrow> nat \<Rightarrow> nat \<Rightarrow> 'f \<Rightarrow> u64 \<Rightarrow>
   (adjacency \<times> u32) option" where
  "build_vamana_with_params ar shuffle vectors n dim r l alpha seed =
     (if n = 0 then Some (empty_adjacency 0, 0)
      else if n = 1 then Some (empty_adjacency 1, 0)
      else let r = max r 1; l = min (max l r) n;
               entry = approx_medoid ar vectors n dim;
               order = shuffle seed (map of_nat [0..<unat (of_nat n :: u32)])
        in map_option (\<lambda>adj. (from_lists adj, entry))
             (fold_option (\<lambda>p adj. insert_node_into_graph ar adj entry p vectors dim l alpha r) order
               (replicate n [])))"

definition build_vamana ::
  "'f::linorder arith \<Rightarrow> (u64 \<Rightarrow> u32 list \<Rightarrow> u32 list) \<Rightarrow> 'f \<Rightarrow> 'f list \<Rightarrow> nat \<Rightarrow> nat \<Rightarrow> (adjacency \<times> u32) option" where
  "build_vamana ar shuffle GRAPH_ALPHA vectors n dim =
     build_vamana_with_params ar shuffle vectors n dim GRAPH_DEGREE_R GRAPH_BUILD_L GRAPH_ALPHA GRAPH_SEED"

definition insert_one_node ::
  "'f::linorder arith \<Rightarrow> 'f \<Rightarrow> adjacency \<Rightarrow> u32 \<Rightarrow> 'f list \<Rightarrow> nat \<Rightarrow> adjacency option" where
  "insert_one_node ar GRAPH_ALPHA existing entry vectors dim =
     Option.bind (to_lists existing) (\<lambda>adj.
     let old_n = node_count existing; adj = adj @ [[]] in
     if old_n = 0 then Some (from_lists adj)
     else map_option from_lists
       (insert_node_into_graph ar adj entry (of_nat old_n) vectors dim GRAPH_BUILD_L GRAPH_ALPHA GRAPH_DEGREE_R))"

text \<open>
  The insert that \<open>aminsert\<close> runs: the caller scores the new row against existing slots, higher scores
  closer, one score per id, and the distance between two existing slots is bounded from below by the
  difference of theirs.
\<close>

definition oracle_dist_to :: "'f arith \<Rightarrow> (u32 list \<Rightarrow> 'f list) \<Rightarrow> nat \<Rightarrow> 'f" where
  "oracle_dist_to ar score i = ar_neg ar (score [of_nat i] ! 0)"

definition oracle_dist :: "'f arith \<Rightarrow> (u32 list \<Rightarrow> 'f list) \<Rightarrow> u32 \<Rightarrow> u32 \<Rightarrow> u32 \<Rightarrow> 'f" where
  "oracle_dist ar score new_id a b =
     (if a = new_id then oracle_dist_to ar score (unat b)
      else if b = new_id then oracle_dist_to ar score (unat a)
      else ar_abs ar (ar_sub ar (oracle_dist_to ar score (unat a)) (oracle_dist_to ar score (unat b))))"

definition insert_one_node_via_oracle ::
  "'f::linorder arith \<Rightarrow> 'f \<Rightarrow> adjacency \<Rightarrow> u32 \<Rightarrow> 'v \<Rightarrow> ('v \<Rightarrow> u32 list \<Rightarrow> 'f list) \<Rightarrow> adjacency option" where
  "insert_one_node_via_oracle ar GRAPH_ALPHA existing entry new_vector score_existing =
     Option.bind (to_lists existing) (\<lambda>adj.
     let old_n = node_count existing; new_id = of_nat old_n; adj = adj @ [[]];
         dist_to = oracle_dist_to ar (score_existing new_vector);
         dist = oracle_dist ar (score_existing new_vector) new_id in
     if old_n = 0 then Some (from_lists adj)
     else map_option from_lists
       (insert_node_into_graph_via dist_to dist (map (\<lambda>i. dist_to (unat i))) (\<lambda>a. map (dist a))
          (ar_mul ar GRAPH_ALPHA) GRAPH_DEGREE_R GRAPH_BUILD_L entry new_id adj))"

section \<open>What an edge selection promises\<close>

locale edge_selection =
  fixes prune :: "u32 \<Rightarrow> u32 list \<Rightarrow> u32 list" and r :: nat
  assumes prune_from_pool: "set (prune p cs) \<subseteq> pool p cs"
    and prune_distinct: "distinct (prune p cs)"
    and prune_bound: "length (prune p cs) \<le> r"
    and prune_nonempty: "c \<in> pool p cs \<Longrightarrow> prune p cs \<noteq> []"

text \<open>Adjacency lists under construction, and how an insert may change them.\<close>

definition rows_ok :: "nat \<Rightarrow> u32 list list \<Rightarrow> bool" where
  "rows_ok n adj \<longleftrightarrow> length adj = n \<and>
     (\<forall>i < n. distinct (adj ! i) \<and> (\<forall>nb \<in> set (adj ! i). unat nb < n \<and> unat nb \<noteq> i))"

definition grown :: "nat \<Rightarrow> nat \<Rightarrow> u32 list list \<Rightarrow> u32 list list \<Rightarrow> bool" where
  "grown n r adj adj' \<longleftrightarrow> rows_ok n adj' \<and>
     (\<forall>i < n. (adj' ! i = adj ! i \<or> length (adj' ! i) \<le> r) \<and> (adj ! i \<noteq> [] \<longrightarrow> adj' ! i \<noteq> []))"

lemma grown_refl: "rows_ok n adj \<Longrightarrow> grown n r adj adj"
  by (simp add: grown_def)

lemma grown_trans: "grown n r adj adj1 \<Longrightarrow> grown n r adj1 adj2 \<Longrightarrow> grown n r adj adj2"
  unfolding grown_def by metis

lemma rows_ok_update:
  assumes "rows_ok n adj" and "unat q < n" and "distinct ns" and "\<forall>nb \<in> set ns. unat nb < n \<and> nb \<noteq> q"
  shows "rows_ok n (adj[unat q := ns])"
  using assms by (auto simp: rows_ok_def nth_list_update word_unat_eq_iff)

context edge_selection
begin

lemma add_reverse_grows:
  assumes ok: "rows_ok n adj" and p: "unat p < n" and q: "unat q < n" "q \<noteq> p"
  shows "\<exists>adj'. add_reverse prune r p q adj = Some adj' \<and> grown n r adj adj' \<and> adj' ! unat q \<noteq> [] \<and>
    (\<forall>i < n. i \<noteq> unat q \<longrightarrow> adj' ! i = adj ! i)"
proof (cases "p \<in> set (adj ! unat q)")
  case True
  with ok q show ?thesis by (auto simp: add_reverse_def rows_ok_def grown_def)
next
  case False
  let ?ns = "adj ! unat q @ [p]"
  let ?new = "if r < length ?ns then prune q ?ns else ?ns"
  have len: "length adj = n" using ok by (simp add: rows_ok_def)
  have old: "distinct ?ns" "\<forall>nb \<in> set ?ns. unat nb < n \<and> nb \<noteq> q"
    using ok p q False by (auto simp: rows_ok_def)
  have new: "distinct ?new" "\<forall>nb \<in> set ?new. unat nb < n \<and> nb \<noteq> q"
    using old prune_distinct [of q ?ns] prune_from_pool [of q ?ns] by auto
  have "length ?new \<le> r" using prune_bound [of q ?ns] by auto
  moreover have ne: "?new \<noteq> []" using prune_nonempty [of p ?ns q] q by auto
  ultimately have "grown n r adj (adj[unat q := ?new])"
    using rows_ok_update [OF ok q(1) new] len q by (auto simp: grown_def nth_list_update)
  moreover have "add_reverse prune r p q adj = Some (adj[unat q := ?new])"
    using False q len by (simp add: add_reverse_def Let_def)
  ultimately show ?thesis using ne q len by auto
qed

lemma add_reverses_grow:
  assumes "rows_ok n adj" and "unat p < n" and "\<forall>q \<in> set qs. unat q < n \<and> q \<noteq> p"
  shows "\<exists>adj'. fold_option (add_reverse prune r p) qs adj = Some adj' \<and> grown n r adj adj' \<and>
    adj' ! unat p = adj ! unat p \<and> (\<forall>q \<in> set qs. adj' ! unat q \<noteq> [])"
  using assms
proof (induction qs arbitrary: adj)
  case Nil
  then show ?case by (simp add: grown_refl)
next
  case (Cons q qs)
  then have q: "unat q < n" "q \<noteq> p" by auto
  from add_reverse_grows [OF Cons.prems(1,2) q] obtain adj1 where a: "add_reverse prune r p q adj = Some adj1"
    and g1: "grown n r adj adj1" and ne: "adj1 ! unat q \<noteq> []" and frame: "\<forall>i < n. i \<noteq> unat q \<longrightarrow> adj1 ! i = adj ! i"
    by blast
  from g1 have "rows_ok n adj1" by (simp add: grown_def)
  from Cons.IH [OF this Cons.prems(2)] Cons.prems(3) obtain adj2
    where b: "fold_option (add_reverse prune r p) qs adj1 = Some adj2" and g2: "grown n r adj1 adj2"
      and fix_p: "adj2 ! unat p = adj1 ! unat p" and nes: "\<forall>q \<in> set qs. adj2 ! unat q \<noteq> []" by auto
  have "adj2 ! unat q \<noteq> []" using g2 ne q by (auto simp: grown_def)
  moreover have "adj1 ! unat p = adj ! unat p" using frame q Cons.prems(2) by (metis word_unat_eq_iff)
  ultimately show ?case using a b grown_trans [OF g1 g2] fix_p nes by auto
qed

text \<open>One insert, whatever the visited set \<open>V\<close> its search came back with.\<close>

lemma connect_grows:
  assumes ok: "rows_ok n adj" and p: "unat p < n" and V: "\<forall>v \<in> set V. unat v < n"
  defines "selected \<equiv> prune p (V @ adj ! unat p)"
  shows "\<exists>adj'. fold_option (add_reverse prune r p) selected (adj[unat p := selected]) = Some adj' \<and>
    grown n r adj adj' \<and> adj' ! unat p = selected \<and> (\<forall>q \<in> set selected. adj' ! unat q \<noteq> [])"
proof -
  have len: "length adj = n" using ok by (simp add: rows_ok_def)
  have nbs: "\<forall>nb \<in> set (adj ! unat p). unat nb < n \<and> nb \<noteq> p" using ok p by (auto simp: rows_ok_def)
  then have sel: "\<forall>q \<in> set selected. unat q < n \<and> q \<noteq> p"
    using prune_from_pool [of p "V @ adj ! unat p"] V by (auto simp: selected_def)
  have ne: "selected \<noteq> []" if "c \<in> set (adj ! unat p)" for c
    unfolding selected_def by (rule prune_nonempty [of c]) (use that nbs in auto)
  have ok1: "rows_ok n (adj[unat p := selected])"
    using rows_ok_update [OF ok p _ sel] prune_distinct by (simp add: selected_def)
  moreover have "length selected \<le> r" unfolding selected_def by (rule prune_bound)
  ultimately have g: "grown n r adj (adj[unat p := selected])"
    using ne p len by (auto simp: grown_def nth_list_update) (metis list.set_intros(1) neq_Nil_conv)
  from add_reverses_grow [OF ok1 p sel] obtain adj'
    where "fold_option (add_reverse prune r p) selected (adj[unat p := selected]) = Some adj'"
      and "grown n r (adj[unat p := selected]) adj'" and "adj' ! unat p = (adj[unat p := selected]) ! unat p"
      and "\<forall>q \<in> set selected. adj' ! unat q \<noteq> []" by blast
  with grown_trans [OF g] p len show ?thesis by auto
qed

end

lemma robust_prune_selects:
  assumes many: "\<And>p ids. dist_p_many p ids = map (dist p) ids" and r: "0 < r"
  shows "edge_selection (robust_prune_via scale dist dist_p_many r) r"
proof
  fix p c :: u32 and cs :: "u32 list"
  note choice = robust_prune_choice [of dist_p_many p "dist p" scale dist r cs, OF many]
  show "set (robust_prune_via scale dist dist_p_many r p cs) \<subseteq> pool p cs"
    and "distinct (robust_prune_via scale dist dist_p_many r p cs)"
    and "length (robust_prune_via scale dist dist_p_many r p cs) \<le> r"
    using choice unfolding diverse_choice_def by blast+
  show "robust_prune_via scale dist dist_p_many r p cs \<noteq> []" if "c \<in> pool p cs"
    by (rule diverse_choice_nonempty [OF choice that r])
qed

interpretation exact_prune: edge_selection "robust_prune_via scale dist (\<lambda>p. map (dist p)) (Suc r)" "Suc r"
  for scale :: "'s::linorder \<Rightarrow> 's" and dist r
  by (rule robust_prune_selects) simp_all

section \<open>One insert\<close>

definition untouched :: "nat \<Rightarrow> u32 list list \<Rightarrow> bool" where
  "untouched n adj \<longleftrightarrow> (\<forall>i < n. adj ! i = [])"

lemma insert_grows:
  fixes dist_to :: "nat \<Rightarrow> 's::linorder"
  assumes ok: "rows_ok n adj" and e: "unat entry < n" and p: "unat p < n" and l: "0 < l" and r: "0 < r"
    and to_many: "\<And>ids. dist_to_many ids = map (dist_to \<circ> unat) ids"
    and p_many: "\<And>p ids. dist_p_many p ids = map (dist p) ids"
  shows "\<exists>adj'. insert_node_into_graph_via dist_to dist dist_to_many dist_p_many scale r l entry p adj = Some adj' \<and>
    grown n r adj adj' \<and> length (adj' ! unat p) \<le> r \<and>
    (1 < l \<longrightarrow> p \<noteq> entry \<longrightarrow> adj' ! unat p \<noteq> []) \<and>
    (untouched n adj \<longrightarrow> (if p = entry then untouched n adj' else 1 < l \<longrightarrow> adj' ! unat entry \<noteq> []))"
proof -
  let ?prune = "robust_prune_via scale dist dist_p_many r"
  have sel: "edge_selection ?prune r" by (rule robust_prune_selects [OF p_many r])
  have len: "length adj = n" and rows: "\<forall>i < length adj. \<forall>nb \<in> set (adj ! i). unat nb < length adj"
    using ok by (auto simp: rows_ok_def)
  from greedy_search_visits [OF rows, where q = "unat p" and dist_to_many = dist_to_many, OF _ l to_many] e len
  obtain V where V: "greedy_search_collect_visited_via entry (unat p) l adj dist_to dist_to_many = Some V"
      "\<forall>v \<in> set V. unat v < n" "1 < l \<longrightarrow> entry \<in> set V" "adj ! unat entry = [] \<longrightarrow> set V \<subseteq> {entry}"
    by fastforce
  let ?cs = "V @ adj ! unat p"
  from edge_selection.connect_grows [OF sel ok p V(2)] obtain adj'
    where run: "fold_option (add_reverse ?prune r p) (?prune p ?cs) (adj[unat p := ?prune p ?cs]) = Some adj'"
      and g: "grown n r adj adj'" and at_p: "adj' ! unat p = ?prune p ?cs"
      and backs: "\<forall>q \<in> set (?prune p ?cs). adj' ! unat q \<noteq> []" by blast
  have "insert_node_into_graph_via dist_to dist dist_to_many dist_p_many scale r l entry p adj = Some adj'"
    using V(1) p len run by (simp add: insert_node_into_graph_via_def Let_def)
  moreover have "length (adj' ! unat p) \<le> r" using at_p edge_selection.prune_bound [OF sel] by simp
  moreover have ne: "?prune p ?cs \<noteq> []" if "1 < l" "p \<noteq> entry"
    by (rule edge_selection.prune_nonempty [OF sel, of entry]) (use V(3) that in auto)
  moreover have "if p = entry then untouched n adj' else 1 < l \<longrightarrow> adj' ! unat entry \<noteq> []" if u: "untouched n adj"
  proof -
    have "set (?prune p ?cs) \<subseteq> {entry} - {p}"
      using edge_selection.prune_from_pool [OF sel, of p ?cs] V(4) u e p by (auto simp: untouched_def)
    then consider "?prune p ?cs = []" | "p \<noteq> entry" "entry \<in> set (?prune p ?cs)" by (cases "?prune p ?cs") auto
    then show ?thesis
    proof cases
      case 1
      then have "adj' = adj[unat p := []]" using run by simp
      then have u': "untouched n adj'" using u len p by (simp add: untouched_def nth_list_update)
      with 1 ne u' show ?thesis by auto
    qed (use backs in auto)
  qed
  ultimately show ?thesis using g at_p by auto
qed

section \<open>A whole build\<close>

lemma insert_into_graph_grows:
  assumes "rows_ok n adj" and "unat entry < n" and "unat p < n" and "0 < l" and "0 < r"
  shows "\<exists>adj'. insert_node_into_graph ar adj entry p vectors dim l alpha r = Some adj' \<and>
    grown n r adj adj' \<and> length (adj' ! unat p) \<le> r \<and>
    (1 < l \<longrightarrow> p \<noteq> entry \<longrightarrow> adj' ! unat p \<noteq> []) \<and>
    (untouched n adj \<longrightarrow> (if p = entry then untouched n adj' else 1 < l \<longrightarrow> adj' ! unat entry \<noteq> []))"
  unfolding insert_node_into_graph_def Let_def
  by (rule insert_grows) (use assms in \<open>simp_all add: build_row_dists_def o_def\<close>)

text \<open>
  Every list stays within the bound, and once a node other than the entry point has been inserted
  the entry point has an edge.
\<close>

lemma build_grows:
  assumes e: "unat entry < n" and l: "1 < l" and r: "0 < r"
  shows "rows_ok n adj \<Longrightarrow> \<forall>i < n. length (adj ! i) \<le> r \<Longrightarrow> untouched n adj \<or> adj ! unat entry \<noteq> [] \<Longrightarrow>
    \<forall>p \<in> set order. unat p < n \<Longrightarrow>
    \<exists>adj'. fold_option (\<lambda>p adj. insert_node_into_graph ar adj entry p vectors dim l alpha r) order adj = Some adj' \<and>
      rows_ok n adj' \<and> (\<forall>i < n. length (adj' ! i) \<le> r) \<and>
      (\<forall>i < n. adj ! i \<noteq> [] \<longrightarrow> adj' ! i \<noteq> []) \<and> (\<forall>p \<in> set order. p \<noteq> entry \<longrightarrow> adj' ! unat p \<noteq> []) \<and>
      ((\<exists>p \<in> set order. p \<noteq> entry) \<longrightarrow> adj' ! unat entry \<noteq> [])"
proof (induction order arbitrary: adj)
  case (Cons p order)
  from l have l0: "0 < l" by simp
  from Cons.prems(4) have p: "unat p < n" by simp
  from insert_into_graph_grows [OF Cons.prems(1) e p l0 r] obtain adj1
    where run: "insert_node_into_graph ar adj entry p vectors dim l alpha r = Some adj1"
      and g: "grown n r adj adj1" and at_p: "1 < l \<longrightarrow> p \<noteq> entry \<longrightarrow> adj1 ! unat p \<noteq> []"
      and step: "untouched n adj \<longrightarrow> (if p = entry then untouched n adj1 else 1 < l \<longrightarrow> adj1 ! unat entry \<noteq> [])"
    by blast
  have ok1: "rows_ok n adj1" "\<forall>i < n. length (adj1 ! i) \<le> r" and keep: "\<forall>i < n. adj ! i \<noteq> [] \<longrightarrow> adj1 ! i \<noteq> []"
    using g Cons.prems(2) by (auto simp: grown_def)
  have ent: "untouched n adj1 \<or> adj1 ! unat entry \<noteq> []" "p \<noteq> entry \<Longrightarrow> adj1 ! unat entry \<noteq> []"
    using step keep Cons.prems(3) e l by (auto split: if_splits)
  from Cons.IH [OF ok1 ent(1)] Cons.prems(4) obtain adj2
    where run2: "fold_option (\<lambda>p adj. insert_node_into_graph ar adj entry p vectors dim l alpha r) order adj1 = Some adj2"
      and ok2: "rows_ok n adj2" "\<forall>i < n. length (adj2 ! i) \<le> r"
      and keep2: "\<forall>i < n. adj1 ! i \<noteq> [] \<longrightarrow> adj2 ! i \<noteq> []"
      and ins: "\<forall>p \<in> set order. p \<noteq> entry \<longrightarrow> adj2 ! unat p \<noteq> []"
      and first: "(\<exists>p \<in> set order. p \<noteq> entry) \<longrightarrow> adj2 ! unat entry \<noteq> []"
    by auto
  have "\<forall>i < n. adj ! i \<noteq> [] \<longrightarrow> adj2 ! i \<noteq> []" using keep keep2 by blast
  moreover have "\<forall>x \<in> set (p # order). x \<noteq> entry \<longrightarrow> adj2 ! unat x \<noteq> []" using ins at_p l keep2 p by auto
  moreover have "(\<exists>x \<in> set (p # order). x \<noteq> entry) \<longrightarrow> adj2 ! unat entry \<noteq> []" using first ent(2) keep2 e by auto
  ultimately show ?case using run run2 ok2 by (intro exI [of _ adj2] conjI) simp_all
qed auto

lemma sum_list_le_mult: "\<forall>x \<in> set xs. f x \<le> (m :: nat) \<Longrightarrow> sum_list (map f xs) \<le> length xs * m"
  by (induction xs) auto

lemma length_concat_le: "\<forall>xs \<in> set xss. length xs \<le> m \<Longrightarrow> length (concat xss) \<le> length xss * m"
  by (simp add: length_concat sum_list_le_mult)

lemma last_offsets_from: "last (offsets_from 0 rows) = of_nat (length (concat rows))"
proof -
  have "offsets_from 0 rows \<noteq> []" by (cases rows) simp_all
  then show ?thesis by (simp add: last_conv_nth nth_offsets_from)
qed

lemma sort_eq_Nil: "sort xs = [] \<longleftrightarrow> xs = []"
  by (metis length_0_conv length_sort)

lemma from_lists_healthy:
  assumes ok: "rows_ok n adj" and small: "length (concat adj) < 2 ^ 32" and e: "unat entry < n"
    and ne: "1 < n \<longrightarrow> adj ! unat entry \<noteq> []"
  shows "healthy (from_lists adj) entry"
proof -
  have len: "length adj = n" using ok by (simp add: rows_ok_def)
  have "unat (last (ga_offsets (from_lists adj))) = length (ga_neighbors (from_lists adj))"
    using small by (simp add: from_lists_def last_offsets_from unat_of_nat take_bit_nat_eq_self)
  moreover have "sorted_wrt (<) (map sort adj ! i)"
    "\<forall>nb \<in> set (map sort adj ! i). unat nb < n \<and> unat nb \<noteq> i" if "i < n" for i
    using ok that len by (auto simp: rows_ok_def strict_sorted_iff)
  ultimately show ?thesis
    using to_lists_from_lists [OF small] e ne len by (auto simp: healthy_def sort_eq_Nil)
qed

lemma nearer_below:
  "n < 2 ^ 32 \<Longrightarrow> \<forall>i \<in> set is. i < n \<Longrightarrow> unat (snd b) < n \<Longrightarrow> unat (snd (fold (nearer d) is b)) < n"
proof (induction "is" arbitrary: b)
  case (Cons i "is")
  then show ?case by (auto simp: nearer_def unat_of_nat take_bit_nat_eq_self split: prod.splits)
qed simp

lemma medoid_below:
  "0 < n \<Longrightarrow> n < 2 ^ 32 \<Longrightarrow> unat (approx_medoid ar vectors n dim) < n"
  unfolding approx_medoid_def Let_def by (rule nearer_below) simp_all

text \<open>The build, with the lists it flattens.\<close>

lemma build_vamana_lists:
  assumes shuffle: "\<And>seed ids. set (shuffle seed ids) = set ids" and n: "n < 2 ^ 32" "2 \<le> n"
    and wide: "1 < max l r"
  shows "\<exists>adj. build_vamana_with_params ar shuffle vectors n dim r l alpha seed
      = Some (from_lists adj, approx_medoid ar vectors n dim) \<and>
    rows_ok n adj \<and> (\<forall>i < n. length (adj ! i) \<le> max r 1 \<and> adj ! i \<noteq> [])"
proof -
  let ?r = "max r 1" and ?entry = "approx_medoid ar vectors n dim"
  let ?l = "min (max l ?r) n" and ?order = "shuffle seed (map of_nat [0..<unat (of_nat n :: u32)])"
  have e: "unat ?entry < n" by (rule medoid_below) (use n in simp_all)
  have order: "set ?order = {i. unat i < n}"
    using ids_below(1) [OF n(1)] by (simp add: shuffle ids_below_def)
  have l: "1 < ?l" using wide n by auto
  have start: "rows_ok n (replicate n [])" "\<forall>i < n. length (replicate n [] ! i) \<le> ?r"
    "untouched n (replicate n []) \<or> replicate n [] ! unat ?entry \<noteq> []"
    by (simp_all add: rows_ok_def untouched_def)
  have other: "\<exists>p \<in> set ?order. p \<noteq> ?entry"
  proof (cases "?entry = 0")
    case True
    have "unat (1 :: u32) < n" using n by simp
    with True show ?thesis unfolding order by (intro bexI [of _ 1]) auto
  next
    case False
    with n show ?thesis unfolding order by (intro bexI [of _ 0]) auto
  qed
  obtain adj
    where run: "fold_option (\<lambda>p adj. insert_node_into_graph ar adj ?entry p vectors dim ?l alpha ?r) ?order
        (replicate n []) = Some adj"
      and ok: "rows_ok n adj" and bound: "\<forall>i < n. length (adj ! i) \<le> ?r"
      and ins: "\<forall>p \<in> set ?order. p \<noteq> ?entry \<longrightarrow> adj ! unat p \<noteq> []" and ne: "adj ! unat ?entry \<noteq> []"
    using build_grows [OF e l _ start, of ?order ar vectors dim alpha] order other
    by (metis (no_types, lifting) less_max_iff_disj mem_Collect_eq zero_less_one)
  have "adj ! i \<noteq> []" if "i < n" for i
  proof (cases "i = unat ?entry")
    case False
    have "unat (of_nat i :: u32) = i" using that n by (simp add: unat_of_nat take_bit_nat_eq_self)
    with False that ins order show ?thesis by (metis mem_Collect_eq)
  qed (use ne in simp)
  moreover have "build_vamana_with_params ar shuffle vectors n dim r l alpha seed = Some (from_lists adj, ?entry)"
    using run n by (simp add: build_vamana_with_params_def Let_def)
  ultimately show ?thesis using ok bound by blast
qed

lemma built_graph_valid:
  assumes ok: "rows_ok n adj" and rows: "\<forall>i < n. length (adj ! i) \<le> m \<and> adj ! i \<noteq> []"
    and edges: "n * m < 2 ^ 32" and e: "unat entry < n"
  shows "node_count (from_lists adj) = n \<and> validate (from_lists adj) entry = Some None \<and>
    (\<forall>i < n. \<exists>nbs. neighbors_of (from_lists adj) i = Some nbs \<and> length nbs \<le> m \<and> nbs \<noteq> [])"
proof -
  have len: "length adj = n" using ok by (simp add: rows_ok_def)
  have "\<forall>xs \<in> set adj. length xs \<le> m" using rows len by (metis in_set_conv_nth)
  from length_concat_le [OF this] len have "length (concat adj) \<le> n * m" by simp
  with edges have small: "length (concat adj) < 2 ^ 32" by linarith
  have "validate (from_lists adj) entry = Some None"
    using from_lists_healthy [OF ok small e] rows e validate_healthy by blast
  then show ?thesis using neighbors_of_from_lists [OF small] rows len by (auto simp: sort_eq_Nil)
qed

text \<open>
  C10: what a build hands to the writer is a graph the scan accepts.  For any vectors and any insertion
  order the single-pass build returns an adjacency over all rows that passes the structural check
  from its entry point, no list longer than the degree bound, and with two rows or more none empty.
\<close>

theorem build_vamana_valid:
  assumes shuffle: "\<And>seed ids. set (shuffle seed ids) = set ids" and n: "n < 2 ^ 32" "0 < n"
    and edges: "n * max r 1 < 2 ^ 32" and wide: "1 < max l r"
  shows "\<exists>g entry. build_vamana_with_params ar shuffle vectors n dim r l alpha seed = Some (g, entry) \<and>
    node_count g = n \<and> validate g entry = Some None \<and>
    (\<forall>i < n. \<exists>nbs. neighbors_of g i = Some nbs \<and> length nbs \<le> max r 1 \<and> (1 < n \<longrightarrow> nbs \<noteq> []))"
proof (cases "n = 1")
  case True
  have "healthy (empty_adjacency 1) 0"
    by (simp add: healthy_def empty_adjacency_def node_count_def to_lists_def neighbors_of_def bslice_def Let_def)
  with validate_healthy [of "empty_adjacency 1" 0] True show ?thesis
    by (auto simp: build_vamana_with_params_def empty_adjacency_def node_count_def neighbors_of_def bslice_def)
next
  case False
  with n have n2: "2 \<le> n" by simp
  from build_vamana_lists [where shuffle = shuffle, OF shuffle n(1) n2 wide] obtain adj
    where run: "build_vamana_with_params ar shuffle vectors n dim r l alpha seed
        = Some (from_lists adj, approx_medoid ar vectors n dim)"
      and ok: "rows_ok n adj" and rows: "\<forall>i < n. length (adj ! i) \<le> max r 1 \<and> adj ! i \<noteq> []" by blast
  from built_graph_valid [OF ok rows edges medoid_below [OF n(2,1)]] run show ?thesis by blast
qed

text \<open>A witness over the integers: four points on a line, built in ascending order.\<close>

definition demo_arith :: "int arith" where
  "demo_arith = \<lparr>ar_zero = 0, ar_one = 1, ar_infinity = 1000000, ar_add = (+), ar_sub = (-), ar_mul = (*),
     ar_div = (div), ar_neg = uminus, ar_abs = abs, ar_of_nat = int\<rparr>"

theorem build_vamana_valid_witness:
  "\<exists>g entry. build_vamana_with_params demo_arith (\<lambda>_ ids. ids) [1, 5, 7, 30] 4 1 2 3 2 0 = Some (g, entry) \<and>
    node_count g = 4 \<and> validate g entry = Some None \<and>
    (\<exists>nbs. neighbors_of g 3 = Some nbs \<and> length nbs \<le> 2 \<and> nbs \<noteq> [])"
proof -
  have "\<exists>g entry. build_vamana_with_params demo_arith (\<lambda>_ ids. ids) [1, 5, 7, 30] 4 1 2 3 2 0 = Some (g, entry) \<and>
    node_count g = 4 \<and> validate g entry = Some None \<and>
    (\<forall>i < 4. \<exists>nbs. neighbors_of g i = Some nbs \<and> length nbs \<le> max 2 1 \<and>
      (1 < (4 :: nat) \<longrightarrow> nbs \<noteq> []))"
    by (rule build_vamana_valid) simp_all
  then obtain g entry where run: "build_vamana_with_params demo_arith (\<lambda>_ ids. ids) [1, 5, 7, 30] 4 1 2 3 2 0 = Some (g, entry)"
    and g: "node_count g = 4" "validate g entry = Some None"
    and nbs: "\<forall>i < 4. \<exists>nbs. neighbors_of g i = Some nbs \<and> length nbs \<le> max 2 1 \<and>
      (1 < (4 :: nat) \<longrightarrow> nbs \<noteq> [])"
    by (elim exE conjE)
  obtain row where "neighbors_of g 3 = Some row" "length row \<le> 2" "row \<noteq> []"
    using nbs [rule_format, of 3] by (auto simp: numeral_2_eq_2)
  with run g show ?thesis by (intro exI conjI)
qed

section \<open>Growing a graph by one row\<close>

lemma sum_list_max: "sum_list (map (\<lambda>xs. max (length xs) m) xss) \<le> length (concat xss) + length xss * m"
  by (induction xss) auto

lemma grown_edges:
  assumes "grown n r adj adj'" and "length adj = n"
  shows "length (concat adj') \<le> length (concat adj) + n * r"
proof -
  have len: "length adj' = n" using assms by (simp add: grown_def rows_ok_def)
  have "length (adj' ! i) \<le> max (length (adj ! i)) r" if "i < n" for i
    using assms that unfolding grown_def by (metis le_max_iff_disj order_refl)
  then have "sum_list (map length adj') \<le> sum_list (map (\<lambda>xs. max (length xs) r) adj)"
    using len assms(2) by (simp add: sum_list_sum_nth) (meson atLeastLessThan_iff sum_mono)
  with sum_list_max [of r adj] assms(2) show ?thesis by (simp add: length_concat)
qed

text \<open>
  The result of connecting one more row: a graph the scan accepts, where the new row has an edge, its
  list and every list that changed are within the degree bound, and no row lost its last edge.
\<close>

definition one_more :: "adjacency \<Rightarrow> u32 \<Rightarrow> adjacency \<Rightarrow> bool" where
  "one_more g entry g' \<longleftrightarrow> node_count g' = node_count g + 1 \<and> validate g' entry = Some None \<and>
     (\<exists>nbs. neighbors_of g' (node_count g) = Some nbs \<and> nbs \<noteq> [] \<and> length nbs \<le> GRAPH_DEGREE_R) \<and>
     (\<forall>i < node_count g. \<exists>nbs nbs'. neighbors_of g i = Some nbs \<and> neighbors_of g' i = Some nbs' \<and>
        (nbs' = nbs \<or> length nbs' \<le> GRAPH_DEGREE_R) \<and> (nbs \<noteq> [] \<longrightarrow> nbs' \<noteq> []))"

lemma to_lists_edges:
  assumes lists: "to_lists g = Some adj" and n: "0 < node_count g"
  shows "length (concat adj) \<le> edge_count g"
proof -
  have len: "length adj = node_count g"
    using those_Some_nth(1) [OF lists [unfolded to_lists_def]] .
  have nbs: "neighbors_of g i = Some (adj ! i)" if "i < node_count g" for i
    using those_Some_nth(2) [OF lists [unfolded to_lists_def] that] .
  have "length (concat (take k adj)) \<le> unat (ga_offsets g ! k)" if "k \<le> node_count g" for k
    using that
  proof (induction k)
    case (Suc k)
    then have "length (concat (take (Suc k) adj)) = length (concat (take k adj)) + length (adj ! k)"
      using len by (simp add: take_Suc_conv_app_nth)
    moreover have "length (adj ! k) + unat (ga_offsets g ! k) \<le> unat (ga_offsets g ! Suc k)"
      using nbs [of k] Suc.prems
      by (auto simp: neighbors_of_def Let_def split: if_splits dest!: arg_cong [where f = length])
    ultimately show ?case using Suc by simp
  qed simp
  from this [of "node_count g"] have "length (concat adj) \<le> unat (ga_offsets g ! node_count g)" using len by simp
  also have "\<dots> \<le> edge_count g"
    using nbs [of "node_count g - 1"] n by (auto simp: neighbors_of_def edge_count_def Let_def split: if_splits)
  finally show ?thesis .
qed

lemma healthy_rows:
  assumes h: "healthy g entry" and n: "0 < node_count g" and lists: "to_lists g = Some adj"
  shows "rows_ok (node_count g + 1) (adj @ [[]])" and "unat entry < node_count g"
    and "1 < node_count g \<Longrightarrow> adj ! unat entry \<noteq> []" and "length adj = node_count g"
    and "\<And>i. i < node_count g \<Longrightarrow> neighbors_of g i = Some (adj ! i)"
proof -
  show len: "length adj = node_count g" using those_Some_nth(1) [OF lists [unfolded to_lists_def]] .
  show "neighbors_of g i = Some (adj ! i)" if "i < node_count g" for i
    using those_Some_nth(2) [OF lists [unfolded to_lists_def] that] .
  show "unat entry < node_count g" and "1 < node_count g \<Longrightarrow> adj ! unat entry \<noteq> []"
    using h n lists by (auto simp: healthy_def)
  have "sorted_wrt (<) (adj ! i)" "\<forall>nb \<in> set (adj ! i). unat nb < node_count g \<and> unat nb \<noteq> i"
    if "i < node_count g" for i
    using h n lists that by (auto simp: healthy_def)
  then show "rows_ok (node_count g + 1) (adj @ [[]])"
    using len by (auto simp: rows_ok_def nth_append strict_sorted_iff less_Suc_eq)
qed

lemma one_more_grown:
  assumes h: "healthy g entry" and n: "0 < node_count g"
    and edges: "edge_count g + (node_count g + 1) * GRAPH_DEGREE_R < 2 ^ 32"
    and lists: "to_lists g = Some adj"
    and g: "grown (node_count g + 1) GRAPH_DEGREE_R (adj @ [[]]) adj'"
    and new: "length (adj' ! node_count g) \<le> GRAPH_DEGREE_R" "adj' ! node_count g \<noteq> []"
    and first: "untouched (node_count g + 1) (adj @ [[]]) \<Longrightarrow> adj' ! unat entry \<noteq> []"
  shows "one_more g entry (from_lists adj')"
proof -
  let ?n = "node_count g" and ?R = GRAPH_DEGREE_R
  note rows = healthy_rows [OF h n lists]
  have ok: "rows_ok (?n + 1) adj'" and len: "length adj' = ?n + 1" using g by (auto simp: grown_def rows_ok_def)
  have "length (concat adj') \<le> edge_count g + (?n + 1) * ?R"
    using grown_edges [OF g] rows(4) to_lists_edges [OF lists n] by simp
  with edges have small: "length (concat adj') < 2 ^ 32" by linarith
  have old: "(adj' ! i = adj ! i \<or> length (adj' ! i) \<le> ?R) \<and> (adj ! i \<noteq> [] \<longrightarrow> adj' ! i \<noteq> [])" if "i < ?n" for i
  proof -
    have "(adj @ [[]]) ! i = adj ! i" "i < ?n + 1" using that rows(4) by (simp_all add: nth_append)
    with g show ?thesis unfolding grown_def by metis
  qed
  have ent: "adj' ! unat entry \<noteq> []"
  proof (cases "1 < ?n")
    case True
    with rows(2,3) old show ?thesis by blast
  next
    case False
    with n have n1: "?n = 1" by simp
    show ?thesis
    proof (cases "adj ! unat entry = []")
      case True
      with n1 rows(2,4) have "untouched (?n + 1) (adj @ [[]])"
        by (auto simp: untouched_def nth_append less_Suc_eq)
      then show ?thesis by (rule first)
    next
      case False
      with rows(2) old show ?thesis by blast
    qed
  qed
  have val: "validate (from_lists adj') entry = Some None"
    using from_lists_healthy [OF ok small] rows(2) ent validate_healthy by simp
  have lists': "neighbors_of (from_lists adj') i = Some (sort (adj' ! i))" if "i \<le> ?n" for i
    using neighbors_of_from_lists [OF small] that len by simp
  have old_rows: "\<exists>nbs nbs'. neighbors_of g i = Some nbs \<and> neighbors_of (from_lists adj') i = Some nbs' \<and>
      (nbs' = nbs \<or> length nbs' \<le> ?R) \<and> (nbs \<noteq> [] \<longrightarrow> nbs' \<noteq> [])" if i: "i < ?n" for i
  proof -
    have "sort (adj ! i) = adj ! i"
      using h n lists i by (auto simp: healthy_def strict_sorted_iff intro: sorted_sort_id)
    with old [OF i] have "sort (adj' ! i) = adj ! i \<or> length (sort (adj' ! i)) \<le> ?R" by auto
    with old [OF i] rows(5) [OF i] lists' [of i] i show ?thesis by (simp add: sort_eq_Nil)
  qed
  have cnt: "node_count (from_lists adj') = ?n + 1" using len by simp
  have new_row: "\<exists>nbs. neighbors_of (from_lists adj') ?n = Some nbs \<and> nbs \<noteq> [] \<and> length nbs \<le> ?R"
    using lists' [of ?n] new by (simp add: sort_eq_Nil)
  show ?thesis unfolding one_more_def using cnt val new_row old_rows by (intro conjI allI impI)
qed

lemma insert_via_oracle_rows:
  assumes "healthy g entry" and "0 < node_count g" and "node_count g < 2 ^ 32 - 1"
    and "edge_count g + (node_count g + 1) * GRAPH_DEGREE_R < 2 ^ 32"
  obtains rows where "insert_one_node_via_oracle ar alpha g entry x score = Some (from_lists rows)"
    and "one_more g entry (from_lists rows)" and "length rows = node_count g + 1" and "length (concat rows) < 2 ^ 32"
proof -
  let ?n = "node_count g" and ?p = "of_nat (node_count g) :: u32"
  from assms(1,2) obtain adj where lists: "to_lists g = Some adj" by (auto simp: healthy_def)
  note rows = healthy_rows [OF assms(1,2) lists]
  have p: "unat ?p = ?n" using assms(3) by (simp add: unat_of_nat take_bit_nat_eq_self)
  have pe: "?p \<noteq> entry" using p rows(2) by auto
  have "\<exists>adj'. insert_node_into_graph_via (oracle_dist_to ar (score x)) (oracle_dist ar (score x) ?p)
      (map (\<lambda>i. oracle_dist_to ar (score x) (unat i))) (\<lambda>a. map (oracle_dist ar (score x) ?p a)) (ar_mul ar alpha)
      GRAPH_DEGREE_R GRAPH_BUILD_L entry ?p (adj @ [[]]) = Some adj' \<and>
    grown (?n + 1) GRAPH_DEGREE_R (adj @ [[]]) adj' \<and> length (adj' ! unat ?p) \<le> GRAPH_DEGREE_R \<and>
    (1 < GRAPH_BUILD_L \<longrightarrow> ?p \<noteq> entry \<longrightarrow> adj' ! unat ?p \<noteq> []) \<and>
    (untouched (?n + 1) (adj @ [[]]) \<longrightarrow> (if ?p = entry then untouched (?n + 1) adj'
       else 1 < GRAPH_BUILD_L \<longrightarrow> adj' ! unat entry \<noteq> []))"
    by (rule insert_grows)
      (use rows(1,2) p in \<open>simp_all add: GRAPH_BUILD_L_def GRAPH_DEGREE_R_def o_def\<close>)
  then obtain adj' where run: "insert_node_into_graph_via (oracle_dist_to ar (score x)) (oracle_dist ar (score x) ?p)
      (map (\<lambda>i. oracle_dist_to ar (score x) (unat i))) (\<lambda>a. map (oracle_dist ar (score x) ?p a)) (ar_mul ar alpha)
      GRAPH_DEGREE_R GRAPH_BUILD_L entry ?p (adj @ [[]]) = Some adj'"
    and g: "grown (?n + 1) GRAPH_DEGREE_R (adj @ [[]]) adj'" "length (adj' ! ?n) \<le> GRAPH_DEGREE_R" "adj' ! ?n \<noteq> []"
      "untouched (?n + 1) (adj @ [[]]) \<longrightarrow> adj' ! unat entry \<noteq> []"
    using p pe by (auto simp: GRAPH_BUILD_L_def GRAPH_DEGREE_R_def)
  have len: "length adj' = ?n + 1" using g(1) by (simp add: grown_def rows_ok_def)
  have "length (concat adj') \<le> edge_count g + (?n + 1) * GRAPH_DEGREE_R"
    using grown_edges [OF g(1)] rows(4) to_lists_edges [OF lists assms(2)] by simp
  with assms(4) have small: "length (concat adj') < 2 ^ 32" by linarith
  have "insert_one_node_via_oracle ar alpha g entry x score = Some (from_lists adj')"
    using assms(2) lists run by (simp add: insert_one_node_via_oracle_def Let_def)
  with one_more_grown [OF assms(1,2,4) lists g(1-3)] g(4) len small show thesis by (intro that [of adj']) auto
qed

text \<open>
  \<open>aminsert\<close> into a graph index keeps it searchable.  Whatever scores the oracle gives, connecting
  one more row to a healthy graph returns a graph that passes the structural check from the same entry
  point; the new row has an edge, and no row loses its last one.
\<close>

theorem insert_via_oracle_valid:
  assumes "healthy g entry" and "0 < node_count g" and "node_count g < 2 ^ 32 - 1"
    and "edge_count g + (node_count g + 1) * GRAPH_DEGREE_R < 2 ^ 32"
  shows "\<exists>g'. insert_one_node_via_oracle ar alpha g entry x score = Some g' \<and> one_more g entry g'"
  by (rule insert_via_oracle_rows [OF assms]) blast

theorem insert_via_oracle_valid_witness:
  "\<exists>g'. insert_one_node_via_oracle demo_arith 2 demo_chain 0 () (\<lambda>_. map (\<lambda>i. 7 - int (unat i))) = Some g' \<and>
    one_more demo_chain 0 g'"
  by (rule insert_via_oracle_valid [OF demo_chain_healthy])
    (simp_all add: demo_chain_nodes, simp add: demo_chain_def edge_count_def from_lists_def GRAPH_DEGREE_R_def)

end
