(* ===== verification/Partition.thy ===== *)
theory Partition
  imports Vamana
begin

text \<open>
  The partitioned Vamana build (\<open>src/index/graph.rs\<close>, \<open>build_vamana_partitioned_with_params\<close>): shards of the
  shuffled rows built on their own, the union of their graphs, the cross-shard refinement and the reverse-edge
  pass.  The parallel maps of the source collect in index order and are maps here; the run is one that no
  cancel aborts.
\<close>

section \<open>Definitions\<close>

definition GRAPH_MIN_SHARD_ROWS :: nat where "GRAPH_MIN_SHARD_ROWS = 2000"

definition shard_ranges :: "nat \<Rightarrow> nat \<Rightarrow> (nat \<times> nat) list" where
  "shard_ranges n p = filter (\<lambda>(a, b). a < b) (map (\<lambda>s. (s * n div p, (s + 1) * n div p)) [0..<p])"

text \<open>Local to global ids; an id outside the shard panics.\<close>

definition remap_row :: "u32 list \<Rightarrow> u32 list \<Rightarrow> u32 list option" where
  "remap_row global_ids nbs =
     map_option sort (those (map (\<lambda>lnb. if unat lnb < length global_ids then Some (global_ids ! unat lnb) else None) nbs))"

definition shard_graph ::
  "'f::linorder arith \<Rightarrow> (u64 \<Rightarrow> u32 list \<Rightarrow> u32 list) \<Rightarrow> 'f list \<Rightarrow> nat \<Rightarrow> nat \<Rightarrow> nat \<Rightarrow> 'f \<Rightarrow> u64 \<Rightarrow>
   nat \<Rightarrow> u32 list \<Rightarrow> (u32 list list \<times> u32 list) option" where
  "shard_graph ar shuffle vectors dim r l alpha seed s global_ids =
     (let m = length global_ids;
          local_vecs = concat (map (\<lambda>gid. row_of vectors dim (unat gid)) global_ids);
          shard_seed = seed XOR (0x9E3779B97F4A7C15 * (of_nat s + 1))
      in Option.bind (build_vamana_with_params ar shuffle local_vecs m dim r l alpha shard_seed) (\<lambda>(sub, _).
         map_option (\<lambda>remapped. (remapped, global_ids))
           (those (map (\<lambda>li. Option.bind (neighbors_of sub li) (remap_row global_ids)) [0..<m]))))"

text \<open>Each shard's rows go to the slots of its ids.\<close>

definition place_shard :: "u32 list list \<times> u32 list \<Rightarrow> u32 list list \<Rightarrow> u32 list list" where
  "place_shard = (\<lambda>(sub, global_ids). fold (\<lambda>(row, gid) adj. adj[unat gid := row]) (zip sub global_ids))"

definition refine_row ::
  "'f::linorder arith \<Rightarrow> 'f list \<Rightarrow> nat \<Rightarrow> nat \<Rightarrow> nat \<Rightarrow> 'f \<Rightarrow> u32 \<Rightarrow> u32 list list \<Rightarrow> u32 \<Rightarrow> u32 list option" where
  "refine_row ar vectors dim r l alpha entry adj node =
     (let row = (\<lambda>a :: u32. row_of vectors dim (unat a)); query = row node in
      map_option (\<lambda>visited. robust_prune_via (ar_mul ar alpha) (\<lambda>x y. sq_dist ar (row x) (row y))
          (\<lambda>x ids. build_row_dists ar (row x) ids vectors dim) r node (visited @ adj ! unat node))
        (greedy_search_collect_visited_via entry (unat node) l adj
          (\<lambda>i. sq_dist ar query (row_of vectors dim i)) (\<lambda>ids. build_row_dists ar query ids vectors dim)))"

definition reverse_reqs :: "u32 list \<Rightarrow> u32 list list \<Rightarrow> u32 list list" where
  "reverse_reqs ids adj =
     fold (\<lambda>node reqs. fold (\<lambda>q reqs. reqs[unat q := reqs ! unat q @ [node]]) (adj ! unat node) reqs) ids
       (replicate (length adj) [])"

definition merge_reverse ::
  "'f::linorder arith \<Rightarrow> 'f list \<Rightarrow> nat \<Rightarrow> nat \<Rightarrow> 'f \<Rightarrow> u32 list list \<Rightarrow> u32 list list \<Rightarrow> nat \<Rightarrow> u32 list" where
  "merge_reverse ar vectors dim r alpha adj reqs qi =
     (let incoming = reqs ! qi; row = (\<lambda>a :: u32. row_of vectors dim (unat a)) in
      if incoming = [] then adj ! qi
      else let merged = remdups_adj (sort (filter (\<lambda>x. unat x \<noteq> qi) (adj ! qi @ incoming)))
        in if length merged \<le> r then merged
           else robust_prune_via (ar_mul ar alpha) (\<lambda>x y. sq_dist ar (row x) (row y))
             (\<lambda>x ids. build_row_dists ar (row x) ids vectors dim) r (of_nat qi) merged)"

definition build_vamana_partitioned_with_params ::
  "'f::linorder arith \<Rightarrow> (u64 \<Rightarrow> u32 list \<Rightarrow> u32 list) \<Rightarrow> 'f list \<Rightarrow> nat \<Rightarrow> nat \<Rightarrow> nat \<Rightarrow> nat \<Rightarrow> nat \<Rightarrow> 'f \<Rightarrow> u64 \<Rightarrow>
   (adjacency \<times> u32) option" where
  "build_vamana_partitioned_with_params ar shuffle vectors n dim p r l alpha seed =
     (if p \<le> 1 \<or> n < 2 * max GRAPH_MIN_SHARD_ROWS 1 \<or> n < p
      then build_vamana_with_params ar shuffle vectors n dim r l alpha seed
      else let r = max r 1;
               ids = map of_nat [0..<unat (of_nat n :: u32)];
               order = shuffle seed ids
        in Option.bind (those (map (\<lambda>(s, a, b). shard_graph ar shuffle vectors dim r l alpha seed s (bslice a (b - a) order))
             (enumerate 0 (shard_ranges n p)))) (\<lambda>shards.
           let adj = fold place_shard shards (replicate n []);
               entry = approx_medoid ar vectors n dim
           in map_option (\<lambda>adj. (from_lists (map (merge_reverse ar vectors dim r alpha adj (reverse_reqs ids adj)) [0..<n]), entry))
             (those (map (refine_row ar vectors dim r l alpha entry adj) ids))))"

definition build_vamana_partitioned ::
  "'f::linorder arith \<Rightarrow> (u64 \<Rightarrow> u32 list \<Rightarrow> u32 list) \<Rightarrow> 'f \<Rightarrow> 'f list \<Rightarrow> nat \<Rightarrow> nat \<Rightarrow> nat \<Rightarrow> (adjacency \<times> u32) option" where
  "build_vamana_partitioned ar shuffle GRAPH_ALPHA vectors n dim p =
     build_vamana_partitioned_with_params ar shuffle vectors n dim p GRAPH_DEGREE_R GRAPH_BUILD_L GRAPH_ALPHA GRAPH_SEED"

section \<open>Shards\<close>

text \<open>The shards cut the shuffled order into consecutive pieces of at least \<open>n div p\<close> rows.\<close>

lemma concat_intervals:
  assumes "\<And>i. i < k \<Longrightarrow> (f i :: nat) \<le> f (Suc i)"
  shows "concat (map (\<lambda>i. bslice (f i) (f (Suc i) - f i) xs) [0..<k]) = bslice (f 0) (f k - f 0) xs"
  using assms
proof (induction k)
  case (Suc k)
  have "f 0 \<le> f k" using Suc.prems by (induction k) (auto intro: order_trans)
  then have "drop (f k - f 0) (drop (f 0) xs) = drop (f k) xs" by simp
  then have "bslice (f 0) (f k - f 0) xs @ bslice (f k) (f (Suc k) - f k) xs
      = bslice (f 0) ((f k - f 0) + (f (Suc k) - f k)) xs"
    unfolding bslice_def take_add by simp
  moreover have "(f k - f 0) + (f (Suc k) - f k) = f (Suc k) - f 0" using \<open>f 0 \<le> f k\<close> Suc.prems by auto
  ultimately show ?case using Suc by simp
qed (simp add: bslice_def)

lemma shard_ranges_eq:
  assumes "0 < p" and "p \<le> n"
  shows "shard_ranges n p = map (\<lambda>s. (s * n div p, (s + 1) * n div p)) [0..<p]"
    and "s * n div p + n div p \<le> (s + 1) * n div p"
proof -
  show step: "s * n div p + n div p \<le> (s + 1) * n div p" for s
    using div_add1_eq [of "s * n" n p] by (simp add: add.commute)
  have "0 < n div p" using assms by (simp add: div_greater_zero_iff)
  then have "s * n div p < (s + 1) * n div p" for s using step [of s] by linarith
  then show "shard_ranges n p = map (\<lambda>s. (s * n div p, (s + 1) * n div p)) [0..<p]"
    unfolding shard_ranges_def by (simp add: filter_map o_def)
qed

lemma those_list_all2:
  "\<forall>x \<in> set xs. \<exists>y. f x = Some y \<and> P x y \<Longrightarrow> \<exists>ys. those (map f xs) = Some ys \<and> list_all2 P xs ys"
proof (induction xs)
  case (Cons x xs)
  then obtain y ys where "f x = Some y" "P x y" "those (map f xs) = Some ys" "list_all2 P xs ys" by auto
  then show ?case by auto
qed simp

text \<open>A list for node \<open>i\<close>: other existing nodes, each once, and at least one.\<close>

definition good_row :: "nat \<Rightarrow> nat \<Rightarrow> u32 list \<Rightarrow> bool" where
  "good_row n i row \<longleftrightarrow> distinct row \<and> (\<forall>nb \<in> set row. unat nb < n \<and> unat nb \<noteq> i) \<and> row \<noteq> []"

lemma rows_ok_good: "length adj = n \<Longrightarrow> \<forall>i < n. good_row n i (adj ! i) \<Longrightarrow> rows_ok n adj"
  by (auto simp: rows_ok_def good_row_def)

lemma those_map_some: "those (map (\<lambda>x. Some (f x)) xs) = Some (map f xs)"
  by (induction xs) auto

lemma remap_row_good:
  assumes row: "good_row (length gids) i row" and d: "distinct gids" and i: "i < length gids"
    and gids: "\<forall>g \<in> set gids. unat g < n"
  shows "\<exists>row'. remap_row gids row = Some row' \<and> good_row n (unat (gids ! i)) row'"
proof -
  let ?row = "map (\<lambda>lnb. gids ! unat lnb) row"
  have rows: "map (\<lambda>lnb. if unat lnb < length gids then Some (gids ! unat lnb) else None) row
      = map (\<lambda>lnb. Some (gids ! unat lnb)) row"
    using row by (intro map_cong) (auto simp: good_row_def)
  have "remap_row gids row = Some (sort ?row)"
    unfolding remap_row_def rows those_map_some by simp
  moreover have "inj_on (\<lambda>lnb. gids ! unat lnb) (set row)"
  proof (rule inj_onI)
    fix x y assume "x \<in> set row" "y \<in> set row" "gids ! unat x = gids ! unat y"
    then have "unat x = unat y" using row d by (simp add: good_row_def nth_eq_iff_index_eq)
    then show "x = y" by (simp add: word_unat_eq_iff)
  qed
  then have "distinct ?row" using row by (simp add: distinct_map good_row_def)
  moreover have "unat (gids ! unat lnb) < n \<and> unat (gids ! unat lnb) \<noteq> unat (gids ! i)" if "lnb \<in> set row" for lnb
    using that row d i gids by (auto simp: good_row_def nth_eq_iff_index_eq word_unat_eq_iff [symmetric])
  ultimately show ?thesis using row by (auto simp: good_row_def sort_eq_Nil)
qed

lemma shard_graph_good:
  assumes shuffle: "\<And>seed ids. set (shuffle seed ids) = set ids" and m: "2 \<le> length gids" "length gids \<le> n"
    and n: "n < 2 ^ 32" "n * max r 1 < 2 ^ 32" and wide: "1 < max l r"
    and d: "distinct gids" and gids: "\<forall>g \<in> set gids. unat g < n"
  shows "\<exists>sub. shard_graph ar shuffle vectors dim r l alpha seed s gids = Some (sub, gids) \<and>
    length sub = length gids \<and> (\<forall>i < length gids. good_row n (unat (gids ! i)) (sub ! i))"
proof -
  let ?m = "length gids" and ?vecs = "concat (map (\<lambda>gid. row_of vectors dim (unat gid)) gids)"
  let ?seed = "seed XOR (0x9E3779B97F4A7C15 * (of_nat s + 1))"
  have m32: "?m < 2 ^ 32" using m n by simp
  from build_vamana_lists [where shuffle = shuffle, OF shuffle m32 m(1) wide] obtain adj
    where b: "build_vamana_with_params ar shuffle ?vecs ?m dim r l alpha ?seed
        = Some (from_lists adj, approx_medoid ar ?vecs ?m dim)"
      and ok: "rows_ok ?m adj" and rows: "\<forall>i < ?m. length (adj ! i) \<le> max r 1 \<and> adj ! i \<noteq> []" by blast
  have len: "length adj = ?m" using ok by (simp add: rows_ok_def)
  have "\<forall>xs \<in> set adj. length xs \<le> max r 1" using rows len by (metis in_set_conv_nth)
  from length_concat_le [OF this] len have "length (concat adj) \<le> ?m * max r 1" by simp
  also have "\<dots> \<le> n * max r 1" using m(2) by (rule mult_le_mono1)
  finally have small: "length (concat adj) < 2 ^ 32" using n(2) by linarith
  have row: "\<exists>row. Option.bind (neighbors_of (from_lists adj) i) (remap_row gids) = Some row \<and>
      good_row n (unat (gids ! i)) row" if i: "i < ?m" for i
  proof -
    have "good_row ?m i (sort (adj ! i))"
      using ok rows i by (auto simp: good_row_def rows_ok_def sort_eq_Nil)
    from remap_row_good [OF this d i gids] show ?thesis
      using neighbors_of_from_lists [OF small] i len by simp
  qed
  then have "\<forall>i \<in> set [0..<?m]. \<exists>row. Option.bind (neighbors_of (from_lists adj) i) (remap_row gids) = Some row \<and>
      good_row n (unat (gids ! i)) row" by simp
  from those_list_all2 [OF this] obtain sub
    where "those (map (\<lambda>i. Option.bind (neighbors_of (from_lists adj) i) (remap_row gids)) [0..<?m]) = Some sub"
      and all: "list_all2 (\<lambda>i row. good_row n (unat (gids ! i)) row) [0..<?m] sub" by blast
  then have "shard_graph ar shuffle vectors dim r l alpha seed s gids = Some (sub, gids)"
    unfolding shard_graph_def Let_def b by simp
  with all show ?thesis by (auto simp: list_all2_conv_all_nth)
qed

section \<open>The union\<close>

definition put_row :: "u32 list \<times> u32 \<Rightarrow> u32 list list \<Rightarrow> u32 list list" where
  "put_row = (\<lambda>(row, gid) adj. adj[unat gid := row])"

lemma place_shards_pairs:
  "fold place_shard shards adj = fold put_row (concat (map (\<lambda>(sub, gids). zip sub gids) shards)) adj"
  by (induction shards arbitrary: adj) (auto simp: place_shard_def put_row_def)

lemma length_put_rows [simp]: "length (fold put_row ps adj) = length adj"
  by (induction ps arbitrary: adj) (auto simp: put_row_def)

lemma put_rows_other: "gid \<notin> snd ` set ps \<Longrightarrow> fold put_row ps adj ! unat gid = adj ! unat gid"
  by (induction ps arbitrary: adj) (auto simp: put_row_def nth_list_update word_unat_eq_iff)

lemma put_rows_at:
  "distinct (map snd ps) \<Longrightarrow> (row, gid) \<in> set ps \<Longrightarrow> unat gid < length adj \<Longrightarrow> fold put_row ps adj ! unat gid = row"
proof (induction ps arbitrary: adj)
  case (Cons p ps)
  show ?case
  proof (cases "p = (row, gid)")
    case True
    with Cons.prems have "gid \<notin> snd ` set ps" by auto
    with True Cons.prems show ?thesis by (simp add: put_rows_other) (simp add: put_row_def)
  next
    case False
    with Cons.prems have "(row, gid) \<in> set ps" "distinct (map snd ps)" by auto
    with Cons.IH [of "put_row p adj"] Cons.prems(3) show ?thesis by (cases p) (auto simp: put_row_def)
  qed
qed simp

lemma union_good:
  assumes n: "n < 2 ^ 32" and d: "distinct (concat (map snd shards))"
    and all: "set (concat (map snd shards)) = {i. unat i < n}"
    and good: "\<forall>(sub, gids) \<in> set shards. length sub = length gids \<and>
      (\<forall>i < length gids. good_row n (unat (gids ! i)) (sub ! i))"
  shows "\<forall>i < n. good_row n i (fold place_shard shards (replicate n []) ! i)"
proof (intro allI impI)
  fix i assume i: "i < n"
  let ?ps = "concat (map (\<lambda>(sub, gids). zip sub gids) shards)" and ?g = "of_nat i :: u32"
  have g: "unat ?g = i" using i n by (simp add: unat_of_nat take_bit_nat_eq_self)
  have "map snd ?ps = concat (map snd shards)"
    using good unfolding map_concat by (intro arg_cong [of _ _ concat]) (auto simp: o_def split: prod.splits)
  then have dp: "distinct (map snd ?ps)" using d by simp
  have "?g \<in> set (concat (map snd shards))" using all g i by simp
  then obtain sub gids k where sh: "(sub, gids) \<in> set shards" "k < length gids" "gids ! k = ?g"
    by (auto simp: in_set_conv_nth)
  from bspec [OF good sh(1)] sh(2,3) g have len: "length sub = length gids" and row: "good_row n i (sub ! k)" by auto
  have "(sub ! k, ?g) \<in> set (zip sub gids)" using sh len by (auto simp: set_zip)
  with sh(1) have "(sub ! k, ?g) \<in> set ?ps" by auto
  from put_rows_at [OF dp this] g i row show "good_row n i (fold place_shard shards (replicate n []) ! i)"
    by (simp add: place_shards_pairs)
qed

section \<open>Refinement and reverse edges\<close>

lemma row_prune_selects:
  "0 < r \<Longrightarrow> edge_selection (robust_prune_via scale (\<lambda>x y. sq_dist ar (row_of vectors dim (unat x)) (row_of vectors dim (unat y)))
     (\<lambda>x ids. build_row_dists ar (row_of vectors dim (unat x)) ids vectors dim) r) r"
  by (rule robust_prune_selects) (simp_all add: build_row_dists_def)

lemma selected_good:
  assumes sel: "edge_selection prune r" and pool: "\<forall>c \<in> set cs. unat c < n" and c: "c \<in> set cs" "c \<noteq> p"
  shows "good_row n (unat p) (prune p cs) \<and> length (prune p cs) \<le> r"
  using edge_selection.prune_from_pool [OF sel, of p cs] edge_selection.prune_distinct [OF sel, of p cs]
    edge_selection.prune_bound [OF sel, of p cs] edge_selection.prune_nonempty [OF sel, of c cs p] pool c
  by (auto simp: good_row_def word_unat_eq_iff [symmetric])

lemma refine_row_good:
  assumes len: "length adj = n" and rows: "\<forall>i < n. good_row n i (adj ! i)" and e: "unat entry < n"
    and l: "0 < l" and r: "0 < r" and node: "unat node < n"
  shows "\<exists>row. refine_row ar vectors dim r l alpha entry adj node = Some row \<and>
    good_row n (unat node) row \<and> length row \<le> r"
proof -
  let ?to = "\<lambda>i. sq_dist ar (row_of vectors dim (unat node)) (row_of vectors dim i)"
  let ?many = "\<lambda>ids. build_row_dists ar (row_of vectors dim (unat node)) ids vectors dim"
  have "\<forall>i < length adj. \<forall>nb \<in> set (adj ! i). unat nb < length adj" using rows len by (auto simp: good_row_def)
  moreover have "?many ids = map (?to \<circ> unat) ids" for ids by (simp add: build_row_dists_def)
  ultimately obtain V where V: "greedy_search_collect_visited_via entry (unat node) l adj ?to ?many = Some V"
      "\<forall>v \<in> set V. unat v < n"
    using greedy_search_visits [of adj entry l ?many ?to "unat node"] e len l by metis
  have row: "good_row n (unat node) (adj ! unat node)" using rows node by simp
  then obtain c where c: "c \<in> set (adj ! unat node)" by (cases "adj ! unat node") (auto simp: good_row_def)
  have pool: "\<forall>c \<in> set (V @ adj ! unat node). unat c < n" using V row by (auto simp: good_row_def)
  have "c \<noteq> node" using c row by (auto simp: good_row_def)
  with selected_good [OF row_prune_selects [OF r] pool _ this] c V(1) show ?thesis
    by (simp add: refine_row_def Let_def)
qed

definition all_from :: "u32 set \<Rightarrow> u32 list list \<Rightarrow> bool" where
  "all_from A reqs \<longleftrightarrow> (\<forall>xs \<in> set reqs. set xs \<subseteq> A)"

lemma push_from:
  assumes "all_from A reqs" and "node \<in> A"
  shows "all_from A (reqs[unat q := reqs ! unat q @ [node]])"
proof (cases "unat q < length reqs")
  case True
  then have "set (reqs ! unat q @ [node]) \<subseteq> A" using assms by (auto simp: all_from_def)
  with assms set_update_subset_insert [of reqs "unat q"] show ?thesis by (fastforce simp: all_from_def)
next
  case False
  with assms show ?thesis by (simp add: list_update_beyond not_less)
qed

lemma push_all_from:
  "all_from A reqs \<Longrightarrow> node \<in> A \<Longrightarrow> all_from A (fold (\<lambda>q reqs. reqs[unat q := reqs ! unat q @ [node]]) qs reqs)"
  by (induction qs arbitrary: reqs) (simp_all add: push_from)

lemma reqs_from:
  "all_from A reqs \<Longrightarrow> set nodes \<subseteq> A \<Longrightarrow> all_from A (fold (\<lambda>node reqs. fold
     (\<lambda>q reqs. reqs[unat q := reqs ! unat q @ [node]]) (adj ! unat node) reqs) nodes reqs)"
  by (induction nodes arbitrary: reqs) (simp_all add: push_all_from)

lemma length_push_all [simp]:
  "length (fold (\<lambda>q reqs. reqs[unat q := reqs ! unat q @ [node]]) qs reqs) = length reqs"
  by (induction qs arbitrary: reqs) simp_all

lemma length_reqs [simp]: "length (reverse_reqs ids adj) = length adj"
proof -
  have "length (fold (\<lambda>node reqs. fold (\<lambda>q reqs. reqs[unat q := reqs ! unat q @ [node]]) (adj ! unat node) reqs) ids reqs)
      = length reqs" for reqs
    by (induction ids arbitrary: reqs) simp_all
  then show ?thesis by (simp add: reverse_reqs_def)
qed

lemma reverse_reqs_from:
  assumes "q < length adj"
  shows "set (reverse_reqs ids adj ! q) \<subseteq> set ids"
proof -
  have "all_from (set ids) (reverse_reqs ids adj)"
    unfolding reverse_reqs_def by (rule reqs_from) (auto simp: all_from_def)
  moreover have "reverse_reqs ids adj ! q \<in> set (reverse_reqs ids adj)" using assms by (intro nth_mem) simp
  ultimately show ?thesis by (simp add: all_from_def)
qed

lemma distinct_remdups_adj_sort: "distinct (remdups_adj (sort xs))"
proof -
  have "sorted ys \<Longrightarrow> distinct (remdups_adj ys)" for ys :: "'a list"
    by (induction ys rule: remdups_adj.induct) auto
  then show ?thesis by simp
qed

lemma merge_reverse_good:
  assumes row: "good_row n i (adj ! i)" "length (adj ! i) \<le> r" and reqs: "\<forall>x \<in> set (reqs ! i). unat x < n"
    and r: "0 < r" and i: "i < n" "n < 2 ^ 32"
  shows "good_row n i (merge_reverse ar vectors dim r alpha adj reqs i) \<and>
    length (merge_reverse ar vectors dim r alpha adj reqs i) \<le> r"
proof (cases "reqs ! i = []")
  case True
  with row show ?thesis by (simp add: merge_reverse_def Let_def)
next
  case False
  define merged where "merged = remdups_adj (sort (filter (\<lambda>x. unat x \<noteq> i) (adj ! i @ reqs ! i)))"
  have u: "unat (of_nat i :: u32) = i" using i by (simp add: unat_of_nat take_bit_nat_eq_self)
  obtain c where c: "c \<in> set (adj ! i)" using row by (cases "adj ! i") (auto simp: good_row_def)
  have set: "set merged = {x \<in> set (adj ! i) \<union> set (reqs ! i). unat x \<noteq> i}" unfolding merged_def by auto
  have cm: "c \<in> set merged" using c row set by (auto simp: good_row_def)
  have pool: "\<forall>x \<in> set merged. unat x < n" using set row reqs by (auto simp: good_row_def)
  have ne: "c \<noteq> of_nat i" using cm set u by auto
  have m: "merge_reverse ar vectors dim r alpha adj reqs i = (if length merged \<le> r then merged
      else robust_prune_via (ar_mul ar alpha) (\<lambda>x y. sq_dist ar (row_of vectors dim (unat x)) (row_of vectors dim (unat y)))
        (\<lambda>x ids. build_row_dists ar (row_of vectors dim (unat x)) ids vectors dim) r (of_nat i) merged)"
    using False by (simp add: merge_reverse_def merged_def Let_def)
  show ?thesis
  proof (cases "length merged \<le> r")
    case True
    have "distinct merged" unfolding merged_def by (simp add: distinct_remdups_adj_sort)
    with True m pool set cm show ?thesis by (auto simp: good_row_def)
  next
    case False
    with m selected_good [OF row_prune_selects [OF r] pool cm ne] u show ?thesis by simp
  qed
qed

section \<open>The whole build\<close>

text \<open>The ids of the shards are the shuffled ids, cut up.\<close>

lemma shards_of_order:
  assumes p: "0 < p" "p \<le> n" and order: "length order = n"
  shows "concat (map (\<lambda>(s, a, b). bslice a (b - a) order) (enumerate 0 (shard_ranges n p))) = order"
    and "(s, a, b) \<in> set (enumerate 0 (shard_ranges n p)) \<Longrightarrow> n div p \<le> b - a \<and> b \<le> n"
proof -
  have sr: "shard_ranges n p = map (\<lambda>s. (s * n div p, (s + 1) * n div p)) [0..<p]"
    by (rule shard_ranges_eq [OF p])
  have e: "enumerate 0 (shard_ranges n p) = map (\<lambda>s. (s, s * n div p, (s + 1) * n div p)) [0..<p]"
    unfolding sr by (rule nth_equalityI) (simp_all add: nth_enumerate_eq)
  have "concat (map (\<lambda>(s, a, b). bslice a (b - a) order) (enumerate 0 (shard_ranges n p)))
      = concat (map (\<lambda>s. bslice (s * n div p) (Suc s * n div p - s * n div p) order) [0..<p])"
    by (simp add: e o_def)
  also have "\<dots> = bslice (0 * n div p) (p * n div p - 0 * n div p) order"
    by (rule concat_intervals) (simp add: div_le_mono)
  also have "\<dots> = order" using p order by (simp add: bslice_def)
  finally show "concat (map (\<lambda>(s, a, b). bslice a (b - a) order) (enumerate 0 (shard_ranges n p))) = order" .
  show "n div p \<le> b - a \<and> b \<le> n" if "(s, a, b) \<in> set (enumerate 0 (shard_ranges n p))"
  proof -
    from that have s: "s < p" "a = s * n div p" "b = (s + 1) * n div p" by (auto simp: e)
    have "(s + 1) * n div p \<le> p * n div p" using s(1) by (intro div_le_mono mult_le_mono1) simp
    with s shard_ranges_eq(2) [OF p, of s] p show ?thesis by simp
  qed
qed

lemma shards_good:
  assumes shuffle: "\<And>seed ids. set (shuffle seed ids) = set ids" and n: "n < 2 ^ 32" "n * max r 1 < 2 ^ 32"
    and wide: "1 < max l r" and p: "0 < p" "p * 2 \<le> n"
    and order: "distinct order" "length order = n" "set order = {i. unat i < n}"
  shows "\<exists>shards. those (map (\<lambda>(s, a, b). shard_graph ar shuffle vectors dim r l alpha seed s (bslice a (b - a) order))
      (enumerate 0 (shard_ranges n p))) = Some shards \<and>
    (\<forall>i < n. good_row n i (fold place_shard shards (replicate n []) ! i))"
proof -
  let ?cuts = "enumerate 0 (shard_ranges n p)" and ?ids = "\<lambda>(s :: nat, a, b). bslice a (b - a) order"
  let ?good = "\<lambda>cut (sh :: u32 list list \<times> u32 list). snd sh = ?ids cut \<and> length (fst sh) = length (snd sh) \<and>
    (\<forall>i < length (snd sh). good_row n (unat (snd sh ! i)) (fst sh ! i))"
  have pn: "p \<le> n" using p by simp
  note cuts = shards_of_order [OF p(1) pn order(2)]
  have piece: "\<exists>sh. (\<lambda>(s, a, b). shard_graph ar shuffle vectors dim r l alpha seed s (bslice a (b - a) order)) cut = Some sh \<and>
      ?good cut sh" if cut: "cut \<in> set ?cuts" for cut
  proof -
    obtain s a b where c: "cut = (s, a, b)" by (cases cut)
    have ab: "n div p \<le> b - a" "b \<le> n" using cuts(2) cut c by auto
    have "2 \<le> n div p" using p by (simp add: less_eq_div_iff_mult_less_eq)
    with ab have "2 \<le> b - a" by linarith
    then have len: "length (bslice a (b - a) order) = b - a" using ab order(2) by simp
    have sub: "set (bslice a (b - a) order) \<subseteq> set order"
      unfolding bslice_def using set_take_subset set_drop_subset by fastforce
    have d: "distinct (bslice a (b - a) order)" unfolding bslice_def using order(1) by simp
    have gids: "\<forall>g \<in> set (bslice a (b - a) order). unat g < n" using sub order(3) by blast
    have l2: "2 \<le> length (bslice a (b - a) order)" "length (bslice a (b - a) order) \<le> n"
      using \<open>2 \<le> b - a\<close> ab(2) unfolding len by simp_all
    obtain sb where sb: "shard_graph ar shuffle vectors dim r l alpha seed s (bslice a (b - a) order)
        = Some (sb, bslice a (b - a) order)"
      "length sb = length (bslice a (b - a) order)"
      "\<forall>i < length (bslice a (b - a) order). good_row n (unat (bslice a (b - a) order ! i)) (sb ! i)"
      using shard_graph_good [where shuffle = shuffle and n = n, OF shuffle l2 n wide d gids] by blast
    show ?thesis
      unfolding c prod.case
      by (intro exI [of _ "(sb, bslice a (b - a) order)"] conjI, unfold fst_conv snd_conv) (rule sb refl)+
  qed
  then have "\<forall>cut \<in> set ?cuts. \<exists>sh. (\<lambda>(s, a, b). shard_graph ar shuffle vectors dim r l alpha seed s
        (bslice a (b - a) order)) cut = Some sh \<and> ?good cut sh" by (rule ballI)
  from those_list_all2 [where P = ?good, OF this]
  obtain shards where run: "those (map (\<lambda>(s, a, b). shard_graph ar shuffle vectors dim r l alpha seed s
        (bslice a (b - a) order)) ?cuts) = Some shards"
    and all: "list_all2 ?good ?cuts shards"
    by (elim exE conjE)
  have "map snd shards = map ?ids ?cuts"
    using all by (intro nth_equalityI) (auto simp: list_all2_conv_all_nth)
  then have ids: "concat (map snd shards) = order" using cuts(1) by simp
  have "\<forall>(sub, gids) \<in> set shards. length sub = length gids \<and> (\<forall>i < length gids. good_row n (unat (gids ! i)) (sub ! i))"
    using all by (fastforce simp: list_all2_conv_all_nth in_set_conv_nth)
  from union_good [OF n(1) _ _ this] ids order run show ?thesis by auto
qed

text \<open>
  C15: the parallel build hands the writer a graph the scan accepts too.  For any vectors, any shuffle
  and any cut into shards of at least two rows, the partitioned build returns an adjacency over all
  rows that passes the structural check from its entry point, every row with at least one edge and no
  list longer than the degree bound.
\<close>

theorem partitioned_build_valid:
  assumes shuffle: "\<And>seed ids. mset (shuffle seed ids) = mset ids" and n: "n < 2 ^ 32" "2 \<le> n"
    and edges: "n * max r 1 < 2 ^ 32" and wide: "1 < max l r" "0 < l" and p: "p * 2 \<le> n"
  shows "\<exists>g entry. build_vamana_partitioned_with_params ar shuffle vectors n dim p r l alpha seed = Some (g, entry) \<and>
    node_count g = n \<and> validate g entry = Some None \<and>
    (\<forall>i < n. \<exists>nbs. neighbors_of g i = Some nbs \<and> length nbs \<le> max r 1 \<and> nbs \<noteq> [])"
proof -
  let ?entry = "approx_medoid ar vectors n dim" and ?r = "max r 1"
  have sh: "set (shuffle seed ids) = set ids" for seed ids using shuffle by (metis set_mset_mset)
  have e: "unat ?entry < n" by (rule medoid_below) (use n in simp_all)
  show ?thesis
  proof (cases "p \<le> 1 \<or> n < 2 * max GRAPH_MIN_SHARD_ROWS 1 \<or> n < p")
    case True
    from build_vamana_lists [where shuffle = shuffle, OF sh n wide(1)] obtain adj
      where run: "build_vamana_with_params ar shuffle vectors n dim r l alpha seed = Some (from_lists adj, ?entry)"
        and ok: "rows_ok n adj" and rows: "\<forall>i < n. length (adj ! i) \<le> ?r \<and> adj ! i \<noteq> []" by blast
    from built_graph_valid [OF ok rows edges e] run True show ?thesis
      by (auto simp: build_vamana_partitioned_with_params_def)
  next
    case False
    let ?ids = "map of_nat [0..<unat (of_nat n :: u32)] :: u32 list"
    let ?order = "shuffle seed ?ids"
    have ids: "set ?ids = {i. unat i < n}" "distinct ?ids" "length ?ids = n"
      using ids_below [OF n(1)] by (simp_all add: ids_below_def)
    have order: "distinct ?order" "length ?order = n" "set ?order = {i. unat i < n}"
      using shuffle [of seed ?ids] ids sh by (metis mset_eq_imp_distinct_iff, metis size_mset, metis)
    have r: "n * max ?r 1 < 2 ^ 32" "1 < max l ?r" "0 < ?r" using edges wide by simp_all
    have p0: "0 < p" using False by simp
    from shards_good [where shuffle = shuffle and ar = ar and vectors = vectors and dim = dim and alpha = alpha
        and seed = seed, OF sh n(1) r(1,2) p0 p order]
    obtain shards where sg: "those (map (\<lambda>(s, a, b). shard_graph ar shuffle vectors dim ?r l alpha seed s
          (bslice a (b - a) ?order)) (enumerate 0 (shard_ranges n p))) = Some shards"
      and union: "\<forall>i < n. good_row n i (fold place_shard shards (replicate n []) ! i)" by blast
    let ?adj = "fold place_shard shards (replicate n [])"
    have len: "length ?adj = n" by (simp add: place_shards_pairs)
    have "\<forall>node \<in> set ?ids. \<exists>row. refine_row ar vectors dim ?r l alpha ?entry ?adj node = Some row \<and>
        (good_row n (unat node) row \<and> length row \<le> ?r)"
      using refine_row_good [OF len union e wide(2) r(3)] ids(1) by blast
    from those_list_all2 [where P = "\<lambda>node row. good_row n (unat node) row \<and> length row \<le> ?r", OF this]
    obtain adj where refine: "those (map (refine_row ar vectors dim ?r l alpha ?entry ?adj) ?ids) = Some adj"
        and all: "list_all2 (\<lambda>node row. good_row n (unat node) row \<and> length row \<le> ?r) ?ids adj"
      by (elim exE conjE)
    have len2: "length adj = n" using list_all2_lengthD [OF all] ids(3) by simp
    have rows: "good_row n i (adj ! i) \<and> length (adj ! i) \<le> ?r" if "i < n" for i
    proof -
      have "unat (of_nat i :: u32) = i" using that n by (simp add: unat_of_nat take_bit_nat_eq_self)
      then show ?thesis using list_all2_nthD [OF all, of i] ids(3) that by simp
    qed
    let ?reqs = "reverse_reqs ?ids adj"
    let ?out = "map (merge_reverse ar vectors dim ?r alpha adj ?reqs) [0..<n]"
    have merged: "good_row n i (?out ! i) \<and> length (?out ! i) \<le> ?r" if i: "i < n" for i
    proof -
      have "set (?reqs ! i) \<subseteq> set ?ids" by (rule reverse_reqs_from) (use i len2 in simp)
      then have "\<forall>x \<in> set (?reqs ! i). unat x < n" unfolding ids(1) by blast
      
      from merge_reverse_good [OF conjunct1 [OF rows [OF i]] conjunct2 [OF rows [OF i]] this r(3) i n(1)] i
      show ?thesis by simp
    qed
    have ok: "rows_ok n ?out" by (rule rows_ok_good) (use merged in simp_all)
    have run: "build_vamana_partitioned_with_params ar shuffle vectors n dim p r l alpha seed = Some (from_lists ?out, ?entry)"
      using False sg refine by (simp add: build_vamana_partitioned_with_params_def Let_def)
    have out: "\<forall>i < n. length (?out ! i) \<le> ?r \<and> ?out ! i \<noteq> []"
      using merged unfolding good_row_def by blast
    show ?thesis
      by (intro exI [of _ "from_lists ?out"] exI [of _ ?entry], rule conjI [OF run built_graph_valid [OF ok out edges e]])
  qed
qed

theorem partitioned_build_valid_witness:
  "\<exists>g entry. build_vamana_partitioned_with_params demo_arith (\<lambda>_ ids. ids) (map int [0..<4000]) 4000 1 3 32 64 2 0
      = Some (g, entry) \<and>
    node_count g = 4000 \<and> validate g entry = Some None \<and>
    (\<exists>nbs. neighbors_of g 17 = Some nbs \<and> length nbs \<le> 32 \<and> nbs \<noteq> [])"
proof -
  have "\<exists>g entry. build_vamana_partitioned_with_params demo_arith (\<lambda>_ ids. ids) (map int [0..<4000]) 4000 1 3 32 64 2 0
      = Some (g, entry) \<and>
    node_count g = 4000 \<and> validate g entry = Some None \<and>
    (\<forall>i < 4000. \<exists>nbs. neighbors_of g i = Some nbs \<and> length nbs \<le> max 32 1 \<and> nbs \<noteq> [])"
    by (rule partitioned_build_valid) simp_all
  then obtain g entry where run: "build_vamana_partitioned_with_params demo_arith (\<lambda>_ ids. ids) (map int [0..<4000])
      4000 1 3 32 64 2 0 = Some (g, entry)"
    and g: "node_count g = 4000" "validate g entry = Some None"
    and nbs: "\<forall>i < 4000. \<exists>nbs. neighbors_of g i = Some nbs \<and> length nbs \<le> max 32 1 \<and> nbs \<noteq> []"
    by (elim exE conjE)
  from nbs [rule_format, of 17] obtain row where "neighbors_of g 17 = Some row" "length row \<le> 32" "row \<noteq> []"
    by auto
  with run g show ?thesis by (intro exI conjI)
qed

end
