(* ===== verification/Coarse.thy ===== *)
theory Coarse
  imports Partition "HOL-Library.Product_Lexorder"
begin

text \<open>
  Choosing the cells a query probes (\<open>src/index/ivf.rs\<close>): the exact linear scan \<open>coarse_probe\<close>, the
  symmetric nearest-neighbor graph over the centroids and the beam search on it, and the dispatch
  between them.  \<open>CentroidGraph\<close> is the same pair of arrays as \<open>GraphAdjacency\<close> with the same accessor.
  Centroids are slices of length \<open>dim\<close>: the callers pass \<open>lists * dim\<close> coordinates, which the source
  asserts.
\<close>

section \<open>Definitions\<close>

record 'f coarse_model =
  cm_centroids :: "'f list"
  cm_lists :: nat
  cm_dim :: nat

definition centroid :: "'f coarse_model \<Rightarrow> nat \<Rightarrow> 'f list" where
  "centroid m c = row_of (cm_centroids m) (cm_dim m) c"

definition assign_one :: "'f::linorder arith \<Rightarrow> 'f coarse_model \<Rightarrow> 'f list \<Rightarrow> nat" where
  "assign_one ar m v =
     snd (fold (\<lambda>c (best_d, best). let d = sq_dist ar v (centroid m c) in if d < best_d then (d, c) else (best_d, best))
       [0..<cm_lists m] (ar_infinity ar, 0))"

definition clamp_nprobe :: "nat \<Rightarrow> nat \<Rightarrow> nat" where
  "clamp_nprobe nlists nprobe = min (min (max nprobe 1) (max nlists 1)) nlists"

definition cell_dist :: "'f arith \<Rightarrow> 'f list \<Rightarrow> nat \<Rightarrow> 'f list \<Rightarrow> nat \<Rightarrow> 'f" where
  "cell_dist ar centroids dim q c = sq_dist ar q (row_of centroids dim c)"

definition coarse_probe :: "'f::linorder arith \<Rightarrow> 'f list \<Rightarrow> nat \<Rightarrow> nat \<Rightarrow> 'f list \<Rightarrow> nat \<Rightarrow> u32 list" where
  "coarse_probe ar centroids nlists dim query_rotated nprobe =
     map cand_id (take (clamp_nprobe nlists nprobe)
       (sort (map (\<lambda>c. Cand (cell_dist ar centroids dim query_rotated c) (of_nat c)) [0..<nlists])))"

definition GRAPH_MIN_LISTS :: nat where "GRAPH_MIN_LISTS = 4096"
definition GRAPH_DEGREE :: nat where "GRAPH_DEGREE = 16"
definition GRAPH_EF_MULTIPLIER :: nat where "GRAPH_EF_MULTIPLIER = 4"
definition GRAPH_EF_FLOOR :: nat where "GRAPH_EF_FLOOR = 32"

type_synonym centroid_graph = adjacency

text \<open>The directed pass: the nearest other cells of cell \<open>c\<close>.\<close>

definition directed_row :: "'f::linorder arith \<Rightarrow> 'f list \<Rightarrow> nat \<Rightarrow> nat \<Rightarrow> nat \<Rightarrow> nat \<Rightarrow> u32 list" where
  "directed_row ar centroids nlists dim degree c =
     map cand_id (take degree (sort (map
       (\<lambda>j. Cand (sq_dist ar (row_of centroids dim c) (row_of centroids dim j)) (of_nat j))
       (filter (\<lambda>j. j \<noteq> c) [0..<nlists]))))"

definition both_ways :: "u32 list list \<Rightarrow> (u32 \<times> u32) list" where
  "both_ways directed = remdups_adj (sort (concat (map
     (\<lambda>(c, row). concat (map (\<lambda>nb. [(of_nat c, nb), (nb, of_nat c)]) row)) (enumerate 0 directed))))"

text \<open>The prefix sums of the out-degrees, in \<open>u32\<close>.\<close>

definition csr_offsets :: "nat \<Rightarrow> (u32 \<times> u32) list \<Rightarrow> u32 list" where
  "csr_offsets nlists edges =
     (let counts = fold (\<lambda>(from, _) os. os[unat from + 1 := os ! (unat from + 1) + 1]) edges (replicate (nlists + 1) 0)
      in fold (\<lambda>i os. os[i := os ! i + os ! (i - 1)]) [1..<length counts] counts)"

definition build_centroid_graph :: "'f::linorder arith \<Rightarrow> 'f list \<Rightarrow> nat \<Rightarrow> nat \<Rightarrow> centroid_graph" where
  "build_centroid_graph ar centroids nlists dim =
     (let degree = min GRAPH_DEGREE (nlists - 1) in
      if nlists \<le> 1 \<or> degree = 0 then \<lparr>ga_offsets = replicate (nlists + 1) 0, ga_neighbors = []\<rparr>
      else let edges = both_ways (map (directed_row ar centroids nlists dim degree) [0..<nlists])
        in \<lparr>ga_offsets = csr_offsets nlists edges, ga_neighbors = map snd edges\<rparr>)"

text \<open>
  The beam search over the centroid graph.  The source scores a neighbor as it meets it; marking
  all neighbors of a cell first, as the shared loop does, scores the same ones in the same order.
\<close>

definition graph_probe ::
  "'f::linorder arith \<Rightarrow> centroid_graph \<Rightarrow> 'f list \<Rightarrow> nat \<Rightarrow> nat \<Rightarrow> 'f list \<Rightarrow> nat \<Rightarrow> u32 \<Rightarrow> u32 list option" where
  "graph_probe ar graph centroids nlists dim query_rotated nprobe entry =
     (let nprobe = clamp_nprobe nlists nprobe in
      if nlists = 0 then Some []
      else
        let ef = min (max (min (nprobe * GRAPH_EF_MULTIPLIER) (2 ^ 64 - 1)) GRAPH_EF_FLOOR) nlists;
            entry = min (unat entry) (nlists - 1);
            dist_to = cell_dist ar centroids dim query_rotated
        in map_option (\<lambda>b. map cand_id (take nprobe (sort (bm_results b))))
             (beam_loop nearest ef (\<lambda>c. neighbors_of graph (unat c)) (\<lambda>_. False) (\<lambda>_. False)
               (map (\<lambda>c. dist_to (unat c))) (beam_start nlists (of_nat entry) (dist_to entry))))"

definition coarse_probe_dispatch ::
  "'f::linorder arith \<Rightarrow> 'f list \<Rightarrow> nat \<Rightarrow> nat \<Rightarrow> 'f list \<Rightarrow> nat \<Rightarrow> centroid_graph option \<Rightarrow> u32 list option" where
  "coarse_probe_dispatch ar centroids nlists dim query_rotated nprobe graph =
     (case graph of
        Some g \<Rightarrow> graph_probe ar g centroids nlists dim query_rotated nprobe 0
      | None \<Rightarrow> Some (coarse_probe ar centroids nlists dim query_rotated nprobe))"

section \<open>The linear scan\<close>

definition cells :: "nat \<Rightarrow> u32 list" where
  "cells nlists = map of_nat [0..<nlists]"

lemma cells_eq: "nlists < 2 ^ 32 \<Longrightarrow> cells nlists = ids_below nlists"
  by (simp add: cells_def ids_below_def unat_of_nat take_bit_nat_eq_self)

lemma scored_cells:
  assumes "nlists < 2 ^ 32"
  shows "map (\<lambda>c. Cand (f c) (of_nat c)) [0..<nlists] = scored (\<lambda>c. f (unat c)) (ids_below nlists)"
  unfolding scored_def cells_eq [OF assms, symmetric] cells_def
  using assms by (simp add: unat_of_nat take_bit_nat_eq_self)

lemma sort_cands_le: "sorted_wrt (\<le>) (sort xs)" for xs :: "'a::linorder cand list"
  by simp

text \<open>The nearest \<open>k\<close> of a list of cells, ties to the lower id.\<close>

lemma nearest_prefix:
  fixes sc :: "u32 \<Rightarrow> 's::linorder"
  assumes d: "distinct ids" and out: "out = map cand_id (take k (sort (scored sc ids)))"
  shows "length out = min k (length ids) \<and> distinct out \<and> set out \<subseteq> set ids \<and>
    sorted_wrt (\<lambda>a b. Cand (sc a) a \<le> Cand (sc b) b) out \<and>
    (\<forall>a \<in> set out. \<forall>b \<in> set ids - set out. Cand (sc a) a \<le> Cand (sc b) b)"
proof -
  let ?s = "sort (scored sc ids)" and ?f = "\<lambda>a. Cand (sc a) a"
  have s: "?s = map ?f (map cand_id ?s)"
  proof -
    have "\<forall>c \<in> set ?s. ?f (cand_id c) = c" by (auto simp: scored_def)
    then have "map (\<lambda>c. ?f (cand_id c)) ?s = ?s" by (intro map_idI) simp
    then show ?thesis by (simp add: o_def)
  qed
  define ys where "ys = map cand_id ?s"
  have perm: "mset ys = mset ids"
  proof -
    have "mset ys = image_mset cand_id (mset (scored sc ids))" by (simp add: ys_def)
    also have "\<dots> = mset ids" by (simp flip: mset_map)
    finally show ?thesis .
  qed
  then have ys: "distinct ys" "set ys = set ids" "length ys = length ids"
    using d by (metis mset_eq_imp_distinct_iff, metis mset_eq_setD, metis size_mset)
  have "sorted_wrt (\<le>) (map ?f (map cand_id ?s))" by (simp only: s [symmetric] sorted_sort)
  then have "sorted_wrt (\<lambda>a b. ?f a \<le> ?f b) ys" by (simp only: ys_def sorted_wrt_map)
  then have srt: "sorted_wrt (\<lambda>a b. ?f a \<le> ?f b) (take k ys @ drop k ys)" by simp
  have o: "out = take k ys" by (simp add: out ys_def take_map)
  have "set ids - set out \<subseteq> set (drop k ys)"
    using ys(2) unfolding o by (metis Diff_subset_conv append_take_drop_id order_refl set_append)
  with srt ys show ?thesis
    unfolding o sorted_wrt_append using set_take_subset [of k ys] by (auto simp: min.commute)
qed

text \<open>
  C24: the linear probe returns the cells it should: as many as asked for, at least one and at most all,
  different ones in order of distance, ties to the lower id, and none left out is nearer than one returned.
\<close>

theorem coarse_probe_nearest:
  fixes ar :: "'f::linorder arith"
  assumes "nlists < 2 ^ 32" and "out = coarse_probe ar centroids nlists dim q nprobe"
  shows "length out = clamp_nprobe nlists nprobe \<and> distinct out \<and> set out \<subseteq> {c. unat c < nlists} \<and>
    sorted_wrt (\<lambda>a b. Cand (cell_dist ar centroids dim q (unat a)) a \<le> Cand (cell_dist ar centroids dim q (unat b)) b) out \<and>
    (\<forall>a \<in> set out. \<forall>b. unat b < nlists \<longrightarrow> b \<notin> set out \<longrightarrow>
       cell_dist ar centroids dim q (unat a) \<le> cell_dist ar centroids dim q (unat b))"
proof -
  note ids = ids_below [OF assms(1)]
  have "out = map cand_id (take (clamp_nprobe nlists nprobe)
      (sort (scored (\<lambda>c. cell_dist ar centroids dim q (unat c)) (ids_below nlists))))"
    unfolding assms(2) coarse_probe_def scored_cells [OF assms(1)] by (rule refl)
  note near = nearest_prefix [OF ids(2) this, unfolded ids(1,3)]
  have "length out = clamp_nprobe nlists nprobe" using near by (simp add: clamp_nprobe_def)
  moreover have "cell_dist ar centroids dim q (unat a) \<le> cell_dist ar centroids dim q (unat b)"
    if "a \<in> set out" "unat b < nlists" "b \<notin> set out" for a b
  proof -
    from near that have "Cand (cell_dist ar centroids dim q (unat a)) a \<le> Cand (cell_dist ar centroids dim q (unat b)) b"
      by blast
    then show ?thesis by (auto simp: less_eq_cand_def)
  qed
  ultimately show ?thesis using near by blast
qed

theorem coarse_probe_nearest_witness:
  "coarse_probe demo_arith [5, 1, 9, 2] 4 1 [0] 2 = [1, 3] \<and> length [1 :: u32, 3] = clamp_nprobe 4 2"
proof -
  have "coarse_probe demo_arith [5, 1, 9, 2] 4 1 [0] 2 = [1, 3]"
  proof -
    have "[0..<4] = [0, 1, 2, 3]" by (simp add: upt_rec)
    then have "map (\<lambda>c. Cand (cell_dist demo_arith [5, 1, 9, 2] 1 [0] c) (of_nat c :: u32)) [0..<4]
        = [Cand 25 0, Cand 1 1, Cand 81 2, Cand 4 3]"
      by (simp add: cell_dist_def sq_dist_def row_of_def bslice_def demo_arith_def)
    then show ?thesis by (simp add: coarse_probe_def clamp_nprobe_def less_eq_cand_def)
  qed
  with coarse_probe_nearest [of 4 "[1, 3]" demo_arith "[5, 1, 9, 2]" 1 "[0]" 2] show ?thesis by simp
qed

section \<open>The graph search\<close>

lemma sort_mset_eq: "mset xs = mset ys \<Longrightarrow> sort xs = sort ys" for xs :: "'a::linorder list"
  by (metis properties_for_sort sorted_sort mset_sort)

text \<open>
  The two probes are interchangeable where it matters.  On a graph whose neighbor lists can be read,
  when the beam is as wide as the number of cells and every cell is reachable from the entry cell, the
  graph search returns exactly what the linear scan returns.
\<close>

theorem graph_probe_exact:
  fixes ar :: "'f::linorder arith"
  assumes n: "0 < nlists" "nlists < 2 ^ 32" and walk: "walkable nlists (csr_neighbors g)"
    and wide: "nlists \<le> max (clamp_nprobe nlists nprobe * GRAPH_EF_MULTIPLIER) GRAPH_EF_FLOOR"
    and conn: "\<And>i. unat i < nlists \<Longrightarrow>
      reaches nlists (csr_neighbors g) (\<lambda>_. False) (\<lambda>_. False) (of_nat (min (unat entry) (nlists - 1))) i"
  shows "graph_probe ar g centroids nlists dim q nprobe entry = Some (coarse_probe ar centroids nlists dim q nprobe)"
proof -
  let ?e = "of_nat (min (unat entry) (nlists - 1)) :: u32"
  let ?sc = "\<lambda>c :: u32. cell_dist ar centroids dim q (unat c)"
  let ?np = "clamp_nprobe nlists nprobe"
  have "min (unat entry) (nlists - 1) < 2 ^ 32" using n by linarith
  then have ue: "unat ?e = min (unat entry) (nlists - 1)" by (simp add: unat_of_nat take_bit_nat_eq_self)
  have e: "unat ?e < nlists" unfolding ue using n by linarith
  have "?np \<le> nlists" by (simp add: clamp_nprobe_def)
  with n have "?np * GRAPH_EF_MULTIPLIER \<le> 2 ^ 64 - 1" by (simp add: GRAPH_EF_MULTIPLIER_def)
  with wide have ef: "min (max (min (?np * GRAPH_EF_MULTIPLIER) (2 ^ 64 - 1)) GRAPH_EF_FLOOR) nlists
      = min (max nlists 0) nlists"
    by linarith
  have pos: "0 < min (max nlists 0) nlists" using n by simp
  obtain b where run: "beam_loop nearest (min (max nlists 0) nlists) (csr_neighbors g) (\<lambda>_. False) (\<lambda>_. False)
        (map ?sc) (beam_start nlists ?e (?sc ?e)) = Some b"
    and ok: "beam_ok nearest (min (max nlists 0) nlists) nlists (csr_neighbors g) (\<lambda>_. False) (\<lambda>_. False) ?sc [] b"
    and mono: "\<forall>j < nlists. bm_visited (beam_start nlists ?e (?sc ?e)) ! j \<longrightarrow> bm_visited b ! j"
    and fin: "bm_frontier b = [] \<or> min (max nlists 0) nlists \<le> length (bm_results b)"
    using nearest_sense.beam_loop_ok [where nbrs = "csr_neighbors g" and score_batch = "map ?sc" and sc = ?sc, OF walk refl pos
        nearest_sense.beam_start_ok [where dead = "\<lambda>_. False" and n = nlists and entry = ?e, OF e _ pos]] by blast
  have seen: "seen nlists (\<lambda>_. False) b ?e" using mono e by (auto simp: seen_def beam_start_def)
  have rows: "live_rows nlists (\<lambda>_. False) = ids_below nlists" by (simp add: live_rows_def)
  have "mset (map cand_id (bm_results b)) = mset (live_rows nlists (\<lambda>_. False))"
    by (rule full_beam_keeps_live [OF ok n(2) _ seen fin])
      (use conn ids_below(1) [OF n(2)] in \<open>simp_all add: rows\<close>)
  then have perm: "mset (map cand_id (bm_results b)) = mset (ids_below nlists)" unfolding rows .
  have nodes: "beam_nodes nlists (\<lambda>_. False) ?sc [] b" using ok by (simp add: beam_ok_def)
  have "bm_results b = scored ?sc (map cand_id (bm_results b))" by (rule kept_scored [OF nodes])
  then have "mset (bm_results b) = image_mset (\<lambda>i. Cand (?sc i) i) (mset (map cand_id (bm_results b)))"
    by (metis mset_map scored_def)
  then have "mset (bm_results b) = mset (scored ?sc (ids_below nlists))" by (simp add: perm [simplified] scored_def)
  from sort_mset_eq [OF this] have srt: "sort (bm_results b) = sort (scored ?sc (ids_below nlists))" .
  have "beam_start nlists (of_nat (min (unat entry) (nlists - 1))) (cell_dist ar centroids dim q (min (unat entry) (nlists - 1)))
      = beam_start nlists ?e (?sc ?e)"
    by (simp only: ue)
  then show ?thesis
    using run n srt unfolding graph_probe_def Let_def ef coarse_probe_def scored_cells [OF n(2)] by simp
qed

theorem graph_probe_exact_witness:
  "graph_probe demo_arith (from_lists [[1], [0]]) [5, 1] 2 1 [0] 1 0 = Some (coarse_probe demo_arith [5, 1] 2 1 [0] 1)"
proof (rule graph_probe_exact)
  let ?g = "from_lists [[1], [0]]"
  have nb: "neighbors_of ?g 0 = Some [1]" "neighbors_of ?g 1 = Some [0]"
    by (simp_all add: from_lists_def neighbors_of_def bslice_def Let_def)
  have two: "i = 0 \<or> i = 1" if "unat i < 2" for i :: u32
    using that by (auto simp: less_2_cases_iff word_unat_eq_iff)
  show "walkable 2 (csr_neighbors ?g)"
    unfolding walkable_def using two nb by fastforce
  show "reaches 2 (csr_neighbors ?g) (\<lambda>_. False) (\<lambda>_. False) (of_nat (min (unat 0) (2 - 1))) i" if "unat i < 2" for i
  proof -
    have "reaches 2 (csr_neighbors ?g) (\<lambda>_. False) (\<lambda>_. False) 0 1"
      by (rule reaches.hop [OF reaches.here, where nbs = "[1]"]) (simp_all add: nb)
    with two [OF that] reaches.here show ?thesis by auto
  qed
qed (simp_all add: GRAPH_EF_FLOOR_def)

section \<open>The centroid graph\<close>

lemma sorted_filter_slice:
  fixes f :: "'a \<Rightarrow> nat"
  shows "sorted_wrt (\<lambda>a b. f a \<le> f b) xs \<Longrightarrow>
    bslice (length (filter (\<lambda>x. f x < c) xs)) (length (filter (\<lambda>x. f x = c) xs)) xs = filter (\<lambda>x. f x = c) xs"
proof (induction xs)
  case (Cons x xs)
  consider "f x < c" | "f x = c" | "c < f x" by linarith
  then show ?case
  proof cases
    case 2
    with Cons.prems have "filter (\<lambda>x. f x < c) xs = []" by (auto simp: filter_empty_conv)
    with 2 Cons show ?thesis by (simp add: bslice_def)
  next
    case 3
    with Cons.prems have "filter (\<lambda>x. f x < c) xs = []" "filter (\<lambda>x. f x = c) xs = []"
      by (auto simp: filter_empty_conv)
    with 3 show ?thesis by (simp add: bslice_def)
  qed (use Cons in \<open>simp add: bslice_def\<close>)
qed (simp add: bslice_def)

definition edges_from :: "(u32 \<times> u32) list \<Rightarrow> nat \<Rightarrow> (u32 \<times> u32) list" where
  "edges_from edges c = filter (\<lambda>e. unat (fst e) = c) edges"

definition edges_below :: "(u32 \<times> u32) list \<Rightarrow> nat \<Rightarrow> nat" where
  "edges_below edges c = length (filter (\<lambda>e. unat (fst e) < c) edges)"

lemma edges_below_Suc: "edges_below edges (Suc c) = edges_below edges c + length (edges_from edges c)"
  by (induction edges) (auto simp: edges_below_def edges_from_def less_Suc_eq)

lemma edges_below_0 [simp]: "edges_below edges 0 = 0"
  by (simp add: edges_below_def)

lemma edges_below_le: "edges_below edges c \<le> length edges"
  by (simp add: edges_below_def)

lemma length_count_degrees [simp]:
  "length (fold (\<lambda>(from, _) os. os[unat from + 1 := os ! (unat from + 1) + 1]) edges os) = length os"
  by (induction edges arbitrary: os) (auto split: prod.splits)

lemma count_degrees:
  fixes os :: "u32 list"
  shows "\<forall>e \<in> set edges. unat (fst e) + 1 < length os \<Longrightarrow> k < length os \<Longrightarrow>
    fold (\<lambda>(from, _) os. os[unat from + 1 := os ! (unat from + 1) + 1]) edges os ! k
      = os ! k + (if k = 0 then 0 else of_nat (length (edges_from edges (k - 1))))"
proof (induction edges arbitrary: os)
  case (Cons e edges)
  then show ?case by (cases k) (auto simp: edges_from_def nth_list_update split: prod.splits)
qed (simp add: edges_from_def)

lemma prefix_sums:
  fixes os :: "u32 list"
  assumes "m \<le> length os"
  shows "fold (\<lambda>i os. os[i := os ! i + os ! (i - 1)]) [1..<m] os
    = map (\<lambda>k. sum_list (take (Suc k) os)) [0..<m] @ drop m os"
  using assms
proof (induction m)
  case (Suc m)
  show ?case
  proof (cases "m = 0")
    case True
    with Suc.prems show ?thesis by (cases os) auto
  next
    case False
    let ?pre = "map (\<lambda>k. sum_list (take (Suc k) os)) [0..<m]"
    have d: "drop m os = os ! m # drop (Suc m) os" using Suc.prems by (simp add: Cons_nth_drop_Suc)
    have "(?pre @ drop m os) ! m = os ! m" using d by (simp add: nth_append)
    moreover have "(?pre @ drop m os) ! (m - 1) = sum_list (take m os)" using False by (simp add: nth_append)
    moreover have "sum_list (take (Suc m) os) = os ! m + sum_list (take m os)"
      using Suc.prems by (simp add: take_Suc_conv_app_nth)
    moreover have "(?pre @ drop m os)[m := x] = ?pre @ x # drop (Suc m) os" for x
      using d by (simp add: list_update_append)
    ultimately have "(?pre @ drop m os)[m := (?pre @ drop m os) ! m + (?pre @ drop m os) ! (m - 1)]
        = map (\<lambda>k. sum_list (take (Suc k) os)) [0..<Suc m] @ drop (Suc m) os"
      by simp
    with Suc False show ?thesis by simp
  qed
qed simp

lemma csr_offsets_nth:
  assumes range: "\<forall>e \<in> set edges. unat (fst e) < nlists" and k: "k \<le> nlists"
  shows "csr_offsets nlists edges ! k = of_nat (edges_below edges k)" and "length (csr_offsets nlists edges) = nlists + 1"
proof -
  define counts :: "u32 list" where
    "counts = fold (\<lambda>(from, _) os. os[unat from + 1 := os ! (unat from + 1) + 1]) edges (replicate (nlists + 1) 0)"
  have len: "length counts = nlists + 1" unfolding counts_def length_count_degrees by simp
  have cnt: "counts ! k = (if k = 0 then 0 else of_nat (length (edges_from edges (k - 1))))" if "k \<le> nlists" for k
    unfolding counts_def using that range by (subst count_degrees) (auto simp: nth_Cons')
  have sums: "sum_list (take (Suc k) counts) = of_nat (edges_below edges k)" if "k \<le> nlists" for k
    using that
  proof (induction k)
    case 0
    then show ?case using cnt [of 0] len by (cases counts) auto
  next
    case (Suc k)
    have "sum_list (take (Suc (Suc k)) counts) = sum_list (take (Suc k) counts) + counts ! Suc k"
      using Suc.prems len by (simp add: take_Suc_conv_app_nth [of "Suc k"])
    with Suc cnt [of "Suc k"] show ?case by (simp add: edges_below_Suc)
  qed
  have o: "csr_offsets nlists edges = map (\<lambda>k. sum_list (take (Suc k) counts)) [0..<nlists + 1]"
    unfolding csr_offsets_def counts_def [symmetric] Let_def len
    using prefix_sums [of "nlists + 1" counts] len by simp
  show "length (csr_offsets nlists edges) = nlists + 1" by (simp add: o)
  show "csr_offsets nlists edges ! k = of_nat (edges_below edges k)" using sums k by (simp add: o del: upt_Suc)
qed

lemma both_ways_edges:
  "sorted (both_ways rows)" "distinct (both_ways rows)"
  "set (both_ways rows) = (\<Union>c < length rows. \<Union>nb \<in> set (rows ! c). {(of_nat c, nb), (nb, of_nat c)})"
proof -
  show "sorted (both_ways rows)" unfolding both_ways_def by (intro sorted_remdups_adj sorted_sort)
  show "distinct (both_ways rows)" unfolding both_ways_def by (rule distinct_remdups_adj_sort)
  have e: "enumerate 0 rows = map (\<lambda>c. (c, rows ! c)) [0..<length rows]"
    by (rule nth_equalityI) (simp_all add: nth_enumerate_eq)
  show "set (both_ways rows) = (\<Union>c < length rows. \<Union>nb \<in> set (rows ! c). {(of_nat c, nb), (nb, of_nat c)})"
    unfolding both_ways_def e by auto
qed

lemma csr_row:
  fixes es :: "(u32 \<times> u32) list"
  assumes srt: "sorted es" and range: "\<forall>e \<in> set es. unat (fst e) < nlists" and small: "length es < 2 ^ 32"
    and c: "c < nlists"
  shows "neighbors_of \<lparr>ga_offsets = csr_offsets nlists es, ga_neighbors = map snd es\<rparr> c = Some (map snd (edges_from es c))"
proof -
  have off: "unat (csr_offsets nlists es ! k) = edges_below es k" if "k \<le> nlists" for k
    using csr_offsets_nth(1) [OF range that] edges_below_le [of es k] small
    by (simp add: unat_of_nat take_bit_nat_eq_self)
  have "sorted_wrt (\<lambda>a b. unat (fst a) \<le> unat (fst b)) es"
    by (rule sorted_wrt_mono_rel [OF _ srt]) (auto simp: less_eq_prod_def word_le_nat_alt word_less_nat_alt)
  from sorted_filter_slice [OF this, of c]
  have "bslice (edges_below es c) (length (edges_from es c)) es = edges_from es c"
    by (simp add: edges_below_def edges_from_def)
  then have "bslice (edges_below es c) (length (edges_from es c)) (map snd es) = map snd (edges_from es c)"
    by (simp add: bslice_def drop_map take_map)
  then show ?thesis
    using c off [of c] off [of "Suc c"] csr_offsets_nth(2) [OF range c [THEN less_imp_le]] edges_below_le [of es "Suc c"]
    by (simp add: neighbors_of_def edges_below_Suc Let_def)
qed

lemma edges_from_sorted:
  "sorted es \<Longrightarrow> distinct es \<Longrightarrow> sorted_wrt (<) (map snd (edges_from es c))"
proof (induction es)
  case (Cons e es)
  have "snd e < snd x" if x: "x \<in> set es" "unat (fst x) = unat (fst e)" for x
  proof -
    have f: "fst x = fst e" using x(2) by (simp add: word_unat_eq_iff)
    moreover have "e \<le> x" "e \<noteq> x" using Cons.prems x(1) by auto
    ultimately have "snd e \<le> snd x" "snd e \<noteq> snd x" by (auto simp: less_eq_prod_def prod_eq_iff)
    then show ?thesis by simp
  qed
  with Cons show ?case by (auto simp: edges_from_def)
qed (simp add: edges_from_def)

lemma directed_row_range:
  assumes "nlists < 2 ^ 32" and "nb \<in> set (directed_row ar centroids nlists dim degree c)"
  shows "unat nb < nlists \<and> unat nb \<noteq> c"
proof -
  from assms(2) obtain j where "j < nlists" "j \<noteq> c" "nb = of_nat j"
    by (auto simp: directed_row_def dest!: in_set_takeD)
  then show ?thesis using assms(1) by (simp add: unat_of_nat take_bit_nat_eq_self)
qed

lemma length_both_ways_le: "\<forall>row \<in> set rows. length row \<le> m \<Longrightarrow> length (both_ways rows) \<le> length rows * (2 * m)"
proof -
  have "length (remdups_adj (sort es)) \<le> length es" for es :: "(u32 \<times> u32) list"
    by (metis length_sort remdups_adj_length)
  moreover assume "\<forall>row \<in> set rows. length row \<le> m"
  then have "length (concat (map (\<lambda>(c, row). concat (map (\<lambda>nb. [(f c, nb), (nb, f c)]) row)) (enumerate k rows)))
      \<le> length rows * (2 * m)" for f :: "nat \<Rightarrow> u32" and k
  proof (induction rows arbitrary: k)
    case (Cons row rows)
    have "length (concat (map (\<lambda>nb. [(f k, nb), (nb, f k)]) row)) = 2 * length row" by (induction row) auto
    with Cons.prems Cons.IH [of "Suc k"] show ?case by simp
  qed simp
  ultimately show ?thesis unfolding both_ways_def by (meson le_trans)
qed

text \<open>
  The centroid graph can be walked both ways.  Its list of a cell can be read, holds existing other
  cells in strictly ascending order, contains the nearest ones, and two cells are on each other's lists or
  on neither.
\<close>

theorem centroid_graph_symmetric:
  assumes n: "1 < nlists" "nlists < 2 ^ 27"
    and g: "g = build_centroid_graph ar centroids nlists dim"
  shows "\<exists>rows. length rows = nlists \<and>
    (\<forall>c < nlists. neighbors_of g c = Some (rows ! c) \<and> sorted_wrt (<) (rows ! c) \<and>
      (\<forall>nb \<in> set (rows ! c). unat nb < nlists \<and> unat nb \<noteq> c \<and> of_nat c \<in> set (rows ! unat nb)) \<and>
      set (directed_row ar centroids nlists dim (min GRAPH_DEGREE (nlists - 1)) c) \<subseteq> set (rows ! c))"
proof -
  let ?deg = "min GRAPH_DEGREE (nlists - 1)"
  define near where "near = map (directed_row ar centroids nlists dim ?deg) [0..<nlists]"
  define es where "es = both_ways near"
  define rows where "rows = map (\<lambda>c. map snd (edges_from es c)) [0..<nlists]"
  have n32: "nlists < 2 ^ 32" using n by simp
  have u: "unat (of_nat c :: u32) = c" if "c < nlists" for c
    using that n32 by (simp add: unat_of_nat take_bit_nat_eq_self)
  have range: "unat nb < nlists \<and> unat nb \<noteq> c" if "c < nlists" "nb \<in> set (near ! c)" for c nb
    using directed_row_range [OF n32] that by (simp add: near_def)
  have len: "{..<length near} = {..<nlists}" by (simp add: near_def)
  have es: "(a, b) \<in> set es \<longleftrightarrow> (unat a < nlists \<and> b \<in> set (near ! unat a)) \<or> (unat b < nlists \<and> a \<in> set (near ! unat b))"
    for a b
  proof -
    have "(a, b) \<in> set es \<longleftrightarrow> (\<exists>c < nlists. \<exists>nb \<in> set (near ! c). (a, b) = (of_nat c, nb) \<or> (a, b) = (nb, of_nat c))"
      unfolding es_def both_ways_edges(3) len by blast
    also have "\<dots> \<longleftrightarrow> (unat a < nlists \<and> b \<in> set (near ! unat a)) \<or> (unat b < nlists \<and> a \<in> set (near ! unat b))"
    proof
      assume "(unat a < nlists \<and> b \<in> set (near ! unat a)) \<or> (unat b < nlists \<and> a \<in> set (near ! unat b))"
      then show "\<exists>c < nlists. \<exists>nb \<in> set (near ! c). (a, b) = (of_nat c, nb) \<or> (a, b) = (nb, of_nat c)"
      proof (elim disjE conjE)
        assume "unat a < nlists" "b \<in> set (near ! unat a)"
        then show ?thesis by (intro exI [of _ "unat a"] conjI bexI [of _ b]) auto
      next
        assume "unat b < nlists" "a \<in> set (near ! unat b)"
        then show ?thesis by (intro exI [of _ "unat b"] conjI bexI [of _ a]) auto
      qed
    qed (use u in auto)
    finally show ?thesis .
  qed
  have sym: "(a, b) \<in> set es \<Longrightarrow> (b, a) \<in> set es" for a b unfolding es by blast
  have ends: "unat a < nlists \<and> unat b < nlists \<and> a \<noteq> b" if "(a, b) \<in> set es" for a b
    using that range unfolding es by blast
  have "\<forall>row \<in> set near. length row \<le> 16" by (auto simp: near_def directed_row_def GRAPH_DEGREE_def)
  from length_both_ways_le [OF this] n have small: "length es < 2 ^ 32" by (simp add: es_def near_def)
  have row: "nb \<in> set (rows ! c) \<longleftrightarrow> (of_nat c, nb) \<in> set es" if "c < nlists" for c nb
    using that u by (force simp: rows_def edges_from_def)
  have "neighbors_of g c = Some (rows ! c)" if "c < nlists" for c
    using csr_row [OF _ _ small that] both_ways_edges(1) [of near] ends that n
    by (fastforce simp: g build_centroid_graph_def near_def es_def rows_def GRAPH_DEGREE_def Let_def)
  moreover have "sorted_wrt (<) (rows ! c)" if "c < nlists" for c
    using edges_from_sorted [of es c] both_ways_edges(1,2) [of near] that by (simp add: rows_def es_def)
  moreover have "unat nb < nlists \<and> unat nb \<noteq> c \<and> of_nat c \<in> set (rows ! unat nb)"
    if c: "c < nlists" and nb: "nb \<in> set (rows ! c)" for c nb
  proof -
    from nb have e: "(of_nat c, nb) \<in> set es" using row [OF c] by simp
    from ends [OF e] have nb: "unat nb < nlists" "unat nb \<noteq> c" using u [OF c] by (auto simp: word_unat_eq_iff)
    with sym [OF e] row [OF nb(1)] show ?thesis by simp
  qed
  moreover have "set (directed_row ar centroids nlists dim ?deg c) \<subseteq> set (rows ! c)" if "c < nlists" for c
    using row [OF that] es u [OF that] that by (auto simp: near_def)
  moreover have "length rows = nlists" by (simp add: rows_def)
  ultimately show ?thesis by blast
qed

theorem centroid_graph_symmetric_witness:
  "\<exists>rows. length rows = 3 \<and> neighbors_of (build_centroid_graph demo_arith [5, 1, 9] 3 1) 2 = Some (rows ! 2) \<and>
    sorted_wrt (<) (rows ! 2)"
  using centroid_graph_symmetric [of 3 _ demo_arith "[5, 1, 9]" 1, OF _ _ refl] by fastforce

end
