(* ===== verification/Vacuum.thy ===== *)
theory Vacuum
  imports Entry Coarse
begin

text \<open>
  VACUUM (\<open>src/index/vacuum.rs\<close>): the liveness pass over the ids, the tombstone bitmaps of the kinds whose
  slots may not move, and the in-place swap-remove of a flat index with its cancel points, its duplicate
  check, the shrunken meta page and the truncated tail.  The callback answers for a row id; the heap
  behind it is not part of the repository.  The \<open>f64\<close> counters of \<open>IndexBulkDeleteResult\<close> are naturals.
\<close>

section \<open>Definitions\<close>

record bulk_stats =
  bs_num_index_tuples :: nat
  bs_tuples_removed :: nat

definition dead_slots :: "(u64 \<Rightarrow> bool) \<Rightarrow> u64 list \<Rightarrow> nat list" where
  "dead_slots cb ids = filter (\<lambda>s. cb (ids ! s)) [0..<length ids]"

text \<open>One bit per slot; a slot past the corpus is ignored.\<close>

definition mark_dead :: "nat \<Rightarrow> nat list \<Rightarrow> u8 list \<Rightarrow> u8 list" where
  "mark_dead n slots bitmap = fold (\<lambda>slot bm. if n \<le> slot then bm
     else bm[slot div 8 := bm ! (slot div 8) OR push_bit (slot mod 8) 1]) slots bitmap"

definition sized_bitmap :: "nat \<Rightarrow> u8 list \<Rightarrow> u8 list" where
  "sized_bitmap n bitmap =
     (let n_bytes = nat_div_ceil n 8 in if length bitmap < n_bytes then resize0 n_bytes bitmap else bitmap)"

definition count_ones :: "u8 list \<Rightarrow> nat" where
  "count_ones bitmap = sum_list (map (\<lambda>b. length (filter (bit b) [0..<8])) bitmap)"

definition ivf_tombstone_dead ::
  "'r pstore \<Rightarrow> bool \<Rightarrow> meta \<Rightarrow> nat list \<Rightarrow> u32 \<Rightarrow> ('r, nat) io" where
  "ivf_tombstone_dead S skip m slots new_am_version =
     bind_io (read_tombstones S m) (\<lambda>old.
       let bitmap = mark_dead (unat (m_n_vectors m)) slots (sized_bitmap (unat (m_n_vectors m)) old) in
       seq_io (write_tombstones_and_meta S skip m bitmap new_am_version) (ret (count_ones bitmap)))"

text \<open>The entry point that survives a VACUUM of a graph index; an adjacency out of range panics.\<close>

definition slot_expands :: "adjacency \<Rightarrow> (nat \<Rightarrow> bool) \<Rightarrow> nat \<Rightarrow> bool option" where
  "slot_expands g dead s = map_option (list_ex (\<lambda>nb. \<not> dead (unat nb))) (neighbors_of g s)"

definition vacuum_entry :: "adjacency option \<Rightarrow> nat \<Rightarrow> (nat \<Rightarrow> bool) \<Rightarrow> u32 \<Rightarrow> u32 option" where
  "vacuum_entry adjacency n dead ep =
     (let expands = (case adjacency of
            None \<Rightarrow> Some False
          | Some g \<Rightarrow> if unat ep < node_count g then slot_expands g dead (unat ep) else Some False)
      in case expands of
        None \<Rightarrow> None
      | Some ok \<Rightarrow>
          if \<not> dead (unat ep) \<and> ok then Some ep
          else
            (case (case adjacency of None \<Rightarrow> Some None
                   | Some g \<Rightarrow> find_first (\<lambda>s. if dead s then Some False else slot_expands g dead s) [0..<n]) of
               None \<Rightarrow> None
             | Some (Some s) \<Rightarrow> Some (of_nat s)
             | Some None \<Rightarrow> (case find (\<lambda>s. \<not> dead s) [0..<n] of Some s \<Rightarrow> Some (of_nat s) | None \<Rightarrow> Some 0)))"

definition graph_tombstone_dead ::
  "'r pstore \<Rightarrow> bool \<Rightarrow> meta \<Rightarrow> nat list \<Rightarrow> u32 \<Rightarrow> ('r, nat) io" where
  "graph_tombstone_dead S skip m slots new_am_version =
     bind_io (read_tombstones S m) (\<lambda>old.
       let n = unat (m_n_vectors m); bitmap = mark_dead n slots (sized_bitmap n old) in
       bind_io (read_graph_adjacency S m) (\<lambda>adjacency.
       bind_io (option_io OutOfBounds (vacuum_entry adjacency n (slot_dead bitmap) (m_graph_entry_point m))) (\<lambda>ep.
       seq_io (write_tombstones_and_meta S skip (m\<lparr>m_graph_entry_point := ep\<rparr>) bitmap new_am_version)
         (ret (count_ones bitmap)))))"

text \<open>The flat path: the last live row moves into each hole, highest hole first.\<close>

definition move_row :: "'r pstore \<Rightarrow> meta \<Rightarrow> u64 \<Rightarrow> u64 \<Rightarrow> ('r, unit) io" where
  "move_row S m hind s =
     seq_io (copy_slot_in_chain S (m_codes_first m) (m_stride_bytes m) (m_rows_per_codes_page m) hind s)
     (seq_io (copy_slot_in_chain S (m_scales_first m) 4 (m_rows_per_scales_page m) hind s)
             (copy_slot_in_chain S (m_ids_first m) 8 (m_rows_per_ids_page m) hind s))"

fun swap_remove :: "'r pstore \<Rightarrow> meta \<Rightarrow> nat list \<Rightarrow> u64 \<Rightarrow> ('r, u64) io" where
  "swap_remove S m [] alive = ret alive"
| "swap_remove S m (dead_slot # rest) alive =
     seq_io check_for_interrupts
       (let s = of_nat dead_slot; hind = alive - 1 in
        seq_io (when_io (s \<noteq> hind) (move_row S m hind s)) (swap_remove S m rest (alive - 1)))"

definition check_survivors :: "'r pstore \<Rightarrow> meta \<Rightarrow> u64 \<Rightarrow> ('r, unit) io" where
  "check_survivors S m alive =
     when_io (m_lists m = 0 \<and> 0 < alive)
       (bind_io (read_chain S (m_ids_first m) 8 (m_rows_per_ids_page m) alive) (\<lambda>ids_bytes.
         case first_duplicate_id (bytes_u64s ids_bytes) of
           Some bad \<Rightarrow> seq_io unlock_relfile_write (raise (DuplicateAfterVacuum bad))
         | None \<Rightarrow> ret ()))"

definition sat_succ :: "u32 \<Rightarrow> u32" where
  "sat_succ v = saturating_add v 1"

definition vacuum_flat :: "'r pstore \<Rightarrow> meta \<Rightarrow> nat list \<Rightarrow> bulk_stats \<Rightarrow> ('r, bulk_stats) io" where
  "vacuum_flat S m dead stats =
     bind_io (swap_remove S m (rev dead) (m_n_vectors m)) (\<lambda>alive.
     seq_io (check_survivors S m alive)
     (seq_io (write_meta_shrink_in_place S m alive (sat_succ (m_am_version m)))
     (seq_io (truncate_ids_tail S (m\<lparr>m_n_vectors := alive\<rparr>))
     (seq_io unlock_relfile_write
       (ret (stats\<lparr>bs_num_index_tuples := unat alive,
          bs_tuples_removed := bs_tuples_removed stats + length dead\<rparr>))))))"

definition vacuum_tombstones ::
  "'r pstore \<Rightarrow> meta \<Rightarrow> nat \<Rightarrow> ('r, nat) io \<Rightarrow> bulk_stats \<Rightarrow> ('r, bulk_stats) io" where
  "vacuum_tombstones S m removed tombstone stats =
     bind_io tombstone (\<lambda>total_dead.
     seq_io unlock_relfile_write
       (ret (stats\<lparr>bs_num_index_tuples := unat (m_n_vectors m) - total_dead,
          bs_tuples_removed := bs_tuples_removed stats + removed\<rparr>)))"

definition ambulkdelete_relfile ::
  "'r pstore \<Rightarrow> bool \<Rightarrow> (u64 \<Rightarrow> bool) option \<Rightarrow> bulk_stats \<Rightarrow> ('r, bulk_stats) io" where
  "ambulkdelete_relfile S skip callback stats =
     bind_io (read_meta S) (\<lambda>mo. case mo of
       None \<Rightarrow> ret stats
     | Some m0 \<Rightarrow> if m_n_vectors m0 = 0 then ret stats
       else (case callback of
         None \<Rightarrow> ret (stats\<lparr>bs_num_index_tuples := unat (m_n_vectors m0)\<rparr>)
       | Some cb \<Rightarrow>
           seq_io lock_relfile_write (bind_io (read_meta S) (\<lambda>mo.
             case (case mo of Some m \<Rightarrow> if m_n_vectors m = 0 then None else Some m | None \<Rightarrow> None) of
               None \<Rightarrow> seq_io unlock_relfile_write (ret (stats\<lparr>bs_num_index_tuples := 0\<rparr>))
             | Some m \<Rightarrow>
                 bind_io (read_ids_only S m) (\<lambda>ids.
                   let dead = dead_slots cb ids; v = sat_succ (m_am_version m) in
                   if dead = [] then
                     seq_io unlock_relfile_write (ret (stats\<lparr>bs_num_index_tuples := unat (m_n_vectors m)\<rparr>))
                   else if has_ivf m then
                     vacuum_tombstones S m (length dead) (ivf_tombstone_dead S skip m dead v) stats
                   else if is_graph m \<or> is_bq m then
                     vacuum_tombstones S m (length dead) (graph_tombstone_dead S skip m dead v) stats
                   else vacuum_flat S m dead stats)))))"

definition ambulkdelete ::
  "'r pstore \<Rightarrow> bool \<Rightarrow> (u64 \<Rightarrow> bool) option \<Rightarrow> bulk_stats option \<Rightarrow> ('r, bulk_stats) io" where
  "ambulkdelete S skip callback stats =
     ambulkdelete_relfile S skip callback
       (case stats of Some s \<Rightarrow> s | None \<Rightarrow> \<lparr>bs_num_index_tuples = 0, bs_tuples_removed = 0\<rparr>)"

definition amvacuumcleanup :: "bulk_stats option \<Rightarrow> bulk_stats option" where
  "amvacuumcleanup stats = stats"

section \<open>Tombstone bits\<close>

lemma length_mark_dead [simp]: "length (mark_dead n slots bm) = length bm"
  unfolding mark_dead_def by (induction slots arbitrary: bm) auto

lemma mark_dead_exact:
  assumes "n \<le> 8 * length bm"
  shows "slot_dead (mark_dead n slots bm) s \<longleftrightarrow> slot_dead bm s \<or> s < n \<and> s \<in> set slots"
  using assms
proof (induction slots arbitrary: bm)
  case Nil
  then show ?case by (simp add: mark_dead_def)
next
  case (Cons t slots)
  show ?case
  proof (cases "n \<le> t")
    case True
    with Cons show ?thesis by (auto simp: mark_dead_def)
  next
    case False
    then have t: "t div 8 < length bm" using Cons.prems by linarith
    let ?bm = "bm[t div 8 := bm ! (t div 8) OR push_bit (t mod 8) 1]"
    have "slot_dead ?bm s \<longleftrightarrow> slot_dead bm s \<or> s = t"
    proof (cases "s div 8 = t div 8")
      case same: True
      have "s mod 8 < 8" by simp
      then have "bit (push_bit (t mod 8) 1 :: u8) (s mod 8) \<longleftrightarrow> s mod 8 = t mod 8"
        by (auto simp: bit_exp_iff possible_bit_def)
      moreover have "s mod 8 = t mod 8 \<longleftrightarrow> s = t" using same by (metis div_mult_mod_eq)
      ultimately show ?thesis using t same by (simp add: slot_dead_def bit_or_iff)
    next
      case False
      then show ?thesis by (auto simp: slot_dead_def nth_list_update)
    qed
    moreover have "mark_dead n (t # slots) bm = mark_dead n slots ?bm" using False by (simp add: mark_dead_def)
    moreover have "n \<le> 8 * length ?bm" using Cons.prems by simp
    ultimately show ?thesis using Cons.IH [of ?bm] False by auto
  qed
qed

section \<open>Moving rows in a chain\<close>

lemma blit_concat_same:
  assumes "\<And>x. x \<in> set xss \<Longrightarrow> length x = w" and "k < length xss" and "length y = w"
  shows "blit (k * w) y (concat xss) = concat (xss[k := y])"
proof -
  have "take (k * w) (concat xss) = concat (take k xss)" by (rule take_concat_same) (use assms in simp)
  moreover have "drop (k * w + w) (concat xss) = concat (drop (Suc k) xss)"
    using drop_concat_same [of xss w "Suc k"] assms(1) by (simp add: add.commute)
  ultimately show ?thesis
    using assms(2,3) by (simp add: blit_def upd_conv_take_nth_drop)
qed

lemma page_holds_nth:
  "page_holds p src \<longleftrightarrow> length src \<le> length (pg_data p) \<and> (\<forall>i < length src. pg_data p ! i = src ! i)"
  unfolding page_holds_def by (auto simp: list_eq_iff_nth_eq)

lemma page_holds_blit:
  assumes "page_holds p src" and "off + length x \<le> length src"
  shows "page_holds (p\<lparr>pg_data := blit off x (pg_data p)\<rparr>) (blit off x src)"
  using assms by (auto simp: page_holds_nth nth_blit)

lemma page_holds_slice:
  assumes h: "page_holds p src" and n: "off + n \<le> length src"
  shows "bslice off n (pg_data p) = bslice off n src"
proof -
  have src: "src = take (length src) (pg_data p)" using h by (simp add: page_holds_def)
  have "bslice off n (take (length src) (pg_data p)) = bslice off n (pg_data p)"
    using n by (simp add: bslice_def drop_take min_def)
  with src show ?thesis by metis
qed

text \<open>A chain of rows of one length, and its pages.\<close>

definition rows_at :: "'r pstore \<Rightarrow> 'r \<Rightarrow> u32 \<Rightarrow> u32 \<Rightarrow> u32 \<Rightarrow> u8 list list \<Rightarrow> bool" where
  "rows_at S r first stride rpp rows \<longleftrightarrow> (\<forall>x \<in> set rows. length x = unat stride) \<and>
     (\<forall>k. k * unat rpp < length rows \<longrightarrow> unat first + k < ps_nblocks S r \<and>
        page_holds (ps_read S r (unat first + k)) (concat (take (unat rpp) (drop (k * unat rpp) rows))))"

lemma rows_at_stores:
  assumes "rows_at S r first stride rpp rows" and s: "0 < unat stride"
  shows "stores S r (unat first) (unat rpp * unat stride) (concat rows)"
  unfolding stores_def
proof (intro allI impI)
  fix k
  have w: "\<And>x. x \<in> set rows \<Longrightarrow> length x = unat stride" using assms by (simp add: rows_at_def)
  have len: "length (concat rows) = length rows * unat stride" by (rule length_concat_same) (rule w)
  assume "k * (unat rpp * unat stride) < length (concat rows)"
  then have k: "k * unat rpp < length rows" using s len by (simp add: mult.assoc [symmetric])
  have "drop (k * (unat rpp * unat stride)) (concat rows) = concat (drop (k * unat rpp) rows)"
    using drop_concat_same [of rows "unat stride" "k * unat rpp"] w by (simp add: mult.assoc)
  moreover have "take (unat rpp * unat stride) (concat (drop (k * unat rpp) rows))
      = concat (take (unat rpp) (drop (k * unat rpp) rows))"
    by (rule take_concat_same) (use w in \<open>auto dest: in_set_dropD\<close>)
  ultimately show "unat first + k < ps_nblocks S r \<and> page_holds (ps_read S r (unat first + k))
      (take (unat rpp * unat stride) (drop (k * (unat rpp * unat stride)) (concat rows)))"
    using assms k by (simp add: rows_at_def)
qed

definition last_block :: "u32 \<Rightarrow> u32 \<Rightarrow> nat \<Rightarrow> nat" where
  "last_block first rpp n = unat first + nat_div_ceil n (unat rpp)"

lemma slot_block: "0 < rpp \<Longrightarrow> i < n \<Longrightarrow> i div rpp < nat_div_ceil n rpp"
  using nat_div_ceil_le_iff [of rpp n "i div rpp"] div_times_less_eq_dividend [of i rpp] by linarith

context page_store
begin

lemma rows_at_write:
  assumes rows: "rows_at S r first stride rpp rows" and rpp: "0 < unat rpp" and j: "j < length rows"
    and x: "length x = unat stride"
    and p: "p = (ps_read S r (unat first + j div unat rpp))
      \<lparr>pg_data := blit (j mod unat rpp * unat stride) x (pg_data (ps_read S r (unat first + j div unat rpp)))\<rparr>"
  shows "rows_at S (ps_write S (unat first + j div unat rpp) p r) first stride rpp (rows[j := x])"
proof -
  let ?R = "unat rpp" and ?d = "unat stride" and ?b = "unat first + j div unat rpp"
  let ?page = "\<lambda>rows k. concat (take ?R (drop (k * ?R) rows))"
  have pages: "unat first + k < ps_nblocks S r" "page_holds (ps_read S r (unat first + k)) (?page rows k)"
    if "k * ?R < length rows" for k
    using rows that by (auto simp: rows_at_def)
  have w: "\<And>y. y \<in> set rows \<Longrightarrow> length y = ?d" using rows by (simp add: rows_at_def)
  have jb: "j div ?R * ?R < length rows" using j div_times_less_eq_dividend [of j ?R] by linarith
  note b = pages [OF jb]
  have jmod: "j mod ?R < ?R" using rpp by simp
  have jdm: "j = j div ?R * ?R + j mod ?R" by simp
  have page: "page_holds (ps_read S (ps_write S ?b p r) (unat first + k)) (?page (rows[j := x]) k)"
    if k: "k * ?R < length rows" for k
  proof (cases "k = j div ?R")
    case True
    let ?chunk = "take ?R (drop (k * ?R) rows)"
    have wc: "\<And>y. y \<in> set ?chunk \<Longrightarrow> length y = ?d" using w by (meson in_set_dropD in_set_takeD)
    have i: "j mod ?R < length ?chunk"
    proof -
      have "j mod ?R < length rows - k * ?R" unfolding True using j jdm by linarith
      then show ?thesis using jmod by simp
    qed
    have "take ?R (drop (k * ?R) (rows[j := x])) = ?chunk[j mod ?R := x]"
      using jdm True jmod
      by (metis add_diff_cancel_left' drop_update_swap le_add1 take_update_swap)
    then have new: "?page (rows[j := x]) k = blit (j mod ?R * ?d) x (concat ?chunk)"
      using blit_concat_same [of ?chunk ?d "j mod ?R" x] wc i x by metis
    have "length (concat ?chunk) = length ?chunk * ?d" by (rule length_concat_same) (rule wc)
    moreover have "(j mod ?R + 1) * ?d \<le> length ?chunk * ?d" using i by (intro mult_le_mono1) simp
    ultimately have "j mod ?R * ?d + length x \<le> length (concat ?chunk)" using x by simp
    from page_holds_blit [OF _ this] pages(2) [OF k] True
    show ?thesis unfolding new using b(1) by (simp add: read_write p)
  next
    case False
    have "take ?R (drop (k * ?R) (rows[j := x])) = take ?R (drop (k * ?R) rows)"
    proof (cases "j < k * ?R")
      case True
      then show ?thesis by simp
    next
      case low: False
      have "k < j div ?R" using False low rpp
        by (metis div_le_mono div_mult_self_is_m le_neq_implies_less leI mult.commute)
      then have "Suc k * ?R \<le> j div ?R * ?R" by (intro mult_le_mono1) simp
      then have "?R + k * ?R \<le> j div ?R * ?R" by simp
      also have "\<dots> \<le> j" by (rule div_times_less_eq_dividend)
      finally have "?R \<le> j - k * ?R" by linarith
      with low show ?thesis by (simp add: drop_update_swap)
    qed
    then show ?thesis using pages [OF k] b(1) False by (simp add: read_write)
  qed
  have "\<forall>y \<in> set (rows[j := x]). length y = ?d"
    using w x set_update_subset_insert [of rows j x] by blast
  with page pages(1) b(1) show ?thesis by (simp add: rows_at_def nblocks_write)
qed

lemma copy_slot_moves:
  assumes rows: "rows_at S (w_rel w) first stride rpp rows" and rpp: "0 < unat rpp"
    and pay: "unat rpp * unat stride \<le> PAYLOAD_BYTES"
    and room: "last_block first rpp (length rows) < 2 ^ 32"
    and i: "unat i < length rows" "unat j < length rows" "i \<noteq> j"
  shows "\<exists>p. copy_slot_in_chain S first stride rpp i j w
      = (Inr (), w\<lparr>w_rel := ps_write S (unat first + unat j div unat rpp) p (w_rel w), w_wal := w_wal w + 1\<rparr>) \<and>
    unat first + unat j div unat rpp < ps_nblocks S (w_rel w) \<and>
    rows_at S (ps_write S (unat first + unat j div unat rpp) p (w_rel w)) first stride rpp (rows[unat j := rows ! unat i])"
proof -
  let ?R = "unat rpp" and ?d = "unat stride"
  have rpp0: "rpp \<noteq> 0" using rpp by auto
  have parts: "unat (k mod ucast rpp) = unat k mod ?R" "unat (first + ucast (k div ucast rpp)) = unat first + unat k div ?R"
    if "unat k < length rows" for k :: u64
  proof -
    show "unat (k mod ucast rpp) = unat k mod ?R" by (simp add: unat_mod unat_ucast_u32_u64)
    have small: "unat first + unat k div ?R < 2 ^ 32"
      using slot_block [OF rpp that] room by (simp add: last_block_def)
    have "unat (ucast (k div ucast rpp) :: u32) = unat k div ?R"
      using small by (simp add: unsigned_ucast_eq unat_div unat_ucast_u32_u64 take_bit_nat_eq_self)
    then show "unat (first + ucast (k div ucast rpp)) = unat first + unat k div ?R"
      using small by (subst unat_add_lem [THEN iffD1]) simp_all
  qed
  have w: "\<And>y. y \<in> set rows \<Longrightarrow> length y = ?d" using rows by (simp add: rows_at_def)
  have page: "unat first + k div ?R < ps_nblocks S (w_rel w)"
      "bslice (k mod ?R * ?d) ?d (pg_data (ps_read S (w_rel w) (unat first + k div ?R))) = rows ! k"
    if k: "k < length rows" for k
  proof -
    let ?chunk = "take ?R (drop (k div ?R * ?R) rows)"
    have kR: "k div ?R * ?R < length rows" using k div_times_less_eq_dividend [of k ?R] by linarith
    then show "unat first + k div ?R < ps_nblocks S (w_rel w)" using rows by (simp add: rows_at_def)
    have wc: "\<And>y. y \<in> set ?chunk \<Longrightarrow> length y = ?d" using w by (meson in_set_dropD in_set_takeD)
    have kdm: "k = k div ?R * ?R + k mod ?R" by simp
    have kl: "k mod ?R < length rows - k div ?R * ?R" using k kdm by linarith
    then have c: "k mod ?R < length ?chunk" using rpp by simp
    have at: "?chunk ! (k mod ?R) = rows ! k" using c kdm kl rpp by simp
    have "length (concat ?chunk) = length ?chunk * ?d" by (rule length_concat_same) (rule wc)
    moreover have "(k mod ?R + 1) * ?d \<le> length ?chunk * ?d" using c by (intro mult_le_mono1) simp
    ultimately have "k mod ?R * ?d + ?d \<le> length (concat ?chunk)" by simp
    moreover have "page_holds (ps_read S (w_rel w) (unat first + k div ?R)) (concat ?chunk)"
      using rows kR by (simp add: rows_at_def)
    ultimately have "bslice (k mod ?R * ?d) ?d (pg_data (ps_read S (w_rel w) (unat first + k div ?R)))
        = bslice (k mod ?R * ?d) ?d (concat ?chunk)"
      by (intro page_holds_slice)
    also have "\<dots> = ?chunk ! (k mod ?R)" by (rule bslice_concat_same) (use wc c in auto)
    finally show "bslice (k mod ?R * ?d) ?d (pg_data (ps_read S (w_rel w) (unat first + k div ?R))) = rows ! k"
      using at by simp
  qed
  have offs: "\<not> PAYLOAD_BYTES < k mod ?R * ?d + ?d" for k
  proof -
    have "k mod ?R < ?R" using rpp by simp
    then have "(k mod ?R + 1) * ?d \<le> ?R * ?d" by (intro mult_le_mono1) simp
    with pay show ?thesis by simp
  qed
  let ?j = "unat j"
  let ?p = "(ps_read S (w_rel w) (unat first + ?j div ?R))
      \<lparr>pg_data := blit (?j mod ?R * ?d) (rows ! unat i) (pg_data (ps_read S (w_rel w) (unat first + ?j div ?R)))\<rparr>"
  have x: "length (rows ! unat i) = ?d" using w i(1) by simp
  have "copy_slot_in_chain S first stride rpp i j w
      = (Inr (), w\<lparr>w_rel := ps_write S (unat first + ?j div ?R) ?p (w_rel w), w_wal := w_wal w + 1\<rparr>)"
    using page [OF i(1)] page [OF i(2)] offs [of "unat i"] offs [of ?j] rpp0 i(3)
    by (auto simp: copy_slot_in_chain_def parts [OF i(1)] parts [OF i(2)] Let_def bind_io_def read_block_def install_page_def)
  with rows_at_write [OF rows rpp i(2) x refl] page(1) [OF i(2)] show ?thesis by blast
qed

lemma copy_slot_maps:
  assumes "rows_at S (w_rel w) first stride rpp (map f rows)" and "0 < unat rpp"
    and "unat rpp * unat stride \<le> PAYLOAD_BYTES" and "last_block first rpp (length rows) < 2 ^ 32"
    and "unat i < length rows" "unat j < length rows" "i \<noteq> j"
  obtains p where "copy_slot_in_chain S first stride rpp i j w
      = (Inr (), w\<lparr>w_rel := ps_write S (unat first + unat j div unat rpp) p (w_rel w), w_wal := w_wal w + 1\<rparr>)"
    and "unat first + unat j div unat rpp < ps_nblocks S (w_rel w)"
    and "rows_at S (ps_write S (unat first + unat j div unat rpp) p (w_rel w)) first stride rpp
      (map f (rows[unat j := rows ! unat i]))"
proof -
  have "(map f rows)[unat j := map f rows ! unat i] = map f (rows[unat j := rows ! unat i])"
    using assms(5) by (simp add: map_update)
  with copy_slot_moves [OF assms(1-3), of i j] assms(4-7) that show thesis by (metis length_map)
qed

lemma rows_at_other:
  assumes "rows_at S r first stride rpp rows" and "0 < unat rpp" and "b < ps_nblocks S r"
    and "b < unat first \<or> last_block first rpp (length rows) \<le> b"
  shows "rows_at S (ps_write S b p r) first stride rpp rows"
proof -
  have "unat first + k \<noteq> b" if "k * unat rpp < length rows" for k
    using nat_div_ceil_le_iff [OF assms(2), of "length rows" k] assms(4) that by (auto simp: last_block_def)
  with assms(1,3) show ?thesis by (auto simp: rows_at_def read_write nblocks_write)
qed

end

section \<open>The rows of a flat index\<close>

text \<open>A row is its code, its scale and its id.\<close>

type_synonym vrow = "u8 list \<times> f32_bits \<times> u64"

definition flat_rows :: "'r pstore \<Rightarrow> meta \<Rightarrow> vrow list \<Rightarrow> 'r \<Rightarrow> bool" where
  "flat_rows S m rows r \<longleftrightarrow>
     rows_at S r (m_codes_first m) (m_stride_bytes m) (m_rows_per_codes_page m) (map fst rows) \<and>
     rows_at S r (m_scales_first m) 4 (m_rows_per_scales_page m) (map (le32 \<circ> fst \<circ> snd) rows) \<and>
     rows_at S r (m_ids_first m) 8 (m_rows_per_ids_page m) (map (le64 \<circ> snd \<circ> snd) rows)"

text \<open>The three chains of \<open>n\<close> rows lie one after the other behind the meta page.\<close>

definition chain_pages :: "u32 \<Rightarrow> u32 \<Rightarrow> bool" where
  "chain_pages stride rpp \<longleftrightarrow> 0 < unat rpp \<and> 0 < unat stride \<and> unat rpp * unat stride \<le> PAYLOAD_BYTES"

definition flat_layout :: "meta \<Rightarrow> nat \<Rightarrow> bool" where
  "flat_layout m n \<longleftrightarrow> chain_pages (m_stride_bytes m) (m_rows_per_codes_page m) \<and>
     chain_pages 4 (m_rows_per_scales_page m) \<and> chain_pages 8 (m_rows_per_ids_page m) \<and>
     0 < unat (m_codes_first m) \<and>
     last_block (m_codes_first m) (m_rows_per_codes_page m) n \<le> unat (m_scales_first m) \<and>
     last_block (m_scales_first m) (m_rows_per_scales_page m) n \<le> unat (m_ids_first m) \<and>
     last_block (m_ids_first m) (m_rows_per_ids_page m) n < 2 ^ 32"

text \<open>What a move leaves alone.\<close>

definition moved :: "'r pstore \<Rightarrow> 'r world \<Rightarrow> 'r world \<Rightarrow> bool" where
  "moved S w w' \<longleftrightarrow> ps_nblocks S (w_rel w') = ps_nblocks S (w_rel w) \<and>
     (0 < ps_nblocks S (w_rel w) \<longrightarrow> ps_read S (w_rel w') 0 = ps_read S (w_rel w) 0) \<and>
     w_polls w' = w_polls w \<and> w_xlock w' = w_xlock w \<and> w_slock w' = w_slock w"

lemma moved_refl [simp]: "moved S w w" and moved_trans: "moved S w w1 \<Longrightarrow> moved S w1 w2 \<Longrightarrow> moved S w w2"
  by (auto simp: moved_def)

fun swap_rows :: "nat list \<Rightarrow> nat \<Rightarrow> 'a list \<Rightarrow> 'a list" where
  "swap_rows [] alive rows = rows"
| "swap_rows (s # ss) alive rows = swap_rows ss (alive - 1) (rows[s := rows ! (alive - 1)])"

lemma length_swap_rows [simp]: "length (swap_rows ds alive rows) = length rows"
  by (induction ds alive rows rule: swap_rows.induct) auto

lemma slot_count:
  assumes "sorted_wrt (>) ds" and "\<forall>d \<in> set ds. d < (n :: nat)"
  shows "length ds \<le> n"
proof -
  have "distinct ds" using assms(1) by (induction ds) auto
  then have "length ds = card (set ds)" by (simp add: distinct_card)
  also have "\<dots> \<le> card {..<n}" using assms(2) by (intro card_mono) auto
  finally show ?thesis by simp
qed

lemma swap_rows_survivors:
  assumes "sorted_wrt (>) ds" and "\<forall>d \<in> set ds. d < alive" and "alive \<le> length rows"
  shows "mset (take (alive - length ds) (swap_rows ds alive rows))
    = image_mset ((!) rows) (mset_set ({..<alive} - set ds))"
  using assms
proof (induction ds alive rows rule: swap_rows.induct)
  case (1 alive rows)
  have "take alive rows = map ((!) rows) [0..<alive]" using 1 by (intro nth_equalityI) auto
  then have "mset (take alive rows) = mset (map ((!) rows) [0..<alive])" by simp
  also have "\<dots> = image_mset ((!) rows) (mset_set {..<alive})" by (simp add: atLeast0LessThan)
  finally show ?case by simp
next
  case (2 s ss alive rows)
  let ?rows = "rows[s := rows ! (alive - 1)]" and ?A = "{..<alive - 1} - set (s # ss)"
  have s: "s < alive" "\<forall>d \<in> set ss. d < s" using 2(2,3) by auto
  have IH: "mset (take (alive - 1 - length ss) (swap_rows ss (alive - 1) ?rows))
      = image_mset ((!) ?rows) (mset_set ({..<alive - 1} - set ss))"
    using 2 s by (intro 2(1)) auto
  have A: "image_mset ((!) ?rows) (mset_set ?A) = image_mset ((!) rows) (mset_set ?A)"
    by (intro image_mset_cong) auto
  have "image_mset ((!) ?rows) (mset_set ({..<alive - 1} - set ss))
      = image_mset ((!) rows) (mset_set ({..<alive} - set (s # ss)))"
  proof (cases "s = alive - 1")
    case True
    then have e1: "{..<alive - 1} - set ss = ?A" and e2: "{..<alive} - set (s # ss) = ?A" using s by auto
    show ?thesis unfolding e1 e2 by (rule A)
  next
    case False
    with s have e1: "{..<alive - 1} - set ss = insert s ?A" and e2: "{..<alive} - set (s # ss) = insert (alive - 1) ?A"
      by fastforce+
    have "mset_set (insert s ?A) = add_mset s (mset_set ?A)"
      "mset_set (insert (alive - 1) ?A) = add_mset (alive - 1) (mset_set ?A)" by simp_all
    moreover have "?rows ! s = rows ! (alive - 1)" using s 2(4) by simp
    ultimately show ?thesis unfolding e1 e2 by (metis A image_mset_add_mset)
  qed
  with IH show ?case by simp
qed

context page_store
begin

lemma moved_write:
  "b < ps_nblocks S (w_rel w) \<Longrightarrow> 0 < b \<Longrightarrow> moved S w (w\<lparr>w_rel := ps_write S b p (w_rel w), w_wal := k\<rparr>)"
  by (simp add: moved_def read_write nblocks_write)

lemma move_row_run:
  assumes rows: "flat_rows S m rows (w_rel w)" and lay: "flat_layout m (length rows)"
    and i: "unat i < length rows" "unat j < length rows" "i \<noteq> j"
  shows "\<exists>w'. move_row S m i j w = (Inr (), w') \<and> flat_rows S m (rows[unat j := rows ! unat i]) (w_rel w') \<and> moved S w w'"
proof -
  let ?c = "last_block (m_codes_first m) (m_rows_per_codes_page m) (length rows)"
  let ?s = "last_block (m_scales_first m) (m_rows_per_scales_page m) (length rows)"
  let ?i = "last_block (m_ids_first m) (m_rows_per_ids_page m) (length rows)"
  let ?bc = "unat (m_codes_first m) + unat j div unat (m_rows_per_codes_page m)"
  let ?bs = "unat (m_scales_first m) + unat j div unat (m_rows_per_scales_page m)"
  let ?bi = "unat (m_ids_first m) + unat j div unat (m_rows_per_ids_page m)"
  have lay': "?c < 2 ^ 32" "?s < 2 ^ 32" "?i < 2 ^ 32" "?c \<le> unat (m_scales_first m)" "?s \<le> unat (m_ids_first m)"
    "0 < unat (m_codes_first m)" "0 < unat (m_rows_per_codes_page m)" "0 < unat (m_rows_per_scales_page m)"
    "0 < unat (m_rows_per_ids_page m)"
    "unat (m_rows_per_codes_page m) * unat (m_stride_bytes m) \<le> PAYLOAD_BYTES"
    "unat (m_rows_per_scales_page m) * unat (4 :: u32) \<le> PAYLOAD_BYTES"
    "unat (m_rows_per_ids_page m) * unat (8 :: u32) \<le> PAYLOAD_BYTES"
    using lay by (auto simp: flat_layout_def chain_pages_def last_block_def)
  have blocks: "?bc < ?c" "?bs < ?s" "?bi < ?i"
    using slot_block [OF lay'(7) i(2)] slot_block [OF lay'(8) i(2)] slot_block [OF lay'(9) i(2)]
    by (simp_all add: last_block_def)
  let ?C = "\<lambda>r rows. rows_at S r (m_codes_first m) (m_stride_bytes m) (m_rows_per_codes_page m) (map fst (rows :: vrow list))"
  let ?S = "\<lambda>r rows. rows_at S r (m_scales_first m) 4 (m_rows_per_scales_page m) (map (le32 \<circ> fst \<circ> snd) (rows :: vrow list))"
  let ?I = "\<lambda>r rows. rows_at S r (m_ids_first m) 8 (m_rows_per_ids_page m) (map (le64 \<circ> snd \<circ> snd) (rows :: vrow list))"
  let ?rows = "rows[unat j := rows ! unat i]"
  have st: "?C (w_rel w) rows" "?S (w_rel w) rows" "?I (w_rel w) rows" using rows by (simp_all add: flat_rows_def)
  from copy_slot_maps [OF st(1) lay'(7,10,1) i] obtain p1
    where c1: "copy_slot_in_chain S (m_codes_first m) (m_stride_bytes m) (m_rows_per_codes_page m) i j w
        = (Inr (), w\<lparr>w_rel := ps_write S ?bc p1 (w_rel w), w_wal := w_wal w + 1\<rparr>)"
      and b1: "?bc < ps_nblocks S (w_rel w)" and r1: "?C (ps_write S ?bc p1 (w_rel w)) ?rows"
    by blast
  define w1 where "w1 = w\<lparr>w_rel := ps_write S ?bc p1 (w_rel w), w_wal := w_wal w + 1\<rparr>"
  have st1: "?S (w_rel w1) rows" "?I (w_rel w1) rows"
    unfolding w1_def using st(2,3) b1 blocks lay' by (auto intro!: rows_at_other)
  from copy_slot_maps [OF st1(1) lay'(8,11,2) i] obtain p2
    where c2: "copy_slot_in_chain S (m_scales_first m) 4 (m_rows_per_scales_page m) i j w1
        = (Inr (), w1\<lparr>w_rel := ps_write S ?bs p2 (w_rel w1), w_wal := w_wal w1 + 1\<rparr>)"
      and b2: "?bs < ps_nblocks S (w_rel w1)" and r2: "?S (ps_write S ?bs p2 (w_rel w1)) ?rows"
    by blast
  define w2 where "w2 = w1\<lparr>w_rel := ps_write S ?bs p2 (w_rel w1), w_wal := w_wal w1 + 1\<rparr>"
  have st2: "?C (w_rel w2) ?rows" "?I (w_rel w2) rows"
    unfolding w2_def using r1 st1(2) b2 blocks lay' by (auto intro!: rows_at_other simp: w1_def)
  from copy_slot_maps [OF st2(2) lay'(9,12,3) i] obtain p3
    where c3: "copy_slot_in_chain S (m_ids_first m) 8 (m_rows_per_ids_page m) i j w2
        = (Inr (), w2\<lparr>w_rel := ps_write S ?bi p3 (w_rel w2), w_wal := w_wal w2 + 1\<rparr>)"
      and b3: "?bi < ps_nblocks S (w_rel w2)" and r3: "?I (ps_write S ?bi p3 (w_rel w2)) ?rows"
    by blast
  define w3 where "w3 = w2\<lparr>w_rel := ps_write S ?bi p3 (w_rel w2), w_wal := w_wal w2 + 1\<rparr>"
  have "?C (w_rel w3) ?rows" "?S (w_rel w3) ?rows"
    unfolding w3_def using st2(1) r2 b3 blocks lay' by (auto intro!: rows_at_other simp: w2_def)
  moreover have "move_row S m i j w = (Inr (), w3)"
    using c1 c2 c3 by (simp add: move_row_def seq_io_def bind_io_def w1_def w2_def w3_def)
  moreover
  have pos: "0 < ?bc" "0 < ?bs" "0 < ?bi" using lay' blocks by linarith+
  have "moved S w w1" unfolding w1_def by (rule moved_write [OF b1 pos(1)])
  note m1 = moved_trans [OF this]
  have "moved S w1 w2" unfolding w2_def by (rule moved_write [OF b2 pos(2)])
  note m2 = moved_trans [OF m1 [OF this]]
  have "moved S w2 w3" unfolding w3_def by (rule moved_write [OF b3 pos(3)])
  then have "moved S w w3" by (rule m2)
  ultimately show ?thesis using r3 unfolding flat_rows_def w3_def by (intro exI conjI) simp_all
qed

lemma swap_remove_run:
  assumes "w_polls w = None" and "flat_rows S m rows (w_rel w)" and "flat_layout m (length rows)"
    and "sorted_wrt (>) ds" and "\<forall>d \<in> set ds. d < unat alive" and "unat alive \<le> length rows"
  shows "\<exists>w'. swap_remove S m ds alive w = (Inr (alive - of_nat (length ds)), w') \<and>
    flat_rows S m (swap_rows ds (unat alive) rows) (w_rel w') \<and> moved S w w'"
  using assms
proof (induction ds arbitrary: w rows alive)
  case Nil
  then show ?case by (simp add: ret_def)
next
  case (Cons s ss)
  let ?last = "alive - 1"
  have s: "s < unat alive" "\<forall>d \<in> set ss. d < s" using Cons.prems(4,5) by auto
  then have last: "unat ?last = unat alive - 1" by (simp add: unat_sub word_le_nat_alt)
  have us: "unat (of_nat s :: u64) = s"
    using s(1) unat_u64_bound [of alive] by (simp add: unat_of_nat take_bit_nat_eq_self)
  have "\<exists>w1. when_io (of_nat s \<noteq> ?last) (move_row S m ?last (of_nat s)) w = (Inr (), w1) \<and>
      flat_rows S m (rows[s := rows ! (unat alive - 1)]) (w_rel w1) \<and> moved S w w1"
  proof (cases "of_nat s = ?last")
    case True
    then have "s = unat alive - 1" using us last by metis
    with True Cons.prems(2) show ?thesis by (simp add: ret_def)
  next
    case False
    have "unat ?last < length rows" "unat (of_nat s :: u64) < length rows" using s us last Cons.prems(6) by linarith+
    from move_row_run [OF Cons.prems(2,3) this] False show ?thesis unfolding us last by (simp add: eq_commute)
  qed
  then obtain w1 where mv: "when_io (of_nat s \<noteq> ?last) (move_row S m ?last (of_nat s)) w = (Inr (), w1)"
    and rows1: "flat_rows S m (rows[s := rows ! (unat alive - 1)]) (w_rel w1)" and m1: "moved S w w1" by blast
  have "\<exists>w'. swap_remove S m ss ?last w1 = (Inr (?last - of_nat (length ss)), w') \<and>
      flat_rows S m (swap_rows ss (unat ?last) (rows[s := rows ! (unat alive - 1)])) (w_rel w') \<and> moved S w1 w'"
    using Cons.prems m1 s last by (intro Cons.IH rows1) (auto simp: moved_def)
  then obtain w2 where "swap_remove S m ss ?last w1 = (Inr (?last - of_nat (length ss)), w2)"
    and "flat_rows S m (swap_rows ss (unat ?last) (rows[s := rows ! (unat alive - 1)])) (w_rel w2)" and "moved S w1 w2"
    by blast
  moreover have "check_for_interrupts w = (Inr (), w)" using Cons.prems(1) by (simp add: check_for_interrupts_def)
  ultimately show ?case
    using mv last moved_trans [OF m1] by (simp add: seq_io_def bind_io_def Let_def diff_diff_eq)
qed

text \<open>Reading the chains of a flat index.\<close>

lemma read_rows_at:
  assumes rows: "rows_at S (w_rel w) first stride rpp rows" and pages: "chain_pages stride rpp"
    and room: "last_block first rpp (length rows) < 2 ^ 32" and n: "unat n = length rows"
  shows "read_chain S first stride rpp n w = (Inr (concat rows), w)"
proof -
  have p: "0 < unat rpp" "0 < unat stride" "unat rpp * unat stride \<le> PAYLOAD_BYTES"
    using pages by (simp_all add: chain_pages_def)
  have "unat n \<le> nat_div_ceil (unat n) (unat rpp) * unat rpp" by (rule nat_div_ceil_mult_ge [OF p(1)])
  then have "unat n * unat stride \<le> nat_div_ceil (unat n) (unat rpp) * unat rpp * unat stride" by (rule mult_le_mono1)
  also have "\<dots> \<le> nat_div_ceil (unat n) (unat rpp) * PAYLOAD_BYTES" using p(3) by (simp add: mult.assoc)
  also have "\<dots> \<le> 2 ^ 32 * PAYLOAD_BYTES" using room n by (intro mult_le_mono1) (simp add: last_block_def)
  finally have small: "unat n * unat stride < 2 ^ 64" by (simp add: PAYLOAD_BYTES_eq)
  have len: "length (concat rows) = length rows * unat stride"
    by (rule length_concat_same) (use rows in \<open>simp add: rows_at_def\<close>)
  show ?thesis
    by (rule read_chain_stored [OF rows_at_stores [OF rows p(2)]])
      (use p small len n room in \<open>auto simp: last_block_def\<close>)
qed

end

lemma rows_at_take:
  assumes "rows_at S r first stride rpp rows" and "0 < unat rpp"
  shows "rows_at S r first stride rpp (take n rows)"
  unfolding rows_at_def
proof (intro conjI allI impI)
  show "\<forall>x \<in> set (take n rows). length x = unat stride" using assms(1) by (auto simp: rows_at_def dest: in_set_takeD)
  fix k assume "k * unat rpp < length (take n rows)"
  then have k: "k * unat rpp < length rows" by simp
  with assms(1) show "unat first + k < ps_nblocks S r" by (simp add: rows_at_def)
  have "page_holds (ps_read S r (unat first + k)) (concat (take (unat rpp) (drop (k * unat rpp) rows)))"
    using assms(1) k by (simp add: rows_at_def)
  then have "page_holds (ps_read S r (unat first + k))
      (take j (concat (take (unat rpp) (drop (k * unat rpp) rows))))" for j
    by (auto simp: page_holds_nth)
  moreover have "concat (take (unat rpp) (drop (k * unat rpp) (take n rows)))
      = take (length (concat (take (unat rpp) (drop (k * unat rpp) (take n rows)))))
          (concat (take (unat rpp) (drop (k * unat rpp) rows)))"
  proof -
    have "take (unat rpp) (drop (k * unat rpp) (take n rows))
        = take (min (unat rpp) (n - k * unat rpp)) (take (unat rpp) (drop (k * unat rpp) rows))"
      by (simp add: drop_take min.commute)
    then show ?thesis
      by (metis append_eq_conv_conj append_take_drop_id concat_append)
  qed
  ultimately show "page_holds (ps_read S r (unat first + k)) (concat (take (unat rpp) (drop (k * unat rpp) (take n rows))))"
    by metis
qed

lemma flat_rows_take: "flat_rows S m rows r \<Longrightarrow> flat_layout m k \<Longrightarrow> flat_rows S m (take n rows) r"
  by (auto simp: flat_rows_def flat_layout_def chain_pages_def take_map [symmetric] intro!: rows_at_take)

lemma last_block_mono: "n \<le> k \<Longrightarrow> 0 < unat rpp \<Longrightarrow> last_block first rpp n \<le> last_block first rpp k"
  unfolding last_block_def
  by (metis add_le_cancel_left le_trans nat_div_ceil_le_iff nat_div_ceil_mult_ge)

lemma flat_layout_mono: "flat_layout m k \<Longrightarrow> n \<le> k \<Longrightarrow> flat_layout m n"
  unfolding flat_layout_def chain_pages_def
  by (meson last_block_mono le_less_trans le_trans)

text \<open>Rewriting the meta page or cutting blocks past the ids leaves the rows alone.\<close>

lemma flat_rows_agree:
  assumes rows: "flat_rows S m rows r" and lay: "flat_layout m (length rows)"
    and same: "\<And>b. 0 < b \<Longrightarrow> b < last_block (m_ids_first m) (m_rows_per_ids_page m) (length rows) \<Longrightarrow>
      b < ps_nblocks S r \<Longrightarrow> b < ps_nblocks S r' \<and> ps_read S r' b = ps_read S r b"
  shows "flat_rows S m rows r'"
proof -
  have chain: "rows_at S r' first stride rpp xs"
    if at: "rows_at S r first stride rpp xs" and l: "length xs = length rows" and f: "0 < unat first" "0 < unat rpp"
      and b: "last_block first rpp (length rows) \<le> last_block (m_ids_first m) (m_rows_per_ids_page m) (length rows)"
    for first stride rpp xs
    unfolding rows_at_def
  proof (intro conjI allI impI)
    show "\<forall>x \<in> set xs. length x = unat stride" using at by (simp add: rows_at_def)
    fix k assume k: "k * unat rpp < length xs"
    have "unat first + k < last_block first rpp (length rows)"
      using nat_div_ceil_le_iff [OF f(2), of "length rows" k] k l by (auto simp: last_block_def)
    with same [of "unat first + k"] b f at k
    show "unat first + k < ps_nblocks S r'"
      and "page_holds (ps_read S r' (unat first + k)) (concat (take (unat rpp) (drop (k * unat rpp) xs)))"
      by (auto simp: rows_at_def)
  qed
  show ?thesis
    using rows lay unfolding flat_rows_def flat_layout_def chain_pages_def
    by (auto intro!: chain simp: last_block_def)
qed


lemma shrink_meta_fields [simp]:
  "m_codes_first (shrink_meta m n v) = m_codes_first m" "m_scales_first (shrink_meta m n v) = m_scales_first m"
  "m_ids_first (shrink_meta m n v) = m_ids_first m" "m_stride_bytes (shrink_meta m n v) = m_stride_bytes m"
  "m_rows_per_codes_page (shrink_meta m n v) = m_rows_per_codes_page m"
  "m_rows_per_scales_page (shrink_meta m n v) = m_rows_per_scales_page m"
  "m_rows_per_ids_page (shrink_meta m n v) = m_rows_per_ids_page m" "m_n_vectors (shrink_meta m n v) = n"
  by (simp_all add: shrink_meta_def)

lemma shrink_meta_encodable: "encodable m \<Longrightarrow> encodable (shrink_meta m n v)"
  by (simp add: encodable_def shrink_meta_def MAX_CODEBOOK_LEVELS_def)

lemma flat_rows_shrink [simp]: "flat_rows S (shrink_meta m n v) rows r = flat_rows S m rows r"
  by (simp add: flat_rows_def)

lemma flat_layout_shrink [simp]: "flat_layout (shrink_meta m n v) k = flat_layout m k"
  by (simp add: flat_layout_def)

context page_store
begin

lemma flat_reads:
  assumes rows: "flat_rows S m rows (w_rel w)" and lay: "flat_layout m (length rows)"
    and n: "unat (m_n_vectors m) = length rows"
  shows "read_chains_of S m w = (Inr (concat (map fst rows), f32s_bytes (map (fst \<circ> snd) rows),
    u64s_bytes (map (snd \<circ> snd) rows)), w)"
    and "read_chain S (m_ids_first m) 8 (m_rows_per_ids_page m) (m_n_vectors m) w
      = (Inr (u64s_bytes (map (snd \<circ> snd) rows)), w)"
proof -
  let ?i = "last_block (m_ids_first m) (m_rows_per_ids_page m) (length rows)"
  have b: "last_block (m_codes_first m) (m_rows_per_codes_page m) (length rows) < 2 ^ 32"
    "last_block (m_scales_first m) (m_rows_per_scales_page m) (length rows) < 2 ^ 32" "?i < 2 ^ 32"
    using lay by (auto simp: flat_layout_def last_block_def)
  have c: "read_chain S (m_codes_first m) (m_stride_bytes m) (m_rows_per_codes_page m) (m_n_vectors m) w
      = (Inr (concat (map fst rows)), w)"
    using rows lay b n by (intro read_rows_at) (simp_all add: flat_rows_def flat_layout_def)
  have s: "read_chain S (m_scales_first m) 4 (m_rows_per_scales_page m) (m_n_vectors m) w
      = (Inr (concat (map (le32 \<circ> fst \<circ> snd) rows)), w)"
    using rows lay b n by (intro read_rows_at) (simp_all add: flat_rows_def flat_layout_def)
  have i: "read_chain S (m_ids_first m) 8 (m_rows_per_ids_page m) (m_n_vectors m) w
      = (Inr (concat (map (le64 \<circ> snd \<circ> snd) rows)), w)"
    using rows lay b n by (intro read_rows_at) (simp_all add: flat_rows_def flat_layout_def)
  show "read_chain S (m_ids_first m) 8 (m_rows_per_ids_page m) (m_n_vectors m) w
      = (Inr (u64s_bytes (map (snd \<circ> snd) rows)), w)"
    using i by (simp add: u64s_bytes_def o_assoc)
  show "read_chains_of S m w = (Inr (concat (map fst rows), f32s_bytes (map (fst \<circ> snd) rows),
    u64s_bytes (map (snd \<circ> snd) rows)), w)"
    using c s i by (simp add: read_chains_of_def bind_io_def ret_def u64s_bytes_def f32s_bytes_def o_assoc)
qed

lemma flat_read_back:
  assumes "flat_rows S m rows (w_rel w)" and "flat_layout m (length rows)" and "encodable m"
    and "meta_stored S m (w_rel w)" and "unat (m_n_vectors m) = length rows" and "rows \<noteq> []" and "m_n_vectors hint \<noteq> 0"
  shows "read_full_consistent S hint w
    = (Inr (m, concat (map fst rows), map (fst \<circ> snd) rows, map (snd \<circ> snd) rows), w)"
proof (rule read_full_consistent_run)
  show "m_n_vectors m \<noteq> 0" using assms(5,6) by auto
  show "read_chains_of S m (w\<lparr>w_slock := w_slock w + 1\<rparr>) = (Inr (concat (map fst rows),
      f32s_bytes (map (fst \<circ> snd) rows), u64s_bytes (map (snd \<circ> snd) rows)), w\<lparr>w_slock := w_slock w + 1\<rparr>)"
    by (rule flat_reads) (use assms in simp_all)
qed (use assms in simp_all)

text \<open>Committing the shrink: the meta page, then the blocks past the surviving ids.\<close>

lemma shrink_commit:
  assumes rows: "flat_rows S m rows (w_rel w)" and lay: "flat_layout m (length rows)"
    and n: "unat n = length rows" and nb: "0 < ps_nblocks S (w_rel w)"
    and room: "last_block (m_ids_first m) (m_rows_per_ids_page m) (length rows) + 256 \<le> 2 ^ 32"
  shows "\<exists>w'. seq_io (write_meta_shrink_in_place S m n v) (seq_io (truncate_ids_tail S (m\<lparr>m_n_vectors := n\<rparr>)) d) w = d w' \<and>
    meta_stored S (shrink_meta m n v) (w_rel w') \<and> flat_rows S m rows (w_rel w') \<and>
    w_xlock w' = w_xlock w \<and> w_slock w' = w_slock w \<and> w_polls w' = w_polls w"
proof -
  let ?p = "page_image (encode (shrink_meta m n v))"
  let ?w1 = "w\<lparr>w_rel := ps_write S 0 ?p (w_rel w), w_wal := w_wal w + 1\<rparr>"
  let ?pad = "padded_pages_needed n (m_rows_per_ids_page m)" and ?first = "m_ids_first m"
  let ?tot = "unat (?first + ?pad)" and ?last = "last_block ?first (m_rows_per_ids_page m) (length rows)"
  have rpp: "m_rows_per_ids_page m \<noteq> 0" using lay by (auto simp: flat_layout_def chain_pages_def)
  have first: "0 < unat ?first" using lay by (auto simp: flat_layout_def last_block_def)
  have pages: "unat (pages_needed n (m_rows_per_ids_page m)) \<le> nat_div_ceil (unat n) (unat (m_rows_per_ids_page m))"
    using unat_pages_needed [OF _ rpp, of n] by (cases "n = 0") auto
  have pad: "unat ?pad \<le> nat_div_ceil (unat n) (unat (m_rows_per_ids_page m)) + 255"
    using pad_chain_pages_le [of "pages_needed n (m_rows_per_ids_page m)"] pages
    by (simp add: padded_pages_needed_def)
  then have tot: "?tot = unat ?first + unat ?pad"
    using room n by (intro unat_add_lem [THEN iffD1]) (simp add: last_block_def)
  have "nat_div_ceil (unat n) (unat (m_rows_per_ids_page m)) \<le> unat ?pad"
    using pad room n first rpp by (intro padded_pages_room) (simp_all add: last_block_def)
  then have last: "?last \<le> ?tot" using tot n by (simp add: last_block_def)
  have w1: "write_meta_shrink_in_place S m n v w = (Inr (), ?w1)"
    using nb by (simp add: write_meta_shrink_in_place_def write_meta_def bind_io_def nblocks_def ret_def install_page_def)
  have st1: "meta_stored S (shrink_meta m n v) (w_rel ?w1)"
    using nb by (simp add: meta_stored_def nblocks_write read_write)
  have rows1: "flat_rows S m rows (w_rel ?w1)"
    by (rule flat_rows_agree [OF rows lay]) (use nb in \<open>simp add: nblocks_write read_write\<close>)
  have trunc: "truncate_ids_tail S (m\<lparr>m_n_vectors := n\<rparr>) ?w1
      = (Inr (), if ?tot < ps_nblocks S (w_rel w) then ?w1\<lparr>w_rel := ps_truncate S ?tot (w_rel ?w1)\<rparr> else ?w1)"
    using first nb by (auto simp: truncate_ids_tail_def bind_io_def nblocks_def ret_def relation_truncate_def Let_def nblocks_write)
  show ?thesis
  proof (cases "?tot < ps_nblocks S (w_rel w)")
    case True
    then have le: "?tot \<le> ps_nblocks S (ps_write S 0 ?p (w_rel w))" using nb by (simp add: nblocks_write)
    have "0 < ?tot" using tot first by simp
    then have "meta_stored S (shrink_meta m n v) (ps_truncate S ?tot (w_rel ?w1))"
      using st1 le by (simp add: meta_stored_def nblocks_truncate [OF le] read_truncate [OF le])
    moreover have "flat_rows S m rows (ps_truncate S ?tot (w_rel ?w1))"
      by (rule flat_rows_agree [OF rows1 lay]) (use last le in \<open>simp add: nblocks_truncate [OF le] read_truncate [OF le]\<close>)
    ultimately show ?thesis using w1 trunc True
      by (intro exI [of _ "?w1\<lparr>w_rel := ps_truncate S ?tot (w_rel ?w1)\<rparr>"]) (simp add: seq_io_def bind_io_def)
  next
    case False
    with w1 trunc st1 rows1 show ?thesis by (intro exI [of _ ?w1]) (simp add: seq_io_def bind_io_def)
  qed
qed

end


lemma first_duplicate_id_None: "distinct ids \<Longrightarrow> first_duplicate_id ids = None"
proof (cases "first_duplicate [] ids")
  case (Some i)
  assume d: "distinct ids"
  from first_duplicate_spec [where seen = "[]" and ids = ids] Some obtain xs ys where "ids = xs @ i # ys" and "i \<in> set xs" by auto
  with d show ?thesis by auto
qed (simp add: first_duplicate_id_def)

lemma survivors_mset:
  "image_mset ((!) rows) (mset_set ({..<length rows} - {s. s < length rows \<and> P (rows ! s)}))
    = filter_mset (\<lambda>r. \<not> P r) (mset rows)"
proof -
  have "mset rows = image_mset ((!) rows) (mset_set {..<length rows})"
    by (metis atLeast0LessThan map_nth mset_map mset_upt)
  then have "filter_mset (\<lambda>r. \<not> P r) (mset rows)
      = image_mset ((!) rows) (mset_set {s \<in> {..<length rows}. \<not> P (rows ! s)})"
    by (simp add: filter_mset_image_mset)
  moreover have "{..<length rows} - {s. s < length rows \<and> P (rows ! s)} = {s \<in> {..<length rows}. \<not> P (rows ! s)}" by auto
  ultimately show ?thesis by simp
qed

lemma dead_slots_facts:
  "set (dead_slots cb ids) = {s. s < length ids \<and> cb (ids ! s)}"
  "sorted_wrt (>) (rev (dead_slots cb ids))"
  by (auto simp: dead_slots_def sorted_wrt_rev sorted_wrt_filter)

lemma flat_rows_n [simp]:
  "flat_rows S (m\<lparr>m_n_vectors := n\<rparr>) rows r = flat_rows S m rows r" "flat_layout (m\<lparr>m_n_vectors := n\<rparr>) k = flat_layout m k"
  by (simp_all add: flat_rows_def flat_layout_def)

context page_store
begin

lemma check_survivors_run:
  assumes rows: "flat_rows S m rows (w_rel w)" and lay: "flat_layout m (length rows)"
    and n: "unat n = length rows" and d: "distinct (map (snd \<circ> snd) rows)"
  shows "seq_io (check_survivors S m n) c w = c w"
proof -
  have "read_chain S (m_ids_first m) 8 (m_rows_per_ids_page m) n w = (Inr (u64s_bytes (map (snd \<circ> snd) rows)), w)"
    using flat_reads(2) [of "m\<lparr>m_n_vectors := n\<rparr>"] rows lay n by simp
  then show ?thesis
    by (simp add: check_survivors_def when_io_def seq_io_def bind_io_def first_duplicate_id_None [OF d] ret_def)
qed

lemma read_ids_run:
  assumes rows: "flat_rows S m rows (w_rel w)" and lay: "flat_layout m (length rows)"
    and n: "unat (m_n_vectors m) = length rows" and pos: "rows \<noteq> []"
    and meta: "meta_stored S m (w_rel w)" "encodable m"
  shows "read_ids_only S m w = (Inr (map (snd \<circ> snd) rows), w)"
proof -
  have "read_meta S (w\<lparr>w_slock := w_slock w + 1\<rparr>) = (Inr (Some m), w\<lparr>w_slock := w_slock w + 1\<rparr>)"
    using meta by (intro read_meta_stored) simp_all
  moreover have "m_n_vectors m \<noteq> 0" using n pos by auto
  moreover have "read_chain S (m_ids_first m) 8 (m_rows_per_ids_page m) (m_n_vectors m) (w\<lparr>w_slock := w_slock w + 1\<rparr>)
      = (Inr (u64s_bytes (map (snd \<circ> snd) rows)), w\<lparr>w_slock := w_slock w + 1\<rparr>)"
    by (rule flat_reads(2)) (use rows lay n in simp_all)
  ultimately show ?thesis
    by (simp add: read_ids_only_def read_lock_run bind_io_def ret_def Let_def)
qed

text \<open>The whole flat pass, from the dead slots to the lock release.\<close>

lemma vacuum_flat_run:
  assumes meta: "meta_stored S m (w_rel w)" and flat: "flat_rows S m rows (w_rel w)" "flat_layout m (length rows)"
    and n: "unat (m_n_vectors m) = length rows"
    and room: "last_block (m_ids_first m) (m_rows_per_ids_page m) (length rows) + 256 \<le> 2 ^ 32"
    and ids: "distinct (map (snd \<circ> snd) rows)" and polls: "w_polls w = None"
  shows "\<exists>w' rows'. vacuum_flat S m (dead_slots cb (map (snd \<circ> snd) rows)) stats w
      = (Inr (stats\<lparr>bs_num_index_tuples := length rows',
          bs_tuples_removed := bs_tuples_removed stats + (length rows - length rows')\<rparr>), w') \<and>
    mset rows' = filter_mset (\<lambda>r. \<not> cb (snd (snd r))) (mset rows) \<and>
    meta_stored S (shrink_meta m (of_nat (length rows')) (sat_succ (m_am_version m))) (w_rel w') \<and>
    flat_rows S m rows' (w_rel w') \<and> length rows' \<le> length rows \<and>
    w_xlock w' = w_xlock w - 1 \<and> w_slock w' = w_slock w \<and> w_polls w' = None"
proof -
  let ?ids = "map (snd \<circ> snd) rows" and ?v = "sat_succ (m_am_version m)"
  let ?dead = "dead_slots cb ?ids"
  let ?alive = "m_n_vectors m - of_nat (length (rev ?dead))"
  let ?swapped = "swap_rows (rev ?dead) (length rows) rows"
  define rows' where "rows' = take (length rows - length ?dead) ?swapped"
  note facts = dead_slots_facts [of cb ?ids]
  have below: "\<forall>d \<in> set (rev ?dead). d < length rows" using facts(1) by auto
  have count: "length ?dead \<le> length rows" using slot_count [OF facts(2) below] by simp
  have len: "length rows' = length rows - length ?dead" by (simp add: rows'_def)
  have alive: "unat ?alive = length rows'"
    using count n unat_u64_bound [of "m_n_vectors m"] unfolding len
    by (simp add: unat_sub word_le_nat_alt unat_of_nat take_bit_nat_eq_self)
  have alive_nat: "?alive = of_nat (length rows')" unfolding alive [symmetric] by (simp only: of_nat_unat ucast_id)
  have "mset rows' = image_mset ((!) rows) (mset_set ({..<length rows} - set (rev ?dead)))"
    unfolding rows'_def using swap_rows_survivors [OF facts(2) below order_refl] by simp
  also have "set (rev ?dead) = {s. s < length rows \<and> cb (snd (snd (rows ! s)))}"
    by (simp add: facts(1) cong: conj_cong)
  finally have surv: "mset rows' = filter_mset (\<lambda>r. \<not> cb (snd (snd r))) (mset rows)"
    by (simp only: survivors_mset [where P = "\<lambda>r. cb (snd (snd r))"])
  then have "mset rows' = mset (filter (\<lambda>r. \<not> cb (snd (snd r))) rows)" by simp
  then have "mset (map (snd \<circ> snd) rows') = mset (map (snd \<circ> snd) (filter (\<lambda>r. \<not> cb (snd (snd r))) rows))"
    unfolding mset_map by (rule arg_cong)
  moreover have "distinct (map (snd \<circ> snd) (filter (\<lambda>r. \<not> cb (snd (snd r))) rows))" using ids by (rule distinct_map_filter)
  ultimately have dist: "distinct (map (snd \<circ> snd) rows')" using mset_eq_imp_distinct_iff by blast
  obtain w1 where swap: "swap_remove S m (rev ?dead) (m_n_vectors m) w = (Inr ?alive, w1)"
    and rows1: "flat_rows S m ?swapped (w_rel w1)" and m1: "moved S w w1"
    using swap_remove_run [OF polls flat facts(2), of "m_n_vectors m", unfolded n, OF below order_refl] by blast
  have rows': "flat_rows S m rows' (w_rel w1)" unfolding rows'_def by (rule flat_rows_take [OF rows1 flat(2)])
  have lay': "flat_layout m (length rows')" using flat(2) by (rule flat_layout_mono) (simp add: len)
  have nb: "0 < ps_nblocks S (w_rel w1)" using meta m1 by (simp add: meta_stored_def moved_def)
  have "last_block (m_ids_first m) (m_rows_per_ids_page m) (length rows')
      \<le> last_block (m_ids_first m) (m_rows_per_ids_page m) (length rows)"
    using flat(2) by (intro last_block_mono) (simp_all add: len flat_layout_def chain_pages_def)
  with room have room': "last_block (m_ids_first m) (m_rows_per_ids_page m) (length rows') + 256 \<le> 2 ^ 32" by simp
  let ?stats = "stats\<lparr>bs_num_index_tuples := unat ?alive, bs_tuples_removed := bs_tuples_removed stats + length ?dead\<rparr>"
  obtain w2 where run: "seq_io (write_meta_shrink_in_place S m ?alive ?v) (seq_io (truncate_ids_tail S (m\<lparr>m_n_vectors := ?alive\<rparr>))
        (seq_io unlock_relfile_write (ret ?stats))) w1 = seq_io unlock_relfile_write (ret ?stats) w2"
    and st2: "meta_stored S (shrink_meta m ?alive ?v) (w_rel w2)" "flat_rows S m rows' (w_rel w2)"
    and l2: "w_xlock w2 = w_xlock w1" "w_slock w2 = w_slock w1" "w_polls w2 = w_polls w1"
    using shrink_commit [OF rows' lay' alive nb room'] by blast
  have "vacuum_flat S m ?dead stats w = seq_io (check_survivors S m ?alive)
      (seq_io (write_meta_shrink_in_place S m ?alive ?v) (seq_io (truncate_ids_tail S (m\<lparr>m_n_vectors := ?alive\<rparr>))
        (seq_io unlock_relfile_write (ret ?stats)))) w1"
    unfolding vacuum_flat_def bind_io_def swap by simp
  also have "\<dots> = seq_io unlock_relfile_write (ret ?stats) w2"
    by (simp only: check_survivors_run [OF rows' lay' alive dist] run)
  also have "\<dots> = (Inr ?stats, w2\<lparr>w_xlock := w_xlock w2 - 1\<rparr>)"
    by (simp add: seq_io_def bind_io_def unlock_relfile_write_def ret_def)
  finally have "vacuum_flat S m ?dead stats w = (Inr ?stats, w2\<lparr>w_xlock := w_xlock w2 - 1\<rparr>)" .
  moreover have "length rows - length rows' = length ?dead" using count by (simp add: len)
  then have "?stats = stats\<lparr>bs_num_index_tuples := length rows',
      bs_tuples_removed := bs_tuples_removed stats + (length rows - length rows')\<rparr>"
    by (simp only: alive)
  moreover have "w_xlock w2 = w_xlock w" "w_slock w2 = w_slock w" "w_polls w2 = None"
    using l2 m1 polls by (simp_all add: moved_def)
  moreover note surv st2 [unfolded alive_nat]
  moreover have "length rows' \<le> length rows" by (simp add: len)
  ultimately show ?thesis
    by (intro exI [of _ "w2\<lparr>w_xlock := w_xlock w2 - 1\<rparr>"] exI [of _ rows'] conjI) simp_all
qed

end


section \<open>A flat VACUUM, start to end\<close>

text \<open>
  C4: A flat VACUUM that no cancel interrupts removes exactly the rows the heap reports dead: the rows
  left are the live rows with their codes, scales and ids, each once; the counters report both numbers;
  the lock is released; the next version is stamped; and every later consistent read returns exactly
  those rows under the shrunken meta page.
\<close>

theorem vacuum_flat_exact:
  assumes S: "page_store S" and meta: "meta_stored S m (w_rel w)" "encodable m"
    and kind: "\<not> has_ivf m" "\<not> is_graph m" "\<not> is_bq m"
    and flat: "flat_rows S m rows (w_rel w)" "flat_layout m (length rows)"
    and n: "unat (m_n_vectors m) = length rows"
    and room: "last_block (m_ids_first m) (m_rows_per_ids_page m) (length rows) + 256 \<le> 2 ^ 32"
    and ids: "distinct (map (snd \<circ> snd) rows)" and polls: "w_polls w = None"
    and dead: "list_ex (\<lambda>r. cb (snd (snd r))) rows"
  shows "\<exists>w' rows'. ambulkdelete S skip (Some cb) (Some stats) w
      = (Inr (stats\<lparr>bs_num_index_tuples := length rows',
          bs_tuples_removed := bs_tuples_removed stats + (length rows - length rows')\<rparr>), w') \<and>
    mset rows' = filter_mset (\<lambda>r. \<not> cb (snd (snd r))) (mset rows) \<and>
    w_xlock w' = w_xlock w \<and> w_slock w' = w_slock w \<and>
    (let m' = shrink_meta m (of_nat (length rows')) (sat_succ (m_am_version m))
     in meta_stored S m' (w_rel w') \<and> (\<forall>hint. rows' = [] \<or> m_n_vectors hint = 0 \<or>
       read_full_consistent S hint w' = (Inr (m', concat (map fst rows'), map (fst \<circ> snd) rows', map (snd \<circ> snd) rows'), w')))"
proof -
  let ?w = "w\<lparr>w_xlock := w_xlock w + 1\<rparr>" and ?ids = "map (snd \<circ> snd) rows"
  have pos: "rows \<noteq> []" using dead by auto
  then have n0: "m_n_vectors m \<noteq> 0" using n by auto
  have r: "read_meta S w = (Inr (Some m), w)" "read_meta S ?w = (Inr (Some m), ?w)"
    using meta by (simp_all add: read_meta_stored)
  have i: "read_ids_only S m ?w = (Inr ?ids, ?w)"
    using page_store.read_ids_run [OF S, of m rows ?w] flat n pos meta by simp
  have d: "dead_slots cb ?ids \<noteq> []"
  proof -
    from dead obtain s where "s < length ?ids" "cb (?ids ! s)" by (auto simp: list_ex_length)
    then have "s \<in> set (dead_slots cb ?ids)" unfolding dead_slots_facts(1) by blast
    then show ?thesis by fastforce
  qed
  have pre: "meta_stored S m (w_rel ?w)" "flat_rows S m rows (w_rel ?w)" "w_polls ?w = None"
    using meta flat polls by simp_all
  from page_store.vacuum_flat_run [OF S pre(1,2) flat(2) n room ids pre(3), of cb stats]
  obtain w' rows' where run: "vacuum_flat S m (dead_slots cb ?ids) stats ?w
      = (Inr (stats\<lparr>bs_num_index_tuples := length rows',
          bs_tuples_removed := bs_tuples_removed stats + (length rows - length rows')\<rparr>), w')"
    and surv: "mset rows' = filter_mset (\<lambda>r. \<not> cb (snd (snd r))) (mset rows)"
    and st: "meta_stored S (shrink_meta m (of_nat (length rows')) (sat_succ (m_am_version m))) (w_rel w')"
    and rows': "flat_rows S m rows' (w_rel w')" and len: "length rows' \<le> length rows"
    and l': "w_xlock w' = w_xlock ?w - 1" "w_slock w' = w_slock ?w"
    by blast
  have l: "w_xlock w' = w_xlock w" "w_slock w' = w_slock w" using l' by simp_all
  have "ambulkdelete S skip (Some cb) (Some stats) w = vacuum_flat S m (dead_slots cb ?ids) stats ?w"
    using r i d n0 kind
    by (simp add: ambulkdelete_def ambulkdelete_relfile_def bind_io_def seq_io_def lock_relfile_write_def Let_def)
  moreover have "unat (of_nat (length rows') :: u64) = length rows'"
    using len n unat_u64_bound [of "m_n_vectors m"] by (simp add: unat_of_nat take_bit_nat_eq_self)
  then have "read_full_consistent S hint w' = (Inr (shrink_meta m (of_nat (length rows')) (sat_succ (m_am_version m)),
      concat (map fst rows'), map (fst \<circ> snd) rows', map (snd \<circ> snd) rows'), w')"
    if "rows' \<noteq> []" "m_n_vectors hint \<noteq> 0" for hint
    using that rows' st flat_layout_mono [OF flat(2) len] shrink_meta_encodable [OF meta(2)]
    by (intro page_store.flat_read_back [OF S]) simp_all
  ultimately show ?thesis using run surv st l unfolding Let_def by (intro exI [of _ w'] exI [of _ rows'] conjI) auto
qed

text \<open>Two rows, the first of them dead.\<close>

lemma rows_at_one_page:
  assumes "\<forall>x \<in> set rows. length x = unat stride" and "length rows \<le> unat rpp" and "rows \<noteq> []"
    and "unat first < ps_nblocks S r" and "page_holds (ps_read S r (unat first)) (concat rows)"
  shows "rows_at S r first stride rpp rows"
  unfolding rows_at_def
proof (intro conjI allI impI)
  fix k assume "k * unat rpp < length rows"
  with assms(2) have "k = 0" by (cases k) auto
  with assms show "unat first + k < ps_nblocks S r"
    and "page_holds (ps_read S r (unat first + k)) (concat (take (unat rpp) (drop (k * unat rpp) rows)))" by simp_all
qed (use assms in simp)

definition vac_meta :: meta where
  "vac_meta = demo_meta\<lparr>m_n_vectors := 2, m_lists := 0, m_kind := KIND_SINGLE, m_stride_bytes := 4,
     m_codes_first := 1, m_scales_first := 2, m_ids_first := 3,
     m_rows_per_codes_page := 2042, m_rows_per_scales_page := 2042, m_rows_per_ids_page := 1021\<rparr>"

definition vac_rows :: "vrow list" where
  "vac_rows = [([1, 2, 3, 4], 0x3F800000, 7), ([5, 6, 7, 8], 0x40000000, 9)]"

definition vac_world :: "page list world" where
  "vac_world = \<lparr>w_rel = [page_image (encode vac_meta), page_image (concat (map fst vac_rows)),
       page_image (concat (map (le32 \<circ> fst \<circ> snd) vac_rows)), page_image (concat (map (le64 \<circ> snd \<circ> snd) vac_rows))],
     w_polls = None, w_xlock = 0, w_slock = 0, w_wal = 0\<rparr>"

lemma vac_stored:
  "meta_stored list_store vac_meta (w_rel vac_world)" "encodable vac_meta" "flat_rows list_store vac_meta vac_rows (w_rel vac_world)"
  "flat_layout vac_meta 2" "\<not> has_ivf vac_meta" "\<not> is_graph vac_meta" "\<not> is_bq vac_meta"
  "last_block (m_ids_first vac_meta) (m_rows_per_ids_page vac_meta) 2 + 256 \<le> 2 ^ 32"
proof -
  show "encodable vac_meta" using plan_full_meta(9) [OF demo_plan] by (simp add: encodable_def vac_meta_def)
  show "meta_stored list_store vac_meta (w_rel vac_world)" by (simp add: meta_stored_def vac_world_def list_store_def)
  show "flat_rows list_store vac_meta vac_rows (w_rel vac_world)"
    unfolding flat_rows_def
    by (intro conjI rows_at_one_page)
      (simp_all add: vac_meta_def vac_rows_def vac_world_def list_store_def page_image_holds PAYLOAD_BYTES_eq)
qed (simp_all add: flat_layout_def chain_pages_def last_block_def vac_meta_def nat_div_ceil_def PAYLOAD_BYTES_eq
  has_ivf_def is_graph_def is_bq_def KIND_SINGLE_def KIND_GRAPH_def KIND_BQ_def)

theorem vacuum_flat_exact_witness:
  "\<exists>w' rows'. ambulkdelete list_store True (Some (\<lambda>i. i = 7)) (Some \<lparr>bs_num_index_tuples = 0, bs_tuples_removed = 0\<rparr>) vac_world
      = (Inr \<lparr>bs_num_index_tuples = length rows', bs_tuples_removed = 2 - length rows'\<rparr>, w') \<and>
    mset rows' = {#([5, 6, 7, 8], 0x40000000, 9)#} \<and> w_xlock w' = 0"
proof -
  let ?stats = "\<lparr>bs_num_index_tuples = 0, bs_tuples_removed = 0\<rparr>"
  have len: "length vac_rows = 2" by (simp add: vac_rows_def)
  have n: "unat (m_n_vectors vac_meta) = length vac_rows" by (simp add: vac_meta_def len)
  have rest: "distinct (map (snd \<circ> snd) vac_rows)" "w_polls vac_world = None"
    "list_ex (\<lambda>r. snd (snd r) = 7) vac_rows" "w_xlock vac_world = 0"
    by (simp_all add: vac_rows_def vac_world_def)
  have live: "filter_mset (\<lambda>r. snd (snd r) \<noteq> 7) (mset vac_rows) = {#([5, 6, 7, 8], 0x40000000, 9)#}"
    by (simp add: vac_rows_def)
  from vacuum_flat_exact [OF ls.page_store_axioms vac_stored(1,2,5,6,7,3) _ n _ rest(1,2), unfolded len,
      OF vac_stored(4,8), of "\<lambda>i. i = 7" True ?stats, OF rest(3)]
  show ?thesis unfolding rest(4) live by (elim exE conjE) (intro exI conjI, simp_all)
qed


section \<open>What the shrink cuts off\<close>

text \<open>
  The truncation that ends a flat VACUUM cuts everything behind the ids chain, and the TurboQuant+
  calibration chain is laid out exactly there: when the meta page locates one, reading it afterwards
  raises instead of returning the calibration.
\<close>

theorem shrink_drops_tqplus:
  assumes S: "page_store S" and chain: "m_rotation_count m \<noteq> 0" "m_rotation_first m \<noteq> 0" "m_rotation_dim m \<noteq> 0"
    and behind: "m_ids_first m + padded_pages_needed (m_n_vectors m) (m_rows_per_ids_page m) \<le> m_rotation_first m"
    and some: "m_ids_first m \<noteq> 0"
  shows "\<exists>w'. truncate_ids_tail S m w = (Inr (), w') \<and> read_tqplus S m w' = (Inl ChainPastEnd, w')"
proof -
  let ?tot = "unat (m_ids_first m + padded_pages_needed (m_n_vectors m) (m_rows_per_ids_page m))"
  let ?len = "of_nat (2 * unat (m_rotation_dim m) * 4) :: u64"
  have le: "?tot \<le> unat (m_rotation_first m)" using behind by (simp add: word_le_nat_alt)
  have b: "unat (m_rotation_dim m) < 2 ^ 32" "unat (m_rotation_first m) < 2 ^ 32"
    using unat_u32_bound [of "m_rotation_dim m"] unat_u32_bound [of "m_rotation_first m"] by simp_all
  have dim: "0 < unat (m_rotation_dim m)" using chain(3) by (simp add: unat_gt_0)
  have len: "unat ?len = 2 * unat (m_rotation_dim m) * 4"
    by (subst unat_of_nat) (use b in \<open>simp add: take_bit_nat_eq_self\<close>)
  have len0: "?len \<noteq> 0" using len dim by (metis mult_is_0 neq0_conv unat_0 zero_neq_numeral)
  let ?pages = "div_ceil ?len (ucast (of_nat PAYLOAD_BYTES :: u32))"
  have pages: "unat ?pages = nat_div_ceil (unat ?len) PAYLOAD_BYTES"
    by (subst unat_div_ceil) (simp_all add: PAYLOAD_BYTES_eq)
  have pages_le: "unat ?pages \<le> unat ?len"
    unfolding pages by (simp add: nat_div_ceil_le_iff PAYLOAD_BYTES_eq)
  have pages_pos: "0 < unat ?pages"
    unfolding pages using nat_div_ceil_mult_ge [of PAYLOAD_BYTES "unat ?len"] len dim
    by (cases "nat_div_ceil (unat ?len) PAYLOAD_BYTES") (simp_all add: PAYLOAD_BYTES_eq)
  have up: "unat (ucast (m_rotation_first m) + ?pages) = unat (m_rotation_first m) + unat ?pages"
    using pages_le len b by (subst unat_add_lem [THEN iffD1]) simp_all
  have past: "read_tqplus S m w' = (Inl ChainPastEnd, w')" if nb: "ps_nblocks S (w_rel w') \<le> ?tot" for w'
  proof -
    have "ps_nblocks S (w_rel w') < unat (ucast (m_rotation_first m) + ?pages)" using nb le pages_pos up by linarith
    moreover have "(of_nat PAYLOAD_BYTES :: u32) \<noteq> 0" by (simp add: PAYLOAD_BYTES_eq)
    ultimately have "read_byte_chain S (m_rotation_first m) ?len w' = (Inl ChainPastEnd, w')"
      using len0 unfolding read_byte_chain_def read_chain_def Let_def
      by (simp only: unsigned_1 mult_1_right if_False if_True bind_io_def nblocks_def prod.case sum.case raise_def)
    then show ?thesis using chain unfolding read_tqplus_def Let_def bind_io_def by simp
  qed
  show ?thesis
  proof (cases "?tot < ps_nblocks S (w_rel w)")
    case True
    let ?w = "w\<lparr>w_rel := ps_truncate S ?tot (w_rel w)\<rparr>"
    have "truncate_ids_tail S m w = (Inr (), ?w)"
      using True some by (simp add: truncate_ids_tail_def bind_io_def nblocks_def relation_truncate_def Let_def)
    moreover have "ps_nblocks S (w_rel ?w) \<le> ?tot" using True by (simp add: page_store.nblocks_truncate [OF S])
    ultimately show ?thesis using past [of ?w] by blast
  next
    case False
    then have "truncate_ids_tail S m w = (Inr (), w)"
      using some by (simp add: truncate_ids_tail_def bind_io_def nblocks_def ret_def Let_def)
    with False past [of w] show ?thesis by auto
  qed
qed

text \<open>The two-row index above, with a calibration chain behind its ids.\<close>

theorem shrink_drops_tqplus_witness:
  "\<exists>w'. truncate_ids_tail list_store (vac_meta\<lparr>m_rotation_first := 4, m_rotation_count := 1, m_rotation_dim := 2\<rparr>)
       (vac_world\<lparr>w_rel := w_rel vac_world @ [page_image []]\<rparr>) = (Inr (), w') \<and>
     fst (read_tqplus list_store (vac_meta\<lparr>m_rotation_first := 4, m_rotation_count := 1, m_rotation_dim := 2\<rparr>) w') = Inl ChainPastEnd"
proof -
  let ?m = "vac_meta\<lparr>m_rotation_first := 4, m_rotation_count := 1, m_rotation_dim := 2\<rparr>"
  have "padded_pages_needed (m_n_vectors ?m) (m_rows_per_ids_page ?m) = 1"
    by (simp add: vac_meta_def page_counts)
  then have "m_ids_first ?m + padded_pages_needed (m_n_vectors ?m) (m_rows_per_ids_page ?m) \<le> m_rotation_first ?m"
    by (simp add: vac_meta_def)
  from shrink_drops_tqplus [OF ls.page_store_axioms _ _ _ this] show ?thesis by (simp add: vac_meta_def) fastforce
qed

section \<open>The tombstones and the entry point of a graph\<close>

lemma slot_dead_snoc: "slot_dead (bm @ [b]) s \<longleftrightarrow> slot_dead bm s \<or> s div 8 = length bm \<and> bit b (s mod 8)"
  by (auto simp: slot_dead_def nth_append less_Suc_eq)

lemma finite_slots_dead: "finite {s. slot_dead bm s}"
  by (rule finite_subset [of _ "{..<8 * length bm}"]) (auto simp: slot_dead_def)

lemma count_ones_card: "count_ones bm = card {s. slot_dead bm s}"
proof (induction bm rule: rev_induct)
  case Nil
  then show ?case by (simp add: count_ones_def slot_dead_def)
next
  case (snoc b bm)
  let ?new = "{s. s div 8 = length bm \<and> bit b (s mod 8)}"
  have "?new = (\<lambda>i. 8 * length bm + i) ` {i. i < 8 \<and> bit b i}"
  proof (intro equalityI subsetI)
    fix s assume "s \<in> ?new"
    then have "s = 8 * length bm + s mod 8" "s mod 8 < 8" "bit b (s mod 8)" using mult_div_mod_eq [of 8 s] by simp_all
    then show "s \<in> (\<lambda>i. 8 * length bm + i) ` {i. i < 8 \<and> bit b i}" by blast
  qed auto
  then have "card ?new = card {i. i < 8 \<and> bit b i}" by (simp add: card_image)
  also have "{i. i < 8 \<and> bit b i} = set (filter (bit b) [0..<8])" by auto
  also have "card \<dots> = length (filter (bit b) [0..<8])" by (rule distinct_card) simp
  finally have new: "card ?new = length (filter (bit b) [0..<8])" .
  then have "finite ?new" by (rule_tac finite_subset [of _ "{..<8 * length bm + 8}"]) (auto simp: div_eq_dividend_iff)
  moreover have "{s. slot_dead (bm @ [b]) s} = {s. slot_dead bm s} \<union> ?new" by (auto simp: slot_dead_snoc)
  moreover have "{s. slot_dead bm s} \<inter> ?new = {}" by (auto simp: slot_dead_def)
  ultimately have "card {s. slot_dead (bm @ [b]) s} = card {s. slot_dead bm s} + card ?new"
    by (simp add: card_Un_disjoint finite_slots_dead)
  with snoc new show ?case by (simp add: count_ones_def)
qed

lemma slot_dead_sized: "slot_dead (sized_bitmap n old) s = slot_dead old s"
proof (cases "length old < nat_div_ceil n 8")
  case True
  then have "sized_bitmap n old = resize0 (nat_div_ceil n 8) old" by (simp add: sized_bitmap_def Let_def)
  with True show ?thesis
    by (cases "s div 8 < nat_div_ceil n 8") (simp add: slot_dead_resize0, simp add: slot_dead_def)
qed (simp add: sized_bitmap_def Let_def)

text \<open>
  The bitmap a VACUUM writes marks exactly the slots that were dead before and the slots found dead
  now, whatever the length of the bitmap read from disk, and the count it reports is their number.
\<close>

theorem tombstones_exact:
  "(slot_dead (mark_dead n slots (sized_bitmap n old)) s \<longleftrightarrow> slot_dead old s \<or> s < n \<and> s \<in> set slots) \<and>
   count_ones (mark_dead n slots (sized_bitmap n old)) = card {s. slot_dead (mark_dead n slots (sized_bitmap n old)) s}"
proof -
  have "n \<le> 8 * length (sized_bitmap n old)"
    using nat_div_ceil_mult_ge [of 8 n] by (auto simp: sized_bitmap_def Let_def mult.commute)
  then have "slot_dead (mark_dead n slots (sized_bitmap n old)) s \<longleftrightarrow> slot_dead (sized_bitmap n old) s \<or> s < n \<and> s \<in> set slots"
    by (rule mark_dead_exact)
  then show ?thesis by (simp add: count_ones_card slot_dead_sized)
qed


lemma find_first_sound:
  assumes "\<forall>x \<in> set xs. p x \<noteq> None"
  obtains (found) x where "find_first p xs = Some (Some x)" and "x \<in> set xs" and "p x = Some True"
  | (none) "find_first p xs = Some None" and "\<forall>x \<in> set xs. p x = Some False"
proof -
  have "(\<exists>x. find_first p xs = Some (Some x) \<and> x \<in> set xs \<and> p x = Some True) \<or>
      find_first p xs = Some None \<and> (\<forall>x \<in> set xs. p x = Some False)"
    using assms
  proof (induction xs)
    case (Cons a xs)
    then obtain y where "p a = Some y" by auto
    with Cons show ?case by (cases y) auto
  qed simp
  with found none show thesis by blast
qed

text \<open>
  On a graph whose adjacency can be walked, the entry point chosen by VACUUM is a live slot as soon
  as any slot is live, it has a live neighbour as soon as any live slot has one, and a live entry point
  with a live neighbour is left where it is.
\<close>

theorem vacuum_entry_sound:
  assumes walk: "\<forall>s < node_count g. neighbors_of g s \<noteq> None" and n: "node_count g = n" "n < 2 ^ 32"
  shows "\<exists>ep'. vacuum_entry (Some g) n dead ep = Some ep' \<and>
    ((\<exists>s < n. \<not> dead s) \<longrightarrow> unat ep' < n \<and> \<not> dead (unat ep')) \<and>
    ((\<exists>s < n. \<not> dead s \<and> slot_expands g dead s = Some True) \<longrightarrow> slot_expands g dead (unat ep') = Some True) \<and>
    (unat ep < n \<and> \<not> dead (unat ep) \<and> slot_expands g dead (unat ep) = Some True \<longrightarrow> ep' = ep)"
proof -
  have total: "slot_expands g dead s \<noteq> None" if "s < n" for s
    using walk that n(1) by (simp add: slot_expands_def)
  have un: "unat (of_nat s :: u32) = s" if "s < n" for s
    using that n(2) by (simp add: unat_of_nat take_bit_nat_eq_self)
  let ?p = "\<lambda>s. if dead s then Some False else slot_expands g dead s"
  let ?e = "if unat ep < node_count g then slot_expands g dead (unat ep) else Some False"
  obtain ok where ok: "?e = Some ok" using total [of "unat ep"] n(1) by (cases "unat ep < node_count g") auto
  show ?thesis
  proof (cases "\<not> dead (unat ep) \<and> ok")
    case True
    with ok have "unat ep < n \<and> slot_expands g dead (unat ep) = Some True" using n(1) by (auto split: if_splits)
    with True ok show ?thesis by (simp add: vacuum_entry_def Let_def)
  next
    case False
    have moved: "\<not> (unat ep < n \<and> \<not> dead (unat ep) \<and> slot_expands g dead (unat ep) = Some True)"
      using False ok n(1) by auto
    have "\<forall>s \<in> set [0..<n]. ?p s \<noteq> None" using total by auto
    then show ?thesis
    proof (cases rule: find_first_sound)
      case (found s)
      then have "\<not> dead s" "s < n" "slot_expands g dead s = Some True" by (auto split: if_splits)
      moreover have "vacuum_entry (Some g) n dead ep = Some (of_nat s)"
        using False ok found(1) by (auto simp: vacuum_entry_def Let_def)
      ultimately show ?thesis using un moved by auto
    next
      case none
      then have no: "\<not> (\<exists>s < n. \<not> dead s \<and> slot_expands g dead s = Some True)"
        by (metis atLeastLessThan_iff bot_nat_0.extremum option.inject set_upt)
      have v: "vacuum_entry (Some g) n dead ep
          = (case find (\<lambda>s. \<not> dead s) [0..<n] of Some s \<Rightarrow> Some (of_nat s) | None \<Rightarrow> Some 0)"
        using False ok none(1) by (auto simp: vacuum_entry_def Let_def)
      show ?thesis
      proof (cases "find (\<lambda>s. \<not> dead s) [0..<n]")
        case None
        then have "\<not> (\<exists>s < n. \<not> dead s)" by (simp add: find_None_iff)
        with v None no moved show ?thesis by auto
      next
        case (Some s)
        then have "s < n \<and> \<not> dead s" by (auto simp: find_Some_iff)
        with v Some no moved un show ?thesis by auto
      qed
    qed
  qed
qed

theorem vacuum_entry_sound_witness:
  "\<exists>ep'. vacuum_entry (Some (from_lists [[1], [0, 2], [1]])) 3 (\<lambda>s. s = 0) 0 = Some ep' \<and>
    unat ep' < 3 \<and> unat ep' \<noteq> 0"
proof -
  have "\<forall>s < node_count (from_lists [[1], [0, 2], [1]]). neighbors_of (from_lists [[1], [0, 2], [1]]) s \<noteq> None"
    using neighbors_of_from_lists [of "[[1], [0, 2], [1]]"] by (simp add: from_lists_def node_count_def)
  moreover have "node_count (from_lists [[1], [0, 2], [1]]) = 3" by (simp add: from_lists_def node_count_def)
  moreover have "\<exists>s < (3 :: nat). \<not> s = 0" by (intro exI [of _ 1]) simp
  ultimately show ?thesis
    using vacuum_entry_sound [of "from_lists [[1], [0, 2], [1]]" 3 "\<lambda>s. s = 0" 0] by auto
qed


section \<open>A flat VACUUM cut short\<close>

text \<open>Three rows, the first two of them dead, and a cancel that arrives at the second poll.\<close>

definition cut_meta :: meta where "cut_meta = vac_meta\<lparr>m_n_vectors := 3\<rparr>"

definition cut_rows :: "vrow list" where
  "cut_rows = [([1, 2, 3, 4], 0x3F800000, 7), ([5, 6, 7, 8], 0x40000000, 8), ([9, 9, 9, 9], 0x40400000, 9)]"

definition cut_world :: "page list world" where
  "cut_world = \<lparr>w_rel = [page_image (encode cut_meta), page_image (concat (map fst cut_rows)),
       page_image (concat (map (le32 \<circ> fst \<circ> snd) cut_rows)), page_image (concat (map (le64 \<circ> snd \<circ> snd) cut_rows))],
     w_polls = Some 1, w_xlock = 0, w_slock = 0, w_wal = 0\<rparr>"

text \<open>
  C38: A cancel between two moves of a flat VACUUM leaves the old meta page over rows that were already
  moved: the call raises with the lock still to be released by the abort, and the next consistent read
  returns an id table with a repeated id.
\<close>

theorem cancelled_vacuum_repeats_id:
  assumes S: "page_store S" and meta: "meta_stored S m (w_rel w)" "encodable m"
    and kind: "\<not> has_ivf m" "\<not> is_graph m" "\<not> is_bq m"
    and flat: "flat_rows S m rows (w_rel w)" "flat_layout m (length rows)"
    and n: "unat (m_n_vectors m) = length rows"
    and polls: "w_polls w = Some 1"
    and dead: "i < j" "j < length rows" "cb (snd (snd (rows ! i)))" "cb (snd (snd (rows ! j)))"
    and live: "\<not> cb (snd (snd (last rows)))"
  shows "\<exists>w'. ambulkdelete S skip (Some cb) (Some stats) w = (Inl Cancelled, w') \<and>
    (\<exists>codes scales ids. \<not> distinct ids \<and> (\<forall>hint. m_n_vectors hint = 0 \<or>
       read_full_consistent S hint w' = (Inr (m, codes, scales, ids), w')))"
proof -
  let ?w = "w\<lparr>w_xlock := w_xlock w + 1\<rparr>" and ?ids = "map (snd \<circ> snd) rows"
  let ?dead = "dead_slots cb ?ids" and ?n = "m_n_vectors m" and ?N = "length rows"
  note facts = dead_slots_facts [of cb ?ids]
  have pos: "rows \<noteq> []" using dead by auto
  then have n0: "?n \<noteq> 0" using n by auto
  have mem: "k \<in> set (rev ?dead) \<longleftrightarrow> k < ?N \<and> cb (snd (snd (rows ! k)))" for k
    unfolding set_rev facts(1) by auto
  have ij: "i \<in> set (rev ?dead)" "j \<in> set (rev ?dead)" using dead by (simp_all only: mem) simp_all
  obtain s t rest where ds: "rev ?dead = s # t # rest"
    using ij dead(1) by (metis empty_iff list.exhaust list.set(1) nat_neq_iff set_ConsD)
  have s: "s < ?N" "cb (snd (snd (rows ! s)))" using mem [of s] by (simp_all add: ds)
  have sl: "s \<noteq> ?N - 1" using s(2) live pos by (auto simp: last_conv_nth)
  then have less: "s < ?N - 1" using s(1) by linarith
  have us: "unat (of_nat s :: u64) = s"
    using s(1) n unat_u64_bound [of ?n] by (simp add: unat_of_nat take_bit_nat_eq_self)
  have ul: "unat (?n - 1) = ?N - 1" using n n0 by (simp add: unat_minus_one)
  let ?w1 = "?w\<lparr>w_polls := Some 0\<rparr>"
  have pre: "flat_rows S m rows (w_rel ?w1)" "unat (?n - 1) < ?N" "unat (of_nat s :: u64) < ?N" "?n - 1 \<noteq> of_nat s"
    using flat s(1) us ul pos sl by (auto simp: unat_eq_nat_uint [symmetric] word_unat_eq_iff)
  from page_store.move_row_run [OF S pre(1) flat(2) pre(2,3,4)]
  obtain w2 where mv: "move_row S m (?n - 1) (of_nat s) ?w1 = (Inr (), w2)"
    and rows2: "flat_rows S m (rows[s := rows ! (?N - 1)]) (w_rel w2)" and m2: "moved S ?w1 w2"
    unfolding us ul by blast
  have r: "read_meta S w = (Inr (Some m), w)" "read_meta S ?w = (Inr (Some m), ?w)"
    using meta by (simp_all add: read_meta_stored)
  have i: "read_ids_only S m ?w = (Inr ?ids, ?w)"
    using page_store.read_ids_run [OF S, of m rows ?w] flat n pos meta by simp
  have p2: "w_polls w2 = Some 0" using m2 by (simp add: moved_def)
  have "swap_remove S m (rev ?dead) ?n ?w = (Inl Cancelled, w2)"
    using mv p2 polls pre(4) [symmetric] unfolding ds
    by (simp add: seq_io_def bind_io_def check_for_interrupts_def Let_def)
  then have "vacuum_flat S m ?dead stats ?w = (Inl Cancelled, w2)"
    by (simp add: vacuum_flat_def bind_io_def)
  moreover have "ambulkdelete S skip (Some cb) (Some stats) w = vacuum_flat S m ?dead stats ?w"
    using r i ds n0 kind
    by (auto simp: ambulkdelete_def ambulkdelete_relfile_def bind_io_def seq_io_def lock_relfile_write_def Let_def)
  moreover have st2: "meta_stored S m (w_rel w2)" using meta m2 by (simp add: meta_stored_def moved_def)
  let ?rows = "rows[s := rows ! (?N - 1)]"
  have "read_full_consistent S hint w2 = (Inr (m, concat (map fst ?rows), map (fst \<circ> snd) ?rows, map (snd \<circ> snd) ?rows), w2)"
    if "m_n_vectors hint \<noteq> 0" for hint
    by (rule page_store.flat_read_back [OF S rows2 _ meta(2) st2]) (use flat n pos that in simp_all)
  moreover have "map (snd \<circ> snd) ?rows ! s = map (snd \<circ> snd) ?rows ! (?N - 1)"
    using less by simp
  then have "\<not> distinct (map (snd \<circ> snd) ?rows)"
    using less by (metis diff_less distinct_conv_nth length_list_update length_map less_nat_zero_code
        linorder_neqE_nat nat_neq_iff s(1) zero_less_one gr_zeroI)
  ultimately show ?thesis by metis
qed


theorem cancelled_vacuum_repeats_id_witness:
  "\<exists>w'. ambulkdelete list_store True (Some (\<lambda>i. i < 9)) (Some \<lparr>bs_num_index_tuples = 0, bs_tuples_removed = 0\<rparr>)
      cut_world = (Inl Cancelled, w') \<and>
    (\<exists>codes scales ids. \<not> distinct ids \<and> (\<forall>hint. m_n_vectors hint = 0 \<or>
       read_full_consistent list_store hint w' = (Inr (cut_meta, codes, scales, ids), w')))"
proof (rule cancelled_vacuum_repeats_id [OF ls.page_store_axioms, where rows = cut_rows and i = 0 and j = 1])
  show "encodable cut_meta" using vac_stored(2) by (simp add: encodable_def cut_meta_def)
  show "meta_stored list_store cut_meta (w_rel cut_world)" by (simp add: meta_stored_def cut_world_def list_store_def)
  show "flat_rows list_store cut_meta cut_rows (w_rel cut_world)"
    unfolding flat_rows_def
    by (intro conjI rows_at_one_page)
      (simp_all add: cut_meta_def vac_meta_def cut_rows_def cut_world_def list_store_def page_image_holds PAYLOAD_BYTES_eq)
  show "flat_layout cut_meta (length cut_rows)"
    by (simp add: flat_layout_def chain_pages_def last_block_def cut_meta_def vac_meta_def nat_div_ceil_def
      PAYLOAD_BYTES_eq cut_rows_def)
  show "\<not> has_ivf cut_meta" "\<not> is_graph cut_meta" "\<not> is_bq cut_meta"
    using vac_stored(5,6,7) by (simp_all add: has_ivf_def is_graph_def is_bq_def cut_meta_def)
qed (simp_all add: cut_meta_def cut_rows_def cut_world_def)

end
