(* ===== verification/Cache.thy ===== *)
theory Cache
  imports Vacuum "HOL-Library.AList"
begin

text \<open>
  The per-backend index cache (\<open>src/cache.rs\<close>): keys, entries and their freshness signal, the lookups of
  the scan, knn and insert paths, the installs with their LRU cap, the dirty set of a transaction and its
  three ends (flushed, dropped, aborted).  The \<open>HashMap\<close> is an association list with distinct keys, in
  an order nothing may depend on; an \<open>Arc\<close> is the address of the index it points to, whose contents belong
  to the turbovec crate.  \<open>turbovec.cache_size_mb\<close> is an argument.
\<close>

section \<open>State\<close>

type_synonym i16 = "16 word"
type_synonym i32 = "32 word"
type_synonym arc = nat

record cache_key =
  ck_rel_oid :: u32
  ck_attnum :: i16
  ck_bit_width :: u8
  ck_dim :: u32

record persist_state =
  pt_bit_width :: i32
  pt_dim :: i32
  pt_n_vectors :: i64
  pt_version :: i32
  pt_live_ids :: "u64 list"
  pt_touched_ids :: "u64 list"

datatype stored = Mutable arc | ReadOnly arc | Ooc arc | Graph arc | Bq arc

text \<open>\<open>ScanHandle\<close> has the same five arms; a handle is a clone of the stored \<open>Arc\<close>.\<close>

definition scan_handle :: "stored \<Rightarrow> stored" where
  "scan_handle st = st"

record entry =
  en_index :: stored
  en_bytes :: nat
  en_relfilenode :: u32
  en_n_rows :: i64
  en_seq :: u64
  en_dirty :: bool
  en_persist :: "persist_state option"

record cache =
  ca_map :: "(cache_key \<times> entry) list"
  ca_seq :: u64

definition next_seq :: "cache \<Rightarrow> u64 \<times> cache" where
  "next_seq c = (let s = ca_seq c + 1 in (s, c\<lparr>ca_seq := s\<rparr>))"

section \<open>Lookups\<close>

text \<open>\<open>entry.seq = next_seq()\<close>, \<open>g.remove(&key)\<close>, and the freshness test.\<close>

definition touch :: "cache_key \<Rightarrow> entry \<Rightarrow> cache \<Rightarrow> cache" where
  "touch key e c = (let (s, c') = next_seq c in c'\<lparr>ca_map := AList.update key (e\<lparr>en_seq := s\<rparr>) (ca_map c')\<rparr>)"

definition evict :: "cache_key \<Rightarrow> cache \<Rightarrow> cache" where
  "evict key c = c\<lparr>ca_map := AList.delete key (ca_map c)\<rparr>"

definition stale :: "entry \<Rightarrow> u32 \<Rightarrow> i64 \<Rightarrow> bool" where
  "stale e relfile n_rows \<longleftrightarrow> en_relfilenode e \<noteq> relfile \<or> en_n_rows e \<noteq> n_rows"

definition lookup :: "cache_key \<Rightarrow> u32 \<Rightarrow> i64 \<Rightarrow> cache \<Rightarrow> arc option \<times> cache" where
  "lookup key expected_relfile expected_n_rows c =
     (case map_of (ca_map c) key of
        None \<Rightarrow> (None, c)
      | Some e \<Rightarrow>
          if stale e expected_relfile expected_n_rows then
            (case (en_dirty e, en_index e) of
               (True, Mutable a) \<Rightarrow> (Some a, touch key e c)
             | _ \<Rightarrow> (None, evict key c))
          else
            (case en_index e of
               Mutable a \<Rightarrow> (Some a, touch key e c)
             | _ \<Rightarrow> (None, c)))"

definition scan_lookup :: "cache_key \<Rightarrow> u32 \<Rightarrow> i64 \<Rightarrow> cache \<Rightarrow> stored option \<times> cache" where
  "scan_lookup key expected_relfile expected_n_rows c =
     (case map_of (ca_map c) key of
        None \<Rightarrow> (None, c)
      | Some e \<Rightarrow>
          if stale e expected_relfile expected_n_rows \<and> \<not> en_dirty e then (None, evict key c)
          else (Some (scan_handle (en_index e)), touch key e c))"

definition am_lookup_for_mutation :: "cache_key \<Rightarrow> u32 \<Rightarrow> cache \<Rightarrow> arc option \<times> cache" where
  "am_lookup_for_mutation key expected_relfile c =
     (case map_of (ca_map c) key of
        None \<Rightarrow> (None, c)
      | Some e \<Rightarrow>
          (case en_index e of
             Mutable a \<Rightarrow>
               if en_relfilenode e \<noteq> expected_relfile then
                 (if en_dirty e then (Some a, touch key e c) else (None, evict key c))
               else if en_persist e = None then (None, evict key c)
               else (Some a, touch key e c)
           | _ \<Rightarrow> (None, evict key c)))"

text \<open>The first dirty entry of the relation, in map order.\<close>

definition dirty_view :: "u32 \<Rightarrow> cache_key \<times> entry \<Rightarrow> (cache_key \<times> arc \<times> persist_state) option" where
  "dirty_view rel_oid = (\<lambda>(k, e).
     if ck_rel_oid k = rel_oid \<and> ck_attnum k = 0 \<and> en_dirty e then
       (case (en_index e, en_persist e) of (Mutable a, Some p) \<Rightarrow> Some (k, a, p) | _ \<Rightarrow> None)
     else None)"

definition am_find_dirty_by_rel :: "u32 \<Rightarrow> cache \<Rightarrow> (cache_key \<times> arc \<times> persist_state) option" where
  "am_find_dirty_by_rel rel_oid c =
     (case List.map_filter (dirty_view rel_oid) (ca_map c) of [] \<Rightarrow> None | x # _ \<Rightarrow> Some x)"

section \<open>The cap\<close>

text \<open>The least recently used clean entry, the first of equals.\<close>

fun lru_key :: "(cache_key \<times> entry) list \<Rightarrow> (cache_key \<times> u64) option" where
  "lru_key [] = None"
| "lru_key ((k, e) # m) =
     (if en_dirty e then lru_key m
      else case lru_key m of
        None \<Rightarrow> Some (k, en_seq e)
      | Some (k', s) \<Rightarrow> if s < en_seq e then Some (k', s) else Some (k, en_seq e))"

function shed :: "nat \<Rightarrow> nat \<Rightarrow> (cache_key \<times> entry) list \<Rightarrow> (cache_key \<times> entry) list" where
  "shed cap tot m =
     (if cap < tot \<and> 1 < length m then
        (case lru_key m of
           None \<Rightarrow> m
         | Some (k, _) \<Rightarrow>
             (case map_of m k of
                None \<Rightarrow> m
              | Some e \<Rightarrow> shed cap (tot - en_bytes e) (AList.delete k m)))
      else m)"
  by pat_completeness auto
termination
proof (relation "measure (\<lambda>(cap, tot, m). length m)", goal_cases)
  case (2 cap tot m x2 k s e)
  have "length (AList.delete k m) < length m"
    unfolding AList.delete_eq by (rule length_filter_less [OF map_of_SomeD [OF 2(4)]]) simp
  then show ?case by simp
qed simp

declare shed.simps [simp del]

definition enforce_cap :: "int \<Rightarrow> (cache_key \<times> entry) list \<Rightarrow> (cache_key \<times> entry) list" where
  "enforce_cap cap_mb m =
     (if cap_mb \<le> 0 then filter (\<lambda>(_, e). en_dirty e) m
      else shed (nat cap_mb * (1024 * 1024)) (sum_list (map (en_bytes \<circ> snd) m)) m)"

section \<open>Installs\<close>

definition install ::
  "int \<Rightarrow> cache_key \<Rightarrow> stored \<Rightarrow> nat \<Rightarrow> u32 \<Rightarrow> i64 \<Rightarrow> persist_state option \<Rightarrow> cache \<Rightarrow> cache" where
  "install cap_mb key st bytes relfilenode n_rows persist c =
     (let (s, c') = next_seq c in
      c'\<lparr>ca_map := enforce_cap cap_mb (AList.update key
           \<lparr>en_index = st, en_bytes = bytes, en_relfilenode = relfilenode, en_n_rows = n_rows,
            en_seq = s, en_dirty = False, en_persist = persist\<rparr> (ca_map c'))\<rparr>)"

definition insert_knn :: "int \<Rightarrow> cache_key \<Rightarrow> arc \<Rightarrow> nat \<Rightarrow> u32 \<Rightarrow> i64 \<Rightarrow> cache \<Rightarrow> arc \<times> cache" where
  "insert_knn cap_mb key a bytes relfilenode n_rows c = (a, install cap_mb key (Mutable a) bytes relfilenode n_rows None c)"

definition scan_install :: "int \<Rightarrow> cache_key \<Rightarrow> arc \<Rightarrow> nat \<Rightarrow> u32 \<Rightarrow> i64 \<Rightarrow> cache \<Rightarrow> stored \<times> cache" where
  "scan_install cap_mb key a bytes relfilenode n_rows c =
     (ReadOnly a, install cap_mb key (ReadOnly a) bytes relfilenode n_rows None c)"

definition scan_install_ooc :: "int \<Rightarrow> cache_key \<Rightarrow> arc \<Rightarrow> nat \<Rightarrow> u32 \<Rightarrow> i64 \<Rightarrow> cache \<Rightarrow> stored \<times> cache" where
  "scan_install_ooc cap_mb key a bytes relfilenode n_rows c =
     (Ooc a, install cap_mb key (Ooc a) bytes relfilenode n_rows None c)"

definition scan_install_bq :: "int \<Rightarrow> cache_key \<Rightarrow> arc \<Rightarrow> nat \<Rightarrow> u32 \<Rightarrow> i64 \<Rightarrow> cache \<Rightarrow> stored \<times> cache" where
  "scan_install_bq cap_mb key a bytes relfilenode n_rows c =
     (Bq a, install cap_mb key (Bq a) bytes relfilenode n_rows None c)"

definition scan_install_graph :: "int \<Rightarrow> cache_key \<Rightarrow> arc \<Rightarrow> nat \<Rightarrow> u32 \<Rightarrow> i64 \<Rightarrow> cache \<Rightarrow> stored \<times> cache" where
  "scan_install_graph cap_mb key a bytes relfilenode n_rows c =
     (Graph a, install cap_mb key (Graph a) bytes relfilenode n_rows None c)"

definition am_install ::
  "int \<Rightarrow> cache_key \<Rightarrow> arc \<Rightarrow> nat \<Rightarrow> u32 \<Rightarrow> i64 \<Rightarrow> persist_state \<Rightarrow> cache \<Rightarrow> arc \<times> cache" where
  "am_install cap_mb key a bytes relfilenode freshness persist c =
     (a, install cap_mb key (Mutable a) bytes relfilenode freshness (Some persist) c)"

section \<open>The dirty set\<close>

definition am_mark_dirty :: "cache_key \<Rightarrow> (persist_state \<Rightarrow> persist_state) \<Rightarrow> cache \<Rightarrow> bool \<times> cache" where
  "am_mark_dirty key f c =
     (case map_of (ca_map c) key of
        None \<Rightarrow> (False, c)
      | Some e \<Rightarrow>
          (case en_persist e of
             None \<Rightarrow> (False, c)
           | Some p \<Rightarrow> (True, c\<lparr>ca_map := AList.update key (e\<lparr>en_persist := Some (f p), en_dirty := True\<rparr>) (ca_map c)\<rparr>)))"

record dirty_entry =
  de_key :: cache_key
  de_index :: arc
  de_persist :: persist_state

definition dirty_snapshot :: "cache_key \<times> entry \<Rightarrow> dirty_entry option" where
  "dirty_snapshot = (\<lambda>(k, e).
     if \<not> en_dirty e then None
     else case en_persist e of
       None \<Rightarrow> None
     | Some p \<Rightarrow> (case en_index e of Mutable a \<Rightarrow> Some \<lparr>de_key = k, de_index = a, de_persist = p\<rparr> | _ \<Rightarrow> None))"

definition drain_dirty :: "cache \<Rightarrow> dirty_entry list" where
  "drain_dirty c = List.map_filter dirty_snapshot (ca_map c)"

definition cleaned :: "flush_outcome \<Rightarrow> entry \<Rightarrow> entry" where
  "cleaned fo e = e\<lparr>en_dirty := False,
     en_n_rows := (if fo_carries_tombstones fo then - 1 else ucast (fo_stamped_version fo)),
     en_persist := map_option (\<lambda>p. p\<lparr>pt_version := fo_stamped_version fo, pt_touched_ids := []\<rparr>) (en_persist e)\<rparr>"

definition clear_dirty :: "cache_key \<Rightarrow> flush_outcome option \<Rightarrow> cache \<Rightarrow> cache" where
  "clear_dirty key outcome c =
     (case outcome of
        Some fo \<Rightarrow>
          if fo_snapshot_is_current fo then
            (case map_of (ca_map c) key of
               None \<Rightarrow> c
             | Some e \<Rightarrow> c\<lparr>ca_map := AList.update key (cleaned fo e) (ca_map c)\<rparr>)
          else evict key c
      | None \<Rightarrow> evict key c)"

definition invalidate_dirty :: "cache \<Rightarrow> cache" where
  "invalidate_dirty c = c\<lparr>ca_map := filter (\<lambda>(_, e). \<not> en_dirty e) (ca_map c)\<rparr>"

definition invalidate :: "u32 \<Rightarrow> cache \<Rightarrow> cache" where
  "invalidate rel_oid c = c\<lparr>ca_map := filter (\<lambda>(k, _). ck_rel_oid k \<noteq> rel_oid) (ca_map c)\<rparr>"

definition invalidate_all :: "cache \<Rightarrow> cache" where
  "invalidate_all c = c\<lparr>ca_map := []\<rparr>"

definition cache_len :: "cache \<Rightarrow> nat" where
  "cache_len c = length (ca_map c)"


section \<open>The map\<close>

lemma map_of_filter_entries:
  "distinct (map fst m) \<Longrightarrow>
   map_of (filter (\<lambda>(k, e). P k e) m) k = (case map_of m k of None \<Rightarrow> None | Some e \<Rightarrow> if P k e then Some e else None)"
proof (induction m)
  case (Cons x m)
  obtain k' e' where x: "x = (k', e')" by (cases x)
  have "k' = k \<Longrightarrow> map_of m k = None" using Cons.prems x by (simp add: map_of_eq_None_iff)
  with Cons x show ?case by auto
qed simp

lemma distinct_keys_filter: "distinct (map fst m) \<Longrightarrow> distinct (map fst (filter P m))"
  by (rule distinct_map_filter)


lemma set_lookup: "distinct (map fst m) \<Longrightarrow> (k, e) \<in> set m \<longleftrightarrow> map_of m k = Some e"
  by (metis map_of_SomeD map_of_is_SomeI)

lemmas entry_maps = AList.update_conv' AList.delete_conv' AList.distinct_update AList.distinct_delete

abbreviation entry_of :: "cache \<Rightarrow> cache_key \<Rightarrow> entry option" where
  "entry_of c k \<equiv> map_of (ca_map c) k"

section \<open>Shedding entries\<close>

lemma lru_key_None: "lru_key m = None \<longleftrightarrow> (\<forall>(k, e) \<in> set m. en_dirty e)"
  by (induction m rule: lru_key.induct) (auto split: option.splits)

lemma lru_key_Some:
  "lru_key m = Some (k, s) \<Longrightarrow>
   (\<exists>e. (k, e) \<in> set m \<and> \<not> en_dirty e \<and> en_seq e = s) \<and> (\<forall>(k', e') \<in> set m. en_dirty e' \<or> s \<le> en_seq e')"
proof (induction m arbitrary: k s rule: lru_key.induct)
  case (2 k0 e0 m)
  show ?case
  proof (cases "lru_key m")
    case None
    from None have "\<forall>(k, e) \<in> set m. en_dirty e" by (simp only: lru_key_None)
    with 2(3) None show ?thesis by (auto split: if_splits)
  next
    case (Some ks)
    obtain k' s' where ks: "ks = (k', s')" by (cases ks)
    show ?thesis
    proof (cases "en_dirty e0")
      case True
      with 2 Some ks show ?thesis by auto
    next
      case False
      from 2(2) [OF False] Some ks have "(\<exists>e. (k', e) \<in> set m \<and> \<not> en_dirty e \<and> en_seq e = s')"
        "\<forall>(k'', e') \<in> set m. en_dirty e' \<or> s' \<le> en_seq e'" by auto
      with 2(3) False Some ks show ?thesis by (auto split: if_splits)
    qed
  qed
qed simp

lemma sum_bytes_delete:
  assumes "distinct (map fst m)" and "map_of m k = Some e"
  shows "sum_list (map (en_bytes \<circ> snd) (AList.delete k m)) = sum_list (map (en_bytes \<circ> snd) m) - en_bytes e"
  using assms
proof (induction m)
  case (Cons x m)
  obtain k' e' where x: "x = (k', e')" by (cases x)
  show ?case
  proof (cases "k' = k")
    case True
    then have "AList.delete k m = m" using Cons.prems x by (simp add: AList.delete_idem)
    with True Cons.prems x show ?thesis by simp
  next
    case False
    then have "map_of m k = Some e" using Cons.prems x by simp
    then have "(k, e) \<in> set m" by (rule map_of_SomeD)
    then have "en_bytes e \<le> sum_list (map (en_bytes \<circ> snd) m)" by (intro member_le_sum_list) force+
    with False Cons x show ?thesis by (simp add: comp_def)
  qed
qed simp

text \<open>What shedding entries keeps, and when it stops.\<close>

definition shed_ok :: "nat \<Rightarrow> (cache_key \<times> entry) list \<Rightarrow> (cache_key \<times> entry) list \<Rightarrow> bool" where
  "shed_ok cap m m' \<longleftrightarrow> distinct (map fst m') \<and>
     (\<forall>k e. map_of m' k = Some e \<longrightarrow> map_of m k = Some e) \<and>
     (\<forall>k e. map_of m k = Some e \<longrightarrow> map_of m' k = Some e \<or> \<not> en_dirty e) \<and>
     (\<forall>k e k' e'. map_of m k = Some e \<and> map_of m' k = None \<and> map_of m' k' = Some e' \<and> \<not> en_dirty e' \<longrightarrow> en_seq e \<le> en_seq e') \<and>
     (sum_list (map (en_bytes \<circ> snd) m') \<le> cap \<or> length m' \<le> 1 \<or> (\<forall>(k, e) \<in> set m'. en_dirty e))"

lemma shed_spec:
  "distinct (map fst m) \<Longrightarrow> tot = sum_list (map (en_bytes \<circ> snd) m) \<Longrightarrow> shed_ok cap m (shed cap tot m)"
proof (induction cap tot m rule: shed.induct)
  case (1 cap tot m)
  note d = 1(2)
  show ?case
  proof (cases "cap < tot \<and> 1 < length m \<and> lru_key m \<noteq> None")
    case False
    then have stop: "shed cap tot m = m" by (subst shed.simps) (auto split: option.split)
    have "tot \<le> cap \<or> length m \<le> 1 \<or> lru_key m = None" using False by auto
    with 1(3) d show ?thesis unfolding stop shed_ok_def lru_key_None by (auto simp: comp_def)
  next
    case True
    then obtain k s where l: "lru_key m = Some (k, s)" by auto
    from lru_key_Some [OF l] obtain e where e: "(k, e) \<in> set m" "\<not> en_dirty e" "en_seq e = s"
      and least: "\<forall>(k', e') \<in> set m. en_dirty e' \<or> s \<le> en_seq e'" by auto
    have m: "map_of m k = Some e" using e(1) by (rule map_of_is_SomeI [OF d])
    have least': "en_dirty e' \<or> s \<le> en_seq e'" if "map_of m k' = Some e'" for k' e'
      using least map_of_SomeD [OF that] by auto
    let ?m = "AList.delete k m"
    have step: "shed cap tot m = shed cap (tot - en_bytes e) ?m"
      using True l m by (subst shed.simps) simp
    have d': "distinct (map fst ?m)" using d by (rule AList.distinct_delete)
    have "shed_ok cap ?m (shed cap (tot - en_bytes e) ?m)"
      by (rule 1(1)) (use True l m d' 1(3) sum_bytes_delete [OF d m] in \<open>auto simp: comp_def\<close>)
    note ok = this [unfolded shed_ok_def AList.delete_conv', folded step]
    let ?r = "shed cap tot m"
    note okd = ok [THEN conjunct1] and sub = ok [THEN conjunct2, THEN conjunct1, rule_format]
      and keep = ok [THEN conjunct2, THEN conjunct2, THEN conjunct1, rule_format]
      and lru = ok [THEN conjunct2, THEN conjunct2, THEN conjunct2, THEN conjunct1, rule_format]
      and fin = ok [THEN conjunct2, THEN conjunct2, THEN conjunct2, THEN conjunct2]
    have below: "map_of m k' = Some e'" if "map_of ?r k' = Some e'" for k' e'
      using sub [OF that] by (simp add: fun_upd_def split: if_splits)
    show ?thesis
      unfolding shed_ok_def
    proof (intro conjI allI impI)
      show "map_of ?r k' = Some e' \<or> \<not> en_dirty e'" if "map_of m k' = Some e'" for k' e'
        using keep [of k' e'] that m e(2) by (cases "k' = k") (simp_all add: fun_upd_def del: map_of_eq_Some_iff)
      show "en_seq e1 \<le> en_seq e2"
        if "map_of m k1 = Some e1 \<and> map_of ?r k1 = None \<and> map_of ?r k2 = Some e2 \<and> \<not> en_dirty e2"
        for k1 e1 k2 e2
      proof (cases "k1 = k")
        case True
        then show ?thesis using that m e(3) least' [OF below [of k2 e2]] by simp
      next
        case False
        then show ?thesis using lru [of k1 e1 k2 e2] that by (simp add: fun_upd_def del: map_of_eq_Some_iff)
      qed
    qed (use okd below fin in blast)+
  qed
qed

section \<open>The invariant\<close>

text \<open>
  Only an entry with a persist mirror can be dirty, only a mutable index has one, and a clean entry has
  no touched ids left to write.
\<close>

definition entry_ok :: "entry \<Rightarrow> bool" where
  "entry_ok e \<longleftrightarrow> (case en_persist e of
       None \<Rightarrow> \<not> en_dirty e
     | Some p \<Rightarrow> (\<exists>a. en_index e = Mutable a) \<and> (en_dirty e \<or> pt_touched_ids p = []))"

definition cache_ok :: "cache \<Rightarrow> bool" where
  "cache_ok c \<longleftrightarrow> distinct (map fst (ca_map c)) \<and> (\<forall>k e. entry_of c k = Some e \<longrightarrow> entry_ok e)"

lemma entry_ok_simps [simp]:
  "entry_ok (e\<lparr>en_seq := s\<rparr>) = entry_ok e"
  "entry_ok e \<Longrightarrow> entry_ok (cleaned fo e)"
  "entry_ok e \<Longrightarrow> en_persist e = Some p \<Longrightarrow> entry_ok (e\<lparr>en_persist := Some p', en_dirty := True\<rparr>)"
  by (auto simp: entry_ok_def cleaned_def split: option.splits)

lemma cache_maps [simp]:
  "entry_of (touch key e c) k = (if k = key then Some (e\<lparr>en_seq := ca_seq c + 1\<rparr>) else entry_of c k)"
  "entry_of (evict key c) k = (if k = key then None else entry_of c k)"
  by (auto simp: touch_def next_seq_def evict_def entry_maps Let_def)

lemma distinct_cache [simp]:
  "distinct (map fst (ca_map c)) \<Longrightarrow> distinct (map fst (ca_map (touch key e c)))"
  "distinct (map fst (ca_map c)) \<Longrightarrow> distinct (map fst (ca_map (evict key c)))"
  by (simp_all add: touch_def next_seq_def evict_def Let_def entry_maps)

lemma cache_ok_touch: "cache_ok c \<Longrightarrow> entry_of c key = Some e \<Longrightarrow> cache_ok (touch key e c)"
  and cache_ok_evict: "cache_ok c \<Longrightarrow> cache_ok (evict key c)"
  by (auto simp: cache_ok_def split: if_splits)

lemma enforce_cap_keeps:
  assumes "distinct (map fst m)"
  shows "distinct (map fst (enforce_cap cap_mb m)) \<and>
    (\<forall>k e. map_of (enforce_cap cap_mb m) k = Some e \<longrightarrow> map_of m k = Some e) \<and>
    (\<forall>k e. map_of m k = Some e \<longrightarrow> map_of (enforce_cap cap_mb m) k = Some e \<or> \<not> en_dirty e)"
proof (cases "cap_mb \<le> 0")
  case True
  then show ?thesis
    using assms map_of_filter_entries [OF assms, of "\<lambda>_. en_dirty"]
    by (auto simp: enforce_cap_def distinct_keys_filter split: option.splits if_splits)
next
  case False
  then have "enforce_cap cap_mb m = shed (nat cap_mb * (1024 * 1024)) (sum_list (map (en_bytes \<circ> snd) m)) m"
    by (simp add: enforce_cap_def)
  with shed_spec [OF assms refl, of "nat cap_mb * (1024 * 1024)"] show ?thesis
    unfolding shed_ok_def by presburger
qed

definition installed :: "stored \<Rightarrow> nat \<Rightarrow> u32 \<Rightarrow> i64 \<Rightarrow> persist_state option \<Rightarrow> cache \<Rightarrow> entry" where
  "installed st bytes relfilenode n_rows persist c =
     \<lparr>en_index = st, en_bytes = bytes, en_relfilenode = relfilenode, en_n_rows = n_rows,
      en_seq = ca_seq c + 1, en_dirty = False, en_persist = persist\<rparr>"

lemma install_spec:
  assumes d: "distinct (map fst (ca_map c))"
  shows "distinct (map fst (ca_map (install cap_mb key st b r n p c)))"
    and "entry_of (install cap_mb key st b r n p c) k = Some e \<Longrightarrow>
      if k = key then e = installed st b r n p c else entry_of c k = Some e"
    and "k \<noteq> key \<Longrightarrow> entry_of c k = Some e \<Longrightarrow> en_dirty e \<Longrightarrow> entry_of (install cap_mb key st b r n p c) k = Some e"
proof -
  let ?m = "AList.update key (installed st b r n p c) (ca_map c)"
  have i: "ca_map (install cap_mb key st b r n p c) = enforce_cap cap_mb ?m"
    by (simp add: install_def next_seq_def installed_def Let_def)
  have "distinct (map fst ?m)" using d by (simp add: entry_maps)
  note keep = enforce_cap_keeps [OF this, of cap_mb]
  show "distinct (map fst (ca_map (install cap_mb key st b r n p c)))" using keep unfolding i by blast
  show "if k = key then e = installed st b r n p c else entry_of c k = Some e"
    if "entry_of (install cap_mb key st b r n p c) k = Some e"
  proof -
    have "map_of ?m k = Some e" using keep that unfolding i by blast
    then show ?thesis by (auto simp: entry_maps split: if_splits)
  qed
  show "entry_of (install cap_mb key st b r n p c) k = Some e"
    if "k \<noteq> key" "entry_of c k = Some e" "en_dirty e"
  proof -
    have "map_of ?m k = Some e" using that by (simp add: entry_maps)
    with keep that(3) show ?thesis unfolding i by blast
  qed
qed

lemma cache_ok_install:
  assumes "cache_ok c" and "case p of None \<Rightarrow> True | Some q \<Rightarrow> (\<exists>a. st = Mutable a) \<and> pt_touched_ids q = []"
  shows "cache_ok (install cap_mb key st b r n p c)"
  unfolding cache_ok_def
proof (intro conjI allI impI)
  have d: "distinct (map fst (ca_map c))" using assms(1) by (simp add: cache_ok_def)
  show "distinct (map fst (ca_map (install cap_mb key st b r n p c)))" by (rule install_spec(1) [OF d])
  fix k e assume "entry_of (install cap_mb key st b r n p c) k = Some e"
  from install_spec(2) [OF d this] assms show "entry_ok e"
    by (cases "k = key") (auto simp: cache_ok_def entry_ok_def installed_def split: option.splits)
qed

text \<open>What the three lookups do to a cache that is in order; a dirty entry is always a hit.\<close>

lemma dirty_ok: "entry_ok e \<Longrightarrow> en_dirty e \<Longrightarrow> \<exists>a p. en_index e = Mutable a \<and> en_persist e = Some p"
  by (auto simp: entry_ok_def split: option.splits)

lemma lookup_cases:
  assumes "lookup key rf n c = (r, c')" and "cache_ok c"
  shows "(\<exists>e. entry_of c key = Some e \<and> c' = touch key e c) \<or>
    r = None \<and> (c' = c \<or> c' = evict key c) \<and> (\<forall>e. entry_of c key = Some e \<longrightarrow> \<not> en_dirty e)"
proof (cases "entry_of c key")
  case (Some e)
  have "entry_ok e" using assms(2) Some by (simp add: cache_ok_def)
  with assms(1) Some show ?thesis
    by (auto simp: lookup_def split: if_splits stored.splits bool.splits dest: dirty_ok)
qed (use assms in \<open>simp add: lookup_def\<close>)

lemma scan_lookup_cases:
  assumes "scan_lookup key rf n c = (r, c')"
  shows "(\<exists>e. entry_of c key = Some e \<and> c' = touch key e c) \<or>
    r = None \<and> (c' = c \<or> c' = evict key c) \<and> (\<forall>e. entry_of c key = Some e \<longrightarrow> \<not> en_dirty e)"
  using assms by (auto simp: scan_lookup_def split: option.splits if_splits)

lemma am_lookup_cases:
  assumes "am_lookup_for_mutation key rf c = (r, c')" and "cache_ok c"
  shows "(\<exists>e. entry_of c key = Some e \<and> c' = touch key e c) \<or>
    r = None \<and> (c' = c \<or> c' = evict key c) \<and> (\<forall>e. entry_of c key = Some e \<longrightarrow> \<not> en_dirty e)"
proof (cases "entry_of c key")
  case (Some e)
  have "entry_ok e" using assms(2) Some by (simp add: cache_ok_def)
  with assms(1) Some show ?thesis
    by (auto simp: am_lookup_for_mutation_def split: if_splits stored.splits dest: dirty_ok)
qed (use assms in \<open>simp add: am_lookup_for_mutation_def\<close>)


section \<open>What a backend does to its cache\<close>

text \<open>
  \<open>aminsert\<close> on the cache: find the index for mutation or install the one just loaded from disk, and
  record the upserted id; \<open>present\<close> says whether the index already held the id.
\<close>

definition record_upsert :: "u64 \<Rightarrow> bool \<Rightarrow> persist_state \<Rightarrow> persist_state" where
  "record_upsert i present p =
     (let p1 = p\<lparr>pt_touched_ids := pt_touched_ids p @ [i]\<rparr>;
          p2 = (if present then p1 else p1\<lparr>pt_live_ids := pt_live_ids p1 @ [i], pt_n_vectors := pt_n_vectors p1 + 1\<rparr>)
      in p2\<lparr>pt_version := pt_version p2 + 1\<rparr>)"

definition loaded_state :: "i32 \<Rightarrow> i32 \<Rightarrow> i64 \<Rightarrow> i32 \<Rightarrow> u64 list \<Rightarrow> persist_state" where
  "loaded_state bit_width dim n version live_ids =
     \<lparr>pt_bit_width = bit_width, pt_dim = dim, pt_n_vectors = n, pt_version = version,
      pt_live_ids = live_ids, pt_touched_ids = []\<rparr>"

definition aminsert_cached ::
  "int \<Rightarrow> cache_key \<Rightarrow> u32 \<Rightarrow> arc \<times> nat \<times> i64 \<times> persist_state \<Rightarrow> u64 \<Rightarrow> bool \<Rightarrow> cache \<Rightarrow> bool \<times> cache" where
  "aminsert_cached cap_mb key relfile loaded i present c =
     (case am_lookup_for_mutation key relfile c of
        (Some a, c1) \<Rightarrow> am_mark_dirty key (record_upsert i present) c1
      | (None, c1) \<Rightarrow>
          (case loaded of (a, bytes, version, p) \<Rightarrow>
             am_mark_dirty key (record_upsert i present) (snd (am_install cap_mb key a bytes relfile version p c1))))"

text \<open>A scan or a knn call: a lookup and, on a miss, an install of what it built.\<close>

definition scan_cached ::
  "int \<Rightarrow> cache_key \<Rightarrow> u32 \<Rightarrow> i64 \<Rightarrow> stored \<Rightarrow> nat \<Rightarrow> cache \<Rightarrow> stored \<times> cache" where
  "scan_cached cap_mb key relfile version built bytes c =
     (case scan_lookup key relfile version c of
        (Some h, c1) \<Rightarrow> (h, c1)
      | (None, c1) \<Rightarrow>
          (case built of
             Bq a \<Rightarrow> scan_install_bq cap_mb key a bytes relfile version c1
           | Graph a \<Rightarrow> scan_install_graph cap_mb key a bytes relfile version c1
           | Ooc a \<Rightarrow> scan_install_ooc cap_mb key a bytes relfile version c1
           | ReadOnly a \<Rightarrow> scan_install cap_mb key a bytes relfile version c1
           | Mutable a \<Rightarrow> scan_install cap_mb key a bytes relfile version c1))"

definition knn_cached :: "int \<Rightarrow> cache_key \<Rightarrow> u32 \<Rightarrow> i64 \<Rightarrow> arc \<Rightarrow> nat \<Rightarrow> cache \<Rightarrow> arc \<times> cache" where
  "knn_cached cap_mb key relfile n_rows built bytes c =
     (case lookup key relfile n_rows c of
        (Some a, c1) \<Rightarrow> (a, c1)
      | (None, c1) \<Rightarrow> insert_knn cap_mb key built bytes relfile n_rows c1)"

datatype cache_action = Scan cache_key | Knn cache_key | Upsert cache_key u64 | Flushed cache_key | Aborted | Dropped u32

inductive cache_step :: "int \<Rightarrow> cache_action \<Rightarrow> cache \<Rightarrow> cache \<Rightarrow> bool" for cap_mb where
  scan: "scan_cached cap_mb key rf v built b c = (h, c') \<Longrightarrow> cache_step cap_mb (Scan key) c c'"
| knn: "knn_cached cap_mb key rf n built b c = (a, c') \<Longrightarrow> cache_step cap_mb (Knn key) c c'"
| upsert: "aminsert_cached cap_mb key rf (a, b, v, loaded_state bw dim n ver live) i present c = (ok, c') \<Longrightarrow>
    cache_step cap_mb (Upsert key i) c c'"
| flushed: "cache_step cap_mb (Flushed key) c (clear_dirty key outcome c)"
| aborted: "cache_step cap_mb Aborted c (invalidate_dirty c)"
| dropped: "cache_step cap_mb (Dropped rel) c (invalidate rel c)"

inductive cache_reach :: "int \<Rightarrow> cache \<Rightarrow> cache \<Rightarrow> bool" for cap_mb where
  start: "cache_reach cap_mb c c"
| step: "cache_reach cap_mb c c1 \<Longrightarrow> cache_step cap_mb act c1 c2 \<Longrightarrow> cache_reach cap_mb c c2"

inductive_cases scan_stepE: "cache_step cap_mb (Scan key) c c'"
inductive_cases upsert_stepE: "cache_step cap_mb (Upsert key i) c c'"

lemma mark_dirty_ok:
  assumes "cache_ok c" and "am_mark_dirty key f c = (r, c')"
  shows "cache_ok c'"
proof -
  have d: "distinct (map fst (ca_map c))" "\<And>k e. entry_of c k = Some e \<Longrightarrow> entry_ok e"
    using assms(1) by (simp_all add: cache_ok_def)
  show ?thesis
    using assms d by (auto simp: am_mark_dirty_def cache_ok_def entry_maps split: option.splits if_splits)
qed

lemma install_scan_ok: "cache_ok c \<Longrightarrow> cache_ok (install cap_mb key st b r n None c)"
  by (rule cache_ok_install) simp_all

lemma scan_cached_ok:
  assumes "scan_cached cap_mb key rf v built b c = (h, c')" and "cache_ok c"
  shows "cache_ok c'"
proof -
  obtain r c1 where l: "scan_lookup key rf v c = (r, c1)" by fastforce
  have c1: "cache_ok c1"
    using scan_lookup_cases [OF l] assms(2) cache_ok_touch cache_ok_evict by blast
  show ?thesis
    using assms(1) l c1 install_scan_ok [OF c1]
    by (auto simp: scan_cached_def scan_install_def scan_install_ooc_def scan_install_bq_def scan_install_graph_def
      split: option.splits stored.splits)
qed

lemma knn_cached_ok:
  assumes "knn_cached cap_mb key rf n built b c = (a, c')" and "cache_ok c"
  shows "cache_ok c'"
proof -
  obtain r c1 where l: "lookup key rf n c = (r, c1)" by fastforce
  have c1: "cache_ok c1"
    using lookup_cases [OF l assms(2)] assms(2) cache_ok_touch cache_ok_evict by blast
  show ?thesis
    using assms(1) l c1 install_scan_ok [OF c1] by (auto simp: knn_cached_def insert_knn_def split: option.splits)
qed

lemma aminsert_cached_ok:
  assumes "aminsert_cached cap_mb key rf (a, b, v, loaded_state bw dim n ver live) i present c = (ok, c')" and "cache_ok c"
  shows "cache_ok c'"
proof -
  obtain r c1 where l: "am_lookup_for_mutation key rf c = (r, c1)" by fastforce
  have c1: "cache_ok c1"
    using am_lookup_cases [OF l assms(2)] assms(2) cache_ok_touch cache_ok_evict by blast
  moreover have "cache_ok (install cap_mb key (Mutable a) b rf v (Some (loaded_state bw dim n ver live)) c1)"
    by (rule cache_ok_install [OF c1]) (simp add: loaded_state_def)
  ultimately show ?thesis
    using assms(1) l by (auto simp: aminsert_cached_def am_install_def dest: mark_dirty_ok split: option.splits)
qed

lemma clear_dirty_ok: "cache_ok c \<Longrightarrow> cache_ok (clear_dirty key outcome c)"
  by (auto simp: clear_dirty_def cache_ok_evict split: option.splits)
    (auto simp: cache_ok_def entry_maps split: if_splits)

lemma invalidate_ok: "cache_ok c \<Longrightarrow> cache_ok (invalidate_dirty c)" "cache_ok c \<Longrightarrow> cache_ok (invalidate rel c)"
  using map_of_filter_entries [of "ca_map c" "\<lambda>_ e. \<not> en_dirty e"] map_of_filter_entries [of "ca_map c" "\<lambda>k _. ck_rel_oid k \<noteq> rel"]
  by (auto simp: cache_ok_def invalidate_dirty_def invalidate_def distinct_keys_filter split: option.splits if_splits)

lemma cache_step_ok: "cache_step cap_mb act c c' \<Longrightarrow> cache_ok c \<Longrightarrow> cache_ok c'"
  by (induction rule: cache_step.induct)
    (auto dest: scan_cached_ok knn_cached_ok aminsert_cached_ok simp: clear_dirty_ok invalidate_ok)

lemma cache_reach_ok: "cache_reach cap_mb c c' \<Longrightarrow> cache_ok c \<Longrightarrow> cache_ok c'"
  by (induction rule: cache_reach.induct) (auto dest: cache_step_ok)

abbreviation empty_cache :: cache where
  "empty_cache \<equiv> \<lparr>ca_map = [], ca_seq = 0\<rparr>"

lemma empty_cache_ok: "cache_ok empty_cache"
  by (simp add: cache_ok_def)

text \<open>
  C29: Whatever a backend does to its cache, a dirty entry is always a mutable index with a persist
  mirror, no key occurs twice, and a clean entry has no ids waiting to be written again.
\<close>

theorem cache_invariant:
  assumes "cache_reach cap_mb empty_cache c" and "entry_of c key = Some e"
  shows "distinct (map fst (ca_map c)) \<and>
    (en_dirty e \<longrightarrow> (\<exists>a p. en_index e = Mutable a \<and> en_persist e = Some p)) \<and>
    (\<forall>p. en_persist e = Some p \<and> \<not> en_dirty e \<longrightarrow> pt_touched_ids p = [])"
proof -
  have "cache_ok c" using cache_reach_ok [OF assms(1) empty_cache_ok] .
  with assms(2) show ?thesis by (auto simp: cache_ok_def entry_ok_def split: option.splits)
qed

















text \<open>
  C30: After an install the cap holds up to dirty entries: what is left fits the cap, or is one entry, or
  is all dirty; no dirty entry was dropped, and whatever was dropped was used no later than any
  clean entry that stayed.
\<close>

theorem cap_enforced:
  assumes "distinct (map fst m)" and "0 < cap_mb"
  shows "let m' = enforce_cap cap_mb m in
    (\<forall>k e. map_of m' k = Some e \<longrightarrow> map_of m k = Some e) \<and>
    (\<forall>k e. map_of m k = Some e \<and> en_dirty e \<longrightarrow> map_of m' k = Some e) \<and>
    (\<forall>k e k' e'. map_of m k = Some e \<and> map_of m' k = None \<and> map_of m' k' = Some e' \<and> \<not> en_dirty e' \<longrightarrow> en_seq e \<le> en_seq e') \<and>
    (sum_list (map (en_bytes \<circ> snd) m') \<le> nat cap_mb * (1024 * 1024) \<or> length m' \<le> 1 \<or> (\<forall>(k, e) \<in> set m'. en_dirty e))"
proof -
  have "enforce_cap cap_mb m = shed (nat cap_mb * (1024 * 1024)) (sum_list (map (en_bytes \<circ> snd) m)) m"
    using assms(2) by (simp add: enforce_cap_def)
  with shed_spec [OF assms(1) refl, of "nat cap_mb * (1024 * 1024)"] have ok:
    "shed_ok (nat cap_mb * (1024 * 1024)) m (enforce_cap cap_mb m)" by simp
  note spec = ok [unfolded shed_ok_def, THEN conjunct2]
  show ?thesis
    unfolding Let_def
    by (intro conjI; (rule spec [THEN conjunct1] spec [THEN conjunct2, THEN conjunct2, THEN conjunct1]
      spec [THEN conjunct2, THEN conjunct2, THEN conjunct2])?) (use spec [THEN conjunct2, THEN conjunct1] in blast)
qed

text \<open>A concrete cache: one insert into an index of another backend's rows.\<close>

definition demo_key :: cache_key where
  "demo_key = \<lparr>ck_rel_oid = 16384, ck_attnum = 0, ck_bit_width = 4, ck_dim = 8\<rparr>"

definition demo_cache :: cache where
  "demo_cache = snd (aminsert_cached 256 demo_key 1 (0, 100, 3, loaded_state 4 8 2 3 [11, 12]) 13 False empty_cache)"

lemma demo_cache_reach: "cache_reach 256 empty_cache demo_cache"
proof -
  have "cache_step 256 (Upsert demo_key 13) empty_cache demo_cache"
    unfolding demo_cache_def by (rule cache_step.upsert) (rule surjective_pairing)
  then show ?thesis by (rule cache_reach.step [OF cache_reach.start])
qed

lemma demo_cache_entry:
  "\<exists>e p. entry_of demo_cache demo_key = Some e \<and> en_dirty e \<and> en_persist e = Some p \<and> pt_touched_ids p = [13]"
  by (simp add: demo_cache_def aminsert_cached_def am_lookup_for_mutation_def am_install_def install_def next_seq_def
      enforce_cap_def shed.simps am_mark_dirty_def record_upsert_def loaded_state_def Let_def)

theorem cache_invariant_witness:
  "\<exists>e. entry_of demo_cache demo_key = Some e \<and> (\<exists>a p. en_index e = Mutable a \<and> en_persist e = Some p)"
  using demo_cache_entry cache_invariant [OF demo_cache_reach] by blast



theorem cap_enforced_witness:
  "map_of (enforce_cap 1 (ca_map demo_cache)) \<subseteq>\<^sub>m map_of (ca_map demo_cache)"
proof -
  have "distinct (map fst (ca_map demo_cache))"
    using cache_reach_ok [OF demo_cache_reach empty_cache_ok] by (simp add: cache_ok_def)
  from cap_enforced [OF this, of 1, unfolded Let_def, THEN conjunct1] show ?thesis
    unfolding map_le_def dom_def by fastforce
qed

end
