(* ===== verification/Xact.thy ===== *)
theory Xact
  imports Cache
begin

text \<open>
  The transaction callbacks (\<open>src/xact.rs\<close>).  A backend has its cache, the contents of the indexes its
  cache entries point to (\<open>turbovec::IdMapIndex\<close> as the flush reads it), the relations by oid
  (\<open>None\<close>: dropped, \<open>index_open\<close> gives null), the pending cancel and the registration flag.  The bound
  on the appended tail (\<open>max_pct\<close>) and the codebook are arguments, as in the flush.
\<close>

section \<open>State\<close>

record loaded_index =
  li_image :: image
  li_prepared :: prepared

record 'r backend =
  bk_cache :: cache
  bk_index :: "arc \<Rightarrow> loaded_index"
  bk_rels :: "u32 \<Rightarrow> 'r option"
  bk_polls :: "nat option"
  bk_snapshots :: nat
  bk_registered :: bool
  bk_hooks :: nat

datatype xact_fault = SnapshotFault snapshot_fault | WriteFault exn

abbreviation de_oid :: "dirty_entry \<Rightarrow> u32" where
  "de_oid d \<equiv> ck_rel_oid (de_key d)"

section \<open>The callbacks\<close>

text \<open>The world in which a flush runs: one relation, no rewrite lock held yet.\<close>

definition flush_world :: "nat option \<Rightarrow> 'r \<Rightarrow> 'r world" where
  "flush_world polls r = \<lparr>w_rel = r, w_polls = polls, w_xlock = 0, w_slock = 0, w_wal = 0\<rparr>"

definition flush_to_relfile ::
  "codebook_fn \<Rightarrow> i32 \<Rightarrow> 'r pstore \<Rightarrow> bool \<Rightarrow> u32 \<Rightarrow> loaded_index \<Rightarrow> persist_state \<Rightarrow> 'r backend \<Rightarrow>
   (xact_fault + flush_outcome option) \<times> 'r backend" where
  "flush_to_relfile cb max_pct S skip oid idx st b =
     (case bk_rels b oid of
        None \<Rightarrow> (Inr None, b)
      | Some r \<Rightarrow>
          (case reconciled_row_count (pt_n_vectors st) (length (im_ids (li_image idx))) of
             Inl (mirror, authoritative) \<Rightarrow> (Inl (SnapshotFault (RowCountDrift mirror authoritative)), b)
           | Inr _ \<Rightarrow>
               (case reconcile_and_write_flush cb max_pct S skip (ucast (pt_bit_width st)) (pt_dim st)
                       (li_image idx) (pt_touched_ids st) (pt_version st) (li_prepared idx)
                       (flush_world (bk_polls b) r) of
                  (res, w) \<Rightarrow>
                    (case res of Inl e \<Rightarrow> Inl (WriteFault e) | Inr fo \<Rightarrow> Inr (Some fo),
                     b\<lparr>bk_rels := (bk_rels b)(oid \<mapsto> w_rel w), bk_polls := w_polls w\<rparr>))))"

text \<open>The first loop of the pre-commit callback: every snapshot is checked, nothing is written.\<close>

primrec validate_all :: "(arc \<Rightarrow> loaded_index) \<Rightarrow> dirty_entry list \<Rightarrow> xact_fault + unit" where
  "validate_all index [] = Inr ()"
| "validate_all index (d # ds) =
     (case validate_flush_snapshot (im_ids (li_image (index (de_index d)))) (pt_n_vectors (de_persist d)) of
        Inl f \<Rightarrow> Inl (SnapshotFault f)
      | Inr _ \<Rightarrow> validate_all index ds)"

text \<open>The second loop.\<close>

primrec flush_all ::
  "codebook_fn \<Rightarrow> i32 \<Rightarrow> 'r pstore \<Rightarrow> bool \<Rightarrow> dirty_entry list \<Rightarrow> 'r backend \<Rightarrow> (xact_fault + unit) \<times> 'r backend" where
  "flush_all cb max_pct S skip [] b = (Inr (), b)"
| "flush_all cb max_pct S skip (d # ds) b =
     (case flush_to_relfile cb max_pct S skip (de_oid d) (bk_index b (de_index d)) (de_persist d) b of
        (Inl e, b') \<Rightarrow> (Inl e, b')
      | (Inr outcome, b') \<Rightarrow>
          flush_all cb max_pct S skip ds (b'\<lparr>bk_cache := clear_dirty (de_key d) outcome (bk_cache b')\<rparr>))"

definition pre_commit ::
  "codebook_fn \<Rightarrow> i32 \<Rightarrow> 'r pstore \<Rightarrow> bool \<Rightarrow> 'r backend \<Rightarrow> (xact_fault + unit) \<times> 'r backend" where
  "pre_commit cb max_pct S skip b0 =
     (let b = b0\<lparr>bk_registered := False\<rparr>; dirty = drain_dirty (bk_cache b)
      in if dirty = [] then (Inr (), b)
         else let b1 = b\<lparr>bk_snapshots := bk_snapshots b + 1\<rparr>
              in case validate_all (bk_index b1) dirty of
                   Inl e \<Rightarrow> (Inl e, b1)
                 | Inr _ \<Rightarrow>
                     (case flush_all cb max_pct S skip dirty b1 of
                        (Inl e, b2) \<Rightarrow> (Inl e, b2)
                      | (Inr _, b2) \<Rightarrow> (Inr (), b2\<lparr>bk_snapshots := bk_snapshots b2 - 1\<rparr>)))"

definition xact_abort :: "'r backend \<Rightarrow> 'r backend" where
  "xact_abort b = b\<lparr>bk_registered := False, bk_cache := invalidate_dirty (bk_cache b)\<rparr>"

definition subxact_abort :: "'r backend \<Rightarrow> 'r backend" where
  "subxact_abort b = b\<lparr>bk_cache := invalidate_dirty (bk_cache b)\<rparr>"

definition ensure_xact_callbacks_registered :: "'r backend \<Rightarrow> 'r backend" where
  "ensure_xact_callbacks_registered b =
     (if bk_registered b then b else b\<lparr>bk_registered := True, bk_hooks := bk_hooks b + 1\<rparr>)"

section \<open>What the dirty set is\<close>

lemma dirty_snapshot_Some:
  "dirty_snapshot (k, e) = Some d \<longleftrightarrow>
     de_key d = k \<and> en_dirty e \<and> en_persist e = Some (de_persist d) \<and> en_index e = Mutable (de_index d)"
  by (cases d; cases "en_persist e"; cases "en_index e") (auto simp: dirty_snapshot_def)

lemma drain_dirty_set:
  assumes "distinct (map fst (ca_map c))"
  shows "d \<in> set (drain_dirty c) \<longleftrightarrow>
    (\<exists>e. entry_of c (de_key d) = Some e \<and> en_dirty e \<and> en_persist e = Some (de_persist d) \<and> en_index e = Mutable (de_index d))"
proof -
  have "d \<in> set (drain_dirty c) \<longleftrightarrow> (\<exists>(k, e) \<in> set (ca_map c). dirty_snapshot (k, e) = Some d)"
    by (force simp: drain_dirty_def List.map_filter_def)
  also have "\<dots> \<longleftrightarrow> (\<exists>k e. entry_of c k = Some e \<and> dirty_snapshot (k, e) = Some d)"
    by (simp only: set_lookup [OF assms] Bex_def split_paired_Ex prod.case)
  also have "\<dots> \<longleftrightarrow> (\<exists>e. entry_of c (de_key d) = Some e \<and> en_dirty e \<and> en_persist e = Some (de_persist d) \<and> en_index e = Mutable (de_index d))"
    by (auto simp: dirty_snapshot_Some simp del: map_of_eq_Some_iff)
  finally show ?thesis .
qed

lemma drain_dirty_keys:
  assumes "distinct (map fst (ca_map c))"
  shows "distinct (map de_key (drain_dirty c))"
proof -
  have "map de_key (List.map_filter dirty_snapshot m) = map fst (filter (\<lambda>x. dirty_snapshot x \<noteq> None) m)" for m
    by (induction m) (auto simp: List.map_filter_def dirty_snapshot_def split: if_splits option.splits stored.splits)
  then show ?thesis using distinct_keys_filter [OF assms] by (simp add: drain_dirty_def)
qed

lemma cache_ok_dirty:
  assumes "cache_ok c" and "entry_of c key = Some e" "en_dirty e"
  obtains d where "d \<in> set (drain_dirty c)" "de_key d = key" "en_persist e = Some (de_persist d)" "en_index e = Mutable (de_index d)"
proof -
  from assms obtain p a where "en_persist e = Some p" "en_index e = Mutable a"
    by (fastforce simp: cache_ok_def entry_ok_def split: option.splits)
  with assms that [of "\<lparr>de_key = key, de_index = a, de_persist = p\<rparr>"] show thesis
    by (auto simp: drain_dirty_set cache_ok_def)
qed

lemma clear_dirty_entry:
  "entry_of (clear_dirty key outcome c) k =
     (if k = key then (case outcome of
          Some fo \<Rightarrow> if fo_snapshot_is_current fo then map_option (cleaned fo) (entry_of c key) else None
        | None \<Rightarrow> None)
      else entry_of c k)"
  by (simp add: clear_dirty_def entry_maps split: option.split)

lemma clear_dirty_keys: "distinct (map fst (ca_map c)) \<Longrightarrow> distinct (map fst (ca_map (clear_dirty key outcome c)))"
  by (simp add: clear_dirty_def entry_maps split: option.split)

section \<open>The flush loop\<close>

text \<open>One relation before and after its own flush returned.\<close>

definition written ::
  "codebook_fn \<Rightarrow> i32 \<Rightarrow> 'r pstore \<Rightarrow> bool \<Rightarrow> loaded_index \<Rightarrow> persist_state \<Rightarrow> 'r option \<Rightarrow> 'r option \<Rightarrow> bool" where
  "written cb max_pct S skip idx st r r' \<longleftrightarrow>
     (case r of
        None \<Rightarrow> r' = None
      | Some r0 \<Rightarrow> \<exists>polls fo w. reconcile_and_write_flush cb max_pct S skip (ucast (pt_bit_width st)) (pt_dim st)
            (li_image idx) (pt_touched_ids st) (pt_version st) (li_prepared idx) (flush_world polls r0) = (Inr fo, w) \<and>
          r' = Some (w_rel w))"

lemma flush_to_relfile_frame:
  assumes "flush_to_relfile cb max_pct S skip oid idx st b = (res, b')"
  shows "bk_cache b' = bk_cache b" "bk_index b' = bk_index b" "bk_snapshots b' = bk_snapshots b"
    "oid' \<noteq> oid \<Longrightarrow> bk_rels b' oid' = bk_rels b oid'"
    "res = Inr outcome \<Longrightarrow> written cb max_pct S skip idx st (bk_rels b oid) (bk_rels b' oid)"
  using assms
  by (auto simp: flush_to_relfile_def split: option.splits sum.splits prod.splits)
    (auto simp: written_def)

text \<open>
  The loop, from its start to its end or to the flush that raised: a prefix of the entries is written
  and cleaned, the entry that raised is not cleaned, and the rest is untouched.
\<close>

lemma flush_all_run:
  "flush_all cb max_pct S skip ds b = (res, b') \<Longrightarrow> distinct (map de_oid ds) \<Longrightarrow> distinct (map de_key ds) \<Longrightarrow>
   \<exists>xs ys. ds = xs @ ys \<and>
     (case res of Inr _ \<Rightarrow> ys = [] | Inl _ \<Rightarrow> ys \<noteq> []) \<and>
     bk_snapshots b' = bk_snapshots b \<and>
     (\<forall>d \<in> set xs. written cb max_pct S skip (bk_index b (de_index d)) (de_persist d) (bk_rels b (de_oid d)) (bk_rels b' (de_oid d))) \<and>
     (\<forall>oid. oid \<notin> de_oid ` set xs \<longrightarrow> (ys \<noteq> [] \<longrightarrow> oid \<noteq> de_oid (hd ys)) \<longrightarrow> bk_rels b' oid = bk_rels b oid) \<and>
     (\<forall>d \<in> set xs. \<forall>e. entry_of (bk_cache b') (de_key d) = Some e \<longrightarrow> \<not> en_dirty e) \<and>
     (\<forall>k. k \<notin> de_key ` set xs \<longrightarrow> entry_of (bk_cache b') k = entry_of (bk_cache b) k) \<and>
     (distinct (map fst (ca_map (bk_cache b))) \<longrightarrow> distinct (map fst (ca_map (bk_cache b'))))"
proof (induction ds arbitrary: b)
  case (Cons d ds)
  obtain r1 b1 where run: "flush_to_relfile cb max_pct S skip (de_oid d) (bk_index b (de_index d)) (de_persist d) b = (r1, b1)"
    by fastforce
  note frame = flush_to_relfile_frame [OF run]
  show ?case
  proof (cases r1)
    case (Inl e)
    then have "res = Inl e" "b' = b1" using Cons.prems(1) run by simp_all
    with frame show ?thesis by (intro exI [of _ "[]"] exI [of _ "d # ds"]) simp
  next
    case (Inr outcome)
    let ?b2 = "b1\<lparr>bk_cache := clear_dirty (de_key d) outcome (bk_cache b1)\<rparr>"
    have rest: "flush_all cb max_pct S skip ds ?b2 = (res, b')" using Cons.prems(1) run Inr by simp
    have nd: "de_oid d \<notin> de_oid ` set ds" "de_key d \<notin> de_key ` set ds" using Cons.prems(2,3) by auto
    from Cons.IH [OF rest] Cons.prems(2,3) obtain xs ys where ds: "ds = xs @ ys"
      and res: "case res of Inr _ \<Rightarrow> ys = [] | Inl _ \<Rightarrow> ys \<noteq> []" and sn: "bk_snapshots b' = bk_snapshots ?b2"
      and wr: "\<forall>d \<in> set xs. written cb max_pct S skip (bk_index ?b2 (de_index d)) (de_persist d) (bk_rels ?b2 (de_oid d)) (bk_rels b' (de_oid d))"
      and other: "\<forall>oid. oid \<notin> de_oid ` set xs \<longrightarrow> (ys \<noteq> [] \<longrightarrow> oid \<noteq> de_oid (hd ys)) \<longrightarrow> bk_rels b' oid = bk_rels ?b2 oid"
      and cl: "\<forall>d \<in> set xs. \<forall>e. entry_of (bk_cache b') (de_key d) = Some e \<longrightarrow> \<not> en_dirty e"
      and ky: "\<forall>k. k \<notin> de_key ` set xs \<longrightarrow> entry_of (bk_cache b') k = entry_of (bk_cache ?b2) k"
      and di: "distinct (map fst (ca_map (bk_cache ?b2))) \<longrightarrow> distinct (map fst (ca_map (bk_cache b')))"
      by auto
    have hd: "ys \<noteq> [] \<Longrightarrow> hd ys \<in> set ds" using ds by simp
    have d1: "bk_rels b' (de_oid d) = bk_rels b1 (de_oid d)" using other nd(1) ds hd by force
    have "written cb max_pct S skip (bk_index b (de_index x)) (de_persist x) (bk_rels b (de_oid x)) (bk_rels b' (de_oid x))"
      if "x \<in> set (d # xs)" for x
    proof (cases "x = d")
      case True
      with frame(5) [OF Inr] d1 show ?thesis by simp
    next
      case False
      then have "x \<in> set xs" using that by simp
      moreover from this have "de_oid x \<noteq> de_oid d" using nd(1) ds by (metis UnCI image_eqI set_append)
      ultimately show ?thesis using wr frame(2) frame(4) by fastforce
    qed
    moreover have "\<not> en_dirty e" if "x \<in> set (d # xs)" "entry_of (bk_cache b') (de_key x) = Some e" for x e
    proof (cases "x = d")
      case True
      have "de_key d \<notin> de_key ` set xs" using nd(2) ds by auto
      with ky that(2) True have "entry_of (bk_cache ?b2) (de_key d) = Some e" by simp
      then show ?thesis by (auto simp: clear_dirty_entry cleaned_def split: option.splits if_splits)
    next
      case False
      with that cl show ?thesis by auto
    qed
    moreover have "bk_rels b' oid = bk_rels b oid"
      if "oid \<notin> de_oid ` set (d # xs)" "ys \<noteq> [] \<longrightarrow> oid \<noteq> de_oid (hd ys)" for oid
      using other frame(4) that by simp
    moreover have "entry_of (bk_cache b') k = entry_of (bk_cache b) k" if "k \<notin> de_key ` set (d # xs)" for k
      using ky that frame(1) by (simp add: clear_dirty_entry)
    moreover have "distinct (map fst (ca_map (bk_cache b))) \<longrightarrow> distinct (map fst (ca_map (bk_cache b')))"
      using di frame(1) clear_dirty_keys by (metis backend.select_convs(1) backend.surjective backend.update_convs(1))
    ultimately show ?thesis using ds res sn frame(3)
      by (intro exI [of _ "d # xs"] exI [of _ ys]) (auto split: sum.splits)
  qed
qed auto

lemma flush_all_failed:
  assumes "flush_all cb max_pct S skip ds b = (Inl e, b')" "distinct (map de_oid ds)" "distinct (map de_key ds)"
  shows "\<exists>xs d ys. ds = xs @ d # ys \<and>
    (\<forall>x \<in> set xs. written cb max_pct S skip (bk_index b (de_index x)) (de_persist x) (bk_rels b (de_oid x)) (bk_rels b' (de_oid x))) \<and>
    (\<forall>oid. oid \<notin> de_oid ` set (xs @ [d]) \<longrightarrow> bk_rels b' oid = bk_rels b oid)"
proof -
  obtain xs ys where ds: "ds = xs @ ys" "ys \<noteq> []"
    and wr: "\<forall>x \<in> set xs. written cb max_pct S skip (bk_index b (de_index x)) (de_persist x) (bk_rels b (de_oid x)) (bk_rels b' (de_oid x))"
    and other: "\<forall>oid. oid \<notin> de_oid ` set xs \<longrightarrow> (ys \<noteq> [] \<longrightarrow> oid \<noteq> de_oid (hd ys)) \<longrightarrow> bk_rels b' oid = bk_rels b oid"
    using flush_all_run [OF assms] unfolding sum.case by (elim exE conjE) (rule that)
  obtain d zs where "ys = d # zs" using ds(2) by (cases ys) auto
  with ds wr other show ?thesis by (intro exI [of _ xs] exI [of _ d] exI [of _ zs]) simp
qed

section \<open>The commit\<close>

lemma pre_commit_cases:
  assumes "pre_commit cb max_pct S skip b = (res, b')"
  obtains (nothing) "drain_dirty (bk_cache b) = []" "res = Inr ()" "b' = b\<lparr>bk_registered := False\<rparr>"
  | (invalid) e where "validate_all (bk_index b) (drain_dirty (bk_cache b)) = Inl e" "res = Inl e"
      "b' = b\<lparr>bk_registered := False, bk_snapshots := bk_snapshots b + 1\<rparr>"
  | (ran) r2 b2 where "validate_all (bk_index b) (drain_dirty (bk_cache b)) = Inr ()"
      "flush_all cb max_pct S skip (drain_dirty (bk_cache b)) (b\<lparr>bk_registered := False, bk_snapshots := bk_snapshots b + 1\<rparr>) = (r2, b2)"
      "res = r2" "b' = (case r2 of Inl _ \<Rightarrow> b2 | Inr _ \<Rightarrow> b2\<lparr>bk_snapshots := bk_snapshots b2 - 1\<rparr>)"
  using assms
  by (fastforce simp: pre_commit_def Let_def split: if_splits sum.splits prod.splits)

lemma validate_all_Inl:
  "validate_all index ds = Inl e \<longleftrightarrow> (\<exists>f. e = SnapshotFault f \<and> (\<exists>xs d ys. ds = xs @ d # ys \<and>
     validate_flush_snapshot (im_ids (li_image (index (de_index d)))) (pt_n_vectors (de_persist d)) = Inl f \<and>
     (\<forall>x \<in> set xs. validate_flush_snapshot (im_ids (li_image (index (de_index x)))) (pt_n_vectors (de_persist x)) = Inr ())))"
  (is "_ \<longleftrightarrow> ?rhs ds")
proof (induction ds)
  case (Cons d ds)
  let ?v = "\<lambda>d. validate_flush_snapshot (im_ids (li_image (index (de_index d)))) (pt_n_vectors (de_persist d))"
  show ?case
  proof (cases "?v d")
    case (Inl f)
    show ?thesis
    proof
      assume "validate_all index (d # ds) = Inl e"
      with Inl show "?rhs (d # ds)" by (intro exI [of _ f] conjI exI [of _ "[]"]) auto
    next
      assume "?rhs (d # ds)"
      then show "validate_all index (d # ds) = Inl e" using Inl by (auto simp: Cons_eq_append_conv)
    qed
  next
    case (Inr u)
    then have "?rhs (d # ds) \<longleftrightarrow> ?rhs ds"
      by (intro iffI; elim exE conjE) (force simp: Cons_eq_append_conv intro: exI [of _ "d # _"])+
    with Cons Inr show ?thesis by simp
  qed
qed simp

lemma validate_all_Inr:
  "validate_all index ds = Inr () \<longleftrightarrow>
     (\<forall>d \<in> set ds. validate_flush_snapshot (im_ids (li_image (index (de_index d)))) (pt_n_vectors (de_persist d)) = Inr ())"
  by (induction ds) (auto split: sum.splits)

text \<open>
  C11: No relation is touched before every snapshot has passed: when the in-memory copy of any dirty
  index disagrees with its row count or repeats an id, the commit raises and no relation and no cache
  entry has changed, however many other indexes were dirty and in whatever order they are visited.
\<close>

theorem commit_validates_first:
  assumes "cache_ok (bk_cache b)"
    and "entry_of (bk_cache b) key = Some e" "en_dirty e" "en_persist e = Some p" "en_index e = Mutable a"
    and "validate_flush_snapshot (im_ids (li_image (bk_index b a))) (pt_n_vectors p) \<noteq> Inr ()"
  shows "\<exists>f b'. pre_commit cb max_pct S skip b = (Inl (SnapshotFault f), b') \<and>
    bk_rels b' = bk_rels b \<and> bk_cache b' = bk_cache b"
proof -
  obtain d where d: "d \<in> set (drain_dirty (bk_cache b))" "de_persist d = p" "de_index d = a"
    using cache_ok_dirty [OF assms(1,2,3)] assms(4,5) by (metis option.inject stored.inject(1))
  obtain res b' where run: "pre_commit cb max_pct S skip b = (res, b')" by fastforce
  have bad: "validate_all (bk_index b) (drain_dirty (bk_cache b)) \<noteq> Inr ()"
    using assms(6) d unfolding validate_all_Inr by blast
  from run show ?thesis
  proof (cases rule: pre_commit_cases)
    case (invalid e)
    with run show ?thesis by (auto simp: validate_all_Inl)
  qed (use d bad in auto)
qed

text \<open>
  C31: A commit that returns has flushed everything: each relation with a dirty entry is the result of its
  own reconciled rewrite (or was dropped), every other relation is as before, and no entry of the
  cache is dirty any more.
\<close>

theorem commit_flushes_everything:
  assumes ok: "cache_ok (bk_cache b)" and oids: "distinct (map de_oid (drain_dirty (bk_cache b)))"
    and run: "pre_commit cb max_pct S skip b = (Inr (), b')"
  shows "(\<forall>d \<in> set (drain_dirty (bk_cache b)).
      written cb max_pct S skip (bk_index b (de_index d)) (de_persist d) (bk_rels b (de_oid d)) (bk_rels b' (de_oid d))) \<and>
    (\<forall>oid. oid \<notin> de_oid ` set (drain_dirty (bk_cache b)) \<longrightarrow> bk_rels b' oid = bk_rels b oid) \<and>
    drain_dirty (bk_cache b') = [] \<and> bk_snapshots b' = bk_snapshots b"
  using run
proof (cases rule: pre_commit_cases)
  case (ran r2 b2)
  have dis: "distinct (map fst (ca_map (bk_cache b)))" using ok by (simp add: cache_ok_def)
  from ran(4) ran(3) have b': "b' = b2\<lparr>bk_snapshots := bk_snapshots b2 - 1\<rparr>" by (auto split: sum.splits)
  let ?ds = "drain_dirty (bk_cache b)"
  from flush_all_run [OF ran(2) oids drain_dirty_keys [OF dis]] ran(3) have
    sn: "bk_snapshots b2 = bk_snapshots b + 1"
    and wr: "\<forall>d \<in> set ?ds. written cb max_pct S skip (bk_index b (de_index d)) (de_persist d) (bk_rels b (de_oid d)) (bk_rels b2 (de_oid d))"
    and other: "\<forall>oid. oid \<notin> de_oid ` set ?ds \<longrightarrow> bk_rels b2 oid = bk_rels b oid"
    and cl: "\<forall>d \<in> set ?ds. \<forall>e. entry_of (bk_cache b2) (de_key d) = Some e \<longrightarrow> \<not> en_dirty e"
    and ky: "\<forall>k. k \<notin> de_key ` set ?ds \<longrightarrow> entry_of (bk_cache b2) k = entry_of (bk_cache b) k"
    and di: "distinct (map fst (ca_map (bk_cache b2)))"
    using dis by (auto split: sum.splits)
  have "d \<notin> set (drain_dirty (bk_cache b2))" for d
  proof
    assume "d \<in> set (drain_dirty (bk_cache b2))"
    then obtain e where e: "entry_of (bk_cache b2) (de_key d) = Some e" "en_dirty e"
      using drain_dirty_set [OF di] by blast
    then have new: "de_key d \<notin> de_key ` set ?ds" using cl by (auto simp del: map_of_eq_Some_iff)
    with ky e have "entry_of (bk_cache b) (de_key d) = Some e" by simp
    from cache_ok_dirty [OF ok this e(2)] new show False by (metis image_eqI)
  qed
  then have "drain_dirty (bk_cache b2) = []" using all_not_in_conv [of "set (drain_dirty (bk_cache b2))"] by simp
  with wr other sn b' show ?thesis by simp
qed auto

text \<open>
  C32: A commit that raises while it writes has flushed a prefix of the dirty indexes: their relations
  hold their rewrites, the relation whose flush raised is as that flush left it, and the relations after
  it are as before.  What was written stays written, since the page changes are not undone by the abort.
\<close>

theorem failed_commit_keeps_prefix:
  assumes ok: "cache_ok (bk_cache b)" and oids: "distinct (map de_oid (drain_dirty (bk_cache b)))"
    and run: "pre_commit cb max_pct S skip b = (Inl (WriteFault e), b')"
  shows "\<exists>xs d ys. drain_dirty (bk_cache b) = xs @ d # ys \<and>
    (\<forall>x \<in> set xs. written cb max_pct S skip (bk_index b (de_index x)) (de_persist x) (bk_rels b (de_oid x)) (bk_rels b' (de_oid x))) \<and>
    (\<forall>oid. oid \<notin> de_oid ` set (xs @ [d]) \<longrightarrow> bk_rels b' oid = bk_rels b oid) \<and>
    drain_dirty (bk_cache (xact_abort b')) = []"
proof -
  have gone: "drain_dirty (invalidate_dirty c) = []" for c
    by (auto simp: drain_dirty_def invalidate_dirty_def List.map_filter_def dirty_snapshot_def filter_empty_conv)
  from run show ?thesis
  proof (cases rule: pre_commit_cases)
    case (ran r2 b2)
    have dis: "distinct (map fst (ca_map (bk_cache b)))" using ok by (simp add: cache_ok_def)
    have b': "b' = b2" using ran(3,4) by (auto split: sum.splits)
    from flush_all_failed [OF ran(2) [folded ran(3)] oids drain_dirty_keys [OF dis]] gone show ?thesis
      by (simp add: b' xact_abort_def)
  qed (auto simp: validate_all_Inl)
qed

text \<open>
  C37: An insert followed by the rollback of any later savepoint is not flushed: the row that the open
  transaction has put into the index, and whose heap tuple commits with it, is dropped with the whole
  dirty set, and the commit then returns without writing any relation.
\<close>

theorem savepoint_rollback_loses_rows:
  assumes ok: "cache_ok c"
    and ins: "aminsert_cached cap_mb key relfile (a, bytes, v, loaded_state bw dim n ver live) i present c = (True, c')"
    and b: "bk_cache b = c'"
  shows "(\<exists>e p. entry_of c' key = Some e \<and> en_dirty e \<and> en_persist e = Some p \<and> i \<in> set (pt_touched_ids p)) \<and>
    pre_commit cb max_pct S skip (subxact_abort b) = (Inr (), subxact_abort b\<lparr>bk_registered := False\<rparr>) \<and>
    bk_rels (subxact_abort b) = bk_rels b \<and> entry_of (bk_cache (subxact_abort b)) key = None"
proof -
  obtain c1 where mark: "am_mark_dirty key (record_upsert i present) c1 = (True, c')"
    using ins by (auto simp: aminsert_cached_def split: option.splits prod.splits)
  then obtain e p where e: "entry_of c' key = Some e" "en_dirty e" "en_persist e = Some p" "i \<in> set (pt_touched_ids p)"
    by (auto simp: am_mark_dirty_def record_upsert_def Let_def entry_maps split: option.splits)
  have "cache_step cap_mb (Upsert key i) c c'" by (rule cache_step.upsert [OF ins])
  then have "cache_ok c'" by (rule cache_step_ok) (rule ok)
  then have d: "distinct (map fst (ca_map c'))" by (simp add: cache_ok_def)
  have "drain_dirty (invalidate_dirty c') = []"
    by (auto simp: drain_dirty_def invalidate_dirty_def List.map_filter_def dirty_snapshot_def filter_empty_conv)
  moreover have "entry_of (invalidate_dirty c') key = None"
    using map_of_filter_entries [OF d, of "\<lambda>_ e. \<not> en_dirty e" key] e(1,2) by (simp add: invalidate_dirty_def)
  ultimately show ?thesis using e b by (auto simp: pre_commit_def subxact_abort_def Let_def)
qed

text \<open>A backend with one dirty index: row 13 waits to be written.\<close>

definition demo_image :: image where
  "demo_image = \<lparr>im_codes = [], im_scales = [], im_ids = [11, 12, 13]\<rparr>"

definition demo_backend :: "u64 list \<Rightarrow> page list option \<Rightarrow> page list backend" where
  "demo_backend ids r = \<lparr>bk_cache = demo_cache, bk_index = (\<lambda>_. \<lparr>li_image = demo_image\<lparr>im_ids := ids\<rparr>, li_prepared = demo_prepared\<rparr>),
     bk_rels = (\<lambda>oid. if oid = ck_rel_oid demo_key then r else None), bk_polls = None, bk_snapshots = 0, bk_registered = True, bk_hooks = 1\<rparr>"

lemma demo_cache_eq:
  "demo_cache = \<lparr>ca_map = [(demo_key, \<lparr>en_index = Mutable 0, en_bytes = 100, en_relfilenode = 1, en_n_rows = 3, en_seq = 1, en_dirty = True,
     en_persist = Some \<lparr>pt_bit_width = 4, pt_dim = 8, pt_n_vectors = 3, pt_version = 4, pt_live_ids = [11, 12, 13], pt_touched_ids = [13]\<rparr>\<rparr>)],
     ca_seq = 1\<rparr>"
  by (simp add: demo_cache_def aminsert_cached_def am_lookup_for_mutation_def am_install_def install_def next_seq_def
      enforce_cap_def shed.simps am_mark_dirty_def record_upsert_def loaded_state_def Let_def)

lemma demo_drain:
  "drain_dirty demo_cache = [\<lparr>de_key = demo_key, de_index = 0,
     de_persist = \<lparr>pt_bit_width = 4, pt_dim = 8, pt_n_vectors = 3, pt_version = 4, pt_live_ids = [11, 12, 13], pt_touched_ids = [13]\<rparr>\<rparr>]"
  by (simp add: demo_cache_eq drain_dirty_def List.map_filter_def dirty_snapshot_def)

lemma demo_cache_ok: "cache_ok demo_cache"
  by (rule cache_reach_ok [OF demo_cache_reach empty_cache_ok])

lemma demo_backend_sel [simp]:
  "bk_cache (demo_backend ids r) = demo_cache" "bk_snapshots (demo_backend ids r) = 0"
  "im_ids (li_image (bk_index (demo_backend ids r) a)) = ids"
  "bk_rels (demo_backend ids r) (ck_rel_oid demo_key) = r"
  by (simp_all add: demo_backend_def)

lemma demo_validates: "validate_flush_snapshot [11, 12, 13] 3 = Inr ()"
  by (simp add: validate_flush_snapshot_def reconciled_row_count_def first_duplicate_id_def len64_def)

theorem commit_validates_first_witness:
  "\<exists>f b'. pre_commit demo_codebook 10 list_store True (demo_backend [11, 12, 11] (Some [])) = (Inl (SnapshotFault f), b') \<and>
    bk_rels b' = bk_rels (demo_backend [11, 12, 11] (Some [])) \<and> bk_cache b' = demo_cache"
proof -
  let ?b = "demo_backend [11, 12, 11] (Some [])"
  have "validate_flush_snapshot [11, 12, 11] 3 \<noteq> Inr ()"
    by (simp add: validate_flush_snapshot_def reconciled_row_count_def first_duplicate_id_def len64_def)
  then show ?thesis
    using commit_validates_first [of ?b demo_key _ _ 0 demo_codebook 10 list_store True, unfolded demo_backend_sel, OF demo_cache_ok]
    by (simp add: demo_cache_eq)
qed

theorem commit_flushes_everything_witness:
  "\<exists>b'. pre_commit demo_codebook 10 list_store True (demo_backend [11, 12, 13] None) = (Inr (), b') \<and>
    bk_rels b' (ck_rel_oid demo_key) = None \<and> drain_dirty (bk_cache b') = [] \<and> bk_snapshots b' = 0"
proof -
  let ?b = "demo_backend [11, 12, 13] None"
  have run: "\<exists>b'. pre_commit demo_codebook 10 list_store True ?b = (Inr (), b')"
    by (simp add: pre_commit_def demo_drain demo_validates flush_to_relfile_def Let_def)
  then obtain b' where run: "pre_commit demo_codebook 10 list_store True ?b = (Inr (), b')" by blast
  have "cache_ok (bk_cache ?b)" "distinct (map de_oid (drain_dirty (bk_cache ?b)))"
    by (simp_all add: demo_cache_ok demo_drain)
  from commit_flushes_everything [OF this run] run show ?thesis
    by (simp add: demo_drain written_def)
qed

theorem failed_commit_keeps_prefix_witness:
  "\<exists>b'. pre_commit demo_codebook 10 list_store True (demo_backend [11, 12, 13] (Some [])) = (Inl (WriteFault OutOfBounds), b') \<and>
    bk_rels b' 7 = None \<and> drain_dirty (bk_cache (xact_abort b')) = []"
proof -
  let ?b = "demo_backend [11, 12, 13] (Some [])"
  have "\<exists>w. reconcile_and_write_flush demo_codebook 10 list_store True 4 8 demo_image [13] 4 demo_prepared
      (flush_world None []) = (Inl OutOfBounds, w)"
    by (simp add: reconcile_and_write_flush_def seq_io_def bind_io_def lock_relfile_write_def flush_world_def
        read_meta_def nblocks_def list_store_def ret_def raise_def preserved_ivf_def flush_image_def option_io_def demo_image_def Let_def)
  then have "\<exists>b'. pre_commit demo_codebook 10 list_store True ?b = (Inl (WriteFault OutOfBounds), b')"
    by (auto simp: pre_commit_def demo_drain demo_validates flush_to_relfile_def Let_def reconciled_row_count_def
      demo_backend_def demo_image_def len64_def)
  then obtain b' where run: "pre_commit demo_codebook 10 list_store True ?b = (Inl (WriteFault OutOfBounds), b')" by blast
  have "cache_ok (bk_cache ?b)" "distinct (map de_oid (drain_dirty (bk_cache ?b)))"
    by (simp_all add: demo_cache_ok demo_drain)
  from failed_commit_keeps_prefix [OF this run] have "bk_rels b' 7 = bk_rels ?b 7" "drain_dirty (bk_cache (xact_abort b')) = []"
    by (auto simp: demo_drain Cons_eq_append_conv demo_key_def)
  with run show ?thesis by (simp add: demo_backend_def demo_key_def)
qed

theorem savepoint_rollback_loses_rows_witness:
  "pre_commit demo_codebook 10 list_store True (subxact_abort (demo_backend [11, 12, 13] (Some []))) =
     (Inr (), subxact_abort (demo_backend [11, 12, 13] (Some []))\<lparr>bk_registered := False\<rparr>)"
proof -
  have "fst (aminsert_cached 256 demo_key 1 (0, 100, 3, loaded_state 4 8 2 3 [11, 12]) 13 False empty_cache) = True"
    by (simp add: aminsert_cached_def am_lookup_for_mutation_def am_install_def install_def next_seq_def
      enforce_cap_def shed.simps am_mark_dirty_def record_upsert_def loaded_state_def Let_def)
  then have "aminsert_cached 256 demo_key 1 (0, 100, 3, loaded_state 4 8 2 3 [11, 12]) 13 False empty_cache = (True, demo_cache)"
    unfolding demo_cache_def by (metis prod.collapse)
  from savepoint_rollback_loses_rows [OF empty_cache_ok this, of "demo_backend [11, 12, 13] (Some [])"] show ?thesis by simp
qed

end
