(* ===== verification/Onebit.thy ===== *)
theory Onebit
  imports Vacuum
begin

text \<open>
  The 1-bit index (\<open>src/index/onebit.rs\<close>, \<open>BqIndex\<close> in \<open>src/cache.rs\<close>): packing the signs of a
  centred vector, the word-wide Hamming kernel, the bounded heap of the \<open>k\<close> nearest codes, and the
  search over slots with its mask and tombstones.  Coordinates are values of a linear order with the
  operations of \<open>arith\<close>; the \<open>f64\<close> sums of the corpus mean are a second such type with the two
  conversions as arguments.
\<close>

section \<open>Codes\<close>

definition pack_signs :: "'f::linorder arith \<Rightarrow> 'f list \<Rightarrow> u8 list" where
  "pack_signs ar centered =
     fold (\<lambda>(i, x) bytes. if ar_zero ar < x
         then bytes[i div 8 := bytes ! (i div 8) OR push_bit (7 - i mod 8) 1] else bytes)
       (enumerate 0 centered) (replicate (nat_div_ceil (length centered) 8) 0)"

definition unpack_signs :: "'f arith \<Rightarrow> u8 list \<Rightarrow> nat \<Rightarrow> 'f list" where
  "unpack_signs ar bytes dim =
     map (\<lambda>i. if drop_bit (7 - i mod 8) (bytes ! (i div 8)) AND 1 = 1 then ar_one ar else ar_neg ar (ar_one ar)) [0..<dim]"

definition accumulate_sums :: "'d arith \<Rightarrow> ('f \<Rightarrow> 'd) \<Rightarrow> 'd list \<Rightarrow> 'f list \<Rightarrow> nat \<Rightarrow> 'd list" where
  "accumulate_sums ad widen sums flat dim =
     (if dim = 0 \<or> length sums \<noteq> dim then sums
      else fold (\<lambda>row sums. map2 (\<lambda>m x. ar_add ad m (widen x)) sums row) (chunks_exact dim flat) sums)"

definition finish_mean :: "'f arith \<Rightarrow> 'd arith \<Rightarrow> ('d \<Rightarrow> 'f) \<Rightarrow> 'd list \<Rightarrow> nat \<Rightarrow> 'f list" where
  "finish_mean ar ad narrow sums n =
     (if n = 0 then replicate (length sums) (ar_zero ar)
      else let inv = ar_div ad (ar_one ad) (ar_of_nat ad n) in map (\<lambda>m. narrow (ar_mul ad m inv)) sums)"

definition corpus_mean :: "'f arith \<Rightarrow> 'd arith \<Rightarrow> ('f \<Rightarrow> 'd) \<Rightarrow> ('d \<Rightarrow> 'f) \<Rightarrow> 'f list \<Rightarrow> nat \<Rightarrow> 'f list" where
  "corpus_mean ar ad widen narrow flat dim =
     (if dim = 0 then []
      else let n = length flat div dim in
        if n = 0 then replicate dim (ar_zero ar)
        else finish_mean ar ad narrow (accumulate_sums ad widen (replicate dim (ar_zero ad)) flat dim) n)"

definition center :: "'f arith \<Rightarrow> 'f list \<Rightarrow> 'f list \<Rightarrow> 'f list" where
  "center ar v mean = (if mean = [] then v else map2 (ar_sub ar) v mean)"

definition is_degenerate :: "'f::linorder arith \<Rightarrow> 'f list \<Rightarrow> nat \<Rightarrow> bool" where
  "is_degenerate ar flat dim =
     (if dim = 0 then False
      else if length flat div dim \<le> 1 then False
      else let code0 = pack_signs ar (take dim flat) in
        list_all (\<lambda>row. pack_signs ar row = code0) (chunks_exact dim flat))"

definition codes_are_degenerate :: "u8 list \<Rightarrow> nat \<Rightarrow> nat \<Rightarrow> bool" where
  "codes_are_degenerate codes stride n =
     (if stride = 0 \<or> n \<le> 1 \<or> length codes < n * stride then False
      else let code0 = take stride codes in
        list_all (\<lambda>s. bslice (s * stride) stride codes = code0) [1..<n])"

section \<open>The Hamming kernel\<close>

definition bit_count :: "'a::len word \<Rightarrow> nat" where
  "bit_count w = length (filter (bit w) [0..<LENGTH('a)])"

definition remainder_of :: "nat \<Rightarrow> 'a list \<Rightarrow> 'a list" where
  "remainder_of w xs = drop (length xs div w * w) xs"

text \<open>Eight bytes at a time, then the tail, in a \<open>u32\<close>.\<close>

definition hamming :: "u8 list \<Rightarrow> u8 list \<Rightarrow> u32" where
  "hamming a b =
     fold (\<lambda>(x, y) acc. acc + of_nat (bit_count (x XOR y))) (zip (remainder_of 8 a) (remainder_of 8 b))
       (fold (\<lambda>(x, y) acc. acc + of_nat (bit_count (rd64 x XOR rd64 y))) (zip (chunks_exact 8 a) (chunks_exact 8 b)) 0)"

section \<open>The nearest codes\<close>

type_synonym hit = "u32 \<times> u32"

definition slot_hit :: "u8 list \<Rightarrow> u8 list \<Rightarrow> u32 \<Rightarrow> hit option" where
  "slot_hit query_code codes slot =
     (let stride = length query_code; start = unat slot * stride in
      if length codes < start + stride then None
      else Some (hamming query_code (bslice start stride codes), slot))"

text \<open>The bounded max-heap: the worst hit first.\<close>

definition heap_offer :: "nat \<Rightarrow> hit \<Rightarrow> hit list \<Rightarrow> hit list" where
  "heap_offer k h heap =
     (if length heap < k then heap_push (\<ge>) h heap
      else case heap of
        [] \<Rightarrow> heap
      | (worst, worst_slot) # rest \<Rightarrow>
          if fst h < worst \<or> fst h = worst \<and> snd h < worst_slot then heap_push (\<ge>) h rest else heap)"

definition topk_hamming_slots :: "u8 list \<Rightarrow> u8 list \<Rightarrow> u32 list \<Rightarrow> nat \<Rightarrow> hit list" where
  "topk_hamming_slots query_code codes slots k =
     (if k = 0 \<or> query_code = [] then []
      else sort (fold (heap_offer k) (List.map_filter (slot_hit query_code codes) slots) []))"

definition topk_hamming :: "u8 list \<Rightarrow> u8 list \<Rightarrow> nat \<Rightarrow> nat \<Rightarrow> hit list" where
  "topk_hamming query_code codes n k =
     topk_hamming_slots query_code codes (map of_nat [0..<unat (of_nat n :: u32)]) k"

section \<open>The index\<close>

record 'f bq_index =
  bq_codes :: "u8 list"
  bq_slot_to_id :: "u64 list"
  bq_mean :: "'f list"
  bq_dim :: nat
  bq_stride :: nat
  bq_tombstones :: "u8 list"

definition bq_new :: "u8 list \<Rightarrow> u64 list \<Rightarrow> 'f list \<Rightarrow> nat \<Rightarrow> u8 list \<Rightarrow> 'f bq_index" where
  "bq_new codes slot_to_id mean dim tombstones =
     \<lparr>bq_codes = codes, bq_slot_to_id = slot_to_id, bq_mean = mean, bq_dim = dim,
      bq_stride = onebit_codes_stride dim, bq_tombstones = tombstones\<rparr>"

definition bq_len :: "'f bq_index \<Rightarrow> nat" where
  "bq_len ix = length (bq_slot_to_id ix)"

definition bq_want :: "'f bq_index \<Rightarrow> nat \<Rightarrow> nat" where
  "bq_want ix k = (if bq_tombstones ix = [] then k else min (max (k * 2) (k + 8)) (bq_len ix))"

text \<open>The hits in order, the dead dropped, at most \<open>k\<close> of them.\<close>

definition bq_live :: "'f bq_index \<Rightarrow> nat \<Rightarrow> hit list \<Rightarrow> hit list" where
  "bq_live ix k hits = take k (filter (\<lambda>(d, slot). \<not> slot_dead (bq_tombstones ix) (unat slot)) hits)"

definition bq_search_slots ::
  "'f::linorder arith \<Rightarrow> 'f bq_index \<Rightarrow> 'f list \<Rightarrow> nat \<Rightarrow> bool list option \<Rightarrow> 'f list \<times> u64 list" where
  "bq_search_slots ar ix query k sel =
     (if bq_len ix = 0 \<or> k = 0 \<or> length query \<noteq> bq_dim ix then ([], [])
      else
        let qcode = pack_signs ar (center ar query (bq_mean ix));
            want = bq_want ix k;
            n = unat (of_nat (bq_len ix) :: u32);
            hits = (case sel of
                None \<Rightarrow> topk_hamming qcode (bq_codes ix) (bq_len ix) want
              | Some m \<Rightarrow> topk_hamming_slots qcode (bq_codes ix)
                  (map of_nat (filter (\<lambda>s. s < length m \<and> m ! s) [0..<n])) want);
            live = bq_live ix k hits
        in (map (\<lambda>(d, slot). ar_neg ar (ar_of_nat ar (unat d))) live,
            map (\<lambda>(d, slot). bq_slot_to_id ix ! unat slot) live))"

definition bq_search :: "'f::linorder arith \<Rightarrow> 'f bq_index \<Rightarrow> 'f list \<Rightarrow> nat \<Rightarrow> 'f list \<times> u64 list" where
  "bq_search ar ix query k = bq_search_slots ar ix query k None"

definition bq_search_masked ::
  "'f::linorder arith \<Rightarrow> 'f bq_index \<Rightarrow> 'f list \<Rightarrow> nat \<Rightarrow> bool list \<Rightarrow> 'f list \<times> u64 list" where
  "bq_search_masked ar ix query k sel = bq_search_slots ar ix query k (Some sel)"

section \<open>Counting bits\<close>

lemma bit_count_card: "bit_count (w :: 'a::len word) = card {i. bit w i}"
proof -
  have eq: "{i. bit w i} = set (filter (bit w) [0..<LENGTH('a)])" by (auto dest: bit_imp_le_length)
  show ?thesis unfolding eq bit_count_def by (rule distinct_card [symmetric]) simp
qed

lemma finite_bits [simp]: "finite {i. bit (w :: 'a::len word) i}"
  by (rule finite_subset [of _ "{..<LENGTH('a)}"]) (auto dest: bit_imp_le_length)

lemma bit_count_ucast_or_shift:
  assumes "\<And>i. bit r i \<Longrightarrow> 8 + i < LENGTH('a)" and "8 \<le> LENGTH('a)"
  shows "bit_count (ucast (b :: u8) OR push_bit 8 r :: 'a::len word) = bit_count b + bit_count r"
proof -
  have "{i. bit (ucast b OR push_bit 8 r :: 'a word) i} = {i. bit b i} \<union> (\<lambda>i. 8 + i) ` {i. bit r i}"
  proof (intro set_eqI iffI; simp add: bit_simps)
    fix i assume "i < LENGTH('a) \<and> bit b i \<or> 8 \<le> i \<and> i < LENGTH('a) \<and> bit r (i - 8)"
    then show "bit b i \<or> i \<in> (\<lambda>i. 8 + i) ` {i. bit r i}"
      by (metis image_eqI le_add_diff_inverse mem_Collect_eq)
  next
    fix i assume "bit b i \<or> i \<in> (\<lambda>i. 8 + i) ` {i. bit r i}"
    then show "i < LENGTH('a) \<and> bit b i \<or> 8 \<le> i \<and> i < LENGTH('a) \<and> bit r (i - 8)"
      using assms by (auto dest: bit_imp_le_length)
  qed
  moreover have "{i. bit b i} \<inter> (\<lambda>i. 8 + i) ` {i. bit r i} = {}" by (auto dest: bit_imp_le_length)
  ultimately show ?thesis by (simp add: bit_count_card card_Un_disjoint card_image)
qed

lemma from_le_bits: "bit (from_le bs :: 'a::len word) i \<Longrightarrow> i < 8 * length bs"
proof (induction bs arbitrary: i)
  case (Cons b bs)
  show ?case
  proof (cases "i < 8")
    case False
    with Cons.prems have "bit (from_le bs :: 'a word) (i - 8)" by (auto simp: bit_simps dest: bit_imp_le_length)
    from Cons.IH [OF this] show ?thesis by simp
  qed simp
qed simp

lemma from_le_xor:
  "length xs = length ys \<Longrightarrow> from_le xs XOR from_le ys = (from_le (map2 (XOR) xs ys) :: 'a::len word)"
proof (induction xs ys rule: list_induct2)
  case (Cons x xs y ys)
  have "from_le (x # xs) XOR from_le (y # ys) = (ucast (x XOR y) OR push_bit 8 (from_le xs XOR from_le ys) :: 'a word)"
    by (rule bit_word_eqI) (auto simp: bit_simps dest: bit_imp_le_length)
  then show ?case by (simp add: Cons.IH)
qed simp

lemma bit_count_from_le:
  "8 * length bs \<le> LENGTH('a) \<Longrightarrow> bit_count (from_le bs :: 'a::len word) = sum_list (map bit_count bs)"
proof (induction bs)
  case Nil
  then show ?case by (simp add: bit_count_card)
next
  case (Cons b bs)
  have "bit_count (ucast b OR push_bit 8 (from_le bs) :: 'a word) = bit_count b + bit_count (from_le bs :: 'a word)"
    using Cons.prems by (intro bit_count_ucast_or_shift) (auto dest!: from_le_bits)
  with Cons show ?case by simp
qed


lemma fold_of_nat_sum:
  "fold (\<lambda>x acc. acc + of_nat (f x)) xs (a :: 'a::len word) = a + of_nat (sum_list (map f xs))"
  by (induction xs arbitrary: a) (simp_all add: algebra_simps)

text \<open>The words and the tail cover every byte once.\<close>

lemma chunk_bits:
  assumes "length a = length b"
  shows "sum_list (map (\<lambda>(x, y). bit_count (rd64 x XOR rd64 y)) (zip (chunks_exact 8 a) (chunks_exact 8 b)))
      + sum_list (map (\<lambda>(x, y). bit_count (x XOR y)) (zip (remainder_of 8 a) (remainder_of 8 b)))
    = sum_list (map (\<lambda>(x, y). bit_count (x XOR y)) (zip a b))"
  using assms
proof (induction "length a" arbitrary: a b rule: less_induct)
  case less
  show ?case
  proof (cases "length a < 8")
    case True
    with less.prems show ?thesis by (simp add: remainder_of_def)
  next
    case False
    let ?x = "take 8 a" and ?y = "take 8 b" and ?a = "drop 8 a" and ?b = "drop 8 b"
    have ch: "chunks_exact 8 a = ?x # chunks_exact 8 ?a" "chunks_exact 8 b = ?y # chunks_exact 8 ?b"
      using False less.prems by (simp_all add: chunks_exact.simps [of 8 a] chunks_exact.simps [of 8 b])
    have r: "remainder_of 8 a = remainder_of 8 ?a" "remainder_of 8 b = remainder_of 8 ?b"
      using False less.prems by (auto simp: remainder_of_def le_div_geq add.commute)
    have IH: "sum_list (map (\<lambda>(x, y). bit_count (rd64 x XOR rd64 y)) (zip (chunks_exact 8 ?a) (chunks_exact 8 ?b)))
        + sum_list (map (\<lambda>(x, y). bit_count (x XOR y)) (zip (remainder_of 8 ?a) (remainder_of 8 ?b)))
      = sum_list (map (\<lambda>(x, y). bit_count (x XOR y)) (zip ?a ?b))"
      using False less.prems by (intro less.hyps) auto
    have len: "length ?x = length ?y" "8 * length (map2 (XOR) ?x ?y) \<le> LENGTH(64)"
      using False less.prems by simp_all
    have "bit_count (rd64 ?x XOR rd64 ?y) = sum_list (map bit_count (map2 (XOR) ?x ?y))"
      unfolding rd64_def from_le_xor [OF len(1)] by (rule bit_count_from_le [OF len(2)])
    also have "\<dots> = sum_list (map (\<lambda>(x, y). bit_count (x XOR y)) (zip ?x ?y))"
      by (simp add: case_prod_unfold comp_def)
    finally have head: "bit_count (rd64 ?x XOR rd64 ?y) = \<dots>" .
    have "zip a b = zip ?x ?y @ zip ?a ?b" using less.prems by (metis append_take_drop_id len(1) zip_append)
    then show ?thesis using IH by (simp add: ch r head)
  qed
qed

text \<open>The bits of a code, most significant first in each byte.\<close>

definition code_bit :: "u8 list \<Rightarrow> nat \<Rightarrow> bool" where
  "code_bit c i = bit (c ! (i div 8)) (7 - i mod 8)"

definition differing :: "u8 list \<Rightarrow> u8 list \<Rightarrow> nat set" where
  "differing a b = {i. i < 8 * length a \<and> code_bit a i \<noteq> code_bit b i}"

lemma byte_bits_card: "bit_count (b :: u8) = card {i. i < 8 \<and> bit b (7 - i)}"
proof -
  have "bij_betw (\<lambda>i. 7 - i) {i. i < 8 \<and> bit b (7 - i)} {i. bit b i}"
    by (rule bij_betw_byWitness [where f' = "\<lambda>i. 7 - i"])
      (use bit_imp_le_length [of b] in fastforce)+
  then show ?thesis unfolding bit_count_card by (metis bij_betw_same_card)
qed

lemma sum_bits_differing:
  "length a = length b \<Longrightarrow> sum_list (map (\<lambda>(x, y). bit_count (x XOR y)) (zip a b)) = card (differing a b)"
proof (induction a b rule: list_induct2)
  case Nil
  then show ?case by (simp add: differing_def)
next
  case (Cons x a y b)
  let ?h = "{i. i < 8 \<and> bit (x XOR y) (7 - i)}"
  have cb: "code_bit (z # zs) (8 + i) = code_bit zs i" for z zs i 
  proof -
    have "(8 + i) div 8 = Suc (i div 8)" by simp
    then show ?thesis by (simp only: code_bit_def nth_Cons_Suc mod_add_self1)
  qed
  have "differing (x # a) (y # b) = ?h \<union> (\<lambda>i. 8 + i) ` differing a b"
  proof (intro set_eqI iffI)
    fix i assume i: "i \<in> differing (x # a) (y # b)"
    show "i \<in> ?h \<union> (\<lambda>i. 8 + i) ` differing a b"
    proof (cases "i < 8")
      case True
      with i show ?thesis by (auto simp: differing_def code_bit_def bit_xor_iff)
    next
      case False
      then obtain j where "i = 8 + j" by (metis le_add_diff_inverse not_less)
      with i cb show ?thesis by (auto simp: differing_def)
    qed
  next
    fix i assume "i \<in> ?h \<union> (\<lambda>i. 8 + i) ` differing a b"
    then show "i \<in> differing (x # a) (y # b)"
      by (auto simp: differing_def cb) (auto simp: code_bit_def bit_xor_iff)
  qed
  moreover have "?h \<inter> (\<lambda>i. 8 + i) ` differing a b = {}" by auto
  moreover have "finite (differing a b)" by (simp add: differing_def)
  ultimately show ?case using Cons.IH by (simp add: byte_bits_card card_Un_disjoint card_image)
qed

lemma hamming_differing:
  assumes "length a = length b"
  shows "hamming a b = of_nat (card (differing a b))"
proof -
  have "hamming a b = of_nat (sum_list (map (\<lambda>(x, y). bit_count (rd64 x XOR rd64 y)) (zip (chunks_exact 8 a) (chunks_exact 8 b)))
      + sum_list (map (\<lambda>(x, y). bit_count (x XOR y)) (zip (remainder_of 8 a) (remainder_of 8 b))))"
    using fold_of_nat_sum [where f = "\<lambda>(x, y). bit_count (rd64 x XOR rd64 y)" and a = "0 :: u32"]
      fold_of_nat_sum [where f = "\<lambda>(x, y). bit_count (x XOR y :: u8)", where 'a = 32]
    by (simp add: hamming_def case_prod_unfold)
  then show ?thesis by (simp only: chunk_bits [OF assms] sum_bits_differing [OF assms])
qed


section \<open>Packing\<close>

definition sign_step :: "'f::linorder arith \<Rightarrow> nat \<times> 'f \<Rightarrow> u8 list \<Rightarrow> u8 list" where
  "sign_step ar = (\<lambda>(i, x) bytes. if ar_zero ar < x
     then bytes[i div 8 := bytes ! (i div 8) OR push_bit (7 - i mod 8) 1] else bytes)"

lemma sign_step_bits:
  assumes i: "i < 8 * length bytes"
  shows "length (sign_step ar (i, x) bytes) = length bytes"
    and "code_bit (sign_step ar (i, x) bytes) j \<longleftrightarrow> code_bit bytes j \<or> j = i \<and> ar_zero ar < x"
proof -
  show "length (sign_step ar (i, x) bytes) = length bytes" by (simp add: sign_step_def)
  have len: "i div 8 < length bytes" using i by linarith
  show "code_bit (sign_step ar (i, x) bytes) j \<longleftrightarrow> code_bit bytes j \<or> j = i \<and> ar_zero ar < x"
  proof (cases "j div 8 = i div 8")
    case True
    have "7 - j mod 8 = 7 - i mod 8 \<longleftrightarrow> j = i"
    proof
      assume "7 - j mod 8 = 7 - i mod 8"
      moreover have "j mod 8 \<le> 7" "i mod 8 \<le> 7" by simp_all
      ultimately have "j mod 8 = i mod 8" by linarith
      with True show "j = i" by (metis div_mult_mod_eq)
    qed simp
    then have "bit (push_bit (7 - i mod 8) 1 :: u8) (7 - j mod 8) \<longleftrightarrow> j = i"
      by (auto simp: bit_simps possible_bit_def)
    with True len show ?thesis by (simp add: sign_step_def code_bit_def bit_or_iff)
  qed (auto simp: sign_step_def code_bit_def nth_list_update)
qed

lemma pack_fold_bits:
  "k + length xs \<le> 8 * length bytes \<Longrightarrow>
   length (fold (sign_step ar) (enumerate k xs) bytes) = length bytes \<and>
   (code_bit (fold (sign_step ar) (enumerate k xs) bytes) j \<longleftrightarrow>
     code_bit bytes j \<or> k \<le> j \<and> j < k + length xs \<and> ar_zero ar < xs ! (j - k))"
proof (induction xs arbitrary: k bytes)
  case (Cons x xs)
  have k: "k < 8 * length bytes" using Cons.prems by simp
  note step = sign_step_bits [OF k, of ar x]
  have "Suc k + length xs \<le> 8 * length (sign_step ar (k, x) bytes)" using Cons.prems step(1) by simp
  from Cons.IH [OF this] step show ?case
    by (cases "j = k") (auto simp: nth_Cons' not_le less_Suc_eq_le Suc_diff_le)
qed auto

lemma length_pack_signs [simp]: "length (pack_signs ar v) = nat_div_ceil (length v) 8"
  and code_bit_pack_signs: "i < length v \<Longrightarrow> code_bit (pack_signs ar v) i \<longleftrightarrow> ar_zero ar < v ! i"
  and code_bit_pack_tail: "length v \<le> i \<Longrightarrow> i < 8 * nat_div_ceil (length v) 8 \<Longrightarrow> \<not> code_bit (pack_signs ar v) i"
proof -
  let ?z = "replicate (nat_div_ceil (length v) 8) (0 :: u8)"
  have "0 + length v \<le> 8 * length ?z" using nat_div_ceil_mult_ge [of 8 "length v"] by simp
  note bits = pack_fold_bits [OF this]
  have p: "pack_signs ar v = fold (sign_step ar) (enumerate 0 v) ?z" by (simp add: pack_signs_def sign_step_def)
  have z: "\<not> code_bit ?z i" if "i < 8 * nat_div_ceil (length v) 8" for i
    using that by (simp add: code_bit_def less_mult_imp_div_less mult.commute)
  show "length (pack_signs ar v) = nat_div_ceil (length v) 8" using bits p by simp
  show "code_bit (pack_signs ar v) i \<longleftrightarrow> ar_zero ar < v ! i" if "i < length v"
    using bits [of ar i] p z [of i] that nat_div_ceil_mult_ge [of 8 "length v"] by simp
  show "\<not> code_bit (pack_signs ar v) i" if "length v \<le> i" "i < 8 * nat_div_ceil (length v) 8"
    using bits [of ar i] p z [of i] that by simp
qed

text \<open>
  C25: The Hamming distance of two packed codes is the number of coordinates on which the signs of the
  two centred vectors differ; the unused bits of the last byte add nothing.
\<close>

theorem hamming_counts_sign_changes:
  assumes len: "length v = length w" and small: "length v < 2 ^ 32"
  shows "unat (hamming (pack_signs ar v) (pack_signs ar w)) = card {i. i < length v \<and> (ar_zero ar < v ! i) \<noteq> (ar_zero ar < w ! i)}"
proof -
  have "differing (pack_signs ar v) (pack_signs ar w) = {i. i < length v \<and> (ar_zero ar < v ! i) \<noteq> (ar_zero ar < w ! i)}"
  proof (intro set_eqI iffI)
    fix i assume i: "i \<in> differing (pack_signs ar v) (pack_signs ar w)"
    then have "i < length v"
      using code_bit_pack_tail [of v i ar] code_bit_pack_tail [of w i ar] len
      by (auto simp: differing_def not_less [symmetric])
    with i show "i \<in> {i. i < length v \<and> (ar_zero ar < v ! i) \<noteq> (ar_zero ar < w ! i)}"
      using len by (simp add: differing_def code_bit_pack_signs)
  next
    fix i assume "i \<in> {i. i < length v \<and> (ar_zero ar < v ! i) \<noteq> (ar_zero ar < w ! i)}"
    then show "i \<in> differing (pack_signs ar v) (pack_signs ar w)"
      using len nat_div_ceil_mult_ge [of 8 "length v"] by (auto simp: differing_def code_bit_pack_signs mult.commute)
  qed
  moreover have "card {i. i < length v \<and> (ar_zero ar < v ! i) \<noteq> (ar_zero ar < w ! i)} \<le> card {..<length v}"
    by (intro card_mono) auto
  ultimately show ?thesis
    using len small by (simp add: hamming_differing unat_of_nat take_bit_nat_eq_self)
qed

theorem hamming_counts_sign_changes_witness:
  "unat (hamming (pack_signs demo_arith [1, -2, 3]) (pack_signs demo_arith [-1, -2, 0])) = 2"
proof -
  have "{i. i < length [1, -2, 3 :: int] \<and> (ar_zero demo_arith < [1, -2, 3] ! i) \<noteq> (ar_zero demo_arith < [-1, -2, 0] ! i)}
      = {0, 2}"
    by (auto simp: demo_arith_def less_Suc_eq numeral_2_eq_2)
  then show ?thesis
    using hamming_counts_sign_changes [of "[1, -2, 3]" "[-1, -2, 0]" demo_arith] by simp
qed

section \<open>The bounded heap\<close>

lemma sorted_heap_push_ge: "sorted_wrt (\<ge>) xs \<Longrightarrow> sorted_wrt (\<ge>) (heap_push (\<ge>) (x :: 'a::linorder) xs)"
  by (induction xs) auto

text \<open>The \<open>k\<close> least elements after one more is offered.\<close>

lemma mset_take_insort:
  fixes x :: "'a::linorder"
  assumes "sorted s"
  shows "mset (take k (insort x s)) =
    (if length s < k then add_mset x (mset s) else if k = 0 then {#}
     else if x < s ! (k - 1) then add_mset x (mset (take (k - 1) s)) else mset (take k s))"
  using assms
proof (induction s arbitrary: k)
  case (Cons y s)
  show ?case
  proof (cases k)
    case (Suc j)
    show ?thesis
    proof (cases "x \<le> y")
      case True
      show ?thesis
      proof (cases "length (y # s) < k \<or> x < (y # s) ! j")
        case False
        then have j: "j < length (y # s)" "(y # s) ! j \<le> x" using Suc by auto
        moreover have "y \<le> (y # s) ! j" using Cons.prems j(1) by (cases j) auto
        ultimately have eq: "(y # s) ! j = x" using True by simp
        have "mset (take k (insort x (y # s))) = add_mset x (mset (take j (y # s)))" using True Suc by simp
        also have "\<dots> = mset (take (Suc j) (y # s))" unfolding take_Suc_conv_app_nth [OF j(1)] eq by simp
        finally show ?thesis using False Suc by auto
      qed (use True Suc in auto)
    next
      case False
      then have "mset (take k (insort x (y # s))) = add_mset y (mset (take j (insort x s)))" using Suc by simp
      with Cons.IH [of j] Cons.prems False Suc show ?thesis by (cases j) auto
    qed
  qed simp
qed (cases k; simp)

lemma heap_offer_spec:
  assumes "sorted_wrt (\<ge>) heap" and "mset heap = mset (take k (sort xs))"
  shows "sorted_wrt (\<ge>) (heap_offer k h heap) \<and> mset (heap_offer k h heap) = mset (take k (sort (h # xs)))"
proof -
  let ?s = "sort xs"
  have len: "length heap = min k (length xs)" using arg_cong [OF assms(2), of size] by (simp add: min.commute)
  have "sorted (rev heap)" using assms(1) by (simp add: sorted_wrt_rev)
  then have "sort (take k ?s) = rev heap" using assms(2) by (intro properties_for_sort) simp_all
  then have heap: "heap = rev (take k ?s)" by (simp add: sorted_sort_id sorted_wrt_take)
  have take: "mset (take k (sort (h # xs))) = (if length ?s < k then add_mset h (mset ?s) else if k = 0 then {#}
     else if h < ?s ! (k - 1) then add_mset h (mset (take (k - 1) ?s)) else mset (take k ?s))"
    using mset_take_insort [of ?s k h] by simp
  show ?thesis
  proof (cases "length heap < k")
    case True
    then have "length ?s < k" using len by simp
    moreover from this have "mset heap = mset ?s" using assms(2) by simp
    ultimately show ?thesis unfolding take using True assms(1) by (simp add: heap_offer_def sorted_heap_push_ge)
  next
    case full: False
    then have k: "k \<le> length ?s" using len by simp
    show ?thesis
    proof (cases k)
      case 0
      then show ?thesis using heap full by (simp add: heap_offer_def)
    next
      case (Suc j)
      have j: "j < length ?s" using k Suc by simp
      have eq: "heap = ?s ! j # rev (take j ?s)" unfolding heap Suc take_Suc_conv_app_nth [OF j] by simp
      have "heap_offer k h heap = (if h < ?s ! j then heap_push (\<ge>) h (rev (take j ?s)) else heap)"
        using full unfolding heap_offer_def eq
        by (cases h, cases "?s ! j") (auto simp: less_prod_def')
      moreover have "sorted_wrt (\<ge>) (rev (take j ?s))" using assms(1) eq by simp
      ultimately show ?thesis
        unfolding take using k Suc assms by (auto simp: sorted_heap_push_ge)
    qed
  qed
qed

lemma fold_heap_offer:
  "sorted_wrt (\<ge>) heap \<Longrightarrow> mset heap = mset (take k (sort xs)) \<Longrightarrow>
   mset (fold (heap_offer k) hs heap) = mset (take k (sort (hs @ xs)))"
proof (induction hs arbitrary: heap xs)
  case (Cons h hs)
  from heap_offer_spec [OF Cons.prems, of h]
  have "mset (fold (heap_offer k) hs (heap_offer k h heap)) = mset (take k (sort (hs @ h # xs)))"
    by (intro Cons.IH) simp_all
  moreover have "sort (hs @ h # xs) = sort ((h # hs) @ xs)" by (intro properties_for_sort sorted_sort) simp
  ultimately show ?case by simp
qed simp

lemma topk_sorted:
  assumes "query_code \<noteq> []"
  shows "topk_hamming_slots query_code codes slots k
    = take k (sort (List.map_filter (slot_hit query_code codes) slots))"
proof (cases "k = 0")
  case False
  let ?hits = "List.map_filter (slot_hit query_code codes) slots"
  have "mset (fold (heap_offer k) ?hits []) = mset (take k (sort (?hits @ [])))" by (rule fold_heap_offer) simp_all
  then have "sort (fold (heap_offer k) ?hits []) = take k (sort ?hits)"
    by (intro properties_for_sort) (simp_all add: sorted_wrt_take)
  with False assms show ?thesis by (simp add: topk_hamming_slots_def)
qed (simp add: topk_hamming_slots_def)

text \<open>
  The bounded heap returns exactly the \<open>k\<close> smallest pairs of distance and slot among the slots
  whose code lies inside the chain, in ascending order, whatever the order the slots come in.
\<close>

theorem topk_hamming_slots_exact:
  assumes "query_code \<noteq> []"
  shows "topk_hamming_slots query_code codes slots k
    = take k (sort (List.map_filter (slot_hit query_code codes) slots))"
  using assms by (rule topk_sorted)

theorem topk_hamming_slots_exact_witness:
  "topk_hamming_slots [0xFF] [0x0F, 0xFF, 0xFE, 0xFE] [3, 0, 2, 1, 9] 2
    = take 2 (sort (List.map_filter (slot_hit [0xFF] [0x0F, 0xFF, 0xFE, 0xFE]) [3, 0, 2, 1, 9]))"
  by (rule topk_hamming_slots_exact) simp


section \<open>Searching the index\<close>

lemma take_filter_take:
  assumes "length (filter (\<lambda>x. \<not> P x) T) + k \<le> w \<or> length T \<le> w"
  shows "take k (filter P (take w T)) = take k (filter P T)"
proof (cases "length T \<le> w")
  case False
  have "length (filter P (take w T)) + length (filter (\<lambda>x. \<not> P x) (take w T)) = w"
    using False sum_length_filter_compl [of P "take w T"] by simp
  moreover have "length (filter (\<lambda>x. \<not> P x) (take w T)) \<le> length (filter (\<lambda>x. \<not> P x) T)"
    by (metis append_take_drop_id filter_append le_add1 length_append)
  ultimately have "k \<le> length (filter P (take w T))" using assms False by linarith
  moreover have "filter P T = filter P (take w T) @ filter P (drop w T)" by (metis append_take_drop_id filter_append)
  ultimately show ?thesis by simp
qed simp

lemma slot_hit_snd: "slot_hit q codes s = Some h \<Longrightarrow> snd h = s"
  by (auto simp: slot_hit_def Let_def split: if_splits)

lemma filter_map_filter:
  "(\<And>x y. f x = Some y \<Longrightarrow> P y = Q x) \<Longrightarrow> filter P (List.map_filter f xs) = List.map_filter f (filter Q xs)"
  by (induction xs) (auto simp: map_filter_simps split: option.splits)

lemma length_map_filter_le: "length (List.map_filter f xs) \<le> length xs"
  by (induction xs) (auto simp: map_filter_simps split: option.splits)

text \<open>The slots the mask allows, and those of them that are live.\<close>

definition allowed_slots :: "'f bq_index \<Rightarrow> bool list option \<Rightarrow> nat list" where
  "allowed_slots ix sel = filter (\<lambda>s. case sel of None \<Rightarrow> True | Some m \<Rightarrow> s < length m \<and> m ! s) [0..<bq_len ix]"

definition nearest_live :: "'f::linorder arith \<Rightarrow> 'f bq_index \<Rightarrow> 'f list \<Rightarrow> nat \<Rightarrow> bool list option \<Rightarrow> hit list" where
  "nearest_live ar ix query k sel =
     take k (sort (List.map_filter (slot_hit (pack_signs ar (center ar query (bq_mean ix))) (bq_codes ix))
       (map of_nat (filter (\<lambda>s. \<not> slot_dead (bq_tombstones ix) s) (allowed_slots ix sel)))))"

lemma bq_search_slots_spec:
  assumes q: "length query = bq_dim ix" "0 < bq_dim ix" "length (bq_mean ix) = bq_dim ix"
    and k: "0 < k" and len: "0 < bq_len ix" "bq_len ix < 2 ^ 32"
    and dead: "length (filter (slot_dead (bq_tombstones ix)) (allowed_slots ix sel)) \<le> max k 8"
  shows "bq_search_slots ar ix query k sel =
    (map (\<lambda>(d, slot). ar_neg ar (ar_of_nat ar (unat d))) (nearest_live ar ix query k sel),
     map (\<lambda>(d, slot). bq_slot_to_id ix ! unat slot) (nearest_live ar ix query k sel))"
proof -
  let ?q = "pack_signs ar (center ar query (bq_mean ix))" and ?a = "allowed_slots ix sel"
  let ?hits = "List.map_filter (slot_hit ?q (bq_codes ix)) (map of_nat ?a)"
  let ?live = "\<lambda>(d, slot). \<not> slot_dead (bq_tombstones ix) (unat (slot :: u32))"
  have "length (center ar query (bq_mean ix)) = bq_dim ix" using q by (auto simp: center_def)
  then have qn: "?q \<noteq> []" using nat_div_ceil_mult_ge [of 8 "bq_dim ix"] q(2)
    by (metis add_is_0 length_0_conv length_pack_signs mult_0 neq0_conv not_le zero_less_numeral)
  have n: "unat (of_nat (bq_len ix) :: u32) = bq_len ix" using len by (simp add: unat_of_nat take_bit_nat_eq_self)
  have un: "unat (of_nat s :: u32) = s" if "s \<in> set ?a" for s
    using that len by (simp add: allowed_slots_def unat_of_nat take_bit_nat_eq_self)
  have hits: "(case sel of None \<Rightarrow> topk_hamming ?q (bq_codes ix) (bq_len ix) w
      | Some m \<Rightarrow> topk_hamming_slots ?q (bq_codes ix)
          (map of_nat (filter (\<lambda>s. s < length m \<and> m ! s) [0..<unat (of_nat (bq_len ix) :: u32)])) w)
    = take w (sort ?hits)" for w
    by (simp add: topk_hamming_def topk_sorted [OF qn] n allowed_slots_def split: option.split)
  have deadlen: "length (filter (\<lambda>h. \<not> ?live h) (sort ?hits)) \<le> length (filter (slot_dead (bq_tombstones ix)) ?a)"
  proof -
    have "filter (\<lambda>h. \<not> ?live h) ?hits = List.map_filter (slot_hit ?q (bq_codes ix))
        (filter (\<lambda>s. slot_dead (bq_tombstones ix) (unat s)) (map of_nat ?a))"
      by (rule filter_map_filter) (auto dest: slot_hit_snd)
    then have "length (filter (\<lambda>h. \<not> ?live h) ?hits) \<le> length (filter (\<lambda>s. slot_dead (bq_tombstones ix) (unat s)) (map of_nat ?a :: u32 list))"
      using length_map_filter_le by metis
    also have "\<dots> = length (filter (slot_dead (bq_tombstones ix)) ?a)"
      using un by (simp add: filter_map comp_def cong: filter_cong)
    finally show ?thesis by (simp add: filter_sort)
  qed
  have total: "length (sort ?hits) \<le> bq_len ix"
  proof -
    have "length ?hits \<le> length ?a" using length_map_filter_le [of _ "map of_nat ?a"] by simp
    also have "\<dots> \<le> bq_len ix" by (simp add: allowed_slots_def order_trans [OF length_filter_le])
    finally show ?thesis by simp
  qed
  have "length (filter (\<lambda>h. \<not> ?live h) (sort ?hits)) + k \<le> bq_want ix k \<or> length (sort ?hits) \<le> bq_want ix k"
  proof (cases "bq_tombstones ix = []")
    case True
    then have "filter (slot_dead (bq_tombstones ix)) ?a = []" by (simp add: slot_dead_def)
    with deadlen True show ?thesis by (simp add: bq_want_def)
  next
    case False
    with deadlen dead total show ?thesis by (auto simp: bq_want_def min_def max_def split: if_splits)
  qed
  note cut = take_filter_take [OF this]
  have "filter ?live (sort ?hits) = sort (List.map_filter (slot_hit ?q (bq_codes ix))
      (filter (\<lambda>s. \<not> slot_dead (bq_tombstones ix) (unat s)) (map of_nat ?a)))"
    unfolding filter_sort by (rule arg_cong [OF filter_map_filter]) (auto dest: slot_hit_snd)
  also have "filter (\<lambda>s. \<not> slot_dead (bq_tombstones ix) (unat s)) (map of_nat ?a :: u32 list)
      = map of_nat (filter (\<lambda>s. \<not> slot_dead (bq_tombstones ix) s) ?a)"
    using un by (simp add: filter_map comp_def cong: filter_cong)
  finally have "bq_live ix k (take (bq_want ix k) (sort ?hits)) = nearest_live ar ix query k sel"
    using cut by (simp add: bq_live_def nearest_live_def)
  then show ?thesis using q k len by (simp add: bq_search_slots_def Let_def hits)
qed


text \<open>
  C26: With at most \<open>max k 8\<close> dead slots among those the mask allows, a search of the 1-bit index
  returns exactly the \<open>k\<close> nearest live allowed slots by Hamming distance and then slot, with their
  negated distances and their row ids.
\<close>

theorem bq_search_exact:
  assumes "length query = bq_dim ix" and "0 < bq_dim ix" and "length (bq_mean ix) = bq_dim ix"
    and "0 < k" and "0 < bq_len ix" and "bq_len ix < 2 ^ 32"
    and "length (filter (slot_dead (bq_tombstones ix)) (allowed_slots ix (Some sel))) \<le> max k 8"
  shows "bq_search_masked ar ix query k sel =
    (map (\<lambda>(d, slot). ar_neg ar (ar_of_nat ar (unat d))) (nearest_live ar ix query k (Some sel)),
     map (\<lambda>(d, slot). bq_slot_to_id ix ! unat slot) (nearest_live ar ix query k (Some sel)))"
  unfolding bq_search_masked_def using assms by (rule bq_search_slots_spec)

definition bq_demo :: "int bq_index" where
  "bq_demo = bq_new [0xFF, 0x0F, 0xFE] [5, 6, 7] (replicate 8 0) 8 [1]"

theorem bq_search_exact_witness:
  "bq_search_masked demo_arith bq_demo (replicate 8 1) 2 [True, True, True] =
    (map (\<lambda>(d, slot). ar_neg demo_arith (ar_of_nat demo_arith (unat d))) (nearest_live demo_arith bq_demo (replicate 8 1) 2 (Some [True, True, True])),
     map (\<lambda>(d, slot). bq_slot_to_id bq_demo ! unat slot) (nearest_live demo_arith bq_demo (replicate 8 1) 2 (Some [True, True, True])))"
  by (rule bq_search_exact)
    (simp_all add: bq_demo_def bq_new_def bq_len_def allowed_slots_def upt_rec)

text \<open>Nine dead rows on the query and a live one next to it.\<close>

definition bq_crowded :: "int bq_index" where
  "bq_crowded = bq_new (replicate 9 0xFF @ [0xFE]) [10, 11, 12, 13, 14, 15, 16, 17, 18, 19] (replicate 8 0) 8 [0xFF, 1]"

text \<open>
  The over-fetch is a fixed multiple of \<open>k\<close>: when more dead rows than that are nearer than every live
  one, a search returns nothing although a live row is there.
\<close>

theorem bq_search_underfills:
  "bq_search demo_arith bq_crowded (replicate 8 1) 1 = ([], []) \<and>
   bq_len bq_crowded = 10 \<and> \<not> slot_dead (bq_tombstones bq_crowded) 9"
  by code_simp

end
