(* ===== verification/TopK.thy ===== *)
theory TopK
  imports Onebit
begin

text \<open>
  The search engine and the merge of partial results.  The engine is \<open>TurboQuantIndex\<close> of the turbovec
  crate: codes and scales of one bit width, dimension and calibration, built and searched in one call;
  \<open>exact_engine\<close> states what the crate documents of it, with the order of equal scores left open.
  \<open>merge_topk\<close> (\<open>src/cache.rs\<close>) merges the results of chunks.  Scores are finite: a linear order.
\<close>

type_synonym ('f, 's) engine = "u8 list \<Rightarrow> f32_bits list \<Rightarrow> 'f list \<Rightarrow> nat \<Rightarrow> bool list option \<Rightarrow> ('s \<times> nat) list"

section \<open>The best k of a set\<close>

definition top_k_of :: "(nat \<Rightarrow> 's::linorder) \<Rightarrow> nat set \<Rightarrow> nat \<Rightarrow> ('s \<times> nat) list \<Rightarrow> bool" where
  "top_k_of sc A k res \<longleftrightarrow> distinct (map snd res) \<and> snd ` set res \<subseteq> A \<and> (\<forall>(s, i) \<in> set res. s = sc i) \<and>
     sorted_wrt (\<ge>) (map fst res) \<and> length res = min k (card A) \<and>
     (\<forall>i \<in> snd ` set res. \<forall>j \<in> A - snd ` set res. sc j \<le> sc i)"

lemma top_k_fst: "top_k_of sc A k res \<Longrightarrow> map fst res = map (sc \<circ> snd) res"
  by (auto simp: top_k_of_def)

lemma mset_slots: "finite A \<Longrightarrow> mset (sorted_list_of_set A) = mset_set (A :: nat set)"
  by (metis distinct_sorted_list_of_set mset_set_set set_sorted_list_of_set)

lemma top_k_card: "top_k_of sc A k res \<Longrightarrow> card (snd ` set res) = min k (card A)"
  unfolding top_k_of_def by (metis distinct_card length_map list.set_map)

text \<open>The scores of the best \<open>k\<close> do not depend on how ties are broken.\<close>

lemma top_k_scores:
  assumes t: "top_k_of sc A k res" and fin: "finite A"
  shows "map fst res = take k (rev (sort (map sc (sorted_list_of_set A))))"
proof -
  let ?X = "snd ` set res"
  let ?rest = "rev (sort (map sc (sorted_list_of_set (A - ?X))))"
  have sub: "?X \<subseteq> A" and dis: "distinct (map snd res)" using t by (simp_all add: top_k_of_def)
  have X: "mset (map fst res) = image_mset sc (mset_set ?X)"
    unfolding top_k_fst [OF t] using dis by (metis list.set_map map_map mset_map mset_set_set)
  have "mset (map fst res @ ?rest) = image_mset sc (mset_set ?X) + image_mset sc (mset_set (A - ?X))"
    unfolding mset_append X mset_rev mset_sort by (simp add: mset_slots fin)
  also have "\<dots> = image_mset sc (mset_set A)"
    using sub fin finite_subset [OF sub] by (simp add: mset_set_Union [symmetric] image_mset_union [symmetric] Un_absorb1 del: image_mset_union)
  finally have "mset (rev (map fst res @ ?rest)) = mset (map sc (sorted_list_of_set A))"
    by (simp only: mset_rev mset_map [of sc "sorted_list_of_set A"] mset_slots [OF fin])
  moreover have "sorted (rev (map fst res @ ?rest))"
  proof -
    have "sorted_wrt (\<ge>) (map fst res @ ?rest)"
      unfolding sorted_wrt_append
    proof (intro conjI ballI)
      show "sorted_wrt (\<ge>) (map fst res)" using t by (simp add: top_k_of_def)
      show "sorted_wrt (\<ge>) ?rest" by (simp add: sorted_wrt_rev)
      show "y \<le> x" if x: "x \<in> set (map fst res)" and y: "y \<in> set ?rest" for x y
      proof -
        obtain q where q: "q \<in> set res" "x = fst q" using x by auto
        with t have i: "snd q \<in> ?X" "x = sc (snd q)" unfolding top_k_of_def by auto
        obtain j where j: "j \<in> A - ?X" "y = sc j" using y fin by auto
        show ?thesis unfolding i(2) j(2) using t i(1) j(1) unfolding top_k_of_def by blast
      qed
    qed
    then show ?thesis by (simp only: sorted_wrt_rev)
  qed
  ultimately have "sort (map sc (sorted_list_of_set A)) = rev (map fst res @ ?rest)"
    by (rule properties_for_sort)
  then have eq: "rev (sort (map sc (sorted_list_of_set A))) = map fst res @ ?rest" by (metis rev_rev_ident)
  show ?thesis
  proof (cases "k \<le> card A")
    case True
    then have "length (map fst res) = k" using t by (simp add: top_k_of_def)
    then show ?thesis unfolding eq by simp
  next
    case False
    then have "length (map fst res) = length (rev (sort (map sc (sorted_list_of_set A))))" using t by (simp add: top_k_of_def)
    then have "length ?rest = 0" unfolding eq length_append by linarith
    then have "?rest = []" by (simp only: length_0_conv)
    moreover have "length (map fst res) \<le> k" using t by (simp add: top_k_of_def)
    ultimately show ?thesis unfolding eq by simp
  qed
qed

lemma top_k_agree:
  assumes "top_k_of sc A k r1" "top_k_of sc A k r2" "finite A" and inj: "inj_on sc A"
  shows "r1 = r2"
proof -
  have f: "map fst r1 = map fst r2" using top_k_scores assms by metis
  have "map (sc \<circ> snd) r1 = map (sc \<circ> snd) r2" using f top_k_fst assms(1,2) by metis
  moreover have "snd ` set r1 \<subseteq> A" "snd ` set r2 \<subseteq> A" using assms(1,2) by (simp_all add: top_k_of_def)
  ultimately have "map snd r1 = map snd r2"
    using inj by (metis (no_types, lifting) inj_on_subset Un_least list.set_map inj_on_map_eq_map map_map)
  with f show ?thesis by (metis zip_map_fst_snd)
qed

text \<open>Renaming the slots.\<close>

lemma top_k_rename:
  assumes t: "top_k_of (\<lambda>i. sc (g i)) A k res" and inj: "inj_on g A"
  shows "top_k_of sc (g ` A) k (map (\<lambda>(s, i). (s, g i)) res)"
proof -
  have sub: "snd ` set res \<subseteq> A" using t by (simp add: top_k_of_def)
  have slots: "snd ` set (map (\<lambda>(s, i). (s, g i)) res) = g ` snd ` set res" by force
  have snds: "map snd (map (\<lambda>(s, i). (s, g i)) res) = map g (map snd res)" by (simp add: case_prod_beta)
  moreover have "inj_on g (set (map snd res))" using inj sub by (simp add: inj_on_subset)
  ultimately have "distinct (map snd (map (\<lambda>(s, i). (s, g i)) res))"
    unfolding snds using t by (subst distinct_map) (simp add: top_k_of_def)
  moreover have "map fst (map (\<lambda>(s, i). (s, g i)) res) = map fst res" by (simp add: case_prod_beta)
  moreover have "length res = min k (card (g ` A))" using t inj by (simp add: top_k_of_def card_image)
  moreover have "sc j \<le> sc i" if i: "i \<in> g ` snd ` set res" and j: "j \<in> g ` A - g ` snd ` set res" for i j
  proof -
    obtain i' j' where "i = g i'" "i' \<in> snd ` set res" "j = g j'" "j' \<in> A - snd ` set res" using i j by blast
    then show ?thesis using t unfolding top_k_of_def by blast
  qed
  ultimately show ?thesis using t sub unfolding top_k_of_def slots by (auto simp del: map_map)
qed

section \<open>Merging chunks\<close>

definition pair_before :: "'s::linorder \<times> nat \<Rightarrow> 's \<times> nat \<Rightarrow> bool" where
  "pair_before a b \<longleftrightarrow> fst b < fst a \<or> fst a = fst b \<and> snd a \<le> snd b"

definition merge_topk :: "('s::linorder \<times> nat) list list \<Rightarrow> nat \<Rightarrow> ('s \<times> nat) list" where
  "merge_topk locals k = take k (foldr (heap_push pair_before) (concat locals) [])"

lemma pair_before_total: "pair_before x y \<or> pair_before y x"
  by (auto simp: pair_before_def)

lemma pair_before_trans: "pair_before x y \<Longrightarrow> pair_before y z \<Longrightarrow> pair_before x z"
  by (auto simp: pair_before_def)

lemma sorted_push_before:
  "sorted_wrt pair_before xs \<Longrightarrow> sorted_wrt pair_before (heap_push pair_before x xs)"
proof (induction xs)
  case (Cons y xs)
  then show ?case using pair_before_total [of x y] by (auto intro: pair_before_trans)
qed simp

lemma merge_sorted:
  "mset (foldr (heap_push pair_before) xs []) = mset xs" "sorted_wrt pair_before (foldr (heap_push pair_before) xs [])"
  by (induction xs) (simp_all add: sorted_push_before)

lemma length_concat_ge: "xs \<in> set xss \<Longrightarrow> length xs \<le> length (concat xss)"
  by (induction xss) auto

text \<open>
  Disjoint parts whose results are the best \<open>k\<close> of each: the merge is the best \<open>k\<close> of all.
\<close>

lemma merge_top_k:
  assumes parts: "length locals = length As" "\<And>c. c < length As \<Longrightarrow> top_k_of sc (As ! c) k (locals ! c)"
    and fin: "\<And>X. X \<in> set As \<Longrightarrow> finite X"
    and dis: "\<And>c d. c < d \<Longrightarrow> d < length As \<Longrightarrow> As ! c \<inter> As ! d = {}"
  shows "top_k_of sc (\<Union> (set As)) k (merge_topk locals k)"
proof -
  let ?A = "\<Union> (set As)"
  define all where "all = concat locals"
  define srt where "srt = foldr (heap_push pair_before) all []"
  define res where "res = take k srt"
  define rest where "rest = drop k srt"
  have loc: "x \<in> set all \<longleftrightarrow> (\<exists>c < length As. x \<in> set (locals ! c))" for x
    unfolding all_def parts(1) [symmetric] set_concat UN_iff by (metis in_set_conv_nth)
  have sub: "c < length As \<Longrightarrow> snd ` set (locals ! c) \<subseteq> As ! c" for c
    using parts(2) by (auto simp: top_k_of_def)
  have subA: "snd ` set all \<subseteq> ?A" using loc sub nth_mem by blast
  have sc: "s = sc i" if "(s, i) \<in> set all" for s i
  proof -
    obtain c where "c < length As" "(s, i) \<in> set (locals ! c)" using \<open>(s, i) \<in> set all\<close> unfolding loc by blast
    then show ?thesis using parts(2) [of c] unfolding top_k_of_def by blast
  qed
  have "distinct (map snd all)"
    unfolding all_def using parts dis sub
  proof (induction locals arbitrary: As)
    case (Cons r rs)
    obtain X Xs where As: "As = X # Xs" using Cons.prems(1) by (cases As) auto
    have t: "top_k_of sc X k r" using Cons.prems(2) [of 0] As by simp
    have "distinct (map snd (concat rs))"
    proof (rule Cons.IH [of Xs])
      show "top_k_of sc (Xs ! c) k (rs ! c)" if "c < length Xs" for c using Cons.prems(2) [of "Suc c"] As that by simp
      show "Xs ! c \<inter> Xs ! d = {}" if "c < d" "d < length Xs" for c d using Cons.prems(3) [of "Suc c" "Suc d"] As that by simp
      show "snd ` set (rs ! c) \<subseteq> Xs ! c" if "c < length Xs" for c using Cons.prems(4) [of "Suc c"] As that by simp
    qed (use Cons.prems(1) As in simp)
    moreover have "i \<notin> snd ` set (concat rs)" if i: "i \<in> snd ` set r" for i
    proof
      assume "i \<in> snd ` set (concat rs)"
      then obtain c where c: "c < length rs" "i \<in> snd ` set (rs ! c)" by (force simp: in_set_conv_nth)
      then have "i \<in> Xs ! c" using Cons.prems(1) Cons.prems(4) [of "Suc c"] As by auto
      moreover have "i \<in> X" using i Cons.prems(4) [of 0] As by auto
      ultimately show False using Cons.prems(1) Cons.prems(3) [of 0 "Suc c"] As c(1) by auto
    qed
    ultimately show ?case using t by (auto simp: top_k_of_def)
  qed simp
  then have dsrt: "distinct (map snd srt)" using merge_sorted(1) [of all] unfolding srt_def [symmetric] by (metis mset_eq_imp_distinct_iff mset_map)
  have setsrt: "set srt = set all" using merge_sorted(1) [of all] unfolding srt_def [symmetric] by (rule mset_eq_setD)
  have lensrt: "length srt = length all" using merge_sorted(1) [of all] unfolding srt_def [symmetric] by (metis size_mset)
  have srt: "sorted_wrt pair_before srt" unfolding srt_def by (rule merge_sorted)
  have take_drop: "pair_before x y" if "x \<in> set res" "y \<in> set rest" for x y
    using srt that unfolding res_def rest_def by (metis append_take_drop_id sorted_wrt_append)
  have inres: "x \<in> set all" if "x \<in> set res" for x using that set_take_subset [of k srt] unfolding setsrt res_def [symmetric] by (rule subsetD [rotated])
  have indrop: "x \<in> set all" if "x \<in> set rest" for x using that set_drop_subset [of k srt] unfolding setsrt rest_def [symmetric] by (rule subsetD [rotated])
  have finA: "finite ?A" using fin by blast
  have cardall: "length all = card (snd ` set all)"
    using dsrt lensrt setsrt by (metis distinct_card length_map list.set_map)
  have full: "min k (card ?A) \<le> length all"
  proof (cases "\<exists>c < length As. k \<le> card (As ! c)")
    case True
    then obtain c where "c < length As" "k \<le> card (As ! c)" by blast
    then have "length (locals ! c) = k" "locals ! c \<in> set locals" using parts by (auto simp: top_k_of_def)
    then show ?thesis using length_concat_ge [of "locals ! c" locals] unfolding all_def by simp
  next
    case False
    have eq: "snd ` set (locals ! c) = As ! c" if c: "c < length As" for c
    proof (rule card_subset_eq)
      show "card (snd ` set (locals ! c)) = card (As ! c)"
        using False c top_k_card [OF parts(2) [OF c]] by (simp add: not_le)
    qed (use c sub [OF c] fin in simp_all)
    have "As ! c \<subseteq> snd ` set all" if "c < length As" for c
    proof
      fix i assume "i \<in> As ! c"
      then have "i \<in> snd ` set (locals ! c)" using eq [OF that] by simp
      then show "i \<in> snd ` set all" using loc that by blast
    qed
    then have "?A \<subseteq> snd ` set all" by (intro Union_least) (metis in_set_conv_nth)
    with subA have "?A = snd ` set all" by (rule subset_antisym [rotated])
    then show ?thesis unfolding cardall by (simp only: min.cobounded2)
  qed
  have best: "sc j \<le> sc i" if i: "i \<in> snd ` set res" and j: "j \<in> ?A - snd ` set res" for i j
  proof (cases "j \<in> snd ` set srt")
    case True
    then obtain s where s: "(s, j) \<in> set srt" by auto
    have "(s, j) \<notin> set res" using j by force
    with s have "(s, j) \<in> set rest" unfolding res_def rest_def by (metis UnE append_take_drop_id set_append)
    then have sj: "(s, j) \<in> set rest" "s = sc j" using sc indrop by blast+
    obtain s' where si: "(s', i) \<in> set res" using i by auto
    then have "s' = sc i" using sc inres by blast
    with take_drop [OF si sj(1)] sj(2)
    show ?thesis by (auto simp: pair_before_def)
  next
    case False
    obtain c where c: "c < length As" "j \<in> As ! c" using j by (auto simp: in_set_conv_nth)
    have nj: "j \<notin> snd ` set (locals ! c)" using False c(1) loc setsrt by force
    then have above: "sc j \<le> sc i'" if "i' \<in> snd ` set (locals ! c)" for i'
      using parts(2) [OF c(1)] c(2) that by (auto simp: top_k_of_def)
    have "snd ` set (locals ! c) \<noteq> As ! c" using nj c(2) by blast
    then have "card (snd ` set (locals ! c)) < card (As ! c)" using sub [OF c(1)] fin c(1) by (intro psubset_card_mono) auto
    then have kc: "length (locals ! c) = k"
      using parts(2) [OF c(1)] top_k_card [OF parts(2) [OF c(1)]] by (simp add: top_k_of_def min_def split: if_splits)
    show ?thesis
    proof (rule ccontr)
      assume "\<not> sc j \<le> sc i"
      then have worse: "sc i < sc j" by simp
      have "snd ` set (locals ! c) \<subseteq> snd ` set res - {i}"
      proof
        fix i' assume i': "i' \<in> snd ` set (locals ! c)"
        then have hi: "sc i < sc i'" using above worse by fastforce
        have "i' \<in> snd ` set srt" using i' c(1) loc setsrt by force
        moreover have "i' \<notin> snd ` set rest"
        proof
          assume "i' \<in> snd ` set rest"
          then obtain s' where y: "(s', i') \<in> set rest" by auto
          obtain s where x: "(s, i) \<in> set res" using i by auto
          have "pair_before (s, i) (s', i')" using take_drop x y by blast
          moreover have "s = sc i" "s' = sc i'" using x y sc inres indrop by blast+
          ultimately show False using hi by (auto simp: pair_before_def)
        qed
        ultimately have "i' \<in> snd ` set res"
          unfolding res_def rest_def by (metis (no_types, lifting) UnE append_take_drop_id image_Un set_append)
        with hi show "i' \<in> snd ` set res - {i}" by auto
      qed
      then have "card (snd ` set (locals ! c)) \<le> card (snd ` set res - {i})" by (intro card_mono) auto
      also have "\<dots> < card (snd ` set res)" using i by (intro psubset_card_mono) auto
      also have "\<dots> \<le> k" using card_image_le [of "set res" snd] card_length [of res] by (simp add: res_def)
      finally show False
        using kc parts(2) [OF c(1)] top_k_card [OF parts(2) [OF c(1)]] by (simp add: top_k_of_def)
    qed
  qed
  have "length res = min k (card ?A)"
    using full cardall card_mono [OF finA subA] lensrt by (simp add: res_def)
  moreover have "sorted_wrt (\<ge>) (map fst res)"
    using sorted_wrt_take [OF srt, of k] unfolding res_def by (simp add: sorted_wrt_map) (erule sorted_wrt_mono_rel [rotated], auto simp: pair_before_def)
  moreover have "distinct (map snd res)" using dsrt unfolding res_def by (metis distinct_take take_map)
  moreover have "set res \<subseteq> set all" using inres by blast
  ultimately show ?thesis
    using sc subA best unfolding top_k_of_def merge_topk_def all_def [symmetric] srt_def [symmetric] res_def [symmetric] by blast
qed

lemma top_k_cong:
  assumes "top_k_of sc A k res" and "\<And>i. i \<in> A \<Longrightarrow> sc i = sc' i"
  shows "top_k_of sc' A k res"
proof -
  have sub: "snd ` set res \<subseteq> A" using assms(1) by (simp add: top_k_of_def)
  have "\<forall>(s, i) \<in> set res. s = sc' i" using assms sub unfolding top_k_of_def by fastforce
  moreover have "sc' j \<le> sc' i" if "i \<in> snd ` set res" "j \<in> A - snd ` set res" for i j
    using assms that sub unfolding top_k_of_def by (metis DiffE subsetD)
  ultimately show ?thesis using assms(1) unfolding top_k_of_def by blast
qed

section \<open>The engine\<close>

definition exact_engine :: "('f, 's::linorder) engine \<Rightarrow> nat \<Rightarrow> ('f list \<Rightarrow> u8 list \<Rightarrow> f32_bits \<Rightarrow> 's) \<Rightarrow> bool" where
  "exact_engine E stride sc \<longleftrightarrow> (\<forall>codes scales q k sel.
     length codes = length scales * stride \<and> (\<forall>m. sel = Some m \<longrightarrow> length m = length scales) \<longrightarrow>
     top_k_of (\<lambda>i. sc q (bslice (i * stride) stride codes) (scales ! i))
       {i. i < length scales \<and> (\<forall>m. sel = Some m \<longrightarrow> m ! i)} k (E codes scales q k sel))"

text \<open>An engine that scores every row and sorts: the hypothesis can be met.\<close>

definition reference_engine :: "nat \<Rightarrow> ('f list \<Rightarrow> u8 list \<Rightarrow> f32_bits \<Rightarrow> 's::linorder) \<Rightarrow> ('f, 's) engine" where
  "reference_engine stride sc codes scales q k sel =
     merge_topk [map (\<lambda>i. (sc q (bslice (i * stride) stride codes) (scales ! i), i))
       (filter (\<lambda>i. case sel of None \<Rightarrow> True | Some m \<Rightarrow> m ! i) [0..<length scales])] k"

lemma exact_reference: "exact_engine (reference_engine stride sc) stride sc"
  unfolding exact_engine_def
proof (intro allI impI)
  fix codes scales q k and sel :: "bool list option"
  let ?sc = "\<lambda>i. sc q (bslice (i * stride) stride codes) (scales ! i)"
  let ?A = "{i. i < length scales \<and> (\<forall>m. sel = Some m \<longrightarrow> m ! i)}"
  let ?xs = "map (\<lambda>i. (?sc i, i)) (filter (\<lambda>i. case sel of None \<Rightarrow> True | Some m \<Rightarrow> m ! i) [0..<length scales])"
  define xs where "xs = ?xs"
  define srt where "srt = foldr (heap_push pair_before) xs []"
  have "snd ` set xs = set (filter (\<lambda>i. case sel of None \<Rightarrow> True | Some m \<Rightarrow> m ! i) [0..<length scales])"
    by (simp add: xs_def image_image)
  also have "\<dots> = ?A" by (cases sel) auto
  finally have setxs: "snd ` set xs = ?A" .
  have set: "set srt = set xs" using merge_sorted(1) [of xs] unfolding srt_def by (rule mset_eq_setD)
  have len: "length srt = length xs" using merge_sorted(1) [of xs] unfolding srt_def by (metis size_mset)
  have "distinct (map snd xs)" by (simp add: xs_def comp_def)
  then have dis: "distinct (map snd srt)"
    using merge_sorted(1) [of xs] unfolding srt_def by (metis mset_eq_imp_distinct_iff mset_map)
  have card: "card ?A = length srt" unfolding setxs [symmetric] set [symmetric] using dis by (metis distinct_card length_map list.set_map)
  have srt: "sorted_wrt pair_before srt" unfolding srt_def by (rule merge_sorted)
  have sc: "s = ?sc i" if "(s, i) \<in> set srt" for s i using that unfolding set xs_def by auto
  have "?sc j \<le> ?sc i" if i: "i \<in> snd ` set (take k srt)" and j: "j \<in> ?A - snd ` set (take k srt)" for i j
  proof -
    obtain s where s: "(s, i) \<in> set (take k srt)" using i by auto
    obtain s' where s': "(s', j) \<in> set srt" using j setxs set by (metis (no_types, lifting) DiffD1 imageE prod.collapse)
    have "(s', j) \<notin> set (take k srt)" using j by force
    with s' have "(s', j) \<in> set (drop k srt)" by (metis UnE append_take_drop_id set_append)
    with s have "pair_before (s, i) (s', j)" using srt by (metis append_take_drop_id sorted_wrt_append)
    then show ?thesis using sc [OF in_set_takeD [OF s]] sc [OF s'] by (auto simp: pair_before_def)
  qed
  moreover have "sorted_wrt (\<ge>) (map fst (take k srt))"
    using sorted_wrt_take [OF srt, of k]
    by (simp add: sorted_wrt_map) (erule sorted_wrt_mono_rel [rotated], auto simp: pair_before_def)
  moreover have "distinct (map snd (take k srt))" using dis by (metis distinct_take take_map)
  moreover have "snd ` set (take k srt) \<subseteq> ?A"
  proof -
    have "snd ` set (take k srt) \<subseteq> snd ` set srt" by (intro image_mono set_take_subset)
    then show ?thesis by (simp only: set setxs)
  qed
  moreover have "\<forall>(s, i) \<in> set (take k srt). s = ?sc i" using sc in_set_takeD by fast
  ultimately show "top_k_of ?sc ?A k (reference_engine stride sc codes scales q k sel)"
    unfolding top_k_of_def reference_engine_def merge_topk_def concat.simps append_Nil2 xs_def [symmetric] srt_def [symmetric]
    by (simp add: card)
qed

end
