(* ===== verification/Guc.thy ===== *)
theory Guc
  imports Onebit
begin

text \<open>
  The decisions behind the settings (\<open>src/guc.rs\<close>): the pure functions that turn a setting, a size and a
  thread count into a beam width, a shard count, a chunk count or a candidate count.  The settings
  themselves are arguments.  Of the floating point a decision uses, \<open>ceil_mul k x\<close> stands for
  \<open>(k as f64 * x).ceil() as usize\<close>.
\<close>

section \<open>The coarse graph and the out-of-core scan\<close>

datatype auto_mode = ModeOff | ModeAuto | ModeOn

definition coarse_graph_decide :: "auto_mode \<Rightarrow> nat \<Rightarrow> bool" where
  "coarse_graph_decide mode nlists =
     (case mode of ModeOff \<Rightarrow> False | ModeOn \<Rightarrow> True | ModeAuto \<Rightarrow> GRAPH_MIN_LISTS \<le> nlists)"

text \<open>Half the budget: the product with \<open>AUTO_OOC_FRACTION = 0.5\<close> is exact below \<open>2^53\<close>.\<close>

definition out_of_core_decide :: "auto_mode \<Rightarrow> u64 \<Rightarrow> u64 \<Rightarrow> bool" where
  "out_of_core_decide mode codes_bytes budget_bytes =
     (case mode of ModeOff \<Rightarrow> False | ModeOn \<Rightarrow> True | ModeAuto \<Rightarrow> budget_bytes div 2 < codes_bytes)"

definition out_of_core_cell_scoped :: "auto_mode \<Rightarrow> i32 \<Rightarrow> u64 \<Rightarrow> bool" where
  "out_of_core_cell_scoped mode cache_size_mb codes_bytes =
     out_of_core_decide mode codes_bytes (saturating_mul (scast cache_size_mb) (1024 * 1024))"

section \<open>Graph builds and graph scans\<close>

definition GRAPH_PARTITION_MIN_ROWS :: nat where "GRAPH_PARTITION_MIN_ROWS = 200000"
definition GRAPH_TARGET_SHARD_ROWS :: nat where "GRAPH_TARGET_SHARD_ROWS = 12000"
definition GRAPH_SCAN_EF_DEFAULT :: nat where "GRAPH_SCAN_EF_DEFAULT = 512"

definition partitions_auto :: "nat \<Rightarrow> nat \<Rightarrow> nat" where
  "partitions_auto n pool_threads =
     (if n < GRAPH_PARTITION_MIN_ROWS then 1
      else max 1 (min (min (max (n div GRAPH_TARGET_SHARD_ROWS) 2) (max pool_threads 1 * 4)) (max (n div GRAPH_MIN_SHARD_ROWS) 1)))"

definition graph_build_partitions_decide :: "int \<Rightarrow> nat \<Rightarrow> nat \<Rightarrow> nat" where
  "graph_build_partitions_decide setting n pool_threads =
     (if setting = 0 \<or> setting = 1 then 1
      else if setting < 0 then partitions_auto n pool_threads
      else max 1 (min (nat setting) (max (n div GRAPH_MIN_SHARD_ROWS) 1)))"

definition graph_scan_ef_decide :: "int \<Rightarrow> nat \<Rightarrow> nat \<Rightarrow> nat" where
  "graph_scan_ef_decide setting k n =
     min (max (if 0 < setting then nat setting else GRAPH_SCAN_EF_DEFAULT) k) n"

section \<open>Threads and candidates\<close>

definition MIN_ROWS_PER_SCAN_CHUNK :: nat where "MIN_ROWS_PER_SCAN_CHUNK = 2048"

definition scan_threads :: "int \<Rightarrow> nat" where
  "scan_threads configured = (if 0 < configured then nat configured else 1)"

definition cap_scan_chunks :: "nat \<Rightarrow> nat \<Rightarrow> nat" where
  "cap_scan_chunks want n_compact = max (min want (n_compact div MIN_ROWS_PER_SCAN_CHUNK)) 1"

definition resolve_scan_parallelism :: "int \<Rightarrow> nat \<Rightarrow> nat" where
  "resolve_scan_parallelism configured n_compact = cap_scan_chunks (scan_threads configured) n_compact"

definition HI_DIM_RERANK_MIN_DIM :: nat where "HI_DIM_RERANK_MIN_DIM = 256"
definition RERANK_MIN_FLOOR :: nat where "RERANK_MIN_FLOOR = 64"

definition clamp :: "nat \<Rightarrow> nat \<Rightarrow> nat \<Rightarrow> nat" where
  "clamp lo hi x = min (max x lo) hi"

text \<open>\<open>multiplier\<close> is \<open>None\<close> where \<open>rerank_multiplier\<close> is not finite or below 1, where 1 is used.\<close>

definition hi_dim_rerank_candidate_count ::
  "(nat \<Rightarrow> 'x \<Rightarrow> nat) \<Rightarrow> auto_mode \<Rightarrow> nat \<Rightarrow> u8 \<Rightarrow> nat \<Rightarrow> 'x \<Rightarrow> 'x option \<Rightarrow> nat" where
  "hi_dim_rerank_candidate_count ceil_mul mode dim bit_width user_k oversample multiplier =
     (let user_count = ceil_mul user_k oversample;
          effective_dim = (if bit_width = 1 then max dim HI_DIM_RERANK_MIN_DIM else dim);
          apply_floor = (case mode of ModeOff \<Rightarrow> False | ModeOn \<Rightarrow> True | ModeAuto \<Rightarrow> HI_DIM_RERANK_MIN_DIM \<le> effective_dim)
      in if \<not> apply_floor then user_count
         else let scaled = (case multiplier of Some x \<Rightarrow> ceil_mul user_count x | None \<Rightarrow> user_count)
              in max user_count (clamp RERANK_MIN_FLOOR 1024 scaled))"

section \<open>Bounds\<close>

lemma cap_scan_chunks_bounds:
  "1 \<le> cap_scan_chunks want n" "1 < cap_scan_chunks want n \<Longrightarrow> cap_scan_chunks want n * MIN_ROWS_PER_SCAN_CHUNK \<le> n"
proof -
  show "1 \<le> cap_scan_chunks want n" by (simp add: cap_scan_chunks_def)
  assume "1 < cap_scan_chunks want n"
  then have "cap_scan_chunks want n \<le> n div MIN_ROWS_PER_SCAN_CHUNK" by (simp add: cap_scan_chunks_def max_def split: if_splits)
  then have "cap_scan_chunks want n * MIN_ROWS_PER_SCAN_CHUNK \<le> n div MIN_ROWS_PER_SCAN_CHUNK * MIN_ROWS_PER_SCAN_CHUNK"
    by (rule mult_le_mono1)
  also have "\<dots> \<le> n" by (rule div_times_less_eq_dividend)
  finally show "cap_scan_chunks want n * MIN_ROWS_PER_SCAN_CHUNK \<le> n" .
qed

lemma graph_scan_ef_bounds: "min k n \<le> graph_scan_ef_decide setting k n \<and> graph_scan_ef_decide setting k n \<le> n"
  by (simp add: graph_scan_ef_decide_def)

lemma partitions_by_size:
  assumes "p = max 1 (min q (max (n div GRAPH_MIN_SHARD_ROWS) 1))" and "1 < p"
  shows "p * GRAPH_MIN_SHARD_ROWS \<le> n"
proof -
  have "p \<le> n div GRAPH_MIN_SHARD_ROWS" using assms by (auto simp: max_def min_def split: if_splits)
  then have "p * GRAPH_MIN_SHARD_ROWS \<le> n div GRAPH_MIN_SHARD_ROWS * GRAPH_MIN_SHARD_ROWS" by (rule mult_le_mono1)
  also have "\<dots> \<le> n" by (rule div_times_less_eq_dividend)
  finally show ?thesis .
qed

text \<open>
  Whatever the settings, the fan-outs fit the data: a graph is built in at least one shard and, when in
  several, each can have the minimum number of rows; a compact scan is split into chunks of at least
  the minimum size; the beam is never narrower than the candidates it must fill nor wider than the
  corpus; and the automatic rerank window never shrinks what the user asked for.
\<close>

theorem decisions_fit:
  "1 \<le> graph_build_partitions_decide setting n threads \<and>
   (graph_build_partitions_decide setting n threads = 1 \<or>
      graph_build_partitions_decide setting n threads * GRAPH_MIN_SHARD_ROWS \<le> n) \<and>
   1 \<le> resolve_scan_parallelism configured n \<and>
   (resolve_scan_parallelism configured n = 1 \<or> resolve_scan_parallelism configured n * MIN_ROWS_PER_SCAN_CHUNK \<le> n) \<and>
   min k n \<le> graph_scan_ef_decide setting k n \<and> graph_scan_ef_decide setting k n \<le> n \<and>
   ceil_mul k oversample \<le> hi_dim_rerank_candidate_count ceil_mul mode dim bw k oversample multiplier"
proof -
  let ?p = "graph_build_partitions_decide setting n threads"
  have p1: "1 \<le> ?p" by (simp add: graph_build_partitions_decide_def partitions_auto_def del: One_nat_def)
  have "?p = 1 \<or> (\<exists>q. ?p = max 1 (min q (max (n div GRAPH_MIN_SHARD_ROWS) 1)))"
    unfolding graph_build_partitions_decide_def partitions_auto_def by (simp only: split: if_split) blast
  then have p2: "?p = 1 \<or> ?p * GRAPH_MIN_SHARD_ROWS \<le> n"
    using p1 partitions_by_size by (metis le_neq_implies_less)
  have c1: "1 \<le> resolve_scan_parallelism configured n"
    unfolding resolve_scan_parallelism_def by (rule cap_scan_chunks_bounds)
  then have c2: "resolve_scan_parallelism configured n = 1 \<or> resolve_scan_parallelism configured n * MIN_ROWS_PER_SCAN_CHUNK \<le> n"
    using cap_scan_chunks_bounds(2) [of "scan_threads configured" n] unfolding resolve_scan_parallelism_def by linarith
  have h: "ceil_mul k oversample \<le> hi_dim_rerank_candidate_count ceil_mul mode dim bw k oversample multiplier"
    by (simp add: hi_dim_rerank_candidate_count_def Let_def)
  show ?thesis using p1 p2 c1 c2 graph_scan_ef_bounds h by blast
qed

end
