(* ===== verification/Handle.thy ===== *)
theory Handle
  imports Cache Onebit TopK Guc
begin

text \<open>
  The indexes a scan holds (\<open>src/cache.rs\<close>): the read-only index, the out-of-core IVF index with its
  gather, its chunked search and merge, the graph index with its table-driven scorer, the 1-bit index, and
  the handle that dispatches between them.  The engine of the turbovec crate and its mutable
  \<open>IdMapIndex\<close> are arguments.  \<open>None\<close> is a raised error or a panic.
\<close>

section \<open>The read-only index\<close>

text \<open>The TQ+ calibration of an index, shift and scale: part of what the engine is built from.\<close>

type_synonym calibration = "f32_bits list \<times> f32_bits list"

record read_only =
  ro_tqplus :: calibration
  ro_codes :: "u8 list"
  ro_scales :: "f32_bits list"
  ro_slot_to_id :: "u64 list"

definition ro_len :: "read_only \<Rightarrow> nat" where "ro_len ix = length (ro_slot_to_id ix)"

text \<open>A slot past the id table is a corrupt index, and an error.\<close>

definition id_at_slot_checked :: "u64 list \<Rightarrow> nat \<Rightarrow> u64 option" where
  "id_at_slot_checked slot_to_id slot = (if slot < length slot_to_id then Some (slot_to_id ! slot) else None)"

definition translate :: "u64 list \<Rightarrow> ('s \<times> nat) list \<Rightarrow> ('s list \<times> u64 list) option" where
  "translate slot_to_id res = map_option (Pair (map fst res)) (those (map (id_at_slot_checked slot_to_id \<circ> snd) res))"

definition ro_search :: "(calibration \<Rightarrow> ('f, 's) engine) \<Rightarrow> read_only \<Rightarrow> 'f list \<Rightarrow> nat \<Rightarrow> ('s list \<times> u64 list) option" where
  "ro_search E ix q k = translate (ro_slot_to_id ix) (E (ro_tqplus ix) (ro_codes ix) (ro_scales ix) q k None)"

definition ro_search_masked ::
  "(calibration \<Rightarrow> ('f, 's) engine) \<Rightarrow> read_only \<Rightarrow> 'f list \<Rightarrow> nat \<Rightarrow> bool list \<Rightarrow> ('s list \<times> u64 list) option" where
  "ro_search_masked E ix q k sel = translate (ro_slot_to_id ix) (E (ro_tqplus ix) (ro_codes ix) (ro_scales ix) q k (Some sel))"

definition allow_slot_mask :: "u64 list \<Rightarrow> u64 set \<Rightarrow> bool list" where
  "allow_slot_mask slot_to_id allowed = map (\<lambda>i. i \<in> allowed) slot_to_id"

definition score_slots :: "(calibration \<Rightarrow> ('f, 's) engine) \<Rightarrow> read_only \<Rightarrow> 'f list \<Rightarrow> u32 list \<Rightarrow> 's list option" where
  "score_slots E ix q ids =
     (if list_all (\<lambda>i. unat i < ro_len ix) ids then
        let sel = fold (\<lambda>i m. m[unat i := True]) ids (replicate (ro_len ix) False);
            res = E (ro_tqplus ix) (ro_codes ix) (ro_scales ix) q (length ids) (Some sel);
            by_slot = map_of (rev (map (\<lambda>(s, slot). (of_nat slot :: u32, s)) res))
        in those (map by_slot ids)
      else None)"

section \<open>The graph index\<close>

text \<open>The code of coordinate \<open>d\<close> of one row: one bit from each plane, most significant bit first in a byte.\<close>

definition plane_code :: "u8 list \<Rightarrow> nat \<Rightarrow> nat \<Rightarrow> nat \<Rightarrow> nat \<Rightarrow> nat" where
  "plane_code codes row_base bytes_per_plane bit_width d =
     fold (\<lambda>p code. code OR push_bit p (unat (drop_bit (7 - d mod 8) (codes ! (row_base + p * bytes_per_plane + d div 8)) AND 1)))
       [0..<bit_width] 0"

record 'f graph_scorer =
  gs_dim :: nat
  gs_bit_width :: nat
  gs_qlut :: "'f list"

text \<open>\<open>q_rot\<close>, the query after the crate's rotation, and the crate's codebook are arguments.\<close>

definition graph_scorer_new :: "'f arith \<Rightarrow> 'f list \<Rightarrow> 'f list \<Rightarrow> nat \<Rightarrow> nat \<Rightarrow> 'f graph_scorer" where
  "graph_scorer_new ar q_rot centroids dim bit_width =
     \<lparr>gs_dim = dim, gs_bit_width = bit_width,
      gs_qlut = concat (map (\<lambda>d. map (\<lambda>c. ar_mul ar (q_rot ! d) (centroids ! c)) [0..<2 ^ bit_width]) [0..<dim])\<rparr>"

definition score_one :: "'f arith \<Rightarrow> 'f graph_scorer \<Rightarrow> u8 list \<Rightarrow> 'f list \<Rightarrow> nat \<Rightarrow> 'f" where
  "score_one ar gs codes scales i =
     (let bytes_per_plane = gs_dim gs div 8;
          row_base = i * (gs_bit_width gs * bytes_per_plane)
      in ar_mul ar
           (fold (\<lambda>d acc. ar_add ar acc
                (gs_qlut gs ! (d * 2 ^ gs_bit_width gs + plane_code codes row_base bytes_per_plane (gs_bit_width gs) d)))
              [0..<gs_dim gs] (ar_zero ar))
           (scales ! i))"

definition score_batch :: "'f arith \<Rightarrow> 'f graph_scorer \<Rightarrow> u8 list \<Rightarrow> 'f list \<Rightarrow> u32 list \<Rightarrow> 'f list" where
  "score_batch ar gs codes scales ids = map (\<lambda>i. score_one ar gs codes scales (unat i)) ids"

record graph_index =
  gi_inner :: read_only
  gi_adjacency :: adjacency
  gi_entry_point :: u32
  gi_tombstones :: "u8 list"

definition graph_index_search ::
  "int \<Rightarrow> ('f list \<Rightarrow> u32 list \<Rightarrow> 's::linorder list) \<Rightarrow> graph_index \<Rightarrow> 'f list \<Rightarrow> nat \<Rightarrow> ('s list \<times> u64 list) option" where
  "graph_index_search graph_ef scorer g q k =
     (let n = ro_len (gi_inner g) in
      if n = 0 \<or> k = 0 then Some ([], [])
      else Option.bind
        (graph_search_with_ef (gi_adjacency g) (gi_entry_point g) k (graph_scan_ef_decide graph_ef k n) (gi_tombstones g) (scorer q))
        (\<lambda>hits. translate (ro_slot_to_id (gi_inner g)) (map (\<lambda>c. (cand_score c, unat (cand_id c))) hits)))"

section \<open>The out-of-core index\<close>

record 'f ooc_index =
  oo_dim :: nat
  oo_n_vectors :: nat
  oo_codes_first :: u32
  oo_codes_stride :: u32
  oo_rows_per_codes_page :: u32
  oo_coarse_centroids :: "'f list"
  oo_lists :: nat
  oo_graph :: "centroid_graph option"
  oo_rotation :: "'f list"
  oo_directory :: cell_directory
  oo_tqplus :: calibration
  oo_scales :: "f32_bits list"
  oo_slot_to_id :: "u64 list"

definition ooc_new ::
  "'f::linorder arith \<Rightarrow> auto_mode \<Rightarrow> nat \<Rightarrow> nat \<Rightarrow> u32 \<Rightarrow> u32 \<Rightarrow> u32 \<Rightarrow> 'f list \<Rightarrow> nat \<Rightarrow> 'f list \<Rightarrow> cell_directory \<Rightarrow>
   calibration \<Rightarrow> f32_bits list \<Rightarrow> u64 list \<Rightarrow> 'f ooc_index" where
  "ooc_new ar mode dim n_vectors codes_first stride rpp centroids nlists rotation dir tqplus scales slot_to_id =
     \<lparr>oo_dim = dim, oo_n_vectors = n_vectors, oo_codes_first = codes_first, oo_codes_stride = stride,
      oo_rows_per_codes_page = rpp, oo_coarse_centroids = centroids, oo_lists = nlists,
      oo_graph = (if coarse_graph_decide mode nlists then Some (build_centroid_graph ar centroids nlists dim) else None),
      oo_rotation = rotation, oo_directory = dir, oo_tqplus = tqplus, oo_scales = scales, oo_slot_to_id = slot_to_id\<rparr>"

definition rotate_query :: "'f arith \<Rightarrow> 'f list \<Rightarrow> 'f list \<Rightarrow> nat \<Rightarrow> 'f list" where
  "rotate_query ar rotation src dim =
     map (\<lambda>k. fold (\<lambda>j s. ar_add ar s (ar_mul ar (rotation ! (k * dim + j)) (src ! j))) [0..<dim] (ar_zero ar)) [0..<dim]"

definition coarse_probe_cells :: "'f::linorder arith \<Rightarrow> 'f ooc_index \<Rightarrow> 'f list \<Rightarrow> nat \<Rightarrow> u32 list option" where
  "coarse_probe_cells ar ix query_unit probes =
     coarse_probe_dispatch ar (oo_coarse_centroids ix) (oo_lists ix) (oo_dim ix)
       (rotate_query ar (oo_rotation ix) query_unit (oo_dim ix)) (clamp 1 (max (oo_lists ix) 1) probes) (oo_graph ix)"

text \<open>
  The spans to search: the probed cells in probe order, each once, then the rows appended behind
  the cells.  The directory has an entry per list; without one the lookup panics.
\<close>

fun cell_spans :: "cell_directory \<Rightarrow> nat \<Rightarrow> nat \<Rightarrow> u32 list \<Rightarrow> u32 list \<Rightarrow> (nat \<times> nat) list option" where
  "cell_spans dir nlists n had [] = Some []"
| "cell_spans dir nlists n had (c # cs) =
     (if nlists \<le> unat c \<or> c \<in> set had then cell_spans dir nlists n had cs
      else if length dir \<le> unat c then None
      else map_option ((#) (unat (ce_code_offset (dir ! unat c)),
               min (unat (ce_code_offset (dir ! unat c) + ucast (ce_n_vectors (dir ! unat c)))) n))
             (cell_spans dir nlists n (c # had) cs))"

definition delta_span :: "cell_directory \<Rightarrow> nat \<Rightarrow> (nat \<times> nat) list" where
  "delta_span dir n = (let cell_rows = min (unat (total_vectors dir)) n in if cell_rows < n then [(cell_rows, n)] else [])"

text \<open>The contiguous runs of live slots of a span, as (start, count).\<close>

fun live_runs :: "(nat \<Rightarrow> bool) \<Rightarrow> nat list \<Rightarrow> nat option \<Rightarrow> nat \<Rightarrow> (nat \<times> nat) list" where
  "live_runs dead [] run stop = (case run of None \<Rightarrow> [] | Some rs \<Rightarrow> [(rs, stop - rs)])"
| "live_runs dead (s # ss) run stop =
     (if dead s then (case run of None \<Rightarrow> [] | Some rs \<Rightarrow> [(rs, s - rs)]) @ live_runs dead ss None stop
      else live_runs dead ss (case run of None \<Rightarrow> Some s | Some rs \<Rightarrow> Some rs) stop)"

definition span_runs :: "u8 list \<Rightarrow> nat \<times> nat \<Rightarrow> (nat \<times> nat) list" where
  "span_runs dead = (\<lambda>(start, stop).
     if dead = [] then (if start < stop then [(start, stop - start)] else [])
     else live_runs (slot_dead dead) [start..<stop] None stop)"

definition span_slots :: "u8 list \<Rightarrow> nat \<times> nat \<Rightarrow> u32 list" where
  "span_slots dead = (\<lambda>(start, stop). map of_nat (filter (\<lambda>s. \<not> slot_dead dead s) [start..<stop]))"

text \<open>Rows \<open>row_start\<close> to \<open>row_end\<close> of the gathered rows, their slots lifted back.\<close>

definition search_compact_chunk ::
  "('f, 's) engine \<Rightarrow> nat \<Rightarrow> u8 list \<Rightarrow> f32_bits list \<Rightarrow> 'f list \<Rightarrow> nat \<Rightarrow> bool list option \<Rightarrow> nat \<times> nat \<Rightarrow> ('s \<times> nat) list" where
  "search_compact_chunk E stride codes scales q k allow = (\<lambda>(row_start, row_end).
     map (\<lambda>(s, i). (s, i + row_start))
       (E (bslice (row_start * stride) ((row_end - row_start) * stride) codes) (bslice row_start (row_end - row_start) scales)
          q k (map_option (bslice row_start (row_end - row_start)) allow)))"

definition chunk_bounds :: "nat \<Rightarrow> nat \<Rightarrow> (nat \<times> nat) list" where
  "chunk_bounds n t = (let chunk = nat_div_ceil n t in
     map (\<lambda>i. (i * chunk, min (i * chunk + chunk) n)) [0..<nat_div_ceil n chunk])"

definition search_compact_parallel ::
  "('f, 's::linorder) engine \<Rightarrow> nat \<Rightarrow> u8 list \<Rightarrow> f32_bits list \<Rightarrow> 'f list \<Rightarrow> nat \<Rightarrow> bool list option \<Rightarrow> nat \<Rightarrow> ('s \<times> nat) list" where
  "search_compact_parallel E stride codes scales q k allow t =
     merge_topk (map (search_compact_chunk E stride codes scales q k allow) (chunk_bounds (length scales) t)) k"

definition search_compact ::
  "('f, 's::linorder) engine \<Rightarrow> nat \<Rightarrow> u8 list \<Rightarrow> f32_bits list \<Rightarrow> 'f list \<Rightarrow> nat \<Rightarrow> bool list option \<Rightarrow> nat \<Rightarrow> ('s \<times> nat) list" where
  "search_compact E stride codes scales q k allow t =
     (if t \<le> 1 then search_compact_chunk E stride codes scales q k allow (0, length scales)
      else search_compact_parallel E stride codes scales q k allow t)"

text \<open>Gather the rows of the chosen slots and rank them.\<close>

definition search_gathered ::
  "(calibration \<Rightarrow> ('f, 's::linorder) engine) \<Rightarrow> int \<Rightarrow> 'r pstore \<Rightarrow> 'f ooc_index \<Rightarrow> 'f list \<Rightarrow> nat \<Rightarrow> u64 set option \<Rightarrow> (nat \<times> nat) list \<Rightarrow> nat list \<Rightarrow>
   ('r, ('s list \<times> u64 list) option) io" where
  "search_gathered E scan_parallelism S ix q k allow ranges global_slots =
     (if global_slots = [] then ret (Some ([], []))
      else bind_io (gather_codes_ranges S (oo_codes_first ix) (oo_codes_stride ix) (oo_rows_per_codes_page ix)
             (map (\<lambda>(a, c). (of_nat a, of_nat c)) ranges)) (\<lambda>codes.
        if list_ex (\<lambda>g. length (oo_scales ix) \<le> g) global_slots \<or> length codes < length global_slots * unat (oo_codes_stride ix)
           \<or> allow \<noteq> None \<and> list_ex (\<lambda>g. length (oo_slot_to_id ix) \<le> g) global_slots then raise OutOfBounds
        else
          let scales = map ((!) (oo_scales ix)) global_slots;
              allow_compact = map_option (\<lambda>set. map (\<lambda>g. oo_slot_to_id ix ! g \<in> set) global_slots) allow;
              hits = search_compact (E (oo_tqplus ix)) (unat (oo_codes_stride ix)) codes scales q k allow_compact
                (resolve_scan_parallelism scan_parallelism (length global_slots))
          in option_io OutOfBounds
               (map_option Some (translate (oo_slot_to_id ix) (map (\<lambda>(s, c). (s, global_slots ! c)) hits)))))"

definition search_ooc ::
  "(calibration \<Rightarrow> ('f, 's::linorder) engine) \<Rightarrow> int \<Rightarrow> 'r pstore \<Rightarrow> 'f ooc_index \<Rightarrow> 'f list \<Rightarrow> nat \<Rightarrow> u32 list \<Rightarrow> u8 list \<Rightarrow> u64 set option \<Rightarrow>
   ('r, ('s list \<times> u64 list) option) io" where
  "search_ooc E scan_parallelism S ix q k probed dead allow =
     bind_io (option_io OutOfBounds (cell_spans (oo_directory ix) (oo_lists ix) (oo_n_vectors ix) [] probed)) (\<lambda>cells.
     let spans = cells @ delta_span (oo_directory ix) (oo_n_vectors ix)
     in search_gathered E scan_parallelism S ix q k allow (concat (map (span_runs dead) spans))
          (map unat (concat (map (span_slots dead) spans))))"

section \<open>The handle\<close>

text \<open>\<open>IdMapIndex\<close>, the mutable index of the crate, as its two read operations.\<close>

record 'f id_map_index =
  im_len :: nat
  im_search :: "'f list \<Rightarrow> nat \<Rightarrow> 'f list \<times> u64 list"

datatype 'f handle =
    HReadOnly read_only | HMutable "'f id_map_index" | HOoc "'f ooc_index" | HGraph graph_index | HBq "'f bq_index"

definition handle_len :: "'f handle \<Rightarrow> nat" where
  "handle_len h = (case h of HReadOnly a \<Rightarrow> ro_len a | HMutable a \<Rightarrow> im_len a | HOoc a \<Rightarrow> oo_n_vectors a
     | HGraph a \<Rightarrow> ro_len (gi_inner a) | HBq a \<Rightarrow> bq_len a)"

definition handle_search ::
  "'f::linorder arith \<Rightarrow> (calibration \<Rightarrow> ('f, 'f) engine) \<Rightarrow> int \<Rightarrow> ('f list \<Rightarrow> u32 list \<Rightarrow> 'f list) \<Rightarrow> 'f handle \<Rightarrow> 'f list \<Rightarrow> nat \<Rightarrow>
   ('f list \<times> u64 list) option" where
  "handle_search ar E graph_ef scorer h q k =
     (case h of
        HReadOnly a \<Rightarrow> ro_search E a q k
      | HMutable a \<Rightarrow> Some (im_search a q k)
      | HOoc _ \<Rightarrow> Some ([], [])
      | HGraph a \<Rightarrow> graph_index_search graph_ef scorer a q k
      | HBq a \<Rightarrow> Some (bq_search ar a q k))"

text \<open>The outer \<open>None\<close> is an error, the inner one that the arm has no masked search.\<close>

definition handle_search_masked ::
  "'f::linorder arith \<Rightarrow> (calibration \<Rightarrow> ('f, 'f) engine) \<Rightarrow> 'f handle \<Rightarrow> 'f list \<Rightarrow> nat \<Rightarrow> bool list \<Rightarrow> ('f list \<times> u64 list) option option" where
  "handle_search_masked ar E h q k sel =
     (case h of
        HReadOnly a \<Rightarrow> map_option Some (ro_search_masked E a q k sel)
      | HBq a \<Rightarrow> Some (Some (bq_search_masked ar a q k sel))
      | _ \<Rightarrow> Some None)"

definition handle_allow_slot_mask :: "'f handle \<Rightarrow> u64 set \<Rightarrow> bool list option" where
  "handle_allow_slot_mask h allowed =
     (case h of HReadOnly a \<Rightarrow> Some (allow_slot_mask (ro_slot_to_id a) allowed)
      | HBq a \<Rightarrow> Some (allow_slot_mask (bq_slot_to_id a) allowed) | _ \<Rightarrow> None)"

definition handle_allow_all_slot_mask :: "'f handle \<Rightarrow> bool list option" where
  "handle_allow_all_slot_mask h = (case h of HReadOnly a \<Rightarrow> Some (replicate (ro_len a) True) | _ \<Rightarrow> None)"

section \<open>Runs of live slots\<close>

definition slots_of :: "(nat \<times> nat) list \<Rightarrow> nat list" where
  "slots_of ranges = concat (map (\<lambda>(a, c). [a..<a + c]) ranges)"

lemma slots_of_simps [simp]:
  "slots_of [] = []" "slots_of ((a, c) # rs) = [a..<a + c] @ slots_of rs" "slots_of (rs @ rs') = slots_of rs @ slots_of rs'"
  by (simp_all add: slots_of_def)

lemma slots_of_live_runs:
  "s \<le> stop \<Longrightarrow> (\<And>r. run = Some r \<Longrightarrow> r \<le> s) \<Longrightarrow>
   slots_of (live_runs dead [s..<stop] run stop) =
     (case run of None \<Rightarrow> [] | Some r \<Rightarrow> [r..<s]) @ filter (\<lambda>s. \<not> dead s) [s..<stop]"
proof (induction "stop - s" arbitrary: s run)
  case 0
  then show ?case by (auto split: option.split)
next
  case (Suc d)
  then have up: "[s..<stop] = s # [Suc s..<stop]" and le: "Suc s \<le> stop" "d = stop - Suc s" by (simp_all add: upt_conv_Cons)
  show ?case
  proof (cases "dead s")
    case True
    have "slots_of (live_runs dead [Suc s..<stop] None stop) = filter (\<lambda>s. \<not> dead s) [Suc s..<stop]"
      using Suc.hyps(1) [OF le(2,1), of None] by simp
    with True Suc.prems(2) show ?thesis unfolding up by (auto split: option.split)
  next
    case False
    let ?run = "case run of None \<Rightarrow> Some s | Some rs \<Rightarrow> Some rs"
    have "slots_of (live_runs dead [Suc s..<stop] ?run stop)
        = (case ?run of None \<Rightarrow> [] | Some r \<Rightarrow> [r..<Suc s]) @ filter (\<lambda>s. \<not> dead s) [Suc s..<stop]"
      by (rule Suc.hyps(1) [OF le(2,1)]) (use Suc.prems(2) in \<open>fastforce split: option.splits\<close>)
    with False Suc.prems(2) show ?thesis unfolding up by (auto split: option.split simp del: upt_Suc simp: upt_Suc_append)
  qed
qed

lemma slots_of_span: "slots_of (span_runs dead (a, b)) = filter (\<lambda>s. \<not> slot_dead dead s) [a..<b]"
proof (cases "a \<le> b")
  case True
  have nd: "\<not> slot_dead [] s" for s by (simp add: slot_dead_def)
  show ?thesis
    using True slots_of_live_runs [OF True, of None "slot_dead dead"] by (auto simp: span_runs_def nd)
qed (simp add: span_runs_def)

lemma slots_of_spans:
  "slots_of (concat (map (span_runs dead) spans)) = concat (map (\<lambda>(a, b). filter (\<lambda>s. \<not> slot_dead dead s) [a..<b]) spans)"
  by (induction spans) (auto simp: slots_of_span)

lemma live_runs_bounds:
  "(a, c) \<in> set (live_runs dead ss run stop) \<Longrightarrow> sorted ss \<Longrightarrow> (\<forall>s \<in> set ss. s < stop) \<Longrightarrow> (\<forall>r. run = Some r \<longrightarrow> r < stop \<and> (\<forall>s \<in> set ss. r \<le> s)) \<Longrightarrow>
   a + c \<le> stop"
  by (induction dead ss run stop rule: live_runs.induct)
    (auto split: option.splits if_splits simp: less_imp_le)

lemma span_runs_bounds: "(a', c) \<in> set (span_runs dead (a, b)) \<Longrightarrow> a' + c \<le> b"
  by (auto simp: span_runs_def split: if_splits dest: live_runs_bounds)

section \<open>The gather\<close>

lemma upt_split: "i \<le> j \<Longrightarrow> j \<le> k \<Longrightarrow> [i..<k] = [i..<j] @ [j..<k]"
  using upt_add_eq_append [of i j "k - j"] by simp

lemma gather_range_rows:
  assumes rows: "rows_at S (w_rel w) first stride rpp rows" and rpp: "0 < unat rpp"
    and fits: "unat rpp * unat stride \<le> PAYLOAD_BYTES" and blk: "last_block first rpp (length rows) < 2 ^ 32"
  shows "stop \<le> length rows \<Longrightarrow>
    gather_range S first (unat stride) (unat rpp) slot stop out w = (Inr (out @ concat (map ((!) rows) [slot..<stop])), w)"
proof (induction "stop - slot" arbitrary: slot out rule: less_induct)
  case less
  let ?R = "unat rpp" and ?d = "unat stride"
  let ?n = "min (?R - slot mod ?R) (stop - slot)"
  show ?case
  proof (cases "stop \<le> slot")
    case True
    then show ?thesis by (subst gather_range.simps) (simp add: ret_def)
  next
    case False
    have in_page: "slot mod ?R + ?n \<le> ?R" using mod_less_divisor [OF rpp, of slot] by linarith
    have pos: "0 < ?n" using False rpp by simp
    have k: "slot div ?R * ?R < length rows" using False less.prems div_times_less_eq_dividend [of slot ?R] by linarith
    have page: "unat first + slot div ?R < ps_nblocks S (w_rel w)"
      "page_holds (ps_read S (w_rel w) (unat first + slot div ?R)) (concat (take ?R (drop (slot div ?R * ?R) rows)))"
      using rows k by (simp_all add: rows_at_def)
    have "slot div ?R < nat_div_ceil (length rows) ?R" by (rule slot_block [OF rpp]) (use False less.prems in simp)
    then have b32: "unat first + slot div ?R < 2 ^ 32" using blk by (simp add: last_block_def)
    then have blkno: "unat (first + of_nat (slot div ?R) :: u32) = unat first + slot div ?R"
      by (subst unat_add_lem [THEN iffD1]) (simp_all add: unat_of_nat take_bit_nat_eq_self)
    have width: "\<And>x. x \<in> set rows \<Longrightarrow> length x = ?d" using rows by (simp add: rows_at_def)
    let ?pg = "take ?R (drop (slot div ?R * ?R) rows)"
    have slotdec: "slot = slot div ?R * ?R + slot mod ?R" by simp
    have rowsn: "slot mod ?R + ?n \<le> length ?pg"
      unfolding length_take length_drop using in_page False less.prems slotdec by linarith
    have bs: "bslice (slot mod ?R * ?d) (?n * ?d) (pg_data (ps_read S (w_rel w) (unat first + slot div ?R)))
        = concat (map ((!) rows) [slot..<slot + ?n])"
    proof -
      let ?src = "concat ?pg"
      have wpg: "\<And>x. x \<in> set ?pg \<Longrightarrow> length x = ?d" using width by (meson in_set_dropD in_set_takeD)
      have len: "length ?src = length ?pg * ?d" by (rule length_concat_same) (rule wpg)
      have "(slot mod ?R + ?n) * ?d \<le> length ?src" unfolding len using rowsn by (rule mult_le_mono1)
      then have "slot mod ?R * ?d + ?n * ?d \<le> length ?src" by (simp add: add_mult_distrib)
      then have "bslice (slot mod ?R * ?d) (?n * ?d) (take (length ?src) (pg_data (ps_read S (w_rel w) (unat first + slot div ?R))))
          = bslice (slot mod ?R * ?d) (?n * ?d) (pg_data (ps_read S (w_rel w) (unat first + slot div ?R)))"
        by (simp add: bslice_def drop_take min_def)
      moreover have "take (length ?src) (pg_data (ps_read S (w_rel w) (unat first + slot div ?R))) = ?src"
        using page(2) by (simp add: page_holds_def)
      ultimately have "bslice (slot mod ?R * ?d) (?n * ?d) (pg_data (ps_read S (w_rel w) (unat first + slot div ?R)))
          = bslice (slot mod ?R * ?d) (?n * ?d) ?src" by simp
      also have "\<dots> = concat (take ?n (drop (slot mod ?R) ?pg))"
      proof -
        have "drop (slot mod ?R * ?d) ?src = concat (drop (slot mod ?R) ?pg)" by (rule drop_concat_same) (rule wpg)
        moreover have "take (?n * ?d) (concat (drop (slot mod ?R) ?pg)) = concat (take ?n (drop (slot mod ?R) ?pg))"
          by (rule take_concat_same) (rule wpg, rule in_set_dropD)
        ultimately show ?thesis unfolding bslice_def by simp
      qed
      also have "take ?n (drop (slot mod ?R) ?pg) = map ((!) rows) [slot..<slot + ?n]"
      proof (rule nth_equalityI)
        show "length (take ?n (drop (slot mod ?R) ?pg)) = length (map ((!) rows) [slot..<slot + ?n])"
          using rowsn unfolding length_take length_drop length_map length_upt by linarith
        fix i assume "i < length (take ?n (drop (slot mod ?R) ?pg))"
        then have i: "i < ?n" by simp
        have "take ?n (drop (slot mod ?R) ?pg) ! i = ?pg ! (slot mod ?R + i)"
          using i rowsn by (subst nth_take [OF i], subst nth_drop) simp_all
        also have "\<dots> = drop (slot div ?R * ?R) rows ! (slot mod ?R + i)"
          by (rule nth_take) (use i in_page in linarith)
        also have "\<dots> = rows ! (slot div ?R * ?R + (slot mod ?R + i))"
          by (rule nth_drop) (use k in simp)
        also have "slot div ?R * ?R + (slot mod ?R + i) = slot + i" using slotdec by linarith
        finally show "take ?n (drop (slot mod ?R) ?pg) ! i = map ((!) rows) [slot..<slot + ?n] ! i" using i by simp
      qed
      finally show ?thesis .
    qed
    have fit: "\<not> PAYLOAD_BYTES < (slot mod ?R + ?n) * ?d"
      unfolding not_less by (rule order_trans [OF mult_le_mono1 [OF in_page] fits])
    have "gather_range S first ?d ?R slot stop out w
        = gather_range S first ?d ?R (slot + ?n) stop (out @ concat (map ((!) rows) [slot..<slot + ?n])) w"
      using False rpp fit page(1) bs
      by (subst gather_range.simps) (simp add: bind_io_def read_block_def blkno)
    also have "\<dots> = (Inr ((out @ concat (map ((!) rows) [slot..<slot + ?n])) @ concat (map ((!) rows) [slot + ?n..<stop])), w)"
      by (rule less.hyps) (use pos False less.prems in simp_all)
    finally have run: "gather_range S first ?d ?R slot stop out w
      = (Inr ((out @ concat (map ((!) rows) [slot..<slot + ?n])) @ concat (map ((!) rows) [slot + ?n..<stop])), w)" .
    have "[slot..<stop] = [slot..<slot + ?n] @ [slot + ?n..<stop]"
      by (rule upt_split) (use False in simp_all)
    then show ?thesis unfolding run by simp
  qed
qed

lemma gather_ranges_rows:
  assumes rows: "rows_at S (w_rel w) first stride rpp rows" and rpp: "0 < unat rpp"
    and fits: "unat rpp * unat stride \<le> PAYLOAD_BYTES" and blk: "last_block first rpp (length rows) < 2 ^ 32"
    and len: "length rows < 2 ^ 64"
  shows "(\<And>a c. (a, c) \<in> set ranges \<Longrightarrow> a + c \<le> length rows) \<Longrightarrow>
    gather_ranges S first (unat stride) (unat rpp) (map (\<lambda>(a, c). (of_nat a, of_nat c)) ranges) out w
      = (Inr (out @ concat (map ((!) rows) (slots_of ranges))), w)"
proof (induction ranges arbitrary: out)
  case (Cons x ranges)
  obtain a c where x: "x = (a, c)" by (cases x)
  have le: "a + c \<le> length rows" using Cons.prems [of a c] x by simp
  then have un: "unat (of_nat a :: u64) = a" "unat (of_nat a + of_nat c :: u64) = a + c"
    using len by (simp_all add: unat_of_nat take_bit_nat_eq_self flip: of_nat_add)
  show ?case
    using gather_range_rows [OF rows rpp fits blk le, of a out] Cons.IH [OF Cons.prems]
    by (simp add: x un bind_io_def)
qed (simp add: ret_def)

section \<open>The compact search\<close>

lemma bslice_bslice: "i + n \<le> m \<Longrightarrow> bslice i n (bslice a m xs) = bslice (a + i) n xs"
  by (simp add: bslice_def drop_take min_def add.commute)

lemma chunk_top_k:
  assumes E: "exact_engine E stride sc" and codes: "length codes = length scales * stride"
    and allow: "\<And>m. allow = Some m \<Longrightarrow> length m = length scales" and ab: "a \<le> b" "b \<le> length scales"
  shows "top_k_of (\<lambda>i. sc q (bslice (i * stride) stride codes) (scales ! i)) {i. a \<le> i \<and> i < b \<and> (\<forall>m. allow = Some m \<longrightarrow> m ! i)} k
    (search_compact_chunk E stride codes scales q k allow (a, b))"
proof -
  let ?codes = "bslice (a * stride) ((b - a) * stride) codes" and ?scales = "bslice a (b - a) scales"
  let ?allow = "map_option (bslice a (b - a)) allow"
  let ?sc = "\<lambda>i. sc q (bslice (i * stride) stride codes) (scales ! i)"
  have ls: "length ?scales = b - a" using ab by (simp add: bslice_def)
  have "b * stride \<le> length codes" using ab codes by (simp add: mult_le_mono1)
  then have lc: "length ?codes = length ?scales * stride"
    using ls ab by (simp add: bslice_def diff_mult_distrib)
  have la: "\<forall>m. ?allow = Some m \<longrightarrow> length m = length ?scales" using allow ab ls by (auto simp: bslice_def)
  let ?B = "{i. i < length ?scales \<and> (\<forall>m. ?allow = Some m \<longrightarrow> m ! i)}"
  have "top_k_of (\<lambda>i. sc q (bslice (i * stride) stride ?codes) (?scales ! i)) ?B k (E ?codes ?scales q k ?allow)"
    using E lc la unfolding exact_engine_def by blast
  then have "top_k_of (\<lambda>i. ?sc (i + a)) ?B k (E ?codes ?scales q k ?allow)"
  proof (rule top_k_cong)
    fix i assume "i \<in> ?B"
    then have i: "i < b - a" using ls by simp
    have "i * stride + stride \<le> (b - a) * stride" using mult_le_mono1 [of "Suc i" "b - a" stride] i by simp
    then have "bslice (i * stride) stride ?codes = bslice ((i + a) * stride) stride codes"
      using bslice_bslice [of "i * stride" stride "(b - a) * stride" "a * stride" codes] by (simp only: add_mult_distrib add.commute)
    moreover have "?scales ! i = scales ! (i + a)" using i ab by (simp add: bslice_def add.commute)
    ultimately show "sc q (bslice (i * stride) stride ?codes) (?scales ! i) = ?sc (i + a)" by simp
  qed
  then have "top_k_of ?sc ((\<lambda>i. i + a) ` ?B) k (map (\<lambda>(s, i). (s, i + a)) (E ?codes ?scales q k ?allow))"
    by (rule top_k_rename) (simp add: inj_on_def)
  moreover have "(\<lambda>i. i + a) ` ?B = {i. a \<le> i \<and> i < b \<and> (\<forall>m. allow = Some m \<longrightarrow> m ! i)}"
  proof (intro set_eqI iffI)
    fix i assume i: "i \<in> {i. a \<le> i \<and> i < b \<and> (\<forall>m. allow = Some m \<longrightarrow> m ! i)}"
    then have "i - a \<in> ?B" using allow ab ls by (auto simp: bslice_def)
    then show "i \<in> (\<lambda>i. i + a) ` ?B" using i by (intro image_eqI [of _ _ "i - a"]) auto
  qed (use allow ab ls in \<open>auto simp: bslice_def add.commute\<close>)
  ultimately show ?thesis by (simp add: search_compact_chunk_def)
qed

lemma chunk_bounds_cover:
  assumes "0 < n" "1 < t"
  shows "(a, b) \<in> set (chunk_bounds n t) \<Longrightarrow> a \<le> b \<and> b \<le> n"
    and "(\<Union>(a, b) \<in> set (chunk_bounds n t). {a..<b}) = {..<n}"
    and "c < d \<Longrightarrow> d < length (chunk_bounds n t) \<Longrightarrow> snd (chunk_bounds n t ! c) \<le> fst (chunk_bounds n t ! d)"
proof -
  let ?k = "nat_div_ceil n t"
  have k: "0 < ?k" using assms by (cases "?k") (auto simp: nat_div_ceil_def split: if_splits)
  have lt: "i < nat_div_ceil n ?k \<longleftrightarrow> i * ?k < n" for i
    using nat_div_ceil_le_iff [OF k, of n i] by linarith
  have mem: "(a, b) \<in> set (chunk_bounds n t) \<longleftrightarrow> (\<exists>i. i * ?k < n \<and> a = i * ?k \<and> b = min (i * ?k + ?k) n)" for a b
    by (auto simp: chunk_bounds_def Let_def lt)
  show "a \<le> b \<and> b \<le> n" if "(a, b) \<in> set (chunk_bounds n t)" using that unfolding mem by auto
  show "(\<Union>(a, b) \<in> set (chunk_bounds n t). {a..<b}) = {..<n}"
  proof (intro equalityI subsetI)
    fix s assume "s \<in> {..<n}"
    then have "s < n" by simp
    moreover have le: "s div ?k * ?k \<le> s" by (rule div_times_less_eq_dividend)
    moreover have "s < s div ?k * ?k + ?k" using dividend_less_div_times [OF k, of s] by simp
    ultimately have "s \<in> {s div ?k * ?k..<min (s div ?k * ?k + ?k) n}" by simp
    moreover have "s div ?k * ?k < n" using le \<open>s < n\<close> by (rule le_less_trans)
    then have "(s div ?k * ?k, min (s div ?k * ?k + ?k) n) \<in> set (chunk_bounds n t)"
      unfolding mem by (intro exI [of _ "s div ?k"]) simp
    ultimately have "(s div ?k * ?k, min (s div ?k * ?k + ?k) n) \<in> set (chunk_bounds n t)" "s \<in> {s div ?k * ?k..<min (s div ?k * ?k + ?k) n}"
      by simp_all
    then show "s \<in> (\<Union>(a, b) \<in> set (chunk_bounds n t). {a..<b})" by blast
  qed (auto simp: mem)
  show "snd (chunk_bounds n t ! c) \<le> fst (chunk_bounds n t ! d)" if "c < d" "d < length (chunk_bounds n t)"
  proof -
    have "c * ?k + ?k \<le> d * ?k" using mult_le_mono1 [of "Suc c" d ?k] that(1) by simp
    with that show ?thesis by (simp add: chunk_bounds_def Let_def min.coboundedI1)
  qed
qed

lemma search_compact_top_k:
  assumes E: "exact_engine E stride sc" and codes: "length codes = length scales * stride"
    and allow: "\<And>m. allow = Some m \<Longrightarrow> length m = length scales" and n: "0 < length scales"
  shows "top_k_of (\<lambda>i. sc q (bslice (i * stride) stride codes) (scales ! i)) {i. i < length scales \<and> (\<forall>m. allow = Some m \<longrightarrow> m ! i)} k
    (search_compact E stride codes scales q k allow t)"
proof (cases "t \<le> 1")
  case True
  have "top_k_of (\<lambda>i. sc q (bslice (i * stride) stride codes) (scales ! i)) {i. 0 \<le> i \<and> i < length scales \<and> (\<forall>m. allow = Some m \<longrightarrow> m ! i)} k
    (search_compact_chunk E stride codes scales q k allow (0, length scales))"
    by (rule chunk_top_k [OF E codes allow]) simp_all
  with True show ?thesis by (simp add: search_compact_def)
next
  case False
  then have t: "1 < t" by simp
  let ?n = "length scales" and ?sc = "\<lambda>i. sc q (bslice (i * stride) stride codes) (scales ! i)"
  let ?bs = "chunk_bounds ?n t"
  let ?ok = "\<lambda>i. \<forall>m. allow = Some m \<longrightarrow> m ! i"
  let ?As = "map (\<lambda>(a, b). {i. a \<le> i \<and> i < b \<and> ?ok i}) ?bs"
  note cover = chunk_bounds_cover [OF n t]
  have "top_k_of ?sc (\<Union> (set ?As)) k (merge_topk (map (search_compact_chunk E stride codes scales q k allow) ?bs) k)"
  proof (rule merge_top_k)
    fix c assume c: "c < length ?As"
    obtain a b where ab: "?bs ! c = (a, b)" by (cases "?bs ! c")
    have "(a, b) \<in> set ?bs" using c ab by (metis length_map nth_mem)
    from chunk_top_k [OF E codes allow, where a = a and b = b and q = q and k = k] cover(1) [OF this] show
      "top_k_of ?sc (?As ! c) k (map (search_compact_chunk E stride codes scales q k allow) ?bs ! c)"
      using c ab by simp
  next
    fix c d assume cd: "c < d" "d < length ?As"
    obtain a b where ab: "?bs ! c = (a, b)" by (cases "?bs ! c")
    obtain a' b' where ab': "?bs ! d = (a', b')" by (cases "?bs ! d")
    have "b \<le> a'" using cover(3) [of c d] cd ab ab' by simp
    with cd ab ab' show "?As ! c \<inter> ?As ! d = {}" by auto
  qed auto
  moreover have "\<Union> (set ?As) = {i. i < ?n \<and> ?ok i}"
  proof -
    have "\<Union> (set ?As) = (\<Union>(a, b) \<in> set ?bs. {a..<b}) \<inter> {i. ?ok i}" by (auto split: prod.splits)
    then show ?thesis unfolding cover(2) by auto
  qed
  ultimately show ?thesis using False by (simp add: search_compact_def search_compact_parallel_def)
qed

section \<open>The cells searched\<close>

definition cell_span :: "cell_directory \<Rightarrow> nat \<Rightarrow> u32 \<Rightarrow> nat \<times> nat" where
  "cell_span dir n c = (unat (ce_code_offset (dir ! unat c)),
     min (unat (ce_code_offset (dir ! unat c) + ucast (ce_n_vectors (dir ! unat c)))) n)"

lemma cell_spans_spec:
  assumes "length dir = nlists"
  shows "\<exists>cs. distinct cs \<and> set cs = {c \<in> set probed. unat c < nlists} - set had \<and>
    cell_spans dir nlists n had probed = Some (map (cell_span dir n) cs)"
proof (induction probed arbitrary: had)
  case (Cons c probed)
  show ?case
  proof (cases "nlists \<le> unat c \<or> c \<in> set had")
    case True
    then have "{x \<in> set (c # probed). unat x < nlists} - set had = {x \<in> set probed. unat x < nlists} - set had" by auto
    with Cons [of had] True show ?thesis by simp
  next
    case False
    obtain cs where cs: "distinct cs" "set cs = {c \<in> set probed. unat c < nlists} - set (c # had)"
      "cell_spans dir nlists n (c # had) probed = Some (map (cell_span dir n) cs)"
      using Cons [of "c # had"] by (elim exE conjE) (rule that)
    have in_c: "c \<in> {x. unat x < nlists}" "c \<notin> set had" using False by simp_all
    have "{x \<in> set (c # probed). unat x < nlists} = insert c {x \<in> set probed. unat x < nlists}" using in_c(1) by auto
    then have "set (c # cs) = {x \<in> set (c # probed). unat x < nlists} - set had" using in_c(2) by (simp add: cs(2)) blast
    moreover have "distinct (c # cs)" using cs(1,2) by simp
    moreover have "cell_spans dir nlists n had (c # probed) = Some (map (cell_span dir n) (c # cs))"
      using False cs(3) assms by (simp add: cell_span_def)
    ultimately show ?thesis by blast
  qed
qed simp

lemma partition_cells:
  assumes "validate_partition dir t = Inr ()" and len: "length dir < 2 ^ 32"
  shows "c < d \<Longrightarrow> d < length dir \<Longrightarrow>
      unat (ce_code_offset (dir ! c) + ucast (ce_n_vectors (dir ! c))) \<le> unat (ce_code_offset (dir ! d))"
    and "c < length dir \<Longrightarrow> unat (ce_code_offset (dir ! c) + ucast (ce_n_vectors (dir ! c))) \<le> unat (total_vectors dir)"
    and "total_vectors dir = t"
proof -
  let ?ks = "map (\<lambda>x. unat (ce_n_vectors x)) dir"
  have "sum_list ?ks \<le> length dir * 4294967295"
  proof (induction dir)
    case (Cons x dir)
    with unat_u32_bound [of "ce_n_vectors x"] show ?case by simp
  qed simp
  with len have small: "sum_list ?ks < 2 ^ 64" by simp
  have v: "check_entries 0 0 dir = Inr t"
    using assms(1) by (auto simp: validate_partition_def split: sum.splits if_splits)
  have run: "unat t = sum_list ?ks" "c < length dir \<Longrightarrow> unat (ce_code_offset (dir ! c)) = sum_list (take c ?ks)" for c
    using check_entries_run [OF v] small by (simp_all add: take_map)
  have le: "sum_list (take c ?ks) \<le> sum_list (take d ?ks)" if "c \<le> d" for c d
    using that by (metis le_iff_add sum_list_append take_add)
  have le': "sum_list (take c ?ks) \<le> sum_list ?ks" for c by (metis append_take_drop_id le_add1 sum_list_append)
  have stop: "unat (ce_code_offset (dir ! c) + ucast (ce_n_vectors (dir ! c))) = sum_list (take (Suc c) ?ks)" if c: "c < length dir" for c
  proof -
    have s: "sum_list (take (Suc c) ?ks) = sum_list (take c ?ks) + unat (ce_n_vectors (dir ! c))"
      using c by (simp add: take_Suc_conv_app_nth)
    then have "unat (ce_code_offset (dir ! c)) + unat (ucast (ce_n_vectors (dir ! c)) :: u64) < 2 ^ 64"
      using run(2) [OF c] le' [of "Suc c"] small by simp
    then show ?thesis using s run(2) [OF c] by (subst unat_add_lem [THEN iffD1]) simp_all
  qed
  show "total_vectors dir = t"
  proof -
    have "unat (total_vectors dir) = sum_list ?ks"
      using small unfolding total_vectors_def
    proof (induction dir)
      case (Cons x dir)
      then show ?case by (simp, subst unat_add_lem [THEN iffD1]) simp_all
    qed simp
    then show ?thesis using run(1) by (metis word_unat_eq_iff)
  qed
  then show "c < length dir \<Longrightarrow> unat (ce_code_offset (dir ! c) + ucast (ce_n_vectors (dir ! c))) \<le> unat (total_vectors dir)"
    using stop le' run(1) by simp
  show "unat (ce_code_offset (dir ! c) + ucast (ce_n_vectors (dir ! c))) \<le> unat (ce_code_offset (dir ! d))"
    if "c < d" "d < length dir" using that stop [of c] run(2) [of d] le [of "Suc c" d] by simp
qed

section \<open>The out-of-core search\<close>

text \<open>What the index relies on: its code chain on disk, its tables, and a directory that partitions a prefix.\<close>

definition ooc_stored :: "'r pstore \<Rightarrow> 'r \<Rightarrow> 'f ooc_index \<Rightarrow> u8 list list \<Rightarrow> bool" where
  "ooc_stored S r ix rows \<longleftrightarrow>
     rows_at S r (oo_codes_first ix) (oo_codes_stride ix) (oo_rows_per_codes_page ix) rows \<and>
     length rows = oo_n_vectors ix \<and> length (oo_scales ix) = oo_n_vectors ix \<and> length (oo_slot_to_id ix) = oo_n_vectors ix \<and>
     oo_n_vectors ix < 2 ^ 32 \<and> 0 < unat (oo_rows_per_codes_page ix) \<and> 0 < unat (oo_codes_stride ix) \<and>
     unat (oo_rows_per_codes_page ix) * unat (oo_codes_stride ix) \<le> PAYLOAD_BYTES \<and>
     last_block (oo_codes_first ix) (oo_rows_per_codes_page ix) (oo_n_vectors ix) < 2 ^ 32 \<and>
     length (oo_directory ix) = oo_lists ix \<and> oo_lists ix < 2 ^ 32 \<and>
     validate_partition (oo_directory ix) (total_vectors (oo_directory ix)) = Inr () \<and>
     unat (total_vectors (oo_directory ix)) \<le> oo_n_vectors ix"

text \<open>The slots a query looks at: the probed cells and the appended rows, live and allowed.\<close>

definition searched :: "cell_directory \<Rightarrow> u32 list \<Rightarrow> nat \<Rightarrow> u8 list \<Rightarrow> u64 list \<Rightarrow> u64 set option \<Rightarrow> nat set" where
  "searched dir probed n dead slot_to_id allow =
     {s. s < n \<and> ((\<exists>c \<in> set probed. in_cell dir c s) \<or> unat (total_vectors dir) \<le> s) \<and> \<not> slot_dead dead s \<and>
       (\<forall>ids. allow = Some ids \<longrightarrow> slot_to_id ! s \<in> ids)}"

lemma ooc_slots:
  assumes st: "ooc_stored S r ix rows" and cs: "distinct cs" "set cs = {c \<in> set probed. unat c < oo_lists ix} - set []"
  defines "spans \<equiv> map (cell_span (oo_directory ix) (oo_n_vectors ix)) cs @ delta_span (oo_directory ix) (oo_n_vectors ix)"
  shows "distinct (concat (map (\<lambda>(a, b). filter (\<lambda>s. \<not> slot_dead dead s) [a..<b]) spans))"
    and "set (concat (map (\<lambda>(a, b). filter (\<lambda>s. \<not> slot_dead dead s) [a..<b]) spans))
      = searched (oo_directory ix) probed (oo_n_vectors ix) dead ids None"
    and "(a, b) \<in> set spans \<Longrightarrow> b \<le> oo_n_vectors ix"
proof -
  let ?dir = "oo_directory ix" and ?n = "oo_n_vectors ix"
  have dir: "length ?dir = oo_lists ix" "length ?dir < 2 ^ 32" "unat (total_vectors ?dir) \<le> ?n"
    and v: "validate_partition ?dir (total_vectors ?dir) = Inr ()"
    using st by (simp_all add: ooc_stored_def)
  note part = partition_cells [OF v dir(2)]
  have below: "unat c < length ?dir" if "c \<in> set cs" for c using that cs(2) dir(1) by simp
  have span: "cell_span ?dir ?n c = (unat (ce_code_offset (?dir ! unat c)), unat (ce_code_offset (?dir ! unat c) + ucast (ce_n_vectors (?dir ! unat c))))"
    if "c \<in> set cs" for c
    using part(2) [OF below [OF that]] dir(3) by (simp add: cell_span_def)
  let ?f = "\<lambda>(a, b). filter (\<lambda>s. \<not> slot_dead dead s) [a..<b]"
  have delta: "set (concat (map ?f (delta_span ?dir ?n))) = {s. s < ?n \<and> unat (total_vectors ?dir) \<le> s \<and> \<not> slot_dead dead s}"
    "distinct (concat (map ?f (delta_span ?dir ?n)))"
    using dir(3) by (auto simp: delta_span_def Let_def min_def)
  have in_cells: "s \<in> set (concat (map ?f (map (cell_span ?dir ?n) cs))) \<longleftrightarrow> (\<exists>c \<in> set cs. in_cell ?dir c s) \<and> \<not> slot_dead dead s" for s
    using span below by (auto simp: in_cell_def)
  have in_cell_below: "s < unat (total_vectors ?dir)" if "in_cell ?dir c s" for c s
    using that part(2) [of "unat c"] by (auto simp: in_cell_def)
  have "distinct (concat (map ?f (map (cell_span ?dir ?n) cs)))"
    using cs(1) below span
  proof (induction cs)
    case (Cons c cs)
    have "set (?f (cell_span ?dir ?n c)) \<inter> set (concat (map ?f (map (cell_span ?dir ?n) cs))) = {}"
    proof (rule ccontr)
      assume "set (?f (cell_span ?dir ?n c)) \<inter> set (concat (map ?f (map (cell_span ?dir ?n) cs))) \<noteq> {}"
      then obtain s d where d: "d \<in> set cs" and s: "s \<in> set (?f (cell_span ?dir ?n c))" "s \<in> set (?f (cell_span ?dir ?n d))" by auto
      have "c \<noteq> d" using Cons.prems(1) d by auto
      then have "unat c \<noteq> unat d" by (simp add: word_unat_eq_iff)
      then have "unat c < unat d \<or> unat d < unat c" by linarith
      with part(1) [of "unat c" "unat d"] part(1) [of "unat d" "unat c"] s Cons.prems(2,3) d show False by auto
    qed
    with Cons show ?case by (auto split: prod.splits)
  qed simp
  moreover have "set (concat (map ?f (map (cell_span ?dir ?n) cs))) \<inter> set (concat (map ?f (delta_span ?dir ?n))) = {}"
  proof (intro equals0I)
    fix s assume s: "s \<in> set (concat (map ?f (map (cell_span ?dir ?n) cs))) \<inter> set (concat (map ?f (delta_span ?dir ?n)))"
    then obtain c where "in_cell ?dir c s" using in_cells by blast
    then have "s < unat (total_vectors ?dir)" by (rule in_cell_below)
    moreover have "s \<in> {s. s < ?n \<and> unat (total_vectors ?dir) \<le> s \<and> \<not> slot_dead dead s}"
      using IntD2 [OF s] unfolding delta(1) .
    ultimately show False by simp
  qed
  ultimately show "distinct (concat (map ?f spans))"
    unfolding spans_def map_append concat_append distinct_append using delta(2) by blast
  have probed: "(\<exists>c \<in> set cs. in_cell ?dir c s) \<longleftrightarrow> (\<exists>c \<in> set probed. in_cell ?dir c s)" for s
    using cs(2) dir(1) by (auto simp: in_cell_def)
  show "set (concat (map ?f spans)) = searched ?dir probed ?n dead ids None"
  proof (intro set_eqI)
    fix s
    have "s \<in> set (concat (map ?f spans)) \<longleftrightarrow> (\<exists>c \<in> set probed. in_cell ?dir c s) \<and> \<not> slot_dead dead s \<or>
        s < ?n \<and> unat (total_vectors ?dir) \<le> s \<and> \<not> slot_dead dead s"
      unfolding spans_def map_append concat_append set_append Un_iff in_cells probed delta(1) mem_Collect_eq ..
    moreover have "s < ?n" if "in_cell ?dir c s" for c using in_cell_below [OF that] dir(3) by simp
    ultimately show "s \<in> set (concat (map ?f spans)) \<longleftrightarrow> s \<in> searched ?dir probed ?n dead ids None"
      unfolding searched_def by blast
  qed
  show "b \<le> ?n" if "(a, b) \<in> set spans"
    using that by (auto simp: spans_def cell_span_def delta_span_def Let_def split: if_splits)
qed

lemma those_map_total: "(\<And>x. x \<in> set xs \<Longrightarrow> f x = Some (g x)) \<Longrightarrow> those (map f xs) = Some (map g xs)"
  by (induction xs) auto

lemma translate_ok:
  "snd ` set res \<subseteq> {..<length slot_to_id} \<Longrightarrow> translate slot_to_id res = Some (map fst res, map ((!) slot_to_id \<circ> snd) res)"
  unfolding translate_def by (subst those_map_total [where g = "(!) slot_to_id \<circ> snd"]) (auto simp: id_at_slot_checked_def)

lemma search_ooc_spec:
  assumes E: "exact_engine (E (oo_tqplus ix)) (unat (oo_codes_stride ix)) sc" and st: "ooc_stored S (w_rel w) ix rows"
  shows "\<exists>res. search_ooc E scan_parallelism S ix q k probed dead allow w
      = (Inr (Some (map fst res, map ((!) (oo_slot_to_id ix) \<circ> snd) res)), w) \<and>
    top_k_of (\<lambda>s. sc q (rows ! s) (oo_scales ix ! s))
      (searched (oo_directory ix) probed (oo_n_vectors ix) dead (oo_slot_to_id ix) allow) k res"
proof -
  let ?dir = "oo_directory ix" and ?n = "oo_n_vectors ix" and ?ids = "oo_slot_to_id ix" and ?d = "unat (oo_codes_stride ix)"
  have dir: "length ?dir = oo_lists ix" using st by (simp add: ooc_stored_def)
  obtain cs where cs: "distinct cs" "set cs = {c \<in> set probed. unat c < oo_lists ix} - set []"
    and spans: "cell_spans ?dir (oo_lists ix) ?n [] probed = Some (map (cell_span ?dir ?n) cs)"
    using cell_spans_spec [OF dir, of probed "[]" ?n] by (elim exE conjE) (rule that)
  define sp where "sp = map (cell_span ?dir ?n) cs @ delta_span ?dir ?n"
  define gs where "gs = concat (map (\<lambda>(a, b). filter (\<lambda>s. \<not> slot_dead dead s) [a..<b]) sp)"
  define ranges where "ranges = concat (map (span_runs dead) sp)"
  note slots = ooc_slots(1,2) [OF st cs, where dead = dead, folded sp_def, folded gs_def] ooc_slots(3) [OF st cs, folded sp_def]
  have st': "rows_at S (w_rel w) (oo_codes_first ix) (oo_codes_stride ix) (oo_rows_per_codes_page ix) rows"
    "0 < unat (oo_rows_per_codes_page ix)" "unat (oo_rows_per_codes_page ix) * ?d \<le> PAYLOAD_BYTES"
    "last_block (oo_codes_first ix) (oo_rows_per_codes_page ix) (length rows) < 2 ^ 32" "length rows < 2 ^ 64"
    and n: "length rows = ?n" "length (oo_scales ix) = ?n" "length ?ids = ?n" "?n < 2 ^ 32" "0 < ?d"
    using st by (simp_all add: ooc_stored_def)
  have gsn: "s < ?n" if "s \<in> set gs" for s using that slots(2) [of ?ids] by (auto simp: searched_def)
  have gs_eq: "map unat (concat (map (span_slots dead) sp)) = gs"
  proof -
    have "map unat (concat (map (span_slots dead) sp)) = map (\<lambda>s. unat (of_nat s :: u32)) gs"
      unfolding gs_def by (induction sp) (auto simp: span_slots_def comp_def)
    also have "\<dots> = gs"
      by (rule map_idI) (use gsn n(4) in \<open>force simp: unat_of_nat take_bit_nat_eq_self\<close>)
    finally show ?thesis .
  qed
  have ranges_gs: "slots_of ranges = gs" by (simp add: ranges_def gs_def slots_of_spans)
  have ranges_le: "a + c \<le> length rows" if ac: "(a, c) \<in> set ranges" for a c
  proof -
    obtain x y where xy: "(x, y) \<in> set sp" "(a, c) \<in> set (span_runs dead (x, y))" using ac by (auto simp: ranges_def)
    from span_runs_bounds [OF xy(2)] slots(3) [OF xy(1)] n(1) show ?thesis by simp
  qed
  have run: "search_ooc E scan_parallelism S ix q k probed dead allow w = search_gathered E scan_parallelism S ix q k allow ranges gs w"
    unfolding search_ooc_def spans option_io_def option.case bind_io_ret Let_def sp_def [symmetric] gs_eq ranges_def [symmetric] ..
  show ?thesis
  proof (cases "gs = []")
    case True
    have "searched ?dir probed ?n dead ?ids allow \<subseteq> searched ?dir probed ?n dead ?ids None" by (auto simp: searched_def)
    then have empty: "searched ?dir probed ?n dead ?ids allow = {}" using slots(2) [of ?ids] True by auto
    have "search_ooc E scan_parallelism S ix q k probed dead allow w = (Inr (Some ([], [])), w)"
      unfolding run using True by (simp add: search_gathered_def ret_def)
    then show ?thesis by (intro exI [of _ "[]"]) (simp add: empty top_k_of_def)
  next
    case False
    define codes where "codes = concat (map ((!) rows) gs)"
    define scales where "scales = map ((!) (oo_scales ix)) gs"
    define sel where "sel = map_option (\<lambda>set. map (\<lambda>g. ?ids ! g \<in> set) gs) allow"
    define t where "t = resolve_scan_parallelism scan_parallelism (length gs)"
    define hits where "hits = search_compact (E (oo_tqplus ix)) ?d codes scales q k sel t"
    have width: "length x = ?d" if "x \<in> set rows" for x using that st'(1) by (simp add: rows_at_def)
    have wgs: "length x = ?d" if "x \<in> set (map ((!) rows) gs)" for x using that width gsn n(1) by auto
    have lc: "length codes = length scales * ?d"
      using length_concat_same [of "map ((!) rows) gs" ?d] wgs by (simp add: codes_def scales_def)
    have row: "bslice (i * ?d) ?d codes = rows ! (gs ! i)" if i: "i < length gs" for i
    proof -
      have "drop (i * ?d) codes = concat (drop i (map ((!) rows) gs))" unfolding codes_def by (rule drop_concat_same) (rule wgs)
      also have "drop i (map ((!) rows) gs) = rows ! (gs ! i) # drop (Suc i) (map ((!) rows) gs)"
        using i by (metis Cons_nth_drop_Suc length_map nth_map)
      finally show ?thesis using wgs [of "rows ! (gs ! i)"] i by (simp add: bslice_def)
    qed
    have gather: "gather_codes_ranges S (oo_codes_first ix) (oo_codes_stride ix) (oo_rows_per_codes_page ix)
        (map (\<lambda>(a, c). (of_nat a, of_nat c)) ranges) w = (Inr codes, w)"
      using gather_ranges_rows [OF st', of ranges "[]"] ranges_le st'(2) n(5)
      by (simp add: gather_codes_ranges_def ranges_gs codes_def unat_gt_0)
    have top: "top_k_of (\<lambda>i. sc q (bslice (i * ?d) ?d codes) (scales ! i)) {i. i < length scales \<and> (\<forall>m. sel = Some m \<longrightarrow> m ! i)} k hits"
      unfolding hits_def by (rule search_compact_top_k [OF E lc]) (use False in \<open>auto simp: sel_def scales_def\<close>)
    let ?sc = "\<lambda>s. sc q (rows ! s) (oo_scales ix ! s)"
    let ?B = "{i. i < length scales \<and> (\<forall>m. sel = Some m \<longrightarrow> m ! i)}"
    have top': "top_k_of (\<lambda>i. ?sc (gs ! i)) ?B k hits"
      by (rule top_k_cong [OF top]) (simp add: row scales_def)
    have inj: "inj_on ((!) gs) ?B" using slots(1) by (auto simp: inj_on_def scales_def nth_eq_iff_index_eq)
    have img: "(!) gs ` ?B = searched ?dir probed ?n dead ?ids allow"
    proof (intro set_eqI iffI)
      fix s assume "s \<in> (!) gs ` ?B"
      then obtain i where i: "i < length gs" "s = gs ! i" "\<forall>m. sel = Some m \<longrightarrow> m ! i" by (auto simp: scales_def)
      then have "s \<in> searched ?dir probed ?n dead ?ids None" using slots(2) [of ?ids] by auto
      with i show "s \<in> searched ?dir probed ?n dead ?ids allow" by (auto simp: searched_def sel_def)
    next
      fix s assume s: "s \<in> searched ?dir probed ?n dead ?ids allow"
      then have "s \<in> searched ?dir probed ?n dead ?ids None" by (auto simp: searched_def)
      then have "s \<in> set gs" unfolding slots(2) [where ids = ?ids] .
      then obtain i where i: "i < length gs" "gs ! i = s" by (auto simp: in_set_conv_nth)
      have "\<forall>set. allow = Some set \<longrightarrow> ?ids ! (gs ! i) \<in> set" using s unfolding i(2) searched_def by blast
      then have "\<forall>m. sel = Some m \<longrightarrow> m ! i" using i(1) by (cases allow) (simp_all add: sel_def)
      then have "i \<in> ?B" using i(1) by (simp add: scales_def)
      then show "s \<in> (!) gs ` ?B" unfolding i(2) [symmetric] by (rule imageI)
    qed
    define res where "res = map (\<lambda>(s, c). (s, gs ! c)) hits"
    have topres: "top_k_of ?sc (searched ?dir probed ?n dead ?ids allow) k res"
      using top_k_rename [OF top' inj] unfolding img res_def .
    have "snd ` set res \<subseteq> {..<length ?ids}" using topres n(3) by (auto simp: top_k_of_def searched_def)
    then have tr: "translate ?ids res = Some (map fst res, map ((!) ?ids \<circ> snd) res)" by (rule translate_ok)
    have checks: "\<not> list_ex (\<lambda>g. length (oo_scales ix) \<le> g) gs" "\<not> list_ex (\<lambda>g. length ?ids \<le> g) gs"
      using gsn n by (auto simp: list_ex_iff not_le)
    have big: "\<not> length codes < length gs * ?d" using lc by (simp add: scales_def)
    have "search_gathered E scan_parallelism S ix q k allow ranges gs w
      = (if list_ex (\<lambda>g. length (oo_scales ix) \<le> g) gs \<or> length codes < length gs * ?d
           \<or> allow \<noteq> None \<and> list_ex (\<lambda>g. length ?ids \<le> g) gs then raise OutOfBounds
         else option_io OutOfBounds (map_option Some (translate ?ids res))) w"
      unfolding search_gathered_def Let_def scales_def [symmetric] sel_def [symmetric] t_def [symmetric] if_not_P [OF False]
        bind_io_Inr [where c = "gather_codes_ranges S f st rp rs" for f st rp rs, OF gather] hits_def [symmetric] res_def [symmetric] ..
    also have "\<dots> = (Inr (Some (map fst res, map ((!) ?ids \<circ> snd) res)), w)"
      unfolding tr using checks big by (simp only: simp_thms if_False option_io_def option.case option.map ret_def)
    finally have "search_ooc E scan_parallelism S ix q k probed dead allow w = (Inr (Some (map fst res, map ((!) ?ids \<circ> snd) res)), w)"
      unfolding run .
    with topres show ?thesis by blast
  qed
qed

end
