(* ===== verification/Scan.thy ===== *)
theory Scan
  imports Handle
begin

text \<open>
  The index scan (\<open>src/index/scan.rs\<close>): building the handle of a cache miss from the relation, the masks, the
  flat and the cell-restricted first search, the drain of a batch and its refills.  What a scan takes from
  outside is an environment: the engine, the rotation, the square root and the table scorer of the turbovec
  crate, and the arithmetic.  The settings are a record.  \<open>f64\<close> and \<open>f32\<close> are one type of scores.
\<close>

section \<open>Environment and state\<close>

record 'f env =
  ev_ar :: "'f arith"
  ev_sqrt :: "'f \<Rightarrow> 'f"
  ev_of_bits :: "f32_bits \<Rightarrow> 'f"
  ev_ceil_mul :: "nat \<Rightarrow> 'f \<Rightarrow> nat"
  ev_rotation :: "nat \<Rightarrow> 'f list"
  ev_engine :: "calibration \<Rightarrow> ('f, 'f) engine"
  ev_scorer :: "graph_index \<Rightarrow> 'f list \<Rightarrow> u32 list \<Rightarrow> 'f list"

record 'f settings =
  gu_iterative_scan :: bool
  gu_max_scan_tuples :: int
  gu_max_probes :: int
  gu_probes :: int
  gu_search_k :: int
  gu_oversample :: 'f
  gu_rerank_multiplier :: "'f option"
  gu_hi_dim_rerank :: auto_mode
  gu_graph_ef :: int
  gu_scan_parallelism :: int
  gu_coarse_graph :: auto_mode
  gu_out_of_core :: auto_mode
  gu_cache_size_mb :: i32
  gu_normalize_on_insert :: bool
  gu_allowlist :: "string option"

record 'f ivf_ctx =
  ic_centroids :: "'f list"
  ic_directory :: cell_directory
  ic_q_rot :: "'f list"
  ic_lists :: nat
  ic_probes :: nat
  ic_mask :: "bool list"
  ic_tombstones :: "u8 list"
  ic_ooc :: "'f ooc_index option"
  ic_probed_cells :: "u32 list"

record 'f scan_opaque =
  so_query :: "'f list"
  so_results :: "u64 list"
  so_distances :: "'f list"
  so_cursor :: nat
  so_fetched :: bool
  so_arc :: "'f handle option"
  so_current_k :: nat
  so_n_live :: nat
  so_emitted :: "u64 set"
  so_ivf :: "'f ivf_ctx option"
  so_flat_tombstones :: "u8 list"
  so_allow :: "u64 set option"

text \<open>\<open>normalise_to_vec\<close> of \<open>src/kernels.rs\<close>: the zero vector is left as it is.\<close>

definition normalise_to_vec :: "'f env \<Rightarrow> 'f list \<Rightarrow> 'f list" where
  "normalise_to_vec ev src =
     (let ar = ev_ar ev; n2 = fold (\<lambda>x s. ar_add ar s (ar_mul ar x x)) src (ar_zero ar)
      in if n2 = ar_zero ar then src else map (\<lambda>s. ar_div ar s (ev_sqrt ev n2)) src)"

section \<open>Masks and the allowlist\<close>

definition apply_tombstones :: "bool list \<Rightarrow> u8 list \<Rightarrow> bool list" where
  "apply_tombstones msk tombstones =
     (if tombstones = [] then msk else map (\<lambda>(slot, m). m \<and> \<not> slot_dead tombstones slot) (zip [0..<length msk] msk))"

definition apply_allowlist :: "'f handle \<Rightarrow> u64 set option \<Rightarrow> bool list \<Rightarrow> bool list" where
  "apply_allowlist arc allow msk =
     (case allow of None \<Rightarrow> msk
      | Some allowed \<Rightarrow>
          (case handle_allow_slot_mask arc allowed of
             None \<Rightarrow> msk
           | Some a \<Rightarrow> map2 (\<and>) msk a @ drop (length a) msk))"

text \<open>\<open>trim\<close> and \<open>parse::<i64>\<close>, on ASCII.\<close>

definition is_space :: "char \<Rightarrow> bool" where
  "is_space c \<longleftrightarrow> of_char c \<in> {9, 10, 11, 12, 13, 32 :: nat}"

definition trim :: "string \<Rightarrow> string" where
  "trim s = rev (dropWhile is_space (rev (dropWhile is_space s)))"

fun split_comma :: "string \<Rightarrow> string list" where
  "split_comma [] = [[]]"
| "split_comma (c # cs) =
     (if c = CHR '','' then [] # split_comma cs
      else case split_comma cs of [] \<Rightarrow> [[c]] | t # ts \<Rightarrow> (c # t) # ts)"

definition digit_of :: "char \<Rightarrow> int option" where
  "digit_of c = (let n = of_char c :: nat in if 48 \<le> n \<and> n \<le> 57 then Some (int (n - 48)) else None)"

definition parse_i64 :: "string \<Rightarrow> int option" where
  "parse_i64 s =
     (let neg = (take 1 s = ''-''); ds = (if neg \<or> take 1 s = ''+'' then tl s else s)
      in if ds = [] then None
         else Option.bind (those (map digit_of ds)) (\<lambda>vs.
           let v = fold (\<lambda>d a. a * 10 + d) vs 0; r = (if neg then - v else v)
           in if - (2 ^ 63) \<le> r \<and> r < 2 ^ 63 then Some r else None))"

fun allow_tokens :: "string list \<Rightarrow> u64 set option" where
  "allow_tokens [] = Some {}"
| "allow_tokens (t # ts) =
     (if trim t = [] then allow_tokens ts
      else case parse_i64 (trim t) of
        None \<Rightarrow> None
      | Some v \<Rightarrow> map_option (insert (word_of_int v)) (allow_tokens ts))"

text \<open>The outer \<open>None\<close> is the error of a token that is no bigint.\<close>

definition parse_allowlist :: "string option \<Rightarrow> u64 set option option" where
  "parse_allowlist raw =
     (case raw of None \<Rightarrow> Some None
      | Some s \<Rightarrow> if trim s = [] then Some None
          else map_option (\<lambda>allowed. if allowed = {} then None else Some allowed) (allow_tokens (split_comma (trim s))))"

section \<open>Searching a handle\<close>

definition search_handle :: "'f::linorder env \<Rightarrow> 'f settings \<Rightarrow> 'f handle \<Rightarrow> 'f list \<Rightarrow> nat \<Rightarrow> ('f list \<times> u64 list) option" where
  "search_handle ev gu arc query k =
     handle_search (ev_ar ev) (ev_engine ev) (gu_graph_ef gu)
       (case arc of HGraph g \<Rightarrow> ev_scorer ev g | _ \<Rightarrow> (\<lambda>_ _. [])) arc query k"

definition search_handle_masked ::
  "'f::linorder env \<Rightarrow> 'f handle \<Rightarrow> 'f list \<Rightarrow> nat \<Rightarrow> bool list \<Rightarrow> ('f list \<times> u64 list) option option" where
  "search_handle_masked ev arc query k msk = handle_search_masked (ev_ar ev) (ev_engine ev) arc query k msk"

text \<open>Search wide and keep the allowed, at most \<open>k\<close>; for \<open>k = 0\<close> the loop never stops early.\<close>

definition search_wide ::
  "'f::linorder env \<Rightarrow> 'f settings \<Rightarrow> 'f handle \<Rightarrow> 'f list \<Rightarrow> nat \<Rightarrow> u64 set \<Rightarrow> ('f list \<times> u64 list) option" where
  "search_wide ev gu arc query k allowed =
     map_option (\<lambda>(scores, ids).
         let hits = filter (\<lambda>(s, i). i \<in> allowed) (zip scores ids); kept = (if k = 0 then hits else take k hits)
         in (map fst kept, map snd kept))
       (search_handle ev gu arc query (max (min (k * 8) (max (handle_len arc) 1)) k))"

definition flat_search ::
  "'f::linorder env \<Rightarrow> 'f settings \<Rightarrow> 'f handle \<Rightarrow> 'f list \<Rightarrow> nat \<Rightarrow> u64 set option \<Rightarrow> ('f list \<times> u64 list) option" where
  "flat_search ev gu arc query k allow =
     (case allow of
        None \<Rightarrow> search_handle ev gu arc query k
      | Some allowed \<Rightarrow>
          (case handle_allow_slot_mask arc allowed of
             None \<Rightarrow> search_wide ev gu arc query k allowed
           | Some msk \<Rightarrow>
               (case search_handle_masked ev arc query k msk of
                  None \<Rightarrow> None
                | Some (Some res) \<Rightarrow> Some res
                | Some None \<Rightarrow> search_wide ev gu arc query k allowed)))"

definition flat_search_live ::
  "'f::linorder env \<Rightarrow> 'f settings \<Rightarrow> 'f handle \<Rightarrow> 'f list \<Rightarrow> nat \<Rightarrow> u64 set option \<Rightarrow> u8 list \<Rightarrow> ('f list \<times> u64 list) option" where
  "flat_search_live ev gu arc query k allow tombstones =
     (if list_all (\<lambda>b. b = 0) tombstones then flat_search ev gu arc query k allow
      else
        case (case allow of Some allowed \<Rightarrow> handle_allow_slot_mask arc allowed | None \<Rightarrow> handle_allow_all_slot_mask arc) of
          None \<Rightarrow> flat_search ev gu arc query k allow
        | Some m \<Rightarrow>
            (case search_handle_masked ev arc query k (apply_tombstones m tombstones) of
               None \<Rightarrow> None
             | Some (Some res) \<Rightarrow> Some res
             | Some None \<Rightarrow> flat_search ev gu arc query k allow))"

section \<open>The cell-restricted search\<close>

definition ivf_setup_and_search_ooc ::
  "'f::linorder env \<Rightarrow> 'f settings \<Rightarrow> 'r pstore \<Rightarrow> 'f ooc_index \<Rightarrow> 'f list \<Rightarrow> nat \<Rightarrow> u64 set option \<Rightarrow>
   ('r, ('f ivf_ctx \<times> 'f list \<times> u64 list) option) io" where
  "ivf_setup_and_search_ooc ev gu S ix query k allow =
     bind_io (read_meta S) (\<lambda>mo. case mo of None \<Rightarrow> ret None
      | Some m \<Rightarrow>
        bind_io (read_tombstones S m) (\<lambda>tombstones.
        let unit = normalise_to_vec ev query; probes = clamp 1 (oo_lists ix) (nat (gu_probes gu))
        in bind_io (option_io OutOfBounds (coarse_probe_cells (ev_ar ev) ix unit probes)) (\<lambda>probed.
           bind_io (search_ooc (ev_engine ev) (gu_scan_parallelism gu) S ix query k probed tombstones allow) (\<lambda>res.
           ret (map_option (\<lambda>(scores, ids).
             (\<lparr>ic_centroids = [], ic_directory = [], ic_q_rot = [], ic_lists = oo_lists ix, ic_probes = probes,
               ic_mask = [], ic_tombstones = tombstones, ic_ooc = Some ix, ic_probed_cells = probed\<rparr>, scores, ids)) res)))))"

definition is_bq_handle :: "'f handle \<Rightarrow> bool" where
  "is_bq_handle arc = (case arc of HBq _ \<Rightarrow> True | _ \<Rightarrow> False)"

definition cell_mask :: "'f handle \<Rightarrow> cell_directory \<Rightarrow> u32 list \<Rightarrow> nat \<Rightarrow> u8 list \<Rightarrow> u64 set option \<Rightarrow> bool list" where
  "cell_mask arc dir probed n_live tombstones allow =
     apply_allowlist arc allow (apply_tombstones (probe_mask dir probed n_live) tombstones)"

definition ivf_setup_and_search ::
  "'f::linorder env \<Rightarrow> 'f settings \<Rightarrow> 'r pstore \<Rightarrow> 'f handle \<Rightarrow> 'f list \<Rightarrow> nat \<Rightarrow> nat \<Rightarrow> u64 set option \<Rightarrow>
   ('r, ('f ivf_ctx \<times> 'f list \<times> u64 list) option) io" where
  "ivf_setup_and_search ev gu S arc query k n_live allow =
     (case arc of HOoc ix \<Rightarrow> ivf_setup_and_search_ooc ev gu S ix query k allow
      | _ \<Rightarrow>
        bind_io (read_meta S) (\<lambda>mo. case mo of None \<Rightarrow> ret None
         | Some m \<Rightarrow>
           let dim = unat (m_dim m); nlists = unat (m_lists m) in
           if \<not> has_ivf m \<or> dim = 0 then ret None
           else bind_io (read_coarse_centroids S m) (\<lambda>cbits.
             let rotation = (if is_bq_handle arc then [] else ev_rotation ev dim) in
             if length cbits \<noteq> nlists * dim \<or> \<not> is_bq_handle arc \<and> length rotation \<noteq> dim * dim then ret None
             else bind_io (read_cell_directory S m) (\<lambda>dopt. case dopt of None \<Rightarrow> ret None
               | Some dir \<Rightarrow>
                 if n_live < unat (total_vectors dir) then ret None
                 else bind_io (read_tombstones S m) (\<lambda>tombstones.
                   let centroids = map (ev_of_bits ev) cbits;
                       unit = normalise_to_vec ev query;
                       q_rot = (if is_bq_handle arc then unit else rotate_query (ev_ar ev) rotation unit dim);
                       probes = clamp 1 nlists (nat (gu_probes gu));
                       probed = coarse_probe (ev_ar ev) centroids nlists dim q_rot probes;
                       msk = cell_mask arc dir probed n_live tombstones allow
                   in bind_io (option_io OutOfBounds (search_handle_masked ev arc query k msk)) (\<lambda>res.
                      ret (map_option (\<lambda>(scores, ids).
                        (\<lparr>ic_centroids = centroids, ic_directory = dir, ic_q_rot = q_rot, ic_lists = nlists, ic_probes = probes,
                          ic_mask = msk, ic_tombstones = tombstones, ic_ooc = None, ic_probed_cells = []\<rparr>, scores, ids)) res)))))))"

section \<open>Batches and refills\<close>

definition to_distance :: "'f::linorder arith \<Rightarrow> 'f \<Rightarrow> 'f" where
  "to_distance ar s = min (max (ar_sub ar (ar_one ar) s) (ar_zero ar)) (ar_add ar (ar_one ar) (ar_one ar))"

definition populate_batch :: "'f::linorder arith \<Rightarrow> 'f list \<Rightarrow> u64 list \<Rightarrow> 'f scan_opaque \<Rightarrow> 'f scan_opaque" where
  "populate_batch ar scores ids o' =
     (let new = filter (\<lambda>(s, i). i \<notin> so_emitted o') (zip scores ids)
      in o'\<lparr>so_results := so_results o' @ map snd new, so_distances := so_distances o' @ map (to_distance ar \<circ> fst) new\<rparr>)"

definition k_ceiling :: "'f settings \<Rightarrow> 'f scan_opaque \<Rightarrow> nat" where
  "k_ceiling gu o' = min (so_n_live o') (max (nat (gu_max_scan_tuples gu)) 1)"

definition probe_cap :: "'f settings \<Rightarrow> nat \<Rightarrow> nat" where
  "probe_cap gu nlists = clamp 1 nlists (nat (gu_max_probes gu))"

text \<open>Double, capped, but always by at least one.\<close>

definition grow :: "nat \<Rightarrow> nat \<Rightarrow> nat" where
  "grow cap x = max (min (x * 2) cap) (x + 1)"

text \<open>What a refill does with the new hits: new ones, or something can still grow.\<close>

definition refilled ::
  "'f::linorder arith \<Rightarrow> 'f ivf_ctx option \<Rightarrow> nat \<Rightarrow> bool \<Rightarrow> 'f list \<times> u64 list \<Rightarrow> 'f scan_opaque \<Rightarrow> bool \<times> 'f scan_opaque" where
  "refilled ar ctx new_k can_grow hits o' =
     (let o1 = populate_batch ar (fst hits) (snd hits) (o'\<lparr>so_current_k := new_k, so_ivf := ctx\<rparr>)
      in (length (so_results o') < length (so_results o1) \<or> can_grow, o1))"

definition refill_ooc ::
  "'f::linorder env \<Rightarrow> 'f settings \<Rightarrow> 'r pstore \<Rightarrow> 'f ooc_index \<Rightarrow> 'f ivf_ctx \<Rightarrow> 'f scan_opaque \<Rightarrow> ('r, bool \<times> 'f scan_opaque) io" where
  "refill_ooc ev gu S ix ctx o' =
     (let max_probes = probe_cap gu (ic_lists ctx); can_widen = ic_probes ctx < max_probes;
          new_probes = (if can_widen then grow max_probes (ic_probes ctx) else ic_probes ctx);
          new_k = grow (k_ceiling gu o') (so_current_k o')
      in bind_io (if can_widen then option_io OutOfBounds (coarse_probe_cells (ev_ar ev) ix (normalise_to_vec ev (so_query o')) new_probes)
                  else ret (ic_probed_cells ctx)) (\<lambda>probed.
         bind_io (search_ooc (ev_engine ev) (gu_scan_parallelism gu) S ix (so_query o') new_k probed (ic_tombstones ctx) (so_allow o')) (\<lambda>res.
         ret (refilled (ev_ar ev) (Some (ctx\<lparr>ic_probes := new_probes, ic_probed_cells := probed\<rparr>)) new_k
                (new_probes < max_probes \<or> new_k < k_ceiling gu o') (case res of None \<Rightarrow> ([], []) | Some r \<Rightarrow> r) o'))))"

definition refill_ivf ::
  "'f::linorder env \<Rightarrow> 'f settings \<Rightarrow> 'f handle \<Rightarrow> 'f ivf_ctx \<Rightarrow> 'f scan_opaque \<Rightarrow> (bool \<times> 'f scan_opaque) option" where
  "refill_ivf ev gu arc ctx o' =
     (let max_probes = probe_cap gu (ic_lists ctx);
          ctx1 = (if ic_probes ctx < max_probes then
              let new_probes = grow max_probes (ic_probes ctx);
                  probed = coarse_probe (ev_ar ev) (ic_centroids ctx) (ic_lists ctx) (length (ic_q_rot ctx)) (ic_q_rot ctx) new_probes
              in ctx\<lparr>ic_mask := cell_mask arc (ic_directory ctx) probed (so_n_live o') (ic_tombstones ctx) (so_allow o'),
                     ic_probes := new_probes\<rparr>
            else ctx);
          new_k = grow (k_ceiling gu o') (so_current_k o')
      in map_option (\<lambda>hits. refilled (ev_ar ev) (Some ctx1) new_k (ic_probes ctx1 < max_probes \<or> new_k < k_ceiling gu o') hits o')
           (case search_handle_masked ev arc (so_query o') new_k (ic_mask ctx1) of
              None \<Rightarrow> None
            | Some (Some res) \<Rightarrow> Some res
            | Some None \<Rightarrow> flat_search_live ev gu arc (so_query o') new_k (so_allow o') (so_flat_tombstones o')))"

definition try_refill ::
  "'f::linorder env \<Rightarrow> 'f settings \<Rightarrow> 'r pstore \<Rightarrow> 'f scan_opaque \<Rightarrow> ('r, bool \<times> 'f scan_opaque) io" where
  "try_refill ev gu S o' =
     (if \<not> gu_iterative_scan gu then ret (False, o')
      else case so_arc o' of None \<Rightarrow> ret (False, o')
       | Some arc \<Rightarrow>
           (case so_ivf o' of
              Some ctx \<Rightarrow>
                if \<not> ic_probes ctx < probe_cap gu (ic_lists ctx) \<and> \<not> so_current_k o' < k_ceiling gu o' then ret (False, o')
                else (case ic_ooc ctx of
                        Some ix \<Rightarrow> refill_ooc ev gu S ix ctx o'
                      | None \<Rightarrow> option_io OutOfBounds (refill_ivf ev gu arc ctx o'))
            | None \<Rightarrow>
                if k_ceiling gu o' \<le> so_current_k o' then ret (False, o')
                else
                  let new_k = grow (k_ceiling gu o') (so_current_k o')
                  in option_io OutOfBounds (map_option (\<lambda>hits. refilled (ev_ar ev) None new_k (new_k < k_ceiling gu o') hits o')
                       (flat_search_live ev gu arc (so_query o') new_k (so_allow o') (so_flat_tombstones o')))))"

text \<open>
  The drain loop of \<open>amgettuple\<close>, with fuel: \<open>None\<close> if it has not ended after that many refills.  It ends
  with a candidate under the cursor or with the scan exhausted.
\<close>

fun drain :: "'f::linorder env \<Rightarrow> 'f settings \<Rightarrow> 'r pstore \<Rightarrow> nat \<Rightarrow> 'f scan_opaque \<Rightarrow> 'r world \<Rightarrow>
    ((exn + bool \<times> 'f scan_opaque) \<times> 'r world) option" where
  "drain ev gu S fuel o' w =
     (if so_cursor o' < length (so_results o') then Some (Inr (True, o'), w)
      else case fuel of
        0 \<Rightarrow> None
      | Suc n \<Rightarrow>
          (case try_refill ev gu S o' w of
             (Inl e, w') \<Rightarrow> Some (Inl e, w')
           | (Inr (again, o1), w') \<Rightarrow> if again then drain ev gu S n o1 w' else Some (Inr (False, o1), w')))"

declare drain.simps [simp del]

text \<open>The tuple under the cursor is handed out.\<close>

definition emit :: "'f scan_opaque \<Rightarrow> u64 \<times> 'f scan_opaque" where
  "emit o' = (let i = so_results o' ! so_cursor o'
     in (i, o'\<lparr>so_cursor := so_cursor o' + 1, so_emitted := insert i (so_emitted o')\<rparr>))"

section \<open>The drain ends\<close>

text \<open>How often a scan can be refilled: each refill widens the probes or raises k.\<close>

definition refills_left :: "'f settings \<Rightarrow> 'f scan_opaque \<Rightarrow> nat" where
  "refills_left gu o' = (k_ceiling gu o' - so_current_k o') +
     (case so_ivf o' of None \<Rightarrow> 0 | Some ctx \<Rightarrow> probe_cap gu (ic_lists ctx) - ic_probes ctx)"

lemma populate_fields [simp]:
  "so_n_live (populate_batch ar s i o') = so_n_live o'" "so_current_k (populate_batch ar s i o') = so_current_k o'"
  "so_ivf (populate_batch ar s i o') = so_ivf o'" "so_cursor (populate_batch ar s i o') = so_cursor o'"
  "so_emitted (populate_batch ar s i o') = so_emitted o'" "so_arc (populate_batch ar s i o') = so_arc o'"
  by (simp_all add: populate_batch_def Let_def)

lemma populate_results: "so_results (populate_batch ar s i o') = so_results o' @ filter (\<lambda>x. x \<notin> so_emitted o') (take (length s) i)"
proof -
  have "map snd (filter (\<lambda>(s, i). i \<notin> E) (zip s i)) = filter (\<lambda>x. x \<notin> E) (take (length s) i)" for E :: "u64 set"
  proof (induction s arbitrary: i)
    case (Cons a s)
    then show ?case by (cases i) auto
  qed simp
  then show ?thesis by (simp add: populate_batch_def Let_def)
qed

lemma grow_gt: "x < grow cap x" and grow_le: "x < cap \<Longrightarrow> grow cap x \<le> cap"
  by (auto simp: grow_def)

text \<open>What a refill changes, whichever path it takes.\<close>

definition refill_step :: "'f settings \<Rightarrow> 'f scan_opaque \<Rightarrow> bool \<Rightarrow> 'f scan_opaque \<Rightarrow> bool" where
  "refill_step gu o' again o1 \<longleftrightarrow> so_cursor o1 = so_cursor o' \<and> so_emitted o1 = so_emitted o' \<and> so_n_live o1 = so_n_live o' \<and>
     (\<exists>hits. so_results o1 = so_results o' @ filter (\<lambda>x. x \<notin> so_emitted o') hits) \<and>
     (again \<longrightarrow> refills_left gu o1 < refills_left gu o')"

lemma refilled_step:
  assumes "refilled ar ctx new_k b hits o' = (again, o1)"
    and "k_ceiling gu o' - new_k + (case ctx of None \<Rightarrow> 0 | Some c \<Rightarrow> probe_cap gu (ic_lists c) - ic_probes c) < refills_left gu o'"
  shows "refill_step gu o' again o1"
  using assms by (auto simp: refilled_def Let_def refill_step_def populate_results refills_left_def k_ceiling_def)

lemma try_refill_step:
  assumes "try_refill ev gu S o' w = (Inr (again, o1), w')"
  shows "refill_step gu o' again o1"
proof -
  have stop: "refill_step gu o' False o'" by (auto simp: refill_step_def intro: exI [of _ "[]"])
  let ?c = "k_ceiling gu o'" and ?k = "so_current_k o'"
  have "gu_iterative_scan gu = False \<or> so_arc o' = None \<Longrightarrow> (again, o1) = (False, o')"
    using assms by (cases "gu_iterative_scan gu") (auto simp: try_refill_def ret_def)
  moreover have "(again, o1) = (False, o') \<or> (\<exists>hits. refilled (ev_ar ev) None (grow ?c ?k) (grow ?c ?k < ?c) hits o' = (again, o1) \<and> ?k < ?c)"
    if i: "gu_iterative_scan gu" "so_ivf o' = None" and arc: "so_arc o' = Some arc" for arc
  proof (cases "?c \<le> ?k")
    case True
    then show ?thesis using assms i arc by (simp add: try_refill_def ret_def)
  next
    case False
    then show ?thesis
      using assms i arc
      by (cases "flat_search_live ev gu arc (so_query o') (grow ?c ?k) (so_allow o') (so_flat_tombstones o')")
        (auto simp: try_refill_def ret_def raise_def option_io_def Let_def)
  qed
  moreover have "(again, o1) = (False, o') \<or>
      (ic_probes ctx < probe_cap gu (ic_lists ctx) \<or> ?k < ?c) \<and>
       ((\<exists>ix. refill_ooc ev gu S ix ctx o' w = (Inr (again, o1), w')) \<or> refill_ivf ev gu arc ctx o' = Some (again, o1))"
    if i: "gu_iterative_scan gu" "so_ivf o' = Some ctx" and arc: "so_arc o' = Some arc" for arc ctx
  proof (cases "\<not> ic_probes ctx < probe_cap gu (ic_lists ctx) \<and> \<not> ?k < ?c")
    case True
    then show ?thesis using assms i arc by (simp add: try_refill_def ret_def)
  next
    case False
    show ?thesis
    proof (cases "ic_ooc ctx")
      case None
      then show ?thesis using assms i arc False
        by (cases "refill_ivf ev gu arc ctx o'") (auto simp: try_refill_def ret_def raise_def option_io_def)
    next
      case (Some ix)
      then have "refill_ooc ev gu S ix ctx o' w = (Inr (again, o1), w')" using assms i arc False by (simp add: try_refill_def)
      then show ?thesis using False by blast
    qed
  qed
  ultimately consider (off) "(again, o1) = (False, o')"
    | (ivf) ctx ix where "so_ivf o' = Some ctx" "ic_probes ctx < probe_cap gu (ic_lists ctx) \<or> ?k < ?c"
        "refill_ooc ev gu S ix ctx o' w = (Inr (again, o1), w')"
    | (mask) ctx arc where "so_ivf o' = Some ctx" "ic_probes ctx < probe_cap gu (ic_lists ctx) \<or> ?k < ?c"
        "refill_ivf ev gu arc ctx o' = Some (again, o1)"
    | (flat) hits where "so_ivf o' = None" "?k < ?c" "refilled (ev_ar ev) None (grow ?c ?k) (grow ?c ?k < ?c) hits o' = (again, o1)"
    by (cases "so_arc o'"; cases "so_ivf o'"; cases "gu_iterative_scan gu") (simp_all, blast+)
  then show ?thesis
  proof cases
    case off
    then show ?thesis using stop by simp
  next
    case (ivf ctx ix)
    let ?cap = "probe_cap gu (ic_lists ctx)"
    obtain probed hits where "refilled (ev_ar ev) (Some (ctx\<lparr>ic_probes := (if ic_probes ctx < ?cap then grow ?cap (ic_probes ctx) else ic_probes ctx),
          ic_probed_cells := probed\<rparr>)) (grow ?c ?k)
        ((if ic_probes ctx < ?cap then grow ?cap (ic_probes ctx) else ic_probes ctx) < ?cap \<or> grow ?c ?k < ?c) hits o' = (again, o1)"
      using ivf(3) by (auto simp: refill_ooc_def Let_def bind_io_def ret_def split: prod.splits sum.splits)
    then show ?thesis
      by (rule refilled_step) (use ivf(1,2) grow_gt [of "ic_probes ctx" ?cap] grow_gt [of ?k ?c] in \<open>auto simp: refills_left_def\<close>)
  next
    case (mask ctx arc)
    let ?cap = "probe_cap gu (ic_lists ctx)"
    let ?np = "grow ?cap (ic_probes ctx)"
    define c1 where "c1 = (if ic_probes ctx < ?cap then ctx\<lparr>ic_mask := cell_mask arc (ic_directory ctx)
        (coarse_probe (ev_ar ev) (ic_centroids ctx) (ic_lists ctx) (length (ic_q_rot ctx)) (ic_q_rot ctx) ?np)
        (so_n_live o') (ic_tombstones ctx) (so_allow o'), ic_probes := ?np\<rparr> else ctx)"
    have c1: "ic_lists c1 = ic_lists ctx" "ic_probes c1 = (if ic_probes ctx < ?cap then ?np else ic_probes ctx)"
      by (simp_all add: c1_def)
    obtain b hits where r: "refilled (ev_ar ev) (Some c1) (grow ?c ?k) b hits o' = (again, o1)"
      using mask(3) unfolding refill_ivf_def Let_def map_option_eq_Some c1_def by blast
    show ?thesis
      by (rule refilled_step [OF r]) (use mask(1,2) c1 grow_gt [of "ic_probes ctx" ?cap] grow_gt [of ?k ?c] in \<open>auto simp: refills_left_def\<close>)
  next
    case (flat hits)
    show ?thesis
      by (rule refilled_step [OF flat(3)]) (use flat(1,2) grow_gt [of ?k ?c] in \<open>auto simp: refills_left_def\<close>)
  qed
qed

lemma drain_ends: "refills_left gu o' < fuel \<Longrightarrow> \<exists>r. drain ev gu S fuel o' w = Some r"
proof (induction fuel arbitrary: o' w)
  case (Suc fuel)
  show ?case
  proof (cases "\<exists>o1 w'. try_refill ev gu S o' w = (Inr (True, o1), w')")
    case True
    then obtain o1 w' where t: "try_refill ev gu S o' w = (Inr (True, o1), w')" by blast
    have "refills_left gu o1 < refills_left gu o'" using try_refill_step [OF t] by (simp add: refill_step_def)
    then obtain r where "drain ev gu S fuel o1 w' = Some r" using Suc.IH [of o1 w'] Suc.prems by auto
    then show ?thesis using t by (subst drain.simps) simp
  next
    case False
    then show ?thesis by (subst drain.simps) (auto split: prod.split sum.split)
  qed
qed simp

text \<open>What holds across refills holds when the drain ends.\<close>

lemma drain_invariant:
  assumes step: "\<And>o' w b o1 w'. P o' \<Longrightarrow> \<not> so_cursor o' < length (so_results o') \<Longrightarrow> try_refill ev gu S o' w = (Inr (b, o1), w') \<Longrightarrow> P o1"
  shows "drain ev gu S fuel o' w = Some (Inr (found, o1), w') \<Longrightarrow> P o' \<Longrightarrow>
    P o1 \<and> (found \<longrightarrow> so_cursor o1 < length (so_results o1)) \<and>
    (\<not> found \<longrightarrow> (\<exists>o2 w2. P o2 \<and> \<not> so_cursor o2 < length (so_results o2) \<and> try_refill ev gu S o2 w2 = (Inr (False, o1), w')))"
proof (induction fuel arbitrary: o' w)
  case 0
  then show ?case by (subst (asm) drain.simps) (auto split: if_splits)
next
  case (Suc fuel)
  show ?case
  proof (cases "so_cursor o' < length (so_results o')")
    case True
    then show ?thesis using Suc.prems by (subst (asm) drain.simps) auto
  next
    case False
    obtain r w1 where t: "try_refill ev gu S o' w = (r, w1)" by fastforce
    obtain b o2 where r: "r = Inr (b, o2)" using Suc.prems(1) t False by (subst (asm) drain.simps) (cases r; auto)
    have P: "P o2" using step [OF Suc.prems(2) False] t r by blast
    show ?thesis
    proof (cases b)
      case True
      then have "drain ev gu S fuel o2 w1 = Some (Inr (found, o1), w')"
        using Suc.prems(1) t r False by (subst (asm) drain.simps) simp
      then show ?thesis using Suc.IH P by blast
    next
      case nb: False
      then have "found = False" "o1 = o2" "w' = w1" using Suc.prems(1) t r False by (subst (asm) drain.simps; simp)+
      then show ?thesis using P Suc.prems(2) False t r nb by auto
    qed
  qed
qed

text \<open>
  C12: The drain loop of a scan ends: each refill that asks for another widens the probe set or raises k, both
  capped, so with more fuel than refills are left it stops, with a candidate under the cursor, with the
  scan exhausted or with an error; and it only appends to the results, leaving the cursor and the set of emitted
  ids alone.
\<close>

theorem refill_loop_ends:
  assumes "refills_left gu o' < fuel"
  shows "\<exists>r w'. drain ev gu S fuel o' w = Some (r, w') \<and>
    (\<forall>found o1. r = Inr (found, o1) \<longrightarrow>
       (found \<longrightarrow> so_cursor o1 < length (so_results o1)) \<and> so_cursor o1 = so_cursor o' \<and> so_emitted o1 = so_emitted o' \<and>
       (\<exists>new. so_results o1 = so_results o' @ new))"
proof -
  obtain r w' where d: "drain ev gu S fuel o' w = Some (r, w')" using drain_ends [OF assms, of ev S w] by auto
  let ?P = "\<lambda>o1. so_cursor o1 = so_cursor o' \<and> so_emitted o1 = so_emitted o' \<and> (\<exists>new. so_results o1 = so_results o' @ new)"
  have "?P o1 \<and> (found \<longrightarrow> so_cursor o1 < length (so_results o1))" if r: "r = Inr (found, o1)" for found o1
  proof -
    have "?P o3" if P: "?P o2" and t: "try_refill ev gu S o2 w2 = (Inr (b, o3), w3)" for o2 w2 b o3 w3
    proof -
      obtain hits where "so_results o3 = so_results o2 @ filter (\<lambda>x. x \<notin> so_emitted o2) hits"
          "so_cursor o3 = so_cursor o2" "so_emitted o3 = so_emitted o2"
        using try_refill_step [OF t] unfolding refill_step_def by blast
      with P show ?thesis by auto
    qed
    then show ?thesis using drain_invariant [where P = ?P, OF _ d [unfolded r]] by blast
  qed
  with d show ?thesis by blast
qed

text \<open>A small scan: three rows, one candidate fetched, iterative scans on.\<close>

definition demo_settings :: "int settings" where
  "demo_settings = \<lparr>gu_iterative_scan = True, gu_max_scan_tuples = 10, gu_max_probes = 4, gu_probes = 1, gu_search_k = 1,
     gu_oversample = 1, gu_rerank_multiplier = None, gu_hi_dim_rerank = ModeOff, gu_graph_ef = 0, gu_scan_parallelism = 1,
     gu_coarse_graph = ModeOff, gu_out_of_core = ModeOff, gu_cache_size_mb = 8, gu_normalize_on_insert = False, gu_allowlist = None\<rparr>"

definition demo_score :: "int list \<Rightarrow> u8 list \<Rightarrow> f32_bits \<Rightarrow> int" where
  "demo_score q row sc = hd q * uint (hd row)"

definition demo_env :: "int env" where
  "demo_env = \<lparr>ev_ar = demo_arith, ev_sqrt = id, ev_of_bits = sint, ev_ceil_mul = (\<lambda>k x. k * nat x), ev_rotation = (\<lambda>dim. []),
     ev_engine = (\<lambda>_. reference_engine 1 demo_score), ev_scorer = (\<lambda>_ _ ids. map (int \<circ> unat) ids)\<rparr>"

definition demo_ro :: read_only where
  "demo_ro = \<lparr>ro_tqplus = ([], []), ro_codes = [1, 5, 3], ro_scales = [0, 0, 0], ro_slot_to_id = [70, 80, 90]\<rparr>"

definition demo_scan :: "int scan_opaque" where
  "demo_scan = \<lparr>so_query = [1], so_results = [80], so_distances = [0], so_cursor = 0, so_fetched = True, so_arc = Some (HReadOnly demo_ro),
     so_current_k = 1, so_n_live = 3, so_emitted = {}, so_ivf = None, so_flat_tombstones = [], so_allow = None\<rparr>"

theorem refill_loop_ends_witness:
  "\<exists>r w'. drain demo_env demo_settings list_store 3 demo_scan demo_world = Some (r, w') \<and>
    (\<forall>found o1. r = Inr (found, o1) \<longrightarrow>
       (found \<longrightarrow> so_cursor o1 < length (so_results o1)) \<and> so_cursor o1 = so_cursor demo_scan \<and>
       so_emitted o1 = so_emitted demo_scan \<and> (\<exists>new. so_results o1 = so_results demo_scan @ new))"
  by (rule refill_loop_ends) (simp add: refills_left_def k_ceiling_def demo_settings_def demo_scan_def)

end
