(* ===== verification/ScanRows.thy ===== *)
theory ScanRows
  imports Scan
begin

text \<open>
  What a scan hands out (\<open>src/index/scan.rs\<close>): the calls the executor makes after the first fetch, and that a
  scan of a whole-load index that is allowed to look at every row hands out each live, allowed row once.
\<close>

section \<open>Every row once\<close>

text \<open>One call of \<open>amgettuple\<close> after the first fetch: \<open>None\<close> inside is the end of the scan.\<close>

definition next_tuple ::
  "'f::linorder env \<Rightarrow> 'f settings \<Rightarrow> 'r pstore \<Rightarrow> nat \<Rightarrow> 'f scan_opaque \<Rightarrow> 'r world \<Rightarrow>
   ((exn + u64 option \<times> 'f scan_opaque) \<times> 'r world) option" where
  "next_tuple ev gu S fuel o' w =
     (case drain ev gu S fuel o' w of
        None \<Rightarrow> None
      | Some (Inl e, w') \<Rightarrow> Some (Inl e, w')
      | Some (Inr (found, o1), w') \<Rightarrow>
          Some (Inr (if found then map_prod Some id (emit o1) else (None, o1)), w'))"

text \<open>The executor's loop over at most \<open>calls\<close> calls.\<close>

fun fetch_all ::
  "'f::linorder env \<Rightarrow> 'f settings \<Rightarrow> 'r pstore \<Rightarrow> nat \<Rightarrow> nat \<Rightarrow> 'f scan_opaque \<Rightarrow> 'r world \<Rightarrow>
   ((exn + u64 list) \<times> 'r world) option" where
  "fetch_all ev gu S fuel 0 o' w = None"
| "fetch_all ev gu S fuel (Suc calls) o' w =
     (case next_tuple ev gu S fuel o' w of
        None \<Rightarrow> None
      | Some (Inl e, w') \<Rightarrow> Some (Inl e, w')
      | Some (Inr (None, o1), w') \<Rightarrow> Some (Inr [], w')
      | Some (Inr (Some i, o1), w') \<Rightarrow> map_option (\<lambda>(r, w2). (map_sum id ((#) i) r, w2)) (fetch_all ev gu S fuel calls o1 w'))"

text \<open>A whole-load index as the engine takes it, with every id once.\<close>

definition ro_wf :: "'f::linorder env \<Rightarrow> nat \<Rightarrow> ('f list \<Rightarrow> u8 list \<Rightarrow> f32_bits \<Rightarrow> 'f) \<Rightarrow> read_only \<Rightarrow> bool" where
  "ro_wf ev stride sc a \<longleftrightarrow> exact_engine (ev_engine ev (ro_tqplus a)) stride sc \<and>
     length (ro_codes a) = length (ro_scales a) * stride \<and> length (ro_scales a) = ro_len a \<and> distinct (ro_slot_to_id a)"

definition ro_score :: "nat \<Rightarrow> ('f list \<Rightarrow> u8 list \<Rightarrow> f32_bits \<Rightarrow> 'f) \<Rightarrow> read_only \<Rightarrow> 'f list \<Rightarrow> nat \<Rightarrow> 'f" where
  "ro_score stride sc a q i = sc q (bslice (i * stride) stride (ro_codes a)) (ro_scales a ! i)"

definition wanted :: "read_only \<Rightarrow> u64 set option \<Rightarrow> u8 list \<Rightarrow> nat set" where
  "wanted a allow tombs = {s. s < ro_len a \<and> (\<forall>ids. allow = Some ids \<longrightarrow> ro_slot_to_id a ! s \<in> ids) \<and> \<not> slot_dead tombs s}"

lemma ro_engine:
  assumes wf: "ro_wf ev stride sc a" and m: "\<And>m. sel = Some m \<Longrightarrow> length m = ro_len a"
  shows "\<exists>res. translate (ro_slot_to_id a) (ev_engine ev (ro_tqplus a) (ro_codes a) (ro_scales a) q k sel)
      = Some (map fst res, map ((!) (ro_slot_to_id a) \<circ> snd) res) \<and>
    top_k_of (ro_score stride sc a q) {s. s < ro_len a \<and> (\<forall>m. sel = Some m \<longrightarrow> m ! s)} k res"
proof -
  let ?res = "ev_engine ev (ro_tqplus a) (ro_codes a) (ro_scales a) q k sel"
  have "top_k_of (\<lambda>i. sc q (bslice (i * stride) stride (ro_codes a)) (ro_scales a ! i))
      {i. i < length (ro_scales a) \<and> (\<forall>m. sel = Some m \<longrightarrow> m ! i)} k ?res"
  proof -
    have E: "exact_engine (ev_engine ev (ro_tqplus a)) stride sc" using wf by (simp add: ro_wf_def)
    show ?thesis
      by (rule E [unfolded exact_engine_def, rule_format]) (use wf m in \<open>auto simp: ro_wf_def\<close>)
  qed
  then have t: "top_k_of (ro_score stride sc a q) {s. s < ro_len a \<and> (\<forall>m. sel = Some m \<longrightarrow> m ! s)} k ?res"
    using wf by (simp add: ro_wf_def ro_score_def [abs_def])
  then have "snd ` set ?res \<subseteq> {..<length (ro_slot_to_id a)}" by (auto simp: top_k_of_def ro_len_def)
  then show ?thesis using t translate_ok by blast
qed

lemma length_tombstoned [simp]: "length (apply_tombstones m tombs) = length m"
  by (simp add: apply_tombstones_def)

lemma nth_tombstoned: "s < length m \<Longrightarrow> apply_tombstones m tombs ! s \<longleftrightarrow> m ! s \<and> \<not> slot_dead tombs s"
  by (auto simp: apply_tombstones_def slot_dead_def)

lemma slot_dead_zeros: "list_all (\<lambda>b. b = 0) tombs \<Longrightarrow> \<not> slot_dead tombs s"
  by (auto simp: slot_dead_def list_all_length)

lemma flat_search_ro:
  assumes wf: "ro_wf ev stride sc a"
  shows "\<exists>res. flat_search_live ev gu (HReadOnly a) q k allow tombs = Some (map fst res, map ((!) (ro_slot_to_id a) \<circ> snd) res) \<and>
    top_k_of (ro_score stride sc a q) (wanted a allow tombs) k res"
proof (cases "list_all (\<lambda>b. b = 0) tombs")
  case True
  show ?thesis
  proof (cases allow)
    case None
    have "wanted a allow tombs = {s. s < ro_len a \<and> (\<forall>m. (None :: bool list option) = Some m \<longrightarrow> m ! s)}"
      using None slot_dead_zeros [OF True] by (auto simp: wanted_def)
    with ro_engine [OF wf, of None q k] True None show ?thesis
      by (auto simp: flat_search_live_def flat_search_def search_handle_def handle_search_def ro_search_def)
  next
    case (Some ids)
    let ?m = "allow_slot_mask (ro_slot_to_id a) ids"
    have "wanted a allow tombs = {s. s < ro_len a \<and> (\<forall>m. Some ?m = Some m \<longrightarrow> m ! s)}"
      using Some slot_dead_zeros [OF True] by (auto simp: wanted_def allow_slot_mask_def ro_len_def)
    with ro_engine [OF wf, of "Some ?m" q k] True Some show ?thesis
      by (auto simp: flat_search_live_def flat_search_def search_handle_masked_def handle_search_masked_def ro_search_masked_def
          handle_allow_slot_mask_def allow_slot_mask_def ro_len_def)
  qed
next
  case False
  let ?base = "case allow of Some ids \<Rightarrow> allow_slot_mask (ro_slot_to_id a) ids | None \<Rightarrow> replicate (ro_len a) True"
  let ?m = "apply_tombstones ?base tombs"
  have len: "length ?base = ro_len a" by (simp add: allow_slot_mask_def ro_len_def split: option.split)
  have "wanted a allow tombs = {s. s < ro_len a \<and> (\<forall>m. Some ?m = Some m \<longrightarrow> m ! s)}"
    using len by (auto simp: wanted_def nth_tombstoned allow_slot_mask_def ro_len_def split: option.splits)
  with ro_engine [OF wf, of "Some ?m" q k] False len show ?thesis
    by (cases allow) (auto simp: flat_search_live_def search_handle_masked_def handle_search_masked_def ro_search_masked_def
        handle_allow_slot_mask_def handle_allow_all_slot_mask_def)
qed

text \<open>
  What holds between the calls of a scan of a flat index held in memory: the results are rows that are
  wanted, each once, the emitted ones are those before the cursor, and they include what the search for
  the current k finds.
\<close>

definition row_ids :: "read_only \<Rightarrow> nat set \<Rightarrow> u64 set" where
  "row_ids a A = (!) (ro_slot_to_id a) ` A"

definition flat_scan :: "'f::linorder env \<Rightarrow> 'f settings \<Rightarrow> read_only \<Rightarrow> 'f scan_opaque \<Rightarrow> bool" where
  "flat_scan ev gu a o' \<longleftrightarrow> so_arc o' = Some (HReadOnly a) \<and> so_ivf o' = None \<and> so_n_live o' = ro_len a \<and>
     so_cursor o' \<le> length (so_results o') \<and> so_emitted o' = set (take (so_cursor o') (so_results o')) \<and> distinct (so_results o') \<and>
     set (so_results o') \<subseteq> row_ids a (wanted a (so_allow o') (so_flat_tombstones o')) \<and>
     (\<exists>s ids. flat_search_live ev gu (HReadOnly a) (so_query o') (so_current_k o') (so_allow o') (so_flat_tombstones o') = Some (s, ids) \<and>
        set ids \<subseteq> set (so_results o'))"

lemma flat_hits:
  assumes wf: "ro_wf ev stride sc a"
  obtains s ids where "flat_search_live ev gu (HReadOnly a) q k allow tombs = Some (s, ids)" "length s = length ids"
    "distinct ids" "set ids \<subseteq> row_ids a (wanted a allow tombs)"
    "ro_len a \<le> k \<Longrightarrow> set ids = row_ids a (wanted a allow tombs)"
proof -
  let ?A = "wanted a allow tombs"
  obtain res where f: "flat_search_live ev gu (HReadOnly a) q k allow tombs = Some (map fst res, map ((!) (ro_slot_to_id a) \<circ> snd) res)"
    and t: "top_k_of (ro_score stride sc a q) ?A k res"
    using flat_search_ro [OF wf] by blast
  have ids: "set (map ((!) (ro_slot_to_id a) \<circ> snd) res) = row_ids a (snd ` set res)" by (auto simp: row_ids_def)
  have sub: "snd ` set res \<subseteq> ?A" and dis: "distinct (map snd res)" using t by (simp_all add: top_k_of_def)
  have A: "?A \<subseteq> {..<length (ro_slot_to_id a)}" by (auto simp: wanted_def ro_len_def)
  have "inj_on ((!) (ro_slot_to_id a)) (set (map snd res))"
    using wf sub A by (auto simp: ro_wf_def inj_on_def nth_eq_iff_index_eq subset_iff)
  then have d: "distinct (map ((!) (ro_slot_to_id a) \<circ> snd) res)" using dis by (simp add: distinct_map comp_inj_on)
  have all: "snd ` set res = ?A" if "ro_len a \<le> k"
  proof (rule card_subset_eq)
    show "finite ?A" using A by (rule finite_subset) simp
    have "card ?A \<le> ro_len a" using card_mono [OF _ A] by (simp add: ro_len_def)
    then show "card (snd ` set res) = card ?A" using that unfolding top_k_card [OF t] by simp
  qed (rule sub)
  show thesis
    by (rule that [OF f]) (use d all sub in \<open>auto simp: ids row_ids_def simp del: set_map\<close>)
qed

lemma flat_refill:
  assumes wf: "ro_wf ev stride sc a" and f: "flat_scan ev gu a o'" and end': "\<not> so_cursor o' < length (so_results o')"
    and t: "try_refill ev gu S o' w = (Inr (b, o1), w')"
  shows "flat_scan ev gu a o1 \<and> so_allow o1 = so_allow o' \<and> so_flat_tombstones o1 = so_flat_tombstones o' \<and>
    so_emitted o1 = so_emitted o' \<and> so_cursor o1 = so_cursor o' \<and> so_fetched o1 = so_fetched o' \<and> w' = w \<and>
    (\<not> b \<longrightarrow> so_results o1 = so_results o' \<and> (gu_iterative_scan gu \<longrightarrow> k_ceiling gu o1 \<le> so_current_k o1))"
proof (cases "gu_iterative_scan gu \<and> so_current_k o' < k_ceiling gu o'")
  case True
  let ?k = "grow (k_ceiling gu o') (so_current_k o')"
  obtain s ids where h: "flat_search_live ev gu (HReadOnly a) (so_query o') ?k (so_allow o') (so_flat_tombstones o') = Some (s, ids)"
    "length s = length ids" "distinct ids" "set ids \<subseteq> row_ids a (wanted a (so_allow o') (so_flat_tombstones o'))"
    using flat_hits [OF wf] by metis
  have r: "refilled (ev_ar ev) None ?k (?k < k_ceiling gu o') (s, ids) o' = (b, o1)" and w: "w' = w"
    using t f True h(1) by (simp_all add: try_refill_def flat_scan_def Let_def option_io_def ret_def)
  have res: "so_results o1 = so_results o' @ filter (\<lambda>x. x \<notin> so_emitted o') ids"
    using r h(2) by (auto simp: refilled_def Let_def populate_results)
  have o1: "so_arc o1 = so_arc o'" "so_ivf o1 = None" "so_n_live o1 = so_n_live o'" "so_cursor o1 = so_cursor o'" "so_emitted o1 = so_emitted o'"
    "so_allow o1 = so_allow o'" "so_flat_tombstones o1 = so_flat_tombstones o'" "so_query o1 = so_query o'" "so_current_k o1 = ?k" "so_fetched o1 = so_fetched o'"
    using r by (auto simp: refilled_def Let_def populate_batch_def)
  have em: "so_emitted o' = set (so_results o')" and cur: "so_cursor o' = length (so_results o')"
    using f end' by (auto simp: flat_scan_def)
  have "\<not> b \<Longrightarrow> k_ceiling gu o1 \<le> so_current_k o1"
  proof -
    assume "\<not> b"
    then have "\<not> ?k < k_ceiling gu o'" using r by (auto simp: refilled_def Let_def)
    moreover have "k_ceiling gu o1 = k_ceiling gu o'" using o1(3) by (simp add: k_ceiling_def)
    ultimately show "k_ceiling gu o1 \<le> so_current_k o1" unfolding o1(9) by simp
  qed
  moreover have "flat_scan ev gu a o1"
    unfolding flat_scan_def o1 res em using f h em cur by (auto simp: flat_scan_def)
  moreover have "\<not> b \<Longrightarrow> so_results o1 = so_results o'" using r res by (auto simp: refilled_def Let_def)
  ultimately show ?thesis using o1 w by blast
next
  case False
  then have "b = False" "o1 = o'" "w' = w" using t f by (auto simp: try_refill_def flat_scan_def ret_def split: if_splits)
  with False f show ?thesis by auto
qed

lemma flat_refill_total:
  assumes wf: "ro_wf ev stride sc a" and f: "flat_scan ev gu a o'"
  obtains b o1 where "try_refill ev gu S o' w = (Inr (b, o1), w)"
proof -
  let ?k = "grow (k_ceiling gu o') (so_current_k o')"
  obtain s ids where h: "flat_search_live ev gu (HReadOnly a) (so_query o') ?k (so_allow o') (so_flat_tombstones o') = Some (s, ids)"
    using flat_hits [OF wf] by metis
  have "\<exists>b o1. try_refill ev gu S o' w = (Inr (b, o1), w)"
    using f h by (cases "refilled (ev_ar ev) None ?k (?k < k_ceiling gu o') (s, ids) o'")
      (auto simp: try_refill_def flat_scan_def Let_def option_io_def ret_def)
  with that show thesis by blast
qed

lemma flat_drain:
  assumes wf: "ro_wf ev stride sc a"
  shows "flat_scan ev gu a o' \<Longrightarrow> refills_left gu o' < fuel \<Longrightarrow>
    \<exists>found o1. drain ev gu S fuel o' w = Some (Inr (found, o1), w) \<and> flat_scan ev gu a o1 \<and>
      so_allow o1 = so_allow o' \<and> so_flat_tombstones o1 = so_flat_tombstones o' \<and> so_emitted o1 = so_emitted o' \<and> so_cursor o1 = so_cursor o' \<and> so_fetched o1 = so_fetched o' \<and>
      found = (so_cursor o1 < length (so_results o1)) \<and> (\<not> found \<longrightarrow> gu_iterative_scan gu \<longrightarrow> k_ceiling gu o1 \<le> so_current_k o1)"
proof (induction fuel arbitrary: o')
  case (Suc fuel)
  show ?case
  proof (cases "so_cursor o' < length (so_results o')")
    case True
    then have "drain ev gu S (Suc fuel) o' w = Some (Inr (True, o'), w)" by (subst drain.simps) simp
    with Suc.prems(1) True show ?thesis by blast
  next
    case False
    obtain b o1 where t: "try_refill ev gu S o' w = (Inr (b, o1), w)" using flat_refill_total [OF wf Suc.prems(1)] .
    note step = flat_refill [OF wf Suc.prems(1) False t]
    have d: "drain ev gu S (Suc fuel) o' w = (if b then drain ev gu S fuel o1 w else Some (Inr (False, o1), w))"
      using False t by (subst drain.simps) simp
    show ?thesis
    proof (cases b)
      case True
      have "refills_left gu o1 < fuel" using try_refill_step [OF t] True Suc.prems(2) by (simp add: refill_step_def)
      from Suc.IH [OF conjunct1 [OF step] this] step show ?thesis unfolding d using True by auto
    next
      case nb: False
      with step False show ?thesis unfolding d by auto
    qed
  qed
qed simp

text \<open>One call: a new wanted row, or the end.\<close>

lemma flat_next:
  assumes wf: "ro_wf ev stride sc a" and f: "flat_scan ev gu a o'" and fuel: "ro_len a < fuel"
  obtains (row) i o2 where "next_tuple ev gu S fuel o' w = Some (Inr (Some i, o2), w)" "flat_scan ev gu a o2"
      "so_allow o2 = so_allow o'" "so_flat_tombstones o2 = so_flat_tombstones o'" "so_fetched o2 = so_fetched o'" "so_cursor o2 = so_cursor o' + 1"
      "so_emitted o2 = insert i (so_emitted o')" "i \<notin> so_emitted o'" "i \<in> row_ids a (wanted a (so_allow o') (so_flat_tombstones o'))"
  | (stop) o2 where "next_tuple ev gu S fuel o' w = Some (Inr (None, o2), w)"
      "gu_iterative_scan gu \<Longrightarrow> ro_len a \<le> nat (gu_max_scan_tuples gu) \<Longrightarrow>
        row_ids a (wanted a (so_allow o') (so_flat_tombstones o')) \<subseteq> so_emitted o'"
proof -
  let ?W = "row_ids a (wanted a (so_allow o') (so_flat_tombstones o'))"
  have "refills_left gu o' < fuel" using f fuel by (simp add: refills_left_def flat_scan_def k_ceiling_def)
  then obtain found o1 where d: "drain ev gu S fuel o' w = Some (Inr (found, o1), w)" and f1: "flat_scan ev gu a o1"
    and same: "so_allow o1 = so_allow o'" "so_flat_tombstones o1 = so_flat_tombstones o'" "so_emitted o1 = so_emitted o'" "so_cursor o1 = so_cursor o'"
      "so_fetched o1 = so_fetched o'"
    and found: "found = (so_cursor o1 < length (so_results o1))" "\<not> found \<Longrightarrow> gu_iterative_scan gu \<Longrightarrow> k_ceiling gu o1 \<le> so_current_k o1"
    using flat_drain [OF wf f] by metis
  show thesis
  proof (cases found)
    case False
    have "?W \<subseteq> so_emitted o'" if on: "gu_iterative_scan gu" and budget: "ro_len a \<le> nat (gu_max_scan_tuples gu)"
    proof -
      have "ro_len a \<le> so_current_k o1" using found(2) [OF False on] f1 budget by (simp add: flat_scan_def k_ceiling_def)
      moreover obtain s ids where "flat_search_live ev gu (HReadOnly a) (so_query o1) (so_current_k o1) (so_allow o1) (so_flat_tombstones o1) = Some (s, ids)"
          "set ids \<subseteq> set (so_results o1)"
        using f1 by (auto simp: flat_scan_def)
      ultimately have "?W \<subseteq> set (so_results o1)"
        using flat_hits [OF wf, of gu "so_query o1" "so_current_k o1" "so_allow o1" "so_flat_tombstones o1"] same(1,2)
        by (metis option.inject prod.inject)
      then show ?thesis using f1 found(1) False same(3) by (auto simp: flat_scan_def)
    qed
    with d False show thesis by (intro stop [of o1]) (simp_all add: next_tuple_def)
  next
    case True
    let ?i = "so_results o1 ! so_cursor o1"
    define o2 where "o2 = o1\<lparr>so_cursor := so_cursor o1 + 1, so_emitted := insert ?i (so_emitted o1)\<rparr>"
    have cur: "so_cursor o1 < length (so_results o1)" using True found(1) by simp
    have f2: "flat_scan ev gu a o2"
      using f1 cur by (auto simp: flat_scan_def o2_def take_Suc_conv_app_nth)
    have iW: "?i \<in> ?W" using f1 cur same by (auto simp: flat_scan_def)
    have ie: "?i \<notin> so_emitted o'"
    proof
      assume "?i \<in> so_emitted o'"
      then obtain j where "j < so_cursor o1" "so_results o1 ! j = ?i"
        using f1 same(3) by (auto simp: flat_scan_def in_set_conv_nth)
      then show False using f1 cur by (auto simp: flat_scan_def nth_eq_iff_index_eq)
    qed
    show thesis
      by (rule row [of ?i o2]) (use d True f2 iW ie same in \<open>simp_all add: next_tuple_def emit_def o2_def Let_def\<close>)
  qed
qed

lemma flat_fetch:
  assumes wf: "ro_wf ev stride sc a" and on: "gu_iterative_scan gu" and budget: "ro_len a \<le> nat (gu_max_scan_tuples gu)" and fuel: "ro_len a < fuel"
  shows "flat_scan ev gu a o' \<Longrightarrow> ro_len a < calls + so_cursor o' \<Longrightarrow>
    \<exists>tids. fetch_all ev gu S fuel calls o' w = Some (Inr tids, w) \<and> distinct tids \<and>
      set tids = row_ids a (wanted a (so_allow o') (so_flat_tombstones o')) - so_emitted o'"
proof (induction calls arbitrary: o')
  case 0
  let ?W = "row_ids a (wanted a (so_allow o') (so_flat_tombstones o'))"
  have sub: "?W \<subseteq> set (ro_slot_to_id a)" by (auto simp: row_ids_def wanted_def ro_len_def)
  have "card ?W \<le> card (set (ro_slot_to_id a))" by (rule card_mono) (use sub in simp_all)
  also have "\<dots> \<le> ro_len a" unfolding ro_len_def by (rule card_length)
  finally have "card ?W \<le> ro_len a" .
  moreover have "length (so_results o') \<le> card ?W"
    using 0(1) card_mono [OF finite_subset [OF sub], of "set (so_results o')"] by (auto simp: flat_scan_def distinct_card)
  ultimately show ?case using 0 by (simp add: flat_scan_def)
next
  case (Suc calls)
  let ?W = "row_ids a (wanted a (so_allow o') (so_flat_tombstones o'))"
  show ?case
  proof (cases rule: flat_next [OF wf Suc.prems(1) fuel, of S w, case_names row stop])
    case (row i o2)
    have "ro_len a < calls + so_cursor o2" using Suc.prems(2) row(6) by simp
    from Suc.IH [OF row(2) this] obtain tids where "fetch_all ev gu S fuel calls o2 w = Some (Inr tids, w)" "distinct tids"
        "set tids = ?W - insert i (so_emitted o')"
      using row(3,4,7) by auto
    then show ?thesis using row(1,8,9) by auto
  next
    case (stop o2)
    then have "?W - so_emitted o' = {}" using on budget by auto
    then show ?thesis using stop(1) by simp
  qed
qed

end
