(* ===== verification/Amscan.thy ===== *)
theory Amscan
  imports ScanRows
begin

text \<open>
  The access-method side of a scan (\<open>src/index/scan.rs\<close>): the gates of \<open>ambeginscan\<close>, \<open>amrescan\<close>, building the handle
  of a cache miss from the relation, the first fetch and \<open>amgettuple\<close>.  What the cache holds for the key, a dirty
  mirror or a handle, is an argument; \<open>from_parts_ok\<close> is whether the turbovec crate accepts stored parts.
\<close>

section \<open>Starting a scan\<close>

definition empty_scan :: "'f scan_opaque" where
  "empty_scan = \<lparr>so_query = [], so_results = [], so_distances = [], so_cursor = 0, so_fetched = False, so_arc = None,
     so_current_k = 0, so_n_live = 0, so_emitted = {}, so_ivf = None, so_flat_tombstones = [], so_allow = None\<rparr>"

definition ambeginscan :: "'r pstore \<Rightarrow> ('r, 'f scan_opaque) io" where
  "ambeginscan S =
     bind_io (read_meta S) (\<lambda>mo. case mo of
        None \<Rightarrow> raise (Reported ''empty main fork'')
      | Some m \<Rightarrow>
          if is_legacy_v7 m \<and> 0 < m_n_vectors m then raise (Reported ''pre-v8 relfile layout'')
          else if is_colbert m then raise (Reported ''no ORDER BY semantics'')
          else ret empty_scan)"

text \<open>The order-by argument: absent, NULL, or the query vector.\<close>

definition amrescan :: "'f env \<Rightarrow> 'f settings \<Rightarrow> 'f list option option \<Rightarrow> 'f scan_opaque \<Rightarrow> exn + 'f scan_opaque" where
  "amrescan ev gu order o' =
     (let cleared = o'\<lparr>so_results := [], so_distances := [], so_cursor := 0, so_arc := None, so_current_k := 0,
            so_n_live := 0, so_emitted := {}, so_allow := None, so_flat_tombstones := []\<rparr>
      in case order of
           None \<Rightarrow> Inr (cleared\<lparr>so_query := [], so_fetched := True\<rparr>)
         | Some None \<Rightarrow> Inl (Reported ''ORDER BY query datum is NULL'')
         | Some (Some q) \<Rightarrow>
             Inr (cleared\<lparr>so_query := if gu_normalize_on_insert gu then normalise_to_vec ev q else q,
                          so_fetched := False, so_ivf := None\<rparr>))"

section \<open>Building a handle from the relation\<close>

type_synonym parts_check = "meta \<Rightarrow> u8 list \<Rightarrow> f32_bits list \<Rightarrow> calibration \<Rightarrow> bool"

definition assert_ids_unique_or_reindex :: "u64 list \<Rightarrow> ('r, unit) io" where
  "assert_ids_unique_or_reindex ids =
     (case first_duplicate_id ids of None \<Rightarrow> ret () | Some i \<Rightarrow> raise (DuplicateOnDisk i))"

text \<open>\<open>from_prepared_parts\<close> with the stored calibration, or \<open>from_parts\<close> without one.\<close>

definition read_only_of ::
  "parts_check \<Rightarrow> 'r pstore \<Rightarrow> meta \<Rightarrow> u8 list \<Rightarrow> f32_bits list \<Rightarrow> u64 list \<Rightarrow> ('r, read_only) io" where
  "read_only_of from_parts_ok S m codes scales ids =
     (if has_prepared_layout m then
        bind_io (read_tqplus S m) (\<lambda>tq.
          if from_parts_ok m codes scales tq
          then ret \<lparr>ro_tqplus = tq, ro_codes = codes, ro_scales = scales, ro_slot_to_id = ids\<rparr> else raise AssertFailed)
      else if from_parts_ok m codes scales ([], [])
      then ret \<lparr>ro_tqplus = ([], []), ro_codes = codes, ro_scales = scales, ro_slot_to_id = ids\<rparr>
      else raise (Reported ''persisted parts are corrupt''))"

definition whole_bytes :: "u32 \<Rightarrow> u8 \<Rightarrow> nat \<Rightarrow> nat" where
  "whole_bytes dim bw n = (unat dim * unat bw div 8 + 4 + 64) * max n 1"

definition install_whole_index ::
  "parts_check \<Rightarrow> 'r pstore \<Rightarrow> meta \<Rightarrow> nat \<Rightarrow> u32 \<Rightarrow> u8 \<Rightarrow> ('r, 'f handle \<times> nat) io" where
  "install_whole_index from_parts_ok S meta n_in_index dim bw =
     seq_io lock_relfile_read
     (bind_io (read_full_consistent S meta) (\<lambda>(m, codes, scales, ids).
      seq_io (when_io (m_lists m = 0) (assert_ids_unique_or_reindex ids))
      (bind_io (read_only_of from_parts_ok S m codes scales ids) (\<lambda>ro.
       seq_io unlock_relfile_read (ret (HReadOnly ro, whole_bytes dim bw n_in_index))))))"

definition install_bq_index :: "'f env \<Rightarrow> 'r pstore \<Rightarrow> meta \<Rightarrow> ('r, 'f handle \<times> nat) io" where
  "install_bq_index ev S meta =
     seq_io lock_relfile_read
     (bind_io (read_meta S) (\<lambda>mo.
      let m = (case mo of None \<Rightarrow> meta | Some c \<Rightarrow> c) in
      bind_io (read_chain S (m_codes_first m) (m_stride_bytes m) (m_rows_per_codes_page m) (m_n_vectors m)) (\<lambda>codes.
      bind_io (read_ids_only S m) (\<lambda>ids.
      bind_io (read_bq_mean S m) (\<lambda>mean.
      bind_io (read_tombstones S m) (\<lambda>tombs.
      seq_io unlock_relfile_read
        (if 0 < m_n_vectors m \<and> length mean \<noteq> unat (m_dim m) then raise (Reported ''missing its corpus-mean vector'')
         else ret (HBq (bq_new codes ids (map (ev_of_bits ev) mean) (unat (m_dim m)) tombs),
                   length codes + length ids * 8 + length mean * 4 + length tombs))))))))"

definition install_graph_index ::
  "parts_check \<Rightarrow> 'r pstore \<Rightarrow> meta \<Rightarrow> nat \<Rightarrow> u32 \<Rightarrow> u8 \<Rightarrow> ('r, 'f handle \<times> nat) io" where
  "install_graph_index from_parts_ok S meta n_in_index dim bw =
     seq_io lock_relfile_read
     (bind_io (read_full_consistent S meta) (\<lambda>(m, codes, scales, ids).
      seq_io (assert_ids_unique_or_reindex ids)
      (bind_io (read_only_of from_parts_ok S m codes scales ids) (\<lambda>ro.
       bind_io (read_graph_adjacency S m) (\<lambda>adj. case adj of
          None \<Rightarrow> raise AssertFailed
        | Some adjacency \<Rightarrow>
          bind_io (read_tombstones S m) (\<lambda>tombs.
          seq_io unlock_relfile_read
            (ret (HGraph \<lparr>gi_inner = ro, gi_adjacency = adjacency, gi_entry_point = m_graph_entry_point m, gi_tombstones = tombs\<rparr>,
                  (unat dim * unat bw div 8 + 4 + 64
                   + unat (m_graph_offsets_bytes m + m_graph_neighbors_bytes m) div max n_in_index 1) * max n_in_index 1))))))))"

text \<open>\<open>None\<close> falls back to the whole index.  This path takes no lock.\<close>

definition try_install_ooc :: "'f::linorder env \<Rightarrow> 'f settings \<Rightarrow> 'r pstore \<Rightarrow> meta \<Rightarrow> ('r, ('f handle \<times> nat) option) io" where
  "try_install_ooc ev gu S m =
     (let dim = unat (m_dim m); nlists = unat (m_lists m); n = unat (m_n_vectors m) in
      if dim = 0 \<or> nlists = 0 \<or> n = 0 then ret None
      else bind_io (read_coarse_centroids S m) (\<lambda>cbits.
        if length cbits \<noteq> nlists * dim \<or> length (ev_rotation ev dim) \<noteq> dim * dim then ret None
        else bind_io (read_cell_directory S m) (\<lambda>dopt. case dopt of
            None \<Rightarrow> ret None
          | Some dir \<Rightarrow>
              if m_n_vectors m < total_vectors dir then ret None
              else bind_io (read_tqplus S m) (\<lambda>tq.
                bind_io (read_scales_only S m) (\<lambda>scales.
                bind_io (read_ids_only S m) (\<lambda>ids.
                  if length scales \<noteq> n \<or> length ids \<noteq> n then ret None
                  else ret (Some (HOoc (ooc_new (ev_ar ev) (gu_coarse_graph gu) dim n (m_codes_first m) (m_stride_bytes m)
                         (m_rows_per_codes_page m) (map (ev_of_bits ev) cbits) nlists (ev_rotation ev dim) dir tq scales ids),
                       nlists * dim * 4 + dim * dim * 4 + nlists * 12 + n * 4 + n * 8 + 4096))))))))"

text \<open>A cache miss: which handle is built.\<close>

definition open_index ::
  "'f::linorder env \<Rightarrow> 'f settings \<Rightarrow> parts_check \<Rightarrow> 'r pstore \<Rightarrow> nat \<Rightarrow> u32 \<Rightarrow> u8 \<Rightarrow> ('r, 'f handle \<times> nat) io" where
  "open_index ev gu from_parts_ok S n_in_index dim bw =
     bind_io (read_meta S) (\<lambda>mo. case mo of
        None \<Rightarrow> raise AssertFailed
      | Some m \<Rightarrow>
          let whole = install_whole_index from_parts_ok S m n_in_index dim bw;
              codes_bytes = saturating_mul (m_n_vectors m) (ucast (m_dim m) * ucast (m_bit_width m) div 8)
          in if is_bq m then install_bq_index ev S m
             else if has_graph m then install_graph_index from_parts_ok S m n_in_index dim bw
             else if out_of_core_cell_scoped (gu_out_of_core gu) (gu_cache_size_mb gu) codes_bytes \<and> has_ivf m
                \<and> 0 < m_codebook_n_levels m then
               bind_io (try_install_ooc ev gu S m) (\<lambda>h. case h of Some x \<Rightarrow> ret x | None \<Rightarrow> whole)
             else whole)"

section \<open>The first fetch\<close>

text \<open>How many candidates: the user's own count and the widened one.  \<open>oversample\<close> is within its bounds already.\<close>

definition k_user :: "'f env \<Rightarrow> 'f settings \<Rightarrow> nat" where
  "k_user ev gu = ev_ceil_mul ev (nat (gu_search_k gu)) (gu_oversample gu)"

definition k_oversampled :: "'f env \<Rightarrow> 'f settings \<Rightarrow> nat \<Rightarrow> u8 \<Rightarrow> nat" where
  "k_oversampled ev gu dim bw =
     hi_dim_rerank_candidate_count (ev_ceil_mul ev) (gu_hi_dim_rerank gu) dim bw (nat (gu_search_k gu)) (gu_oversample gu)
       (gu_rerank_multiplier gu)"

definition clamp_k :: "nat \<Rightarrow> nat \<Rightarrow> nat" where
  "clamp_k n_live k = max (min k (max n_live 1)) 1"

definition search_first ::
  "'f::linorder env \<Rightarrow> 'f settings \<Rightarrow> 'r pstore \<Rightarrow> nat \<Rightarrow> u8 \<Rightarrow> 'f handle \<Rightarrow> 'f scan_opaque \<Rightarrow> ('r, 'f scan_opaque) io" where
  "search_first ev gu S dim bw arc o' =
     (let n_live = handle_len arc; k = clamp_k n_live (k_oversampled ev gu dim bw);
          finish = (\<lambda>ctx k_used (scores, ids). ret ((populate_batch (ev_ar ev) scores ids
            (o'\<lparr>so_ivf := ctx, so_arc := Some arc, so_n_live := n_live, so_current_k := k_used\<rparr>))\<lparr>so_cursor := 0, so_fetched := True\<rparr>))
      in case arc of
           HGraph g \<Rightarrow>
             let k_used = clamp_k n_live (k_user ev gu)
             in bind_io (option_io OutOfBounds (search_handle ev gu arc (so_query o') k_used)) (finish None k_used)
         | _ \<Rightarrow>
             bind_io (ivf_setup_and_search ev gu S arc (so_query o') k n_live (so_allow o')) (\<lambda>res. case res of
                Some (ctx, scores, ids) \<Rightarrow> finish (Some ctx) k (scores, ids)
              | None \<Rightarrow>
                  bind_io (option_io OutOfBounds (flat_search_live ev gu arc (so_query o') k (so_allow o') (so_flat_tombstones o')))
                    (finish None k)))"

text \<open>
  The part of \<open>amgettuple\<close> under \<open>if !fetched\<close>: \<open>False\<close> returns at once.  \<open>dirty\<close> is what
  \<open>am_find_dirty_by_rel\<close> finds, \<open>cached\<close> what \<open>scan_lookup\<close> finds.
\<close>

definition first_fetch ::
  "'f::linorder env \<Rightarrow> 'f settings \<Rightarrow> parts_check \<Rightarrow> 'r pstore \<Rightarrow> 'f id_map_index option \<Rightarrow> 'f handle option \<Rightarrow> 'f scan_opaque \<Rightarrow>
   ('r, bool \<times> 'f scan_opaque) io" where
  "first_fetch ev gu from_parts_ok S dirty cached o' =
     bind_io (read_meta S) (\<lambda>mo. case mo of
        None \<Rightarrow> ret (False, o'\<lparr>so_fetched := True\<rparr>)
      | Some m \<Rightarrow>
        bind_io (if 0 < m_tombstone_bytes m \<and> is_degraded m \<and> \<not> is_bq m \<and> \<not> is_graph m
                 then bind_io (read_tombstones S m) (\<lambda>t. ret (o'\<lparr>so_flat_tombstones := t\<rparr>)) else ret o') (\<lambda>o1.
        let dim = unat (m_dim m); n = unat (m_n_vectors m);
            mirror = (if n = 0 \<or> dim \<noteq> length (so_query o1) then dirty else None)
        in if Option.is_none mirror \<and> n = 0 then ret (False, o1\<lparr>so_fetched := True\<rparr>)
           else if Option.is_none mirror \<and> length (so_query o1) \<noteq> dim then raise (Reported ''query dim'')
           else bind_io (case mirror of
                  Some a \<Rightarrow> ret (HMutable a)
                | None \<Rightarrow> (case cached of
                    Some h \<Rightarrow> ret h
                  | None \<Rightarrow> bind_io (open_index ev gu from_parts_ok S n (m_dim m) (m_bit_width m)) (\<lambda>(h, _). ret h))) (\<lambda>arc.
             if handle_len arc = 0 then ret (False, o1\<lparr>so_fetched := True\<rparr>)
             else (case parse_allowlist (gu_allowlist gu) of
                 None \<Rightarrow> raise (Reported ''allowlist is not a list of ids'')
               | Some allow \<Rightarrow>
                   bind_io (search_first ev gu S dim (m_bit_width m) arc (o1\<lparr>so_allow := allow\<rparr>)) (\<lambda>o2. ret (True, o2))))))"

definition amgettuple ::
  "'f::linorder env \<Rightarrow> 'f settings \<Rightarrow> parts_check \<Rightarrow> 'r pstore \<Rightarrow> nat \<Rightarrow> 'f id_map_index option \<Rightarrow> 'f handle option \<Rightarrow>
   'f scan_opaque \<Rightarrow> 'r world \<Rightarrow> ((exn + u64 option \<times> 'f scan_opaque) \<times> 'r world) option" where
  "amgettuple ev gu from_parts_ok S fuel dirty cached o' w =
     (case seq_io check_for_interrupts
             (if so_fetched o' then ret (True, o') else first_fetch ev gu from_parts_ok S dirty cached o') w of
        (Inl e, w') \<Rightarrow> Some (Inl e, w')
      | (Inr (False, o1), w') \<Rightarrow> Some (Inr (None, o1), w')
      | (Inr (True, o1), w') \<Rightarrow> next_tuple ev gu S fuel o1 w')"

text \<open>The executor's loop.\<close>

fun scan_rows ::
  "'f::linorder env \<Rightarrow> 'f settings \<Rightarrow> parts_check \<Rightarrow> 'r pstore \<Rightarrow> nat \<Rightarrow> nat \<Rightarrow> 'f id_map_index option \<Rightarrow> 'f handle option \<Rightarrow>
   'f scan_opaque \<Rightarrow> 'r world \<Rightarrow> ((exn + u64 list) \<times> 'r world) option" where
  "scan_rows ev gu ok S fuel 0 dirty cached o' w = None"
| "scan_rows ev gu ok S fuel (Suc calls) dirty cached o' w =
     (case amgettuple ev gu ok S fuel dirty cached o' w of
        None \<Rightarrow> None
      | Some (Inl e, w') \<Rightarrow> Some (Inl e, w')
      | Some (Inr (None, o1), w') \<Rightarrow> Some (Inr [], w')
      | Some (Inr (Some i, o1), w') \<Rightarrow>
          map_option (\<lambda>(r, w2). (map_sum id ((#) i) r, w2)) (scan_rows ev gu ok S fuel calls dirty cached o1 w'))"

section \<open>A scan of a flat index, start to end\<close>

lemma scan_rows_fetched:
  assumes wf: "ro_wf ev stride sc a" and fuel: "ro_len a < fuel" and polls: "w_polls w = None"
  shows "flat_scan ev gu a o' \<Longrightarrow> so_fetched o' \<Longrightarrow>
    scan_rows ev gu ok S fuel calls dirty cached o' w = fetch_all ev gu S fuel calls o' w"
proof (induction calls arbitrary: o')
  case (Suc calls)
  have am: "amgettuple ev gu ok S fuel dirty cached o' w = next_tuple ev gu S fuel o' w"
    using Suc.prems(2) polls by (simp add: amgettuple_def seq_io_def bind_io_def check_for_interrupts_def ret_def)
  show ?case
  proof (cases rule: flat_next [OF wf Suc.prems(1) fuel, of S w, case_names row stop])
    case (row i o2)
    with Suc.IH [OF row(2)] Suc.prems(2) am show ?thesis by simp
  next
    case (stop o2)
    with am show ?thesis by simp
  qed
qed simp

text \<open>What the first fetch leaves behind for a read-only handle without cells.\<close>

lemma search_first_flat:
  assumes wf: "ro_wf ev stride sc a" and ivf: "\<And>q k n allow. ivf_setup_and_search ev gu S (HReadOnly a) q k n allow w = (Inr None, w)"
    and start: "so_results o' = []" "so_emitted o' = {}"
  obtains o2 where "search_first ev gu S dim bw (HReadOnly a) o' w = (Inr o2, w)" "flat_scan ev gu a o2" "so_fetched o2"
    "so_cursor o2 = 0" "so_emitted o2 = {}" "so_allow o2 = so_allow o'" "so_flat_tombstones o2 = so_flat_tombstones o'"
proof -
  let ?k = "clamp_k (ro_len a) (k_oversampled ev gu dim bw)"
  obtain s ids where h: "flat_search_live ev gu (HReadOnly a) (so_query o') ?k (so_allow o') (so_flat_tombstones o') = Some (s, ids)"
    "length s = length ids" "distinct ids" "set ids \<subseteq> row_ids a (wanted a (so_allow o') (so_flat_tombstones o'))"
    using flat_hits [OF wf] by metis
  define o1 where "o1 = o'\<lparr>so_ivf := None, so_arc := Some (HReadOnly a), so_n_live := ro_len a, so_current_k := ?k\<rparr>"
  define o2 where "o2 = (populate_batch (ev_ar ev) s ids o1)\<lparr>so_cursor := 0, so_fetched := True\<rparr>"
  have run: "search_first ev gu S dim bw (HReadOnly a) o' w = (Inr o2, w)"
    using h(1) ivf by (simp add: search_first_def Let_def handle_len_def bind_io_def option_io_def ret_def o2_def o1_def)
  have res: "so_results o2 = ids" using h(2) start by (simp add: o2_def o1_def populate_results)
  have o2: "so_arc o2 = Some (HReadOnly a)" "so_ivf o2 = None" "so_n_live o2 = ro_len a" "so_cursor o2 = 0" "so_emitted o2 = {}" "so_fetched o2"
    "so_allow o2 = so_allow o'" "so_flat_tombstones o2 = so_flat_tombstones o'" "so_query o2 = so_query o'" "so_current_k o2 = ?k"
    using start by (simp_all add: o2_def o1_def populate_batch_def Let_def)
  have "flat_scan ev gu a o2" unfolding flat_scan_def o2 res using h by simp
  from that [OF run this o2(6,4,5,7,8)] show thesis .
qed

definition cold_ro :: "vrow list \<Rightarrow> read_only" where
  "cold_ro rows = \<lparr>ro_tqplus = ([], []), ro_codes = concat (map fst rows), ro_scales = map (fst \<circ> snd) rows,
     ro_slot_to_id = map (snd \<circ> snd) rows\<rparr>"

lemma cold_install:
  fixes w :: "'r world" and ev :: "'f::linorder env"
  assumes S: "page_store S" and st: "flat_rows S m rows (w_rel w)" "flat_layout m (length rows)" "encodable m" "meta_stored S m (w_rel w)"
    "unat (m_n_vectors m) = length rows" "rows \<noteq> []" and flat: "\<not> has_ivf m" "\<not> is_graph m" "\<not> is_bq m" "\<not> has_prepared_layout m"
    and ids: "distinct (map (snd \<circ> snd) rows)"
    and ok: "from_parts_ok m (concat (map fst rows)) (map (fst \<circ> snd) rows) ([], [])"
  shows "\<exists>bytes. open_index ev gu from_parts_ok S n dim bw w = (Inr (HReadOnly (cold_ro rows), bytes), w)"
proof -
  let ?w = "w\<lparr>w_slock := w_slock w + 1\<rparr>"
  have n0: "m_n_vectors m \<noteq> 0" using st(5,6) by auto
  have meta: "read_meta S w = (Inr (Some m), w)" by (rule read_meta_stored [OF st(4,3)])
  have full: "read_full_consistent S m ?w = (Inr (m, concat (map fst rows), map (fst \<circ> snd) rows, map (snd \<circ> snd) rows), ?w)"
    by (rule page_store.flat_read_back [OF S]) (use st n0 in simp_all)
  have dup: "assert_ids_unique_or_reindex (map (snd \<circ> snd) rows) v = (Inr (), v)" for v :: "'r world"
    using first_duplicate_id_None [OF ids] by (simp add: assert_ids_unique_or_reindex_def ret_def)
  have "read_only_of from_parts_ok S m (concat (map fst rows)) (map (fst \<circ> snd) rows) (map (snd \<circ> snd) rows) v = (Inr (cold_ro rows), v)" for v
    using ok flat(4) by (simp add: read_only_of_def cold_ro_def ret_def)
  then have "install_whole_index from_parts_ok S m n dim bw w = (Inr (HReadOnly (cold_ro rows) :: 'f handle, whole_bytes dim bw n), w)"
    using full dup by (simp add: install_whole_index_def lock_relfile_read_def unlock_relfile_read_def bind_io_def seq_io_def when_io_def ret_def)
  then show ?thesis
    using flat meta by (simp add: open_index_def Let_def bind_io_def has_graph_def)
qed

lemma ivf_setup_flat:
  assumes "meta_stored S m (w_rel w)" "encodable m" "\<not> has_ivf m"
  shows "ivf_setup_and_search ev gu S (HReadOnly a) q k n allow w = (Inr None, w)"
  using read_meta_stored [OF assms(1,2)] assms(3) by (simp add: ivf_setup_and_search_def bind_io_def ret_def Let_def)

text \<open>The ids a scan under an allowlist may return.\<close>

definition allowed_ids :: "vrow list \<Rightarrow> u64 set option \<Rightarrow> u64 set" where
  "allowed_ids rows allow = {i \<in> set (map (snd \<circ> snd) rows). \<forall>ids. allow = Some ids \<longrightarrow> i \<in> ids}"

lemma cold_row_ids: "row_ids (cold_ro rows) (wanted (cold_ro rows) allow []) = allowed_ids rows allow"
proof -
  let ?ids = "map (snd \<circ> snd) rows"
  let ?ok = "\<lambda>i. case allow of None \<Rightarrow> True | Some ids \<Rightarrow> i \<in> ids"
  have ok: "(\<forall>ids. allow = Some ids \<longrightarrow> i \<in> ids) \<longleftrightarrow> ?ok i" for i by (cases allow) simp_all
  have nd: "\<not> slot_dead [] s" for s by (simp add: slot_dead_def)
  have "wanted (cold_ro rows) allow [] = {s. s < length ?ids \<and> ?ok (?ids ! s)}"
    unfolding wanted_def ok cold_ro_def ro_len_def by (cases allow) (simp_all add: nd)
  then have "row_ids (cold_ro rows) (wanted (cold_ro rows) allow []) = (!) ?ids ` {s. s < length ?ids \<and> ?ok (?ids ! s)}"
    unfolding row_ids_def by (simp add: cold_ro_def)
  also have "\<dots> = {i \<in> set ?ids. ?ok i}" unfolding set_conv_nth by blast
  finally show ?thesis unfolding allowed_ids_def ok .
qed

text \<open>
  C2: A scan of a flat index, from the relation to the executor: on a cache miss the index is read, and with
  iterative scans on and a budget of at least the number of rows, calling \<open>amgettuple\<close> until it reports
  the end terminates without an error and has handed out every row on disk that the allowlist admits, each
  exactly once, and nothing else, whatever the candidate counts are set to and whatever the query is.
\<close>

theorem scan_returns_each_row_once:
  assumes S: "page_store S" and st: "flat_rows S m rows (w_rel w)" "flat_layout m (length rows)" "encodable m" "meta_stored S m (w_rel w)"
      "unat (m_n_vectors m) = length rows" "rows \<noteq> []"
    and flat: "\<not> has_ivf m" "\<not> is_graph m" "\<not> is_bq m" "\<not> has_prepared_layout m" and ids: "distinct (map (snd \<circ> snd) rows)"
    and ok: "from_parts_ok m (concat (map fst rows)) (map (fst \<circ> snd) rows) ([], [])"
    and E: "exact_engine (ev_engine ev ([], [])) (unat (m_stride_bytes m)) sc"
    and q: "length q = unat (m_dim m)" and start: "amrescan ev gu (Some (Some q)) o0 = Inr o'"
    and allow: "parse_allowlist (gu_allowlist gu) = Some allow" and polls: "w_polls w = None"
    and on: "gu_iterative_scan gu" and budget: "length rows \<le> nat (gu_max_scan_tuples gu)" and fuel: "length rows < fuel"
  shows "\<exists>tids. scan_rows ev gu from_parts_ok S fuel (length rows + 1) None None o' w = Some (Inr tids, w) \<and>
    distinct tids \<and> set tids = allowed_ids rows allow"
proof -
  let ?a = "cold_ro rows"
  have len: "ro_len ?a = length rows" by (simp add: ro_len_def cold_ro_def)
  have "\<And>x. x \<in> set (map fst rows) \<Longrightarrow> length x = unat (m_stride_bytes m)" using st(1) by (auto simp: flat_rows_def rows_at_def)
  then have "length (concat (map fst rows)) = length rows * unat (m_stride_bytes m)" by (subst length_concat_same) auto
  then have wf: "ro_wf ev (unat (m_stride_bytes m)) sc ?a"
    using E ids len by (simp add: ro_wf_def cold_ro_def)
  obtain bytes where op: "open_index ev gu from_parts_ok S (length rows) (m_dim m) (m_bit_width m) w = (Inr (HReadOnly ?a, bytes), w)"
    using cold_install [where from_parts_ok = from_parts_ok, OF S st flat ids ok] by blast
  have fields: "so_results o' = []" "so_emitted o' = {}" "so_flat_tombstones o' = []" "\<not> so_fetched o'" "length (so_query o') = unat (m_dim m)"
    using start q by (auto simp: amrescan_def Let_def normalise_to_vec_def)
  obtain o2 where sf: "search_first ev gu S (unat (m_dim m)) (m_bit_width m) (HReadOnly ?a) (o'\<lparr>so_allow := allow\<rparr>) w = (Inr o2, w)"
    and o2: "flat_scan ev gu ?a o2" "so_fetched o2" "so_cursor o2 = 0" "so_emitted o2 = {}" "so_allow o2 = allow" "so_flat_tombstones o2 = []"
    by (rule search_first_flat [OF wf ivf_setup_flat [OF st(4,3) flat(1)], where o' = "o'\<lparr>so_allow := allow\<rparr>"])
      (use fields in simp_all)
  have "\<not> is_degraded m" using flat(1) by (simp add: is_degraded_def index_was_ivf_def has_ivf_def)
  then have ff: "first_fetch ev gu from_parts_ok S None None o' w = (Inr (True, o2), w)"
    using read_meta_stored [OF st(4,3)] op sf fields allow st(5,6) len
    by (simp add: first_fetch_def bind_io_def ret_def Let_def handle_len_def)
  have am: "amgettuple ev gu from_parts_ok S fuel None None o' w = next_tuple ev gu S fuel o2 w"
    "amgettuple ev gu from_parts_ok S fuel None None o2 w = next_tuple ev gu S fuel o2 w"
    using ff fields(4) o2(2) polls by (simp_all add: amgettuple_def seq_io_def bind_io_def check_for_interrupts_def ret_def)
  then have "scan_rows ev gu from_parts_ok S fuel (length rows + 1) None None o' w = scan_rows ev gu from_parts_ok S fuel (length rows + 1) None None o2 w"
    by simp
  also have "\<dots> = fetch_all ev gu S fuel (length rows + 1) o2 w"
    by (rule scan_rows_fetched [OF wf _ polls o2(1,2)]) (use fuel len in simp)
  finally have run: "scan_rows ev gu from_parts_ok S fuel (length rows + 1) None None o' w = fetch_all ev gu S fuel (length rows + 1) o2 w" .
  have pre: "ro_len ?a \<le> nat (gu_max_scan_tuples gu)" "ro_len ?a < fuel" "ro_len ?a < (length rows + 1) + so_cursor o2"
    using budget fuel len by simp_all
  obtain tids where t: "fetch_all ev gu S fuel (length rows + 1) o2 w = Some (Inr tids, w)" "distinct tids"
      "set tids = row_ids ?a (wanted ?a allow [])"
    using flat_fetch [OF wf on pre(1,2) o2(1) pre(3), of S w] unfolding o2(4-6) by (elim exE conjE) (simp only: Diff_empty)
  show ?thesis unfolding run using t cold_row_ids by blast
qed

lemma demo_meta_plain: "m_codebook_n_levels demo_meta = 0" "m_dim demo_meta = 8"
proof -
  obtain m0 where m0: "plan_with_blocked 4 8 1 1 0 0 0 = Some m0" by (auto simp: plan_with_blocked_def Let_def)
  have eq: "demo_meta = m0" using demo_plan m0 by (simp add: plan_full_def plan_ivf_def plan_graph_def plan_tombstones_def)
  show "m_codebook_n_levels demo_meta = 0" unfolding eq by (rule plan_absent(17) [OF m0])
  show "m_dim demo_meta = 8" unfolding eq using m0 by (auto simp: plan_with_blocked_def Let_def)
qed

text \<open>The environment of the example, with an engine for rows of four bytes.\<close>

definition demo_env4 :: "int env" where
  "demo_env4 = demo_env\<lparr>ev_engine := \<lambda>_. reference_engine 4 demo_score\<rparr>"

definition demo_start :: "int scan_opaque" where
  "demo_start = empty_scan\<lparr>so_query := replicate 8 1\<rparr>"

theorem scan_returns_each_row_once_witness:
  "\<exists>tids. scan_rows demo_env4 demo_settings (\<lambda>_ _ _ _. True) list_store 3 3 None None demo_start vac_world = Some (Inr tids, vac_world) \<and>
    distinct tids \<and> set tids = {7, 9}"
proof -
  have len: "length vac_rows = 2" by (simp add: vac_rows_def)
  have E: "exact_engine (ev_engine demo_env4 ([], [])) (unat (m_stride_bytes vac_meta)) demo_score"
    using exact_reference [of 4 demo_score] by (simp add: demo_env4_def vac_meta_def)
  have plain: "\<not> has_prepared_layout vac_meta" "m_dim vac_meta = 8"
    using demo_meta_plain by (simp_all add: has_prepared_layout_def vac_meta_def)
  have start: "amrescan demo_env4 demo_settings (Some (Some (replicate 8 1))) empty_scan = Inr demo_start"
    by (simp add: amrescan_def Let_def demo_start_def empty_scan_def demo_settings_def)
  have lay: "flat_layout vac_meta (length vac_rows)" unfolding len by (rule vac_stored(4))
  have small: "unat (m_n_vectors vac_meta) = length vac_rows" "vac_rows \<noteq> []" "distinct (map (snd \<circ> snd) vac_rows)"
    "length (replicate 8 (1 :: int)) = unat (m_dim vac_meta)" "w_polls vac_world = None" "gu_iterative_scan demo_settings"
    "length vac_rows \<le> nat (gu_max_scan_tuples demo_settings)" "length vac_rows < 3"
    "parse_allowlist (gu_allowlist demo_settings) = Some None"
    unfolding plain(2) by (simp_all add: vac_meta_def vac_rows_def vac_world_def demo_settings_def parse_allowlist_def)
  have "\<exists>tids. scan_rows demo_env4 demo_settings (\<lambda>_ _ _ _. True) list_store 3 (length vac_rows + 1) None None demo_start vac_world
      = Some (Inr tids, vac_world) \<and> distinct tids \<and> set tids = allowed_ids vac_rows None"
    by (rule scan_returns_each_row_once [OF ls.page_store_axioms vac_stored(3) lay vac_stored(2,1) small(1,2) vac_stored(5-7) plain(1) small(3)
        TrueI E small(4) start small(9,5-8)])
  moreover have "length vac_rows + 1 = 3" "allowed_ids vac_rows None = {7, 9}" by (auto simp: len allowed_ids_def vac_rows_def)
  ultimately show ?thesis by (simp only:)
qed

end
