(* ===== verification/ScanAgree.thy ===== *)
theory ScanAgree
  imports Amscan
begin

text \<open>
  Two scans that should agree, and two behaviours of a batch (\<open>src/index/scan.rs\<close>): the out-of-core search against
  the whole-load one, the order in which a batch is handed out, and the allowlist on a graph index.
\<close>

section \<open>Out of core and whole load\<close>

lemma nth_cell_mask:
  assumes "s < ro_len a"
  shows "cell_mask (HReadOnly a) dir probed (ro_len a) tombs allow ! s \<longleftrightarrow>
    probe_mask dir probed (ro_len a) ! s \<and> \<not> slot_dead tombs s \<and> (\<forall>ids. allow = Some ids \<longrightarrow> ro_slot_to_id a ! s \<in> ids)"
proof -
  have len: "length (apply_tombstones (probe_mask dir probed (ro_len a)) tombs) = ro_len a" by simp
  have t: "apply_tombstones (probe_mask dir probed (ro_len a)) tombs ! s \<longleftrightarrow> probe_mask dir probed (ro_len a) ! s \<and> \<not> slot_dead tombs s"
    by (rule nth_tombstoned) (use assms in simp)
  show ?thesis
  proof (cases allow)
    case None
    with t show ?thesis by (simp add: cell_mask_def apply_allowlist_def)
  next
    case (Some ids)
    have "length (allow_slot_mask (ro_slot_to_id a) ids) = ro_len a" by (simp add: allow_slot_mask_def ro_len_def)
    then show ?thesis using t assms len Some
      by (auto simp: cell_mask_def apply_allowlist_def handle_allow_slot_mask_def nth_append allow_slot_mask_def ro_len_def)
  qed
qed

lemma length_cell_mask: "length (cell_mask (HReadOnly a) dir probed (ro_len a) tombs allow) = ro_len a"
  by (cases allow) (simp_all add: cell_mask_def apply_allowlist_def handle_allow_slot_mask_def allow_slot_mask_def ro_len_def)

text \<open>The whole-load twin of an out-of-core index: the same rows, tables and calibration, in memory.\<close>

definition whole_of :: "'f ooc_index \<Rightarrow> u8 list list \<Rightarrow> read_only" where
  "whole_of ix rows = \<lparr>ro_tqplus = oo_tqplus ix, ro_codes = concat rows, ro_scales = oo_scales ix, ro_slot_to_id = oo_slot_to_id ix\<rparr>"

lemma whole_masked:
  fixes ix :: "'f ooc_index"
  assumes E: "exact_engine (E (oo_tqplus ix)) (unat (oo_codes_stride ix)) sc" and st: "ooc_stored S r ix rows"
  shows "\<exists>res. ro_search_masked E (whole_of ix rows) q k
        (cell_mask (HReadOnly (whole_of ix rows) :: 'f handle) (oo_directory ix) probed (oo_n_vectors ix) tombs allow)
      = Some (map fst res, map ((!) (oo_slot_to_id ix) \<circ> snd) res) \<and>
    top_k_of (\<lambda>s. sc q (rows ! s) (oo_scales ix ! s))
      (searched (oo_directory ix) probed (oo_n_vectors ix) tombs (oo_slot_to_id ix) allow) k res"
proof -
  let ?a = "whole_of ix rows" and ?n = "oo_n_vectors ix" and ?d = "unat (oo_codes_stride ix)"
  let ?m = "cell_mask (HReadOnly ?a :: 'f handle) (oo_directory ix) probed ?n tombs allow"
  have n: "length rows = ?n" "length (oo_scales ix) = ?n" "length (oo_slot_to_id ix) = ?n" and width: "\<And>x. x \<in> set rows \<Longrightarrow> length x = ?d"
    using st by (auto simp: ooc_stored_def rows_at_def)
  have len: "ro_len ?a = ?n" by (simp add: ro_len_def whole_of_def n)
  have codes: "length (concat rows) = length (oo_scales ix) * ?d" using length_concat_same [of rows ?d] width n by simp
  have row: "bslice (s * ?d) ?d (concat rows) = rows ! s" if "s < ?n" for s
  proof -
    have "drop (s * ?d) (concat rows) = concat (drop s rows)" by (rule drop_concat_same) (rule width)
    also have "drop s rows = rows ! s # drop (Suc s) rows" using that n(1) by (simp add: Cons_nth_drop_Suc)
    finally show ?thesis using width [of "rows ! s"] that n(1) by (simp add: bslice_def)
  qed
  let ?res = "E (oo_tqplus ix) (concat rows) (oo_scales ix) q k (Some ?m)"
  have "top_k_of (\<lambda>i. sc q (bslice (i * ?d) ?d (concat rows)) (oo_scales ix ! i)) {i. i < length (oo_scales ix) \<and> (\<forall>m. Some ?m = Some m \<longrightarrow> m ! i)} k ?res"
    by (rule E [unfolded exact_engine_def, rule_format]) (use codes length_cell_mask [of ?a, unfolded len] n(2) in auto)
  moreover have "{i. i < length (oo_scales ix) \<and> (\<forall>m. Some ?m = Some m \<longrightarrow> m ! i)} = searched (oo_directory ix) probed ?n tombs (oo_slot_to_id ix) allow"
  proof (rule set_eqI)
    fix s
    have ids: "ro_slot_to_id ?a = oo_slot_to_id ix" by (simp add: whole_of_def)
    show "s \<in> {i. i < length (oo_scales ix) \<and> (\<forall>m. Some ?m = Some m \<longrightarrow> m ! i)} \<longleftrightarrow> s \<in> searched (oo_directory ix) probed ?n tombs (oo_slot_to_id ix) allow"
    proof (cases "s < ?n")
      case True
      have "?m ! s \<longleftrightarrow> probe_mask (oo_directory ix) probed ?n ! s \<and> \<not> slot_dead tombs s \<and> (\<forall>ids. allow = Some ids \<longrightarrow> oo_slot_to_id ix ! s \<in> ids)"
        using nth_cell_mask [of s ?a] True unfolding len ids by blast
      with True n(2) show ?thesis by (simp add: searched_def nth_probe_mask)
    qed (simp add: searched_def n(2))
  qed
  ultimately have "top_k_of (\<lambda>i. sc q (bslice (i * ?d) ?d (concat rows)) (oo_scales ix ! i))
      (searched (oo_directory ix) probed ?n tombs (oo_slot_to_id ix) allow) k ?res" by simp
  then have t: "top_k_of (\<lambda>s. sc q (rows ! s) (oo_scales ix ! s)) (searched (oo_directory ix) probed ?n tombs (oo_slot_to_id ix) allow) k ?res"
    by (rule top_k_cong) (simp add: row searched_def)
  then have "snd ` set ?res \<subseteq> {..<length (oo_slot_to_id ix)}" by (auto simp: top_k_of_def searched_def n(3))
  then have "ro_search_masked E ?a q k ?m = Some (map fst ?res, map ((!) (oo_slot_to_id ix) \<circ> snd) ?res)"
    unfolding ro_search_masked_def by (simp add: whole_of_def translate_ok)
  with t show ?thesis by blast
qed

text \<open>
  C6: The out-of-core search and the whole-load search agree.  For the same probed cells, tombstones and
  allowlist, gathering the rows of the cells from the relation, in any number of chunks, gives the same scores as
  masking the index held in memory, and the same ids wherever no two searched rows score alike.
\<close>

theorem ooc_matches_whole_load:
  fixes ix :: "'f ooc_index"
  assumes E: "exact_engine (E (oo_tqplus ix)) (unat (oo_codes_stride ix)) sc" and st: "ooc_stored S (w_rel w) ix rows"
  shows "\<exists>scores ids ids'.
    search_ooc E scan_parallelism S ix q k probed tombs allow w = (Inr (Some (scores, ids)), w) \<and>
    ro_search_masked E (whole_of ix rows) q k
      (cell_mask (HReadOnly (whole_of ix rows) :: 'f handle) (oo_directory ix) probed (oo_n_vectors ix) tombs allow) = Some (scores, ids') \<and>
    (inj_on (\<lambda>s. sc q (rows ! s) (oo_scales ix ! s)) (searched (oo_directory ix) probed (oo_n_vectors ix) tombs (oo_slot_to_id ix) allow) \<longrightarrow>
       ids = ids')"
proof -
  let ?A = "searched (oo_directory ix) probed (oo_n_vectors ix) tombs (oo_slot_to_id ix) allow"
  obtain r1 where r1: "search_ooc E scan_parallelism S ix q k probed tombs allow w = (Inr (Some (map fst r1, map ((!) (oo_slot_to_id ix) \<circ> snd) r1)), w)"
    and t1: "top_k_of (\<lambda>s. sc q (rows ! s) (oo_scales ix ! s)) ?A k r1"
    using search_ooc_spec [where E = E and ix = ix and scan_parallelism = scan_parallelism and q = q and k = k and probed = probed and dead = tombs and allow = allow, OF E st]
    by blast
  obtain r2 where r2: "ro_search_masked E (whole_of ix rows) q k
      (cell_mask (HReadOnly (whole_of ix rows) :: 'f handle) (oo_directory ix) probed (oo_n_vectors ix) tombs allow) = Some (map fst r2, map ((!) (oo_slot_to_id ix) \<circ> snd) r2)"
    and t2: "top_k_of (\<lambda>s. sc q (rows ! s) (oo_scales ix ! s)) ?A k r2"
    using whole_masked [where E = E and ix = ix and q = q and k = k and probed = probed and tombs = tombs and allow = allow, OF E st] by blast
  have fin: "finite ?A" by (simp add: searched_def)
  have "map fst r1 = map fst r2" using top_k_scores [OF t1 fin] top_k_scores [OF t2 fin] by simp
  moreover have "r1 = r2" if "inj_on (\<lambda>s. sc q (rows ! s) (oo_scales ix ! s)) ?A" using top_k_agree [OF t1 t2 fin that] .
  ultimately show ?thesis using r1 r2 by auto
qed

definition demo_ooc :: "int ooc_index" where
  "demo_ooc = \<lparr>oo_dim = 8, oo_n_vectors = 2, oo_codes_first = 1, oo_codes_stride = 4, oo_rows_per_codes_page = 2042,
     oo_coarse_centroids = replicate 16 0, oo_lists = 2, oo_graph = None, oo_rotation = [],
     oo_directory = [\<lparr>ce_code_offset = 0, ce_n_vectors = 1\<rparr>, \<lparr>ce_code_offset = 1, ce_n_vectors = 1\<rparr>],
     oo_tqplus = ([], []), oo_scales = [0x3F800000, 0x40000000], oo_slot_to_id = [7, 9]\<rparr>"

lemma demo_ooc_stored: "ooc_stored list_store (w_rel vac_world) demo_ooc (map fst vac_rows)"
proof -
  have "rows_at list_store (w_rel vac_world) 1 4 2042 (map fst vac_rows)"
    using vac_stored(3) by (simp add: flat_rows_def vac_meta_def)
  then show ?thesis
    by (simp add: ooc_stored_def demo_ooc_def vac_rows_def PAYLOAD_BYTES_eq last_block_def nat_div_ceil_def validate_partition_def total_vectors_def)
qed

theorem ooc_matches_whole_load_witness:
  "\<exists>scores ids. search_ooc (\<lambda>_. reference_engine 4 demo_score) 1 list_store demo_ooc [1] 1 [1] [] None vac_world = (Inr (Some (scores, ids)), vac_world) \<and>
    ro_search_masked (\<lambda>_. reference_engine 4 demo_score) (whole_of demo_ooc (map fst vac_rows)) [1] 1
      (cell_mask (HReadOnly (whole_of demo_ooc (map fst vac_rows)) :: int handle) (oo_directory demo_ooc) [1] 2 [] None) = Some (scores, ids)"
proof -
  have dir: "oo_directory demo_ooc = [\<lparr>ce_code_offset = 0, ce_n_vectors = 1\<rparr>, \<lparr>ce_code_offset = 1, ce_n_vectors = 1\<rparr>]" "oo_n_vectors demo_ooc = 2"
    by (simp_all add: demo_ooc_def)
  have "searched (oo_directory demo_ooc) [1] (oo_n_vectors demo_ooc) [] (oo_slot_to_id demo_ooc) None \<subseteq> {1}"
    unfolding dir by (auto simp: searched_def in_cell_def total_vectors_def)
  then have inj: "inj_on f (searched (oo_directory demo_ooc) [1] (oo_n_vectors demo_ooc) [] (oo_slot_to_id demo_ooc) None)" for f :: "nat \<Rightarrow> int"
    by (rule inj_on_subset [rotated]) simp
  have E: "exact_engine ((\<lambda>_. reference_engine 4 demo_score) (oo_tqplus demo_ooc)) (unat (oo_codes_stride demo_ooc)) demo_score"
    using exact_reference [of 4 demo_score] by (simp add: demo_ooc_def)
  from ooc_matches_whole_load [where E = "\<lambda>_. reference_engine 4 demo_score" and ix = demo_ooc and scan_parallelism = 1 and q = "[1]" and k = 1
      and probed = "[1]" and tombs = "[]" and allow = None, OF E demo_ooc_stored] inj
  show ?thesis unfolding dir(2) by blast
qed

section \<open>How a batch is handed out\<close>

lemma fetch_pending:
  "so_cursor o' + n \<le> length (so_results o') \<Longrightarrow>
   fetch_all ev gu S fuel (n + calls) o' w =
     map_option (\<lambda>(r, w2). (map_sum id ((@) (take n (drop (so_cursor o') (so_results o')))) r, w2))
       (fetch_all ev gu S fuel calls (o'\<lparr>so_cursor := so_cursor o' + n,
          so_emitted := so_emitted o' \<union> set (take n (drop (so_cursor o') (so_results o')))\<rparr>) w)"
proof (induction n arbitrary: o')
  case 0
  have "map_sum (\<lambda>a. a) (\<lambda>a. a) r = r" for r :: "exn + u64 list" by (cases r) simp_all
  then show ?case by (simp add: option.map_ident case_prod_beta id_def)
next
  case (Suc n)
  let ?i = "so_results o' ! so_cursor o'"
  define o1 where "o1 = o'\<lparr>so_cursor := so_cursor o' + 1, so_emitted := insert ?i (so_emitted o')\<rparr>"
  have cur: "so_cursor o' < length (so_results o')" using Suc.prems by simp
  have step: "next_tuple ev gu S fuel o' w = Some (Inr (Some ?i, o1), w)"
    using cur by (simp add: next_tuple_def drain.simps emit_def o1_def Let_def)
  have d: "take (Suc n) (drop (so_cursor o') (so_results o')) = ?i # take n (drop (so_cursor o1) (so_results o1))"
    using cur by (simp add: o1_def Cons_nth_drop_Suc [symmetric])
  have "so_cursor o1 + n \<le> length (so_results o1)" using Suc.prems by (simp add: o1_def)
  note IH = Suc.IH [OF this]
  have st: "o1\<lparr>so_cursor := so_cursor o1 + n, so_emitted := so_emitted o1 \<union> set (take n (drop (so_cursor o1) (so_results o1)))\<rparr>
      = o'\<lparr>so_cursor := so_cursor o' + Suc n, so_emitted := so_emitted o' \<union> set (take (Suc n) (drop (so_cursor o') (so_results o')))\<rparr>"
    unfolding d by (simp add: o1_def)
  have mm: "map_sum id ((#) i) (map_sum (\<lambda>a. a) ((@) xs) r) = map_sum (\<lambda>a. a) (\<lambda>a. i # xs @ a) r" for i xs and r :: "exn + u64 list" by (cases r) simp_all
  show ?case unfolding add_Suc fetch_all.simps(2) step d st [unfolded d, symmetric]
    by (simp add: IH option.map_comp comp_def case_prod_beta mm)
qed

text \<open>
  C39: A batch is handed out as the search returned it.  When the earlier results are used up, the next calls
  return the ids of the new batch that were not handed out before, in its order, and then the scan goes on; an id that
  stands in the batch twice, as a softly assigned row does when both of its cells are probed, is handed out twice.
\<close>

theorem batch_handed_out_verbatim:
  assumes "so_cursor o' = length (so_results o')" and "length scores = length ids" and "new = filter (\<lambda>i. i \<notin> so_emitted o') ids"
  shows "fetch_all ev gu S fuel (length new + calls) (populate_batch ar scores ids o') w =
    map_option (\<lambda>(r, w2). (map_sum id ((@) new) r, w2))
      (fetch_all ev gu S fuel calls ((populate_batch ar scores ids o')\<lparr>so_cursor := so_cursor o' + length new, so_emitted := so_emitted o' \<union> set new\<rparr>) w)"
proof -
  let ?o = "populate_batch ar scores ids o'"
  have res: "so_results ?o = so_results o' @ new" using assms by (simp add: populate_results)
  have "take (length new) (drop (so_cursor ?o) (so_results ?o)) = new" using assms(1) by (simp add: res)
  with fetch_pending [of ?o "length new" ev gu S fuel calls w] show ?thesis using assms(1) by (simp add: res)
qed

theorem batch_handed_out_verbatim_witness:
  "\<exists>rest. fetch_all demo_env demo_settings list_store 1 3 (populate_batch demo_arith [1, 1] [70, 70] (empty_scan :: int scan_opaque)) demo_world
    = Some (Inr ([70, 70] @ rest), demo_world)"
proof -
  let ?o = "populate_batch demo_arith [1, 1] [70, 70] (empty_scan :: int scan_opaque)"
  let ?o2 = "?o\<lparr>so_cursor := 2, so_emitted := {70}\<rparr>"
  have "fetch_all demo_env demo_settings list_store 1 (length [70, 70 :: u64] + 1) ?o demo_world = map_option (\<lambda>(r, w2). (map_sum id ((@) [70, 70]) r, w2))
      (fetch_all demo_env demo_settings list_store 1 1 ?o2 demo_world)"
    using batch_handed_out_verbatim [of "empty_scan :: int scan_opaque" "[1, 1]" "[70, 70]" "[70, 70]" demo_env demo_settings list_store 1 1 demo_arith demo_world]
    by (simp add: empty_scan_def numeral_2_eq_2 del: fetch_all.simps)
  moreover have "fetch_all demo_env demo_settings list_store 1 1 ?o2 demo_world = Some (Inr [], demo_world)"
    by (simp add: next_tuple_def drain.simps try_refill_def populate_batch_def empty_scan_def ret_def)
  ultimately show ?thesis by (simp add: numeral_3_eq_3 del: fetch_all.simps)
qed

section \<open>The allowlist on a graph index\<close>

text \<open>
  C40: The first batch of a scan of a graph index does not look at the allowlist: whatever \<open>turbovec.allowlist\<close>
  holds, the same rows are queued, errors included.  (The refills do filter.)
\<close>

theorem graph_first_batch_ignores_allowlist:
  fixes ev :: "'f::linorder env"
  shows "map_prod (map_sum id so_results) id (search_first ev gu S dim bw (HGraph g) (o'\<lparr>so_allow := allow\<rparr>) w) =
   map_prod (map_sum id so_results) id (search_first ev gu S dim bw (HGraph g) (o'\<lparr>so_allow := None\<rparr>) w)"
proof -
  let ?k = "clamp_k (handle_len (HGraph g :: 'f handle)) (k_user ev gu)"
  show ?thesis
    by (cases "search_handle ev gu (HGraph g) (so_query o') ?k")
      (simp_all add: search_first_def Let_def option_io_def raise_def bind_io_def ret_def case_prod_beta populate_results)
qed

end
