(* ===== verification/BqFile.thy ===== *)
theory BqFile
  imports Entry
begin

text \<open>
  The file of a 1-bit index (\<open>write_full_bq_parts\<close> of \<open>src/index/relfile.rs\<close>): a completed rewrite puts every
  chain where its meta page says, and each single-chain reader returns what was written.
\<close>

section \<open>What the readers see\<close>

definition bq_reads ::
  "'r pstore \<Rightarrow> meta \<Rightarrow> u8 list \<Rightarrow> u64 list \<Rightarrow> f32_bits list \<Rightarrow> u8 list \<Rightarrow> 'r \<Rightarrow> bool" where
  "bq_reads S m codes ids mean tombs r \<longleftrightarrow>
     (\<forall>w. w_rel w = r \<longrightarrow>
        read_meta S w = (Inr (Some m), w) \<and>
        read_chain S (m_codes_first m) (m_stride_bytes m) (m_rows_per_codes_page m) (m_n_vectors m) w = (Inr codes, w) \<and>
        read_ids_only S m w = (Inr ids, w) \<and> read_bq_mean S m w = (Inr mean, w) \<and>
        read_tombstones S m w = (Inr tombs, w))"

lemma bq_readsD:
  assumes "bq_reads S m codes ids mean tombs (w_rel w)"
  shows "read_meta S w = (Inr (Some m), w)"
    "read_chain S (m_codes_first m) (m_stride_bytes m) (m_rows_per_codes_page m) (m_n_vectors m) w = (Inr codes, w)"
    "read_ids_only S m w = (Inr ids, w)" "read_bq_mean S m w = (Inr mean, w)" "read_tombstones S m w = (Inr tombs, w)"
  using assms by (simp_all add: bq_reads_def)

section \<open>The plan\<close>

definition bq_planned :: "u32 \<Rightarrow> u64 \<Rightarrow> u32 \<Rightarrow> u8 list \<Rightarrow> u32 \<Rightarrow> meta \<Rightarrow> bool" where
  "bq_planned dim n v tombs degraded m \<longleftrightarrow>
     map_option (plan_bq_parts dim n v None tombs degraded) (plan_bq dim n v) = Some m \<and>
     fits m \<and> 0 < n \<and> length tombs < 2 ^ 64"

text \<open>The arguments of a rewrite, as its callers make them.\<close>

definition bq_inputs :: "u32 \<Rightarrow> u64 \<Rightarrow> u8 list \<Rightarrow> u64 list \<Rightarrow> f32_bits list \<Rightarrow> bool" where
  "bq_inputs dim n codes ids mean \<longleftrightarrow>
     dim \<noteq> 0 \<and> onebit_codes_stride (unat dim) \<le> PAYLOAD_BYTES \<and>
     length codes = unat n * onebit_codes_stride (unat dim) \<and> length ids = unat n \<and> length mean = unat dim"

lemma bq_planned_eq:
  assumes "bq_planned dim n v tombs degraded m"
  obtains m0 m1 where "plan_bq dim n v = Some m0" and "m = plan_tombstones tombs m1"
    and "m1 = (if 0 < degraded then m0\<lparr>m_lists := degraded, m_ivf_degraded := True\<rparr> else m0)"
    and "chain_list m1 = chain_list m0"
    and "m_tombstone_count m1 = 0" "m_tombstone_first m1 = 0" "m_tombstone_bytes m1 = 0"
proof -
  from assms obtain m0 where p: "plan_bq dim n v = Some m0" and m: "m = plan_bq_parts dim n v None tombs degraded m0" and n: "0 < n"
    by (auto simp: bq_planned_def)
  let ?m1 = "if 0 < degraded then m0\<lparr>m_lists := degraded, m_ivf_degraded := True\<rparr> else m0"
  show thesis
    by (rule that [OF p, of ?m1])
      (use m n plan_bq_absent [OF p] in \<open>simp_all add: plan_bq_parts_def chain_list_def\<close>)
qed

lemma bq_planned_packed:
  assumes p: "bq_planned dim n v tombs degraded m"
  shows "packed m"
proof -
  from p obtain m0 m1 where p0: "plan_bq dim n v = Some m0" and m: "m = plan_tombstones tombs m1"
    and c: "chain_list m1 = chain_list m0" and z: "m_tombstone_count m1 = 0"
    by (rule bq_planned_eq)
  have f: "fits (plan_tombstones tombs m1)" using p m by (simp add: bq_planned_def)
  then have "fits m1" by (rule fits_mono [OF _ plan_tombstones_grows [OF z]])
  then have "fits m0" by (simp add: fits_def block_sum_def c)
  then have "packed m1" using plan_bq_packed [OF p0] by (simp add: packed_def c)
  then show ?thesis using f z unfolding m by (intro plan_tombstones_packed)
qed

lemma bq_planned_fields:
  assumes p: "bq_planned dim n v tombs degraded m"
  shows "m_n_vectors m = n" "m_dim m = dim" "m_am_version m = v" "is_bq m" "encodable m"
    "m_stride_bytes m = of_nat (onebit_codes_stride (unat dim))"
    "m_rows_per_codes_page m = rows_per_page (of_nat (onebit_codes_stride (unat dim)))"
    "m_rows_per_ids_page m = rows_per_page 8"
    "m_codes_count m = padded_pages_needed n (rows_per_page (of_nat (onebit_codes_stride (unat dim))))"
    "m_ids_count m = padded_pages_needed n (rows_per_page 8)"
    "m_bq_mean_count m = byte_pages_needed (ucast dim * 4)" "m_bq_mean_bytes m = ucast dim * 4" "m_lists m = degraded"
    "dim mod 8 = 0" "m_codes_first m = 1" "m_tombstone_bytes m = len64 tombs"
    "tombs \<noteq> [] \<Longrightarrow> m_tombstone_count m = byte_pages_needed (len64 tombs)"
proof -
  from p obtain m0 m1 where p0: "plan_bq dim n v = Some m0" and m: "m = plan_tombstones tombs m1"
    and m1: "m1 = (if 0 < degraded then m0\<lparr>m_lists := degraded, m_ivf_degraded := True\<rparr> else m0)"
    and z: "m_tombstone_count m1 = 0" "m_tombstone_bytes m1 = 0"
    by (rule bq_planned_eq)
  note f = plan_bq_fields [OF p0] plan_bq_absent [OF p0]
  have "m_n_vectors m1 = n" "m_dim m1 = dim" "m_am_version m1 = v" "is_bq m1" "encodable m1"
    "m_stride_bytes m1 = of_nat (onebit_codes_stride (unat dim))"
    "m_rows_per_codes_page m1 = rows_per_page (of_nat (onebit_codes_stride (unat dim)))"
    "m_rows_per_ids_page m1 = rows_per_page 8"
    "m_codes_count m1 = padded_pages_needed n (rows_per_page (of_nat (onebit_codes_stride (unat dim))))"
    "m_ids_count m1 = padded_pages_needed n (rows_per_page 8)"
    "m_bq_mean_count m1 = byte_pages_needed (ucast dim * 4)" "m_bq_mean_bytes m1 = ucast dim * 4" "m_lists m1 = degraded"
    "m_codes_first m1 = 1"
    using f by (simp_all add: m1 is_bq_def encodable_def MAX_CODEBOOK_LEVELS_def word_gt_0)
  then show "m_n_vectors m = n" "m_dim m = dim" "m_am_version m = v" "is_bq m" "encodable m"
    "m_stride_bytes m = of_nat (onebit_codes_stride (unat dim))"
    "m_rows_per_codes_page m = rows_per_page (of_nat (onebit_codes_stride (unat dim)))"
    "m_rows_per_ids_page m = rows_per_page 8"
    "m_codes_count m = padded_pages_needed n (rows_per_page (of_nat (onebit_codes_stride (unat dim))))"
    "m_ids_count m = padded_pages_needed n (rows_per_page 8)"
    "m_bq_mean_count m = byte_pages_needed (ucast dim * 4)" "m_bq_mean_bytes m = ucast dim * 4" "m_lists m = degraded"
    "m_codes_first m = 1"
    by (simp_all add: m plan_tombstones_def is_bq_def encodable_def)
  show "dim mod 8 = 0" by (rule f(1))
  show "m_tombstone_bytes m = len64 tombs" "tombs \<noteq> [] \<Longrightarrow> m_tombstone_count m = byte_pages_needed (len64 tombs)"
    using z by (simp_all add: m plan_tombstones_def len64_def)
qed

lemma bq_bitmap_written:
  assumes p: "bq_planned dim n v tombs degraded m"
  shows "0 < m_tombstone_count m \<longleftrightarrow> tombs \<noteq> []"
proof (cases "tombs = []")
  case True
  with p show ?thesis by (elim bq_planned_eq) (simp add: plan_tombstones_def)
next
  case False
  with p have "length tombs < 2 ^ 64" by (simp add: bq_planned_def)
  with byte_pages_pos [OF False] bq_planned_fields(17) [OF p False] False show ?thesis by (simp add: word_gt_0)
qed

lemma bq_stride:
  assumes "bq_inputs dim n codes ids mean"
  shows "(of_nat (onebit_codes_stride (unat dim)) :: u32) \<noteq> 0"
    "unat (of_nat (onebit_codes_stride (unat dim)) :: u32) = onebit_codes_stride (unat dim)"
proof -
  have "0 < unat dim" using assms by (simp add: bq_inputs_def unat_gt_0)
  then have pos: "0 < onebit_codes_stride (unat dim)"
    using nat_div_ceil_le_iff [of 8 "unat dim" 0] by (simp add: onebit_codes_stride_def)
  show u: "unat (of_nat (onebit_codes_stride (unat dim)) :: u32) = onebit_codes_stride (unat dim)"
    using assms by (simp add: bq_inputs_def unat_of_nat PAYLOAD_BYTES_eq take_bit_nat_eq_self)
  show "(of_nat (onebit_codes_stride (unat dim)) :: u32) \<noteq> 0"
  proof
    assume "(of_nat (onebit_codes_stride (unat dim)) :: u32) = 0"
    then have "unat (of_nat (onebit_codes_stride (unat dim)) :: u32) = 0" by (simp only: unat_0)
    with u pos show False by simp
  qed
qed

lemma bq_mean_bytes:
  assumes "bq_inputs dim n codes ids mean"
  shows "len64 (f32s_bytes mean) = ucast dim * 4" "length (f32s_bytes mean) < 2 ^ 64" "f32s_bytes mean \<noteq> []"
proof -
  have len: "length mean = unat dim" using assms by (simp add: bq_inputs_def)
  have "of_nat (unat dim) = (ucast dim :: u64)" by simp
  then show "len64 (f32s_bytes mean) = ucast dim * 4" by (simp add: len64_def len)
  show "length (f32s_bytes mean) < 2 ^ 64" using unat_u32_bound [of dim] by (simp add: len)
  have "0 < unat dim" using assms by (simp add: bq_inputs_def unat_gt_0)
  then show "f32s_bytes mean \<noteq> []" using len by (metis length_f32s_bytes length_greater_0_conv nat_0_less_mult_iff zero_less_numeral)
qed

lemma seq_ret_unit: "seq_io (ret ()) d = d"
  by (rule ext) simp

lemma bq_codes_len:
  assumes p: "bq_planned dim n v tombs degraded m" and inp: "bq_inputs dim n codes ids mean"
  shows "len64 codes = n * ucast (m_stride_bytes m)"
proof -
  have "unat (m_stride_bytes m) = onebit_codes_stride (unat dim)"
    using bq_stride(2) [OF inp] by (simp only: bq_planned_fields(6) [OF p])
  then have "(ucast (m_stride_bytes m) :: u64) = of_nat (onebit_codes_stride (unat dim))"
    by (metis of_nat_unat)
  moreover have "len64 codes = of_nat (unat n) * of_nat (onebit_codes_stride (unat dim))"
    using inp by (simp only: bq_inputs_def len64_def of_nat_mult)
  ultimately show ?thesis by simp
qed

section \<open>A completed rewrite\<close>

definition bq_stored ::
  "'r pstore \<Rightarrow> meta \<Rightarrow> u8 list \<Rightarrow> u64 list \<Rightarrow> f32_bits list \<Rightarrow> u8 list \<Rightarrow> 'r \<Rightarrow> bool" where
  "bq_stored S m codes ids mean tombs r \<longleftrightarrow>
     stores S r (unat (m_codes_first m)) (unat (m_rows_per_codes_page m) * unat (m_stride_bytes m)) codes \<and>
     stores S r (unat (m_ids_first m)) (unat (m_rows_per_ids_page m) * 8) (u64s_bytes ids) \<and>
     stores S r (unat (m_bq_mean_first m)) PAYLOAD_BYTES (f32s_bytes mean) \<and>
     stores S r (unat (m_tombstone_first m)) PAYLOAD_BYTES tombs"

definition bq_chains ::
  "'r pstore \<Rightarrow> bool \<Rightarrow> meta \<Rightarrow> u8 list \<Rightarrow> u64 list \<Rightarrow> f32_bits list \<Rightarrow> u8 list \<Rightarrow> ('r, unit) io" where
  "bq_chains S skip m codes ids mean tombs =
     seq_io (write_chain_at S skip (m_codes_first m) codes (m_stride_bytes m) (m_rows_per_codes_page m) (m_n_vectors m))
     (seq_io (write_chain_at S skip (m_ids_first m) (u64s_bytes ids) 8 (m_rows_per_ids_page m) (m_n_vectors m))
     (seq_io (write_byte_chain S skip (m_bq_mean_first m) (f32s_bytes mean))
             (when_io (tombs \<noteq> []) (write_byte_chain S skip (m_tombstone_first m) tombs))))"

context page_store
begin

lemma bq_chains_filled:
  assumes p: "bq_planned dim n v tombs degraded m" and inp: "bq_inputs dim n codes ids mean"
  shows "fills S (block_sum m) {0<..<block_sum m} (bq_stored S m codes ids mean tombs) (bq_chains S skip m codes ids mean tombs)"
proof -
  note pk = bq_planned_packed [OF p] and f = bq_planned_fields [OF p] and st = bq_stride [OF inp]
  note dis = region_disjoint [OF pk]
  have fit: "fits m" "length tombs < 2 ^ 64" using p by (simp_all add: bq_planned_def)
  have inp': "onebit_codes_stride (unat dim) \<le> PAYLOAD_BYTES" "length codes = unat n * onebit_codes_stride (unat dim)"
    "length ids = unat n" using inp by (simp_all add: bq_inputs_def)
  have c: "fills S (block_sum m) (region m 0)
      (\<lambda>r. stores S r (unat (m_codes_first m)) (unat (m_rows_per_codes_page m) * unat (m_stride_bytes m)) codes)
      (write_chain_at S skip (m_codes_first m) codes (m_stride_bytes m) (m_rows_per_codes_page m) (m_n_vectors m))"
    unfolding f(1,6,7) using pk fit st inp' by (intro fills_row_chain) (simp_all add: chain_list_def f)
  have i: "fills S (block_sum m) (region m 2)
      (\<lambda>r. stores S r (unat (m_ids_first m)) (unat (m_rows_per_ids_page m) * 8) (u64s_bytes ids))
      (write_chain_at S skip (m_ids_first m) (u64s_bytes ids) 8 (m_rows_per_ids_page m) (m_n_vectors m))"
    using fills_row_chain [of m 2 "m_ids_first m" n 8 "u64s_bytes ids" "block_sum m" skip] pk fit inp'
    by (simp add: chain_list_def f PAYLOAD_BYTES_eq)
  have a: "fills S (block_sum m) (region m 5) (\<lambda>r. stores S r (unat (m_bq_mean_first m)) PAYLOAD_BYTES (f32s_bytes mean))
      (write_byte_chain S skip (m_bq_mean_first m) (f32s_bytes mean))"
    using pk fit bq_mean_bytes [OF inp] by (intro fills_byte_chain) (simp_all add: chain_list_def f)
  have "fills S (block_sum m) (region m 9) (\<lambda>r. True \<longrightarrow> stores S r (unat (m_tombstone_first m)) PAYLOAD_BYTES tombs)
      (when_io (tombs \<noteq> []) (write_byte_chain S skip (m_tombstone_first m) tombs))"
  proof (rule fills_when_part)
    show "fills S (block_sum m) (region m 9) (\<lambda>r. stores S r (unat (m_tombstone_first m)) PAYLOAD_BYTES tombs)
        (write_byte_chain S skip (m_tombstone_first m) tombs)" if "tombs \<noteq> []"
      using pk fit f(17) [OF that] by (intro fills_byte_chain) (simp_all add: chain_list_def)
  qed simp
  then have t: "fills S (block_sum m) (region m 9) (\<lambda>r. stores S r (unat (m_tombstone_first m)) PAYLOAD_BYTES tombs)
      (when_io (tombs \<noteq> []) (write_byte_chain S skip (m_tombstone_first m) tombs))" by simp
  have d: "region m 5 \<inter> region m 9 = {}" "region m 2 \<inter> (region m 5 \<union> region m 9) = {}"
    "region m 0 \<inter> (region m 2 \<union> (region m 5 \<union> region m 9)) = {}"
    by (simp_all add: Int_Un_distrib dis)
  have "region m i \<subseteq> {0<..<block_sum m}" if "i < 10" for i
    using region_in_file [OF pk that] by auto
  then have "region m 0 \<union> (region m 2 \<union> (region m 5 \<union> region m 9)) \<subseteq> {0<..<block_sum m}"
    by (intro Un_least) simp_all
  from fills_widen [OF fills_seq [OF c fills_seq [OF i fills_seq [OF a t d(1)] d(2)] d(3)] this]
  show ?thesis by (simp add: bq_chains_def bq_stored_def [abs_def])
qed

text \<open>The file, its meta page and the locks after a rewrite that no cancel interrupts.\<close>

lemma bq_rewrite_run:
  assumes p: "bq_planned dim n v tombs degraded m" and inp: "bq_inputs dim n codes ids mean" and quiet: "w_polls w = None"
  obtains w' where "write_full_bq_parts S skip dim n codes ids mean v None tombs degraded w = (Inr (), w')"
    and "meta_stored S m (w_rel w')" and "bq_stored S m codes ids mean tombs (w_rel w')"
    and "w_xlock w' = w_xlock w" and "w_slock w' = w_slock w" and "w_polls w' = None"
proof -
  note f = bq_planned_fields [OF p] and fl = bq_chains_filled [OF p inp]
  have fit: "fits m" and n: "0 < n" using p by (simp_all add: bq_planned_def)
  have tot: "unat (max (total_blocks m) 1) = block_sum m"
    using total_blocks_fits [OF fit] by (simp add: max_def word_le_nat_alt block_sum_eq)
  have pos: "0 < block_sum m" by (simp add: block_sum_eq)
  let ?file = "seq_io (extend_to S (max (total_blocks m) 1)) (bq_chains S skip m codes ids mean tombs)"
  from p obtain m0 where p0: "plan_bq dim n v = Some m0" and m: "m = plan_bq_parts dim n v None tombs degraded m0"
    by (auto simp: bq_planned_def)
  have "m_stride_bytes m0 = m_stride_bytes m" using f plan_bq_fields [OF p0] by simp
  moreover have "len64 codes = n * ucast (m_stride_bytes m)" by (rule bq_codes_len [OF p inp])
  moreover have "len64 ids = n" "length mean = unat dim" using inp by (simp_all add: bq_inputs_def len64_def)
  ultimately have run: "write_full_bq_parts S skip dim n codes ids mean v None tombs degraded w = seq_io ?file (write_meta S m) w"
    using n p0 bq_bitmap_written [OF p] f(1)
    by (simp add: write_full_bq_parts_def m [symmetric] Let_def seq_io_assoc seq_ret_unit bq_chains_def write_ivf_def f(16) write_byte_chain_def)
  have body: "touches S {0<..<block_sum m} ?file w (\<lambda>r. block_sum m \<le> ps_nblocks S r \<and> bq_stored S m codes ids mean tombs r)"
  proof (rule touches_seq_frame)
    show "touches S {} (extend_to S (max (total_blocks m) 1)) w (\<lambda>r. block_sum m \<le> ps_nblocks S r)"
      by (rule touches_weaken [OF extend_to_touches]) (auto simp: tot)
  qed (use fl in \<open>auto intro: fills_touches simp: same_outside_def\<close>)
  then obtain w1 where w1: "?file w = (Inr (), w1)" "block_sum m \<le> ps_nblocks S (w_rel w1)" "bq_stored S m codes ids mean tombs (w_rel w1)"
      "w_xlock w1 = w_xlock w" "w_slock w1 = w_slock w" "w_polls w1 = None"
    by (rule touchesE) (use quiet in auto)
  have "touches S {0} (write_meta S m) w1 (\<lambda>r. meta_stored S m r \<and> ps_nblocks S r = ps_nblocks S (w_rel w1))"
    using w1(2) pos by (intro write_meta_touches) simp
  then obtain w2 where w2: "write_meta S m w1 = (Inr (), w2)" "meta_stored S m (w_rel w2)" "same_outside S {0} (w_rel w1) (w_rel w2)"
      "w_xlock w2 = w_xlock w1" "w_slock w2 = w_slock w1" "w_polls w2 = None"
    by (rule touchesE) (use w1(6) in auto)
  have "bq_stored S m codes ids mean tombs (w_rel w2)"
    using fills_frame [OF fl w1(3) w2(3)] by simp
  with run w1 w2 show thesis by (intro that [of w2]) (simp_all add: seq_io_def bind_io_def)
qed

text \<open>Every reader returns what was written.\<close>

lemma bq_stored_reads:
  assumes p: "bq_planned dim n v tombs degraded m" and inp: "bq_inputs dim n codes ids mean"
    and meta: "meta_stored S m r" and st: "bq_stored S m codes ids mean tombs r"
  shows "bq_reads S m codes ids mean tombs r"
  unfolding bq_reads_def
proof (intro allI impI)
  fix w :: "'r world" assume w: "w_rel w = r"
  note pk = bq_planned_packed [OF p] and f = bq_planned_fields [OF p] and stride = bq_stride [OF inp]
  have fit: "fits m" "length tombs < 2 ^ 64" and n: "n \<noteq> 0" using p by (auto simp: bq_planned_def)
  have inp': "onebit_codes_stride (unat dim) \<le> PAYLOAD_BYTES" "length codes = unat n * onebit_codes_stride (unat dim)"
    "length ids = unat n" using inp by (simp_all add: bq_inputs_def)
  have md: "read_meta S w' = (Inr (Some m), w')" if "w_rel w' = r" for w'
    using meta f(5) that by (intro read_meta_stored) simp_all
  have codes: "read_chain S (m_codes_first m) (m_stride_bytes m) (m_rows_per_codes_page m) (m_n_vectors m) w = (Inr codes, w)"
    unfolding f(1,6,7) using fit inp' stride st w
    by (intro read_row_chain [of m 0]) (simp_all add: chain_list_def f bq_stored_def)
  have ids: "read_chain S (m_ids_first m) 8 (m_rows_per_ids_page m) (m_n_vectors m) w' = (Inr (u64s_bytes ids), w')"
    if "w_rel w' = r" for w'
    unfolding f(1,8) using fit inp' st that
    by (intro read_row_chain [of m 2]) (simp_all add: chain_list_def f bq_stored_def PAYLOAD_BYTES_eq)
  let ?w1 = "w\<lparr>w_slock := w_slock w + 1\<rparr>"
  have "read_ids_only S m w = (Inr ids, w)"
    using n md [of ?w1] ids [of ?w1] w by (simp add: read_ids_only_def f(1) read_lock_run bind_io_def ret_def)
  moreover have "read_bq_mean S m w = (Inr mean, w)"
  proof -
    have "read_byte_chain S (m_bq_mean_first m) (len64 (f32s_bytes mean)) w = (Inr (f32s_bytes mean), w) \<and>
        m_bq_mean_first m \<noteq> 0 \<and> m_bq_mean_count m \<noteq> 0 \<and> unat (m_bq_mean_first m) + unat (m_bq_mean_count m) \<le> block_sum m"
      using bq_mean_bytes [OF inp] st w fit
      by (intro planned_chain_reads [OF page_store_axioms pk fit(1), of 5]) (simp_all add: chain_list_def f bq_stored_def)
    moreover have "ucast dim * 4 \<noteq> (0 :: u64)"
      using len64_nonzero [OF bq_mean_bytes(2,3) [OF inp]] bq_mean_bytes(1) [OF inp] by simp
    ultimately show ?thesis using bq_mean_bytes(1) [OF inp] by (simp add: read_bq_mean_def f bind_io_def ret_def)
  qed
  moreover have "read_tombstones S m w = (Inr tombs, w)"
  proof (cases "tombs = []")
    case True
    then show ?thesis by (simp add: read_tombstones_def f len64_def ret_def)
  next
    case False
    have "read_byte_chain S (m_tombstone_first m) (len64 tombs) w = (Inr tombs, w) \<and>
        m_tombstone_first m \<noteq> 0 \<and> m_tombstone_count m \<noteq> 0 \<and> unat (m_tombstone_first m) + unat (m_tombstone_count m) \<le> block_sum m"
      using False st w fit f(17) [OF False]
      by (intro planned_chain_reads [OF page_store_axioms pk fit(1), of 9]) (simp_all add: chain_list_def bq_stored_def)
    with len64_nonzero [OF fit(2) False] show ?thesis by (simp add: read_tombstones_def f)
  qed
  ultimately show "read_meta S w = (Inr (Some m), w) \<and>
      read_chain S (m_codes_first m) (m_stride_bytes m) (m_rows_per_codes_page m) (m_n_vectors m) w = (Inr codes, w) \<and>
      read_ids_only S m w = (Inr ids, w) \<and> read_bq_mean S m w = (Inr mean, w) \<and> read_tombstones S m w = (Inr tombs, w)"
    using md [OF w] codes by blast
qed

end

end
