(* ===== verification/Insert.thy ===== *)
theory Insert
  imports Amscan Partition BqFile
begin

text \<open>
  Row insert (\<open>src/index/insert.rs\<close>): the dispatch of \<open>aminsert\<close>, the insert into a 1-bit index and into a graph
  index, which both rewrite the relation under its lock, and the cold load of the deferred path, which installs a
  mutable mirror in the backend cache.  What the turbovec crate does with a row, encoding it and checking stored
  parts, is an argument.
\<close>

section \<open>One row into a 1-bit index\<close>

text \<open>\<open>error!\<close> after giving the rewrite lock back.\<close>

definition fail_unlocked :: "string \<Rightarrow> ('r, 'a) io" where
  "fail_unlocked msg = seq_io unlock_relfile_write (raise (Reported msg))"

text \<open>\<open>if let Some(byte) = new_tombstones.get_mut(slot / 8)\<close>.\<close>

definition clear_slot_bit :: "nat \<Rightarrow> u8 list \<Rightarrow> u8 list" where
  "clear_slot_bit slot t = (case clear_bit_at slot t of None \<Rightarrow> t | Some t' \<Rightarrow> t')"

text \<open>
  Every slot of the id takes the new code and comes alive; an id with no slot is appended.  \<open>None\<close> is the panic of
  \<open>copy_from_slice\<close> on a code of another width.
\<close>

definition bq_upsert ::
  "u64 \<Rightarrow> u8 list \<Rightarrow> nat \<Rightarrow> u8 list \<Rightarrow> u64 list \<Rightarrow> u8 list \<Rightarrow> (u8 list \<times> u64 list \<times> u8 list) option" where
  "bq_upsert i new_code stride codes ids tombs =
     (let existing = filter (\<lambda>slot. ids ! slot = i) [0..<length ids] in
      if existing = [] then
        Some (codes @ new_code, ids @ [i],
              if tombs = [] then [] else resize0 (nat_div_ceil (length ids + 1) 8) tombs)
      else if length new_code \<noteq> stride then None
      else Some (fold (\<lambda>slot. blit (slot * stride) new_code) existing codes, ids, fold clear_slot_bit existing tombs))"

definition insert_bq_row ::
  "'f::linorder env \<Rightarrow> bool \<Rightarrow> 'r pstore \<Rightarrow> bool \<Rightarrow> 'f list \<Rightarrow> u64 \<Rightarrow> ('r, bool) io" where
  "insert_bq_row ev normalise S skip v i =
     seq_io lock_relfile_write
     (bind_io (read_meta S) (\<lambda>mo. case mo of
        None \<Rightarrow> fail_unlocked ''meta page vanished''
      | Some m \<Rightarrow>
        if \<not> is_bq m then fail_unlocked ''index is no longer a 1-bit index''
        else let empty_unpinned = (m_dim m = 0 \<and> m_n_vectors m = 0);
                 dim = (if empty_unpinned then length v else unat (m_dim m)) in
          if length v \<noteq> dim then fail_unlocked ''dim mismatch''
          else bind_io (if empty_unpinned then ret (replicate dim 0) else read_bq_mean S m) (\<lambda>mean.
          if length mean \<noteq> dim then fail_unlocked ''missing its corpus-mean vector''
          else
            bind_io (read_chain S (m_codes_first m) (m_stride_bytes m) (m_rows_per_codes_page m) (m_n_vectors m)) (\<lambda>codes.
            bind_io (read_ids_only S m) (\<lambda>ids.
            bind_io (read_tombstones S m) (\<lambda>tombs.
            let n_disk = unat (m_n_vectors m); stride = unat (m_stride_bytes m) in
            if length ids \<noteq> n_disk \<or> (0 < stride \<and> length codes \<noteq> n_disk * stride)
            then fail_unlocked ''on-disk row count drift''
            else let raw = (if normalise then normalise_to_vec ev v else v);
                     new_code = pack_signs (ev_ar ev) (center (ev_ar ev) raw (map (ev_of_bits ev) mean)) in
              bind_io (option_io AssertFailed (bq_upsert i new_code stride codes ids tombs)) (\<lambda>(codes', ids', tombs').
              seq_io (write_full_bq_parts S skip (of_nat dim) (len64 ids') codes' ids' mean (m_am_version m + 1)
                       None tombs' (m_lists m))
              (seq_io unlock_relfile_write (ret False)))))))))"

section \<open>One row into a graph index\<close>

definition live_mask :: "nat \<Rightarrow> u8 list \<Rightarrow> bool list" where
  "live_mask n tombs = (if tombs = [] then replicate n True else map (\<lambda>slot. \<not> slot_dead tombs slot) [0..<n])"

text \<open>The stored entry point, or the first live slot when it is dead, or slot 0.\<close>

definition insert_entry :: "u32 \<Rightarrow> bool list \<Rightarrow> u32" where
  "insert_entry stored live =
     (if unat stored < length live \<and> live ! unat stored then stored
      else case filter (\<lambda>s. live ! s) [0..<length live] of [] \<Rightarrow> 0 | s # _ \<Rightarrow> of_nat s)"

text \<open>
  The scores the index gives the new row.  \<open>score_slots\<close> panics on a slot outside the index; the slots asked for
  are nodes of the adjacency, whose ids \<open>read_graph_adjacency\<close> has checked.
\<close>

definition slot_scores :: "(calibration \<Rightarrow> ('f, 's) engine) \<Rightarrow> read_only \<Rightarrow> 'f list \<Rightarrow> u32 list \<Rightarrow> 's list" where
  "slot_scores E ix q ids = (case score_slots E ix q ids of None \<Rightarrow> [] | Some scores \<Rightarrow> scores)"

definition graph_parts_of :: "adjacency \<Rightarrow> u32 \<Rightarrow> graph_parts" where
  "graph_parts_of g entry = \<lparr>gp_offsets_bytes = encode_offsets g, gp_neighbors_bytes = encode_neighbors g, gp_entry_point = entry\<rparr>"

definition extend_bitmap :: "nat \<Rightarrow> u8 list \<Rightarrow> u8 list" where
  "extend_bitmap new_slot tombs = (if tombs = [] then [] else resize0 (nat_div_ceil (new_slot + 2) 8) tombs)"

text \<open>The crate's \<open>from_id_map_parts\<close>, \<open>add_with_ids\<close> and \<open>prepare\<close>: the codes and scales with the row encoded.\<close>

type_synonym 'f row_encoder =
  "meta \<Rightarrow> u8 list \<Rightarrow> f32_bits list \<Rightarrow> calibration \<Rightarrow> 'f list \<Rightarrow> exn + (u8 list \<times> f32_bits list \<times> prepared)"

definition insert_graph_row ::
  "'f::linorder env \<Rightarrow> 'f \<Rightarrow> codebook_fn \<Rightarrow> parts_check \<Rightarrow> 'f row_encoder \<Rightarrow> bool \<Rightarrow> 'r pstore \<Rightarrow> bool \<Rightarrow>
   'f list \<Rightarrow> u64 \<Rightarrow> ('r, bool) io" where
  "insert_graph_row ev GRAPH_ALPHA cb from_parts_ok encode_row normalise S skip v i =
     seq_io lock_relfile_write
     (bind_io (read_meta S) (\<lambda>mo. case mo of
        None \<Rightarrow> fail_unlocked ''meta page vanished''
      | Some m \<Rightarrow>
        if \<not> is_graph m then fail_unlocked ''index is no longer a graph index''
        else if length v \<noteq> unat (m_dim m) then fail_unlocked ''dim mismatch''
        else let new_vec = (if normalise then normalise_to_vec ev v else v) in
          bind_io (read_full S m) (\<lambda>(codes, scales, ids).
          if i \<in> set ids then fail_unlocked ''heap tid already present in this graph index''
          else let n_disk = unat (m_n_vectors m) in
            if length ids \<noteq> n_disk \<or> length scales \<noteq> n_disk then fail_unlocked ''on-disk row count drift''
            else bind_io (read_only_of from_parts_ok S m codes scales ids) (\<lambda>stored_index.
            bind_io (read_graph_adjacency S m) (\<lambda>adj. case adj of
              None \<Rightarrow> fail_unlocked ''the adjacency chain is missing''
            | Some g \<Rightarrow>
              if node_count g \<noteq> n_disk then fail_unlocked ''adjacency describes other rows''
              else bind_io (read_tombstones S m) (\<lambda>tombs.
                let entry = insert_entry (m_graph_entry_point m) (live_mask n_disk tombs) in
                bind_io (option_io AssertFailed
                    (insert_one_node_via_oracle (ev_ar ev) GRAPH_ALPHA g entry new_vec
                      (slot_scores (ev_engine ev) stored_index))) (\<lambda>g'.
                bind_io (read_tqplus S m) (\<lambda>tq.
                case encode_row m codes scales tq new_vec of
                  Inl e \<Rightarrow> raise e
                | Inr (codes', scales', prepared) \<Rightarrow>
                    seq_io (write_full_with_prepared_graph_and_tombstones cb S skip (m_bit_width m) (m_dim m)
                             (m_n_vectors m + 1) codes' scales' (ids @ [i]) (sat_succ (m_am_version m)) prepared
                             (graph_parts_of g' entry) (extend_bitmap n_disk tombs))
                    (seq_io unlock_relfile_write (ret True))))))))))"

section \<open>The deferred path\<close>

text \<open>
  What a cold insert reads: the stored row count, the version and the ids.  \<open>id_map_ok\<close> is whether the crate
  accepts the id table, which it wants free of repetitions.
\<close>

definition load_for_insert :: "(u64 list \<Rightarrow> bool) \<Rightarrow> 'r pstore \<Rightarrow> ('r, u64 \<times> u32 \<times> u64 list) io" where
  "load_for_insert id_map_ok S =
     bind_io (read_meta S) (\<lambda>mo. case mo of
        None \<Rightarrow> ret (0, 0, [])
      | Some meta \<Rightarrow>
        if m_n_vectors meta = 0 then ret (0, 0, [])
        else bind_io (read_full_consistent S meta) (\<lambda>(m, codes, scales, ids).
          seq_io (when_io (m_lists m = 0) (assert_ids_unique_or_reindex ids))
          (bind_io (read_tqplus S m) (\<lambda>tq.
             if id_map_ok ids then ret (m_n_vectors m, m_am_version m, ids)
             else if 0 < m_lists m then raise (Reported ''built WITH (assign_dups > 1) and does not support INSERT/UPDATE'')
             else raise (Reported ''corrupt relfile pages'')))))"

definition mirror_bytes :: "nat \<Rightarrow> i32 \<Rightarrow> i64 \<Rightarrow> nat" where
  "mirror_bytes dim bit_width n_existing = (dim * unat bit_width div 8 + 4 + 64) * nat (max (sint n_existing) 1)"

text \<open>
  The insert of one row through the cache.  \<open>loaded\<close> names the mirror a miss builds; \<open>dim_of\<close> and \<open>add_row\<close> are what
  the crate says of a mirror: its dimension, and whether adding the row failed or found the id present.  A raised
  error leaves the cache as the lookup and the install left it.
\<close>

definition upsert_mirror ::
  "(arc \<Rightarrow> nat) \<Rightarrow> (arc \<Rightarrow> exn + bool) \<Rightarrow> cache_key \<Rightarrow> nat \<Rightarrow> u64 \<Rightarrow> arc \<Rightarrow> cache \<Rightarrow> (exn + bool) \<times> cache" where
  "upsert_mirror dim_of add_row key dim i a c =
     (if dim_of a \<noteq> 0 \<and> dim_of a \<noteq> dim then (Inl (Reported ''dim mismatch''), c)
      else case add_row a of
             Inl e \<Rightarrow> (Inl e, c)
           | Inr present \<Rightarrow>
               (case am_mark_dirty key (record_upsert i present) c of
                  (True, c') \<Rightarrow> (Inr True, c')
                | (False, c') \<Rightarrow> (Inl (Reported ''cache entry vanished between install and mark_dirty''), c')))"

definition aminsert_relfile ::
  "(u64 list \<Rightarrow> bool) \<Rightarrow> (arc \<Rightarrow> nat) \<Rightarrow> (arc \<Rightarrow> exn + bool) \<Rightarrow> 'r pstore \<Rightarrow> int \<Rightarrow> u32 \<Rightarrow> u32 \<Rightarrow> i32 \<Rightarrow> nat \<Rightarrow> u64 \<Rightarrow>
   arc \<Rightarrow> cache \<Rightarrow> 'r world \<Rightarrow> (exn + bool) \<times> cache \<times> 'r world" where
  "aminsert_relfile id_map_ok dim_of add_row S cap_mb indexrelid relfile bit_width dim i loaded c w =
     (let key = \<lparr>ck_rel_oid = indexrelid, ck_attnum = 0, ck_bit_width = ucast bit_width, ck_dim = of_nat dim\<rparr>
      in case am_lookup_for_mutation key relfile c of
           (Some a, c1) \<Rightarrow> (case upsert_mirror dim_of add_row key dim i a c1 of (r, c2) \<Rightarrow> (r, c2, w))
         | (None, c1) \<Rightarrow>
             (case load_for_insert id_map_ok S w of
                (Inl e, w1) \<Rightarrow> (Inl e, c1, w1)
              | (Inr (n, version, live), w1) \<Rightarrow>
                  (case am_install cap_mb key loaded (mirror_bytes dim bit_width (ucast n)) relfile (scast version)
                          (loaded_state bit_width (of_nat dim) (ucast n) (ucast version) live) c1 of
                     (a, c2) \<Rightarrow> (case upsert_mirror dim_of add_row key dim i a c2 of (r, c3) \<Rightarrow> (r, c3, w1)))))"

section \<open>Dispatch\<close>

text \<open>\<open>aminsert\<close> of a column value; \<open>flat\<close> is the deferred path.\<close>

definition aminsert_impl ::
  "('r, bool) io \<Rightarrow> ('f list \<Rightarrow> u64 \<Rightarrow> ('r, bool) io) \<Rightarrow> ('f list \<Rightarrow> u64 \<Rightarrow> ('r, bool) io) \<Rightarrow> 'r pstore \<Rightarrow>
   'f list option \<Rightarrow> u64 \<Rightarrow> ('r, bool) io" where
  "aminsert_impl flat graph bq S value i =
     (case value of
        None \<Rightarrow> ret False
      | Some v \<Rightarrow>
        if length v mod 8 \<noteq> 0 then raise (Reported ''dim must be a multiple of 8'')
        else bind_io (read_meta S) (\<lambda>mo. case mo of
            None \<Rightarrow> flat
          | Some m \<Rightarrow> if is_graph m then graph v i else if is_bq m then bq v i else flat))"

section \<open>A cold insert\<close>

lemma load_for_insert_run:
  assumes crate: "id_map_ok ids \<longleftrightarrow> distinct ids"
    and disk: "read_meta S w = (Inr (Some hint), w)" "m_n_vectors hint \<noteq> 0"
      "read_full_consistent S hint w = (Inr (m, codes, scales, ids), w)" "read_tqplus S m w = (Inr tq, w)"
  shows "load_for_insert id_map_ok S w =
    (if distinct ids then Inr (m_n_vectors m, m_am_version m, ids)
     else if 0 < m_lists m then Inl (Reported ''built WITH (assign_dups > 1) and does not support INSERT/UPDATE'')
     else Inl (DuplicateOnDisk (the (first_duplicate_id ids))), w)"
proof -
  have "first_duplicate_id ids = None \<longleftrightarrow> distinct ids" using first_duplicate_id_spec [of ids] by blast
  then show ?thesis
    using disk crate
    by (cases "first_duplicate_id ids") (auto simp: load_for_insert_def bind_io_def seq_io_def assert_ids_unique_or_reindex_def
        when_io_def ret_def raise_def word_gt_0)
qed

lemma upsert_mirror_Inr:
  assumes "upsert_mirror dim_of add_row key dim i a c = (Inr b, c')" and e: "entry_of c key = Some e" and p: "en_persist e = Some p"
  shows "b" "\<exists>present. add_row a = Inr present \<and>
    entry_of c' key = Some (e\<lparr>en_persist := Some (record_upsert i present p), en_dirty := True\<rparr>)"
  using assms by (auto simp: upsert_mirror_def am_mark_dirty_def update_conv' split: if_splits sum.splits option.splits prod.splits bool.splits)

text \<open>
  C33: The first insert of a transaction never writes the relation.  When it returns, the cache holds a dirty mutable mirror
  of exactly the ids on disk, with the new row appended and recorded as touched; an index that stores a row more than
  once is refused and leaves the cache as the lookup left it, as a soft-assigned index when it has cells and as a
  corrupt one otherwise.
\<close>

theorem cold_insert_mirrors_disk:
  assumes ok: "cache_ok c" and crate: "id_map_ok ids \<longleftrightarrow> distinct ids"
    and key: "key = \<lparr>ck_rel_oid = rel, ck_attnum = 0, ck_bit_width = ucast bw, ck_dim = of_nat dim\<rparr>"
    and miss: "am_lookup_for_mutation key relfile c = (None, c1)"
    and disk: "read_meta S w = (Inr (Some hint), w)" "m_n_vectors hint \<noteq> 0"
      "read_full_consistent S hint w = (Inr (m, codes, scales, ids), w)" "read_tqplus S m w = (Inr tq, w)"
    and run: "aminsert_relfile id_map_ok dim_of add_row S cap_mb rel relfile bw dim i loaded c w = (r, c', w')"
  shows "w' = w \<and>
    (\<not> distinct ids \<longrightarrow> c' = c1 \<and>
       (if 0 < m_lists m then r = Inl (Reported ''built WITH (assign_dups > 1) and does not support INSERT/UPDATE'')
        else \<exists>d \<in> set ids. r = Inl (DuplicateOnDisk d))) \<and>
    (\<forall>b. r = Inr b \<longrightarrow> distinct ids \<and> b \<and>
       (\<exists>e p present. add_row loaded = Inr present \<and> entry_of c' key = Some e \<and> en_dirty e \<and> en_index e = Mutable loaded \<and>
          en_persist e = Some p \<and> pt_touched_ids p = [i] \<and> pt_live_ids p = (if present then ids else ids @ [i])))"
proof (cases "distinct ids")
  case False
  then obtain d where "first_duplicate_id ids = Some d" using first_duplicate_id_spec [of ids] by fastforce
  moreover from this have "d \<in> set ids" using first_duplicate_id_spec [of ids] by auto
  ultimately show ?thesis
    using run miss load_for_insert_run [where id_map_ok = id_map_ok, OF crate disk] False
    by (auto simp: aminsert_relfile_def key [symmetric] Let_def)
next
  case True
  define st where "st = loaded_state bw (of_nat dim) (ucast (m_n_vectors m)) (ucast (m_am_version m)) ids"
  define c2 where "c2 = install cap_mb key (Mutable loaded) (mirror_bytes dim bw (ucast (m_n_vectors m))) relfile (scast (m_am_version m)) (Some st) c1"
  obtain r' where up: "upsert_mirror dim_of add_row key dim i loaded c2 = (r', c')" and r: "r = r'" and w: "w' = w"
    using run miss load_for_insert_run [where id_map_ok = id_map_ok, OF crate disk] True
    by (auto simp: aminsert_relfile_def key [symmetric] Let_def am_install_def c2_def st_def split: prod.splits)
  have "cache_ok c1" using am_lookup_cases [OF miss ok] ok cache_ok_touch cache_ok_evict by blast
  then have d: "distinct (map fst (ca_map c1))" by (simp add: cache_ok_def)
  have "\<exists>e p present. add_row loaded = Inr present \<and> entry_of c' key = Some e \<and> en_dirty e \<and> en_index e = Mutable loaded \<and>
      en_persist e = Some p \<and> pt_touched_ids p = [i] \<and> pt_live_ids p = (if present then ids else ids @ [i])" and "b" if rb: "r = Inr b" for b
  proof -
    obtain e where e: "entry_of c2 key = Some e" using up rb r
      by (auto simp: upsert_mirror_def am_mark_dirty_def split: if_splits sum.splits option.splits)
    have "e = installed (Mutable loaded) (mirror_bytes dim bw (ucast (m_n_vectors m))) relfile (scast (m_am_version m)) (Some st) c1"
      using install_spec(2) [OF d, of cap_mb key] e unfolding c2_def by fastforce
    then have f: "en_index e = Mutable loaded" "en_persist e = Some st" by (simp_all add: installed_def)
    note u = upsert_mirror_Inr [OF up [folded r, unfolded rb] e f(2)]
    from u(1) show b .
    from u(2) f(1) show "\<exists>e p present. add_row loaded = Inr present \<and> entry_of c' key = Some e \<and> en_dirty e \<and> en_index e = Mutable loaded \<and>
      en_persist e = Some p \<and> pt_touched_ids p = [i] \<and> pt_live_ids p = (if present then ids else ids @ [i])"
      by (fastforce simp: record_upsert_def st_def loaded_state_def Let_def)
  qed
  with True w show ?thesis by blast
qed

theorem cold_insert_mirrors_disk_witness:
  "\<exists>c' e p. aminsert_relfile distinct (\<lambda>_. 8) (\<lambda>_. Inr False) list_store 100 1 1 4 8 13 0 empty_cache vac_world = (Inr True, c', vac_world) \<and>
    entry_of c' \<lparr>ck_rel_oid = 1, ck_attnum = 0, ck_bit_width = 4, ck_dim = 8\<rparr> = Some e \<and> en_dirty e \<and> en_persist e = Some p \<and>
    pt_touched_ids p = [13] \<and> pt_live_ids p = [7, 9, 13]"
proof -
  let ?key = "\<lparr>ck_rel_oid = 1, ck_attnum = 0, ck_bit_width = 4, ck_dim = 8\<rparr> :: cache_key"
  have rows: "map (snd \<circ> snd) vac_rows = [7, 9]" and n: "unat (m_n_vectors vac_meta) = length vac_rows"
    by (simp_all add: vac_rows_def vac_meta_def)
  have md: "read_meta list_store vac_world = (Inr (Some vac_meta), vac_world)" by (rule read_meta_stored [OF vac_stored(1,2)])
  have rd: "read_full_consistent list_store vac_meta vac_world
      = (Inr (vac_meta, concat (map fst vac_rows), map (fst \<circ> snd) vac_rows, [7, 9]), vac_world)"
    unfolding rows [symmetric]
  proof (rule ls.flat_read_back [OF vac_stored(3) _ vac_stored(2,1) n])
    show "flat_layout vac_meta (length vac_rows)" using vac_stored(4) by (simp add: vac_rows_def numeral_2_eq_2)
  qed (simp_all add: vac_rows_def vac_meta_def)
  have tq: "read_tqplus list_store vac_meta vac_world = (Inr ([], []), vac_world)"
    using plan_full_meta(13) [OF demo_plan] by (simp add: read_tqplus_def ret_def vac_meta_def)
  have ld: "load_for_insert distinct list_store vac_world = (Inr (m_n_vectors vac_meta, m_am_version vac_meta, [7, 9]), vac_world)"
    using load_for_insert_run [where id_map_ok = distinct, OF refl md _ rd tq] by (simp add: vac_meta_def)
  have miss: "am_lookup_for_mutation ?key 1 empty_cache = (None, empty_cache)" by (simp add: am_lookup_for_mutation_def)
  obtain c' where run: "aminsert_relfile distinct (\<lambda>_. 8) (\<lambda>_. Inr False) list_store 100 1 1 4 8 13 0 empty_cache vac_world = (Inr True, c', vac_world)"
    by (simp add: aminsert_relfile_def Let_def miss ld am_install_def install_def next_seq_def upsert_mirror_def am_mark_dirty_def
        enforce_cap_def shed.simps mirror_bytes_def loaded_state_def vac_meta_def)
  have k: "?key = \<lparr>ck_rel_oid = 1, ck_attnum = 0, ck_bit_width = ucast (4 :: i32), ck_dim = of_nat 8\<rparr>" and nz: "m_n_vectors vac_meta \<noteq> 0"
    by (simp_all add: vac_meta_def)
  note cold_insert_mirrors_disk [where id_map_ok = distinct, OF empty_cache_ok refl k miss md nz rd tq run, THEN conjunct2, THEN conjunct2, rule_format, OF refl]
  then show ?thesis using run by auto
qed

section \<open>What the upsert of a 1-bit row does\<close>

definition bq_code_at :: "nat \<Rightarrow> u8 list \<Rightarrow> nat \<Rightarrow> u8 list" where
  "bq_code_at stride codes slot = bslice (slot * stride) stride codes"

lemma fold_blit_slots:
  assumes "length code = stride" and "\<And>s. s \<in> set slots \<Longrightarrow> s < n" and "length codes = n * stride" and "distinct slots"
  shows "length (fold (\<lambda>slot. blit (slot * stride) code) slots codes) = n * stride \<and>
    (\<forall>s < n. bq_code_at stride (fold (\<lambda>slot. blit (slot * stride) code) slots codes) s
       = (if s \<in> set slots then code else bq_code_at stride codes s))"
  using assms
proof (induction slots arbitrary: codes)
  case (Cons x slots)
  let ?c = "blit (x * stride) code codes"
  have x: "x < n" and off: "x * stride + stride \<le> length codes"
    using Cons.prems(1,2,3) mult_slot_le [of x n stride] by auto
  have len: "length ?c = n * stride" using off Cons.prems(1,3) by simp
  have at: "bq_code_at stride ?c s = (if s = x then code else bq_code_at stride codes s)" if "s < n" for s
  proof (cases "s = x")
    case True
    then show ?thesis using off Cons.prems(1) bslice_blit_same [of "x * stride" code codes] by (simp add: bq_code_at_def)
  next
    case False
    then have "s * stride + stride \<le> x * stride \<or> x * stride + stride \<le> s * stride"
      by (metis add.commute linorder_neqE_nat mult_Suc mult_le_mono1 Suc_leI)
    moreover have "s * stride + stride \<le> length codes" using mult_slot_le [OF that, of stride] Cons.prems(3) by simp
    ultimately show ?thesis using False off Cons.prems(1) by (auto simp: bq_code_at_def intro!: bslice_blit_disjoint)
  qed
  have "length (fold (\<lambda>slot. blit (slot * stride) code) slots ?c) = n * stride \<and>
    (\<forall>s < n. bq_code_at stride (fold (\<lambda>slot. blit (slot * stride) code) slots ?c) s
       = (if s \<in> set slots then code else bq_code_at stride ?c s))"
    by (rule Cons.IH [OF Cons.prems(1) _ len]) (use Cons.prems(2,4) in auto)
  with at show ?case by auto
qed simp

lemma clear_slot_bit_exact: "length (clear_slot_bit x t) = length t" "slot_dead (clear_slot_bit x t) s \<longleftrightarrow> slot_dead t s \<and> s \<noteq> x"
proof -
  have "length (clear_slot_bit x t) = length t \<and> (slot_dead (clear_slot_bit x t) s \<longleftrightarrow> slot_dead t s \<and> s \<noteq> x)"
  proof (cases "x div 8 < length t")
    case True
    then obtain t' where "clear_bit_at x t = Some t'" "length t' = length t" "slot_dead t' s = (slot_dead t s \<and> s \<noteq> x)"
      by (rule clear_bit_at_spec) blast
    then show ?thesis by (simp add: clear_slot_bit_def)
  next
    case False
    then show ?thesis by (auto simp: clear_slot_bit_def clear_bit_at_def slot_dead_def)
  qed
  then show "length (clear_slot_bit x t) = length t" "slot_dead (clear_slot_bit x t) s \<longleftrightarrow> slot_dead t s \<and> s \<noteq> x"
    by simp_all
qed

lemma fold_clear_slots:
  "length (fold clear_slot_bit slots t) = length t \<and>
   (\<forall>s. slot_dead (fold clear_slot_bit slots t) s \<longleftrightarrow> slot_dead t s \<and> s \<notin> set slots)"
  by (induction slots arbitrary: t) (auto simp: clear_slot_bit_exact)

text \<open>One bit per slot and none past the end.\<close>

definition bits_below :: "nat \<Rightarrow> u8 list \<Rightarrow> bool" where
  "bits_below n tombs \<longleftrightarrow> (\<forall>s. slot_dead tombs s \<longrightarrow> s < n) \<and> length tombs \<le> nat_div_ceil (n + 1) 8"

lemma bq_upsert_spec:
  assumes up: "bq_upsert i code stride codes ids tombs = Some (codes', ids', tombs')"
    and len: "length code = stride" "length codes = length ids * stride" and bits: "bits_below (length ids) tombs"
  shows "ids' = (if i \<in> set ids then ids else ids @ [i])" "length codes' = length ids' * stride"
    "\<forall>s < length ids'. bq_code_at stride codes' s = (if ids' ! s = i then code else bq_code_at stride codes s)"
    "\<forall>s < length ids'. slot_dead tombs' s \<longleftrightarrow> slot_dead tombs s \<and> ids' ! s \<noteq> i" "bits_below (length ids') tombs'"
proof -
  let ?ex = "filter (\<lambda>slot. ids ! slot = i) [0..<length ids]"
  have ex: "?ex = [] \<longleftrightarrow> i \<notin> set ids" by (auto simp: filter_empty_conv in_set_conv_nth)
  have "ids' = (if i \<in> set ids then ids else ids @ [i]) \<and> length codes' = length ids' * stride \<and>
    (\<forall>s < length ids'. bq_code_at stride codes' s = (if ids' ! s = i then code else bq_code_at stride codes s)) \<and>
    (\<forall>s < length ids'. slot_dead tombs' s \<longleftrightarrow> slot_dead tombs s \<and> ids' ! s \<noteq> i) \<and> bits_below (length ids') tombs'"
  proof (cases "i \<in> set ids")
    case True
    with up ex len(1) have r: "codes' = fold (\<lambda>slot. blit (slot * stride) code) ?ex codes" "ids' = ids"
        "tombs' = fold clear_slot_bit ?ex tombs"
      by (auto simp: bq_upsert_def Let_def)
    have "length codes' = length ids * stride \<and> (\<forall>s < length ids. bq_code_at stride codes' s
        = (if s \<in> set ?ex then code else bq_code_at stride codes s))"
      unfolding r(1) by (rule fold_blit_slots) (use len in auto)
    moreover have "s \<in> set ?ex \<longleftrightarrow> ids ! s = i" if "s < length ids" for s using that by simp
    ultimately show ?thesis
      using True fold_clear_slots [of ?ex tombs] bits by (simp add: r bits_below_def)
  next
    case False
    with up ex have r: "codes' = codes @ code" "ids' = ids @ [i]"
        "tombs' = (if tombs = [] then [] else resize0 (nat_div_ceil (length ids + 1) 8) tombs)"
      by (simp_all add: bq_upsert_def Let_def)
    have code: "bq_code_at stride codes' s = (if ids' ! s = i then code else bq_code_at stride codes s)" if "s < length ids'" for s
    proof (cases "s < length ids")
      case True
      then have "ids ! s \<noteq> i" using False by (metis nth_mem)
      moreover have "s * stride + stride \<le> length codes" using True len(2) mult_slot_le [of s "length ids" stride] by simp
      ultimately show ?thesis using True by (simp add: r bq_code_at_def bslice_def nth_append)
    next
      case past: False
      then have "s = length ids" using that r(2) by simp
      then show ?thesis using len by (simp add: r bq_code_at_def bslice_def)
    qed
    have small: "s div 8 < nat_div_ceil (length ids + 1) 8" if "s \<le> length ids" for s
      using slot_block [of 8 s "length ids + 1"] that by simp
    have dead: "slot_dead tombs' s \<longleftrightarrow> slot_dead tombs s" if "s < length ids'" for s
      using that small [of s] slot_dead_resize0 [of s _ tombs] r by (auto simp: slot_dead_def)
    have "ids ! s \<noteq> i" if "s < length ids" for s using that False by (metis nth_mem)
    then have live: "slot_dead tombs s \<Longrightarrow> s < length ids' \<Longrightarrow> ids' ! s \<noteq> i" for s
      using bits r(2) by (auto simp: bits_below_def nth_append)
    have "s < length ids'" if "slot_dead tombs' s" for s
    proof (rule ccontr)
      assume "\<not> ?thesis"
      then have past: "length ids < s" using r(2) by simp
      from that r(3) have t: "slot_dead (resize0 (nat_div_ceil (length ids + 1) 8) tombs) s"
        by (auto simp: slot_dead_def split: if_splits)
      then have "s div 8 < nat_div_ceil (length ids + 1) 8" by (simp add: slot_dead_def)
      with t have "slot_dead tombs s" using slot_dead_resize0 by blast
      with bits past show False by (auto simp: bits_below_def)
    qed
    moreover have "length tombs' \<le> nat_div_ceil (length ids' + 1) 8"
      using r by (auto simp: nat_div_ceil_def)
    ultimately show ?thesis using False code dead live len by (auto simp: r(1,2) bits_below_def)
  qed
  then show "ids' = (if i \<in> set ids then ids else ids @ [i])" "length codes' = length ids' * stride"
    "\<forall>s < length ids'. bq_code_at stride codes' s = (if ids' ! s = i then code else bq_code_at stride codes s)"
    "\<forall>s < length ids'. slot_dead tombs' s \<longleftrightarrow> slot_dead tombs s \<and> ids' ! s \<noteq> i" "bits_below (length ids') tombs'"
    by blast+
qed

section \<open>The insert into a 1-bit index\<close>

text \<open>The code the row gets, and a meta page that fits its chains.\<close>

definition bq_row_code :: "'f::linorder env \<Rightarrow> bool \<Rightarrow> f32_bits list \<Rightarrow> 'f list \<Rightarrow> u8 list" where
  "bq_row_code ev normalise mean v =
     pack_signs (ev_ar ev) (center (ev_ar ev) (if normalise then normalise_to_vec ev v else v) (map (ev_of_bits ev) mean))"

definition bq_shape :: "meta \<Rightarrow> u8 list \<Rightarrow> u64 list \<Rightarrow> f32_bits list \<Rightarrow> bool" where
  "bq_shape m codes ids mean \<longleftrightarrow> is_bq m \<and> 0 < m_n_vectors m \<and> bq_inputs (m_dim m) (m_n_vectors m) codes ids mean \<and>
     m_stride_bytes m = of_nat (onebit_codes_stride (unat (m_dim m)))"

lemma length_normalise [simp]: "length (normalise_to_vec ev v) = length v"
  by (simp add: normalise_to_vec_def Let_def)

lemma length_bq_row_code:
  "length mean = length v \<Longrightarrow> length (bq_row_code ev normalise mean v) = onebit_codes_stride (length v)"
  by (auto simp: bq_row_code_def length_pack_signs center_def onebit_codes_stride_def)

lemma unlock_write_run: "seq_io unlock_relfile_write d w = d (w\<lparr>w_xlock := w_xlock w - 1\<rparr>)"
  by (simp add: seq_io_def bind_io_def unlock_relfile_write_def)

lemma insert_bq_row_run:
  assumes disk: "bq_reads S m codes ids mean tombs (w_rel w)" and ix: "bq_shape m codes ids mean"
    and v: "length v = unat (m_dim m)"
    and up: "bq_upsert i (bq_row_code ev normalise mean v) (unat (m_stride_bytes m)) codes ids tombs = Some (codes', ids', tombs')"
  shows "insert_bq_row ev normalise S skip v i w =
    seq_io (write_full_bq_parts S skip (m_dim m) (len64 ids') codes' ids' mean (m_am_version m + 1) None tombs' (m_lists m))
      (seq_io unlock_relfile_write (ret False)) (w\<lparr>w_xlock := w_xlock w + 1\<rparr>)"
proof -
  let ?w = "w\<lparr>w_xlock := w_xlock w + 1\<rparr>"
  have r: "bq_reads S m codes ids mean tombs (w_rel ?w)" using disk by simp
  note rd = bq_readsD [OF r]
  have ix': "is_bq m" "m_dim m \<noteq> 0" "length mean = unat (m_dim m)" "length ids = unat (m_n_vectors m)"
    "length codes = unat (m_n_vectors m) * unat (m_stride_bytes m)"
    using ix bq_stride(2) [of "m_dim m" "m_n_vectors m" codes ids mean] by (simp_all add: bq_shape_def bq_inputs_def)
  show ?thesis
    using rd ix' v up
    by (simp add: insert_bq_row_def seq_io_lock bind_io_def option_io_def ret_def Let_def bq_row_code_def)
qed

text \<open>
  C8: an insert into a 1-bit index that no cancel interrupts returns and gives its locks back, and the readers then
  see the row under its new code and every other row as it was: the id's slots hold the new code and are live, an id
  without a slot gets one at the end, no other slot changes its code, its id or its tombstone.
\<close>

theorem bq_insert_exact:
  assumes S: "page_store S" and disk: "bq_reads S m codes ids mean tombs (w_rel w)" and ix: "bq_shape m codes ids mean"
    and bits: "bits_below (length ids) tombs" and v: "length v = unat (m_dim m)" and quiet: "w_polls w = None"
    and up: "bq_upsert i (bq_row_code ev normalise mean v) (unat (m_stride_bytes m)) codes ids tombs = Some (codes', ids', tombs')"
    and plan: "bq_planned (m_dim m) (len64 ids') (m_am_version m + 1) tombs' (m_lists m) m'" and room: "length ids' < 2 ^ 64"
  shows "\<exists>w'. insert_bq_row ev normalise S skip v i w = (Inr False, w') \<and> w_xlock w' = w_xlock w \<and> w_slock w' = w_slock w \<and>
    bq_reads S m' codes' ids' mean tombs' (w_rel w') \<and> bq_shape m' codes' ids' mean \<and> bits_below (length ids') tombs' \<and>
    ids' = (if i \<in> set ids then ids else ids @ [i]) \<and>
    (\<forall>s < length ids'. bq_code_at (unat (m_stride_bytes m)) codes' s
       = (if ids' ! s = i then bq_row_code ev normalise mean v else bq_code_at (unat (m_stride_bytes m)) codes s)) \<and>
    (\<forall>s < length ids'. slot_dead tombs' s \<longleftrightarrow> slot_dead tombs s \<and> ids' ! s \<noteq> i)"
proof -
  have inp: "bq_inputs (m_dim m) (m_n_vectors m) codes ids mean"
    and st: "unat (m_stride_bytes m) = onebit_codes_stride (unat (m_dim m))"
    using ix bq_stride(2) by (auto simp: bq_shape_def)
  have code: "length (bq_row_code ev normalise mean v) = unat (m_stride_bytes m)"
    using inp v st by (simp add: length_bq_row_code bq_inputs_def)
  have len: "length codes = length ids * unat (m_stride_bytes m)" using inp st by (simp add: bq_inputs_def)
  note up' = bq_upsert_spec [OF up code len bits]
  have inp': "bq_inputs (m_dim m) (len64 ids') codes' ids' mean"
    using inp up'(2) room st by (simp add: bq_inputs_def)
  let ?w = "w\<lparr>w_xlock := w_xlock w + 1\<rparr>"
  obtain w' where w': "write_full_bq_parts S skip (m_dim m) (len64 ids') codes' ids' mean (m_am_version m + 1) None tombs' (m_lists m) ?w
      = (Inr (), w')" "meta_stored S m' (w_rel w')" "bq_stored S m' codes' ids' mean tombs' (w_rel w')"
      "w_xlock w' = w_xlock ?w" "w_slock w' = w_slock ?w"
    by (rule page_store.bq_rewrite_run [OF S plan inp', of ?w skip]) (use quiet in simp_all)
  have reads: "bq_reads S m' codes' ids' mean tombs' (w_rel w')"
    by (rule page_store.bq_stored_reads [OF S plan inp' w'(2,3)])
  note f = bq_planned_fields [OF plan]
  have "bq_shape m' codes' ids' mean" using inp' f plan by (simp add: bq_shape_def bq_planned_def)
  then show ?thesis
    using reads w'(4,5) up' insert_bq_row_run [OF disk ix v up] w'(1)
    by (intro exI [of _ "w'\<lparr>w_xlock := w_xlock w' - 1\<rparr>"])
      (simp add: seq_io_Inr unlock_write_run ret_def)
qed

definition demo_bq_meta :: "u32 \<Rightarrow> u8 list \<Rightarrow> meta" where
  "demo_bq_meta v tombs = the (map_option (plan_bq_parts 8 1 v None tombs 0) (plan_bq 8 1 v))"

lemma demo_bq_planned:
  assumes "length tombs = 1"
  shows "bq_planned 8 1 v tombs 0 (demo_bq_meta v tombs)"
proof -
  obtain m0 where p: "plan_bq 8 1 v = Some m0" by (simp add: plan_bq_def Let_def)
  have m: "demo_bq_meta v tombs = plan_tombstones tombs m0" by (simp add: demo_bq_meta_def p plan_bq_parts_def)
  have ne: "tombs \<noteq> []" using assms by auto
  have "fits (demo_bq_meta v tombs)"
    using plan_bq_fields [OF p] plan_bq_absent [OF p] ne assms
    by (simp add: m fits_def block_sum_eq plan_tombstones_def onebit_codes_stride_def nat_div_ceil_def page_counts len64_def)
  then show ?thesis using assms p by (simp add: bq_planned_def demo_bq_meta_def)
qed

lemma demo_bq_inputs: "length codes = 1 \<Longrightarrow> bq_inputs 8 1 codes [i] (replicate 8 0)"
  by (simp add: bq_inputs_def onebit_codes_stride_def nat_div_ceil_def PAYLOAD_BYTES_eq)

lemma demo_bq_file:
  obtains w :: "page list world" where "bq_reads list_store (demo_bq_meta 1 [1]) [5] [7] (replicate 8 0) [1] (w_rel w)"
    and "bq_shape (demo_bq_meta 1 [1]) [5] [7] (replicate 8 0)" and "w_polls w = None"
proof -
  have p: "bq_planned 8 1 1 [1] 0 (demo_bq_meta 1 [1])" and i: "bq_inputs 8 1 [5] [7] (replicate 8 0)"
    by (simp_all add: demo_bq_planned demo_bq_inputs)
  note f = bq_planned_fields [OF p]
  obtain w :: "page list world" where "meta_stored list_store (demo_bq_meta 1 [1]) (w_rel w)"
      "bq_stored list_store (demo_bq_meta 1 [1]) [5] [7] (replicate 8 0) [1] (w_rel w)" "w_polls w = None"
    by (rule ls.bq_rewrite_run [OF p i, of demo_world True]) (auto simp: demo_world_def)
  moreover have "bq_shape (demo_bq_meta 1 [1]) [5] [7] (replicate 8 0)" using f i by (simp add: bq_shape_def)
  ultimately show thesis using ls.bq_stored_reads [OF p i] that by blast
qed

theorem bq_insert_exact_witness:
  "\<exists>w w' m'. insert_bq_row demo_env False list_store True (replicate 8 1) 7 w = (Inr False, w') \<and>
    bq_reads list_store (demo_bq_meta 1 [1]) [5] [7] (replicate 8 0) [1] (w_rel w) \<and>
    bq_reads list_store m' (bq_row_code demo_env False (replicate 8 0) (replicate 8 1)) [7] (replicate 8 0) [0] (w_rel w')"
proof -
  let ?m = "demo_bq_meta 1 [1]" and ?code = "bq_row_code demo_env False (replicate 8 0) (replicate 8 1)"
  obtain w :: "page list world" where w: "bq_reads list_store ?m [5] [7] (replicate 8 0) [1] (w_rel w)" "bq_shape ?m [5] [7] (replicate 8 0)" "w_polls w = None"
    by (rule demo_bq_file)
  have p1: "bq_planned 8 1 1 [1] 0 ?m" by (simp add: demo_bq_planned)
  note f = bq_planned_fields [OF p1]
  have st: "unat (m_stride_bytes ?m) = 1" by (simp add: f onebit_codes_stride_def nat_div_ceil_def)
  have len: "length ?code = 1" by (simp add: length_bq_row_code onebit_codes_stride_def nat_div_ceil_def)
  have "\<exists>w'. insert_bq_row demo_env False list_store True (replicate 8 1) 7 w = (Inr False, w') \<and> w_xlock w' = w_xlock w \<and>
    w_slock w' = w_slock w \<and> bq_reads list_store (demo_bq_meta 2 [0]) ?code [7] (replicate 8 0) [0] (w_rel w') \<and>
    bq_shape (demo_bq_meta 2 [0]) ?code [7] (replicate 8 0) \<and> bits_below (length [7 :: u64]) [0] \<and>
    [7 :: u64] = (if 7 \<in> set [7 :: u64] then [7] else [7] @ [7]) \<and>
    (\<forall>s < length [7 :: u64]. bq_code_at (unat (m_stride_bytes ?m)) ?code s
       = (if [7] ! s = (7 :: u64) then ?code else bq_code_at (unat (m_stride_bytes ?m)) [5] s)) \<and>
    (\<forall>s < length [7 :: u64]. slot_dead [0] s \<longleftrightarrow> slot_dead [1] s \<and> [7] ! s \<noteq> (7 :: u64))"
  proof (rule bq_insert_exact [OF ls.page_store_axioms w(1,2) _ _ w(3)])
    show "bits_below (length [7 :: u64]) [1]" by (auto simp: bits_below_def slot_dead_def nat_div_ceil_def bit_1_iff)
    show "length (replicate 8 1) = unat (m_dim ?m)" by (simp add: f)
    have "unset_bit 0 (1 :: u8) = 0" by (rule bit_eqI) (auto simp: bit_unset_bit_iff bit_1_iff)
    then show "bq_upsert 7 ?code (unat (m_stride_bytes ?m)) [5] [7] [1] = Some (?code, [7], [0])"
      by (simp add: st bq_upsert_def len blit_def clear_slot_bit_def clear_bit_at_def)
    show "bq_planned (m_dim ?m) (len64 [7 :: u64]) (m_am_version ?m + 1) [0] (m_lists ?m) (demo_bq_meta 2 [0])"
      using demo_bq_planned [of "[0]" 2] by (simp add: f len64_def)
  qed simp
  with w(1) show ?thesis by blast
qed

section \<open>An empty 1-bit index of a declared dimension\<close>

text \<open>
  C34: the build writes no mean chain for an empty table.  With \<open>dim\<close> left open the first insert starts from a zero
  mean, but with \<open>WITH (dim = d)\<close> the meta page has a dimension and no mean, and every insert of a row of that
  dimension is rejected as if the chain had been lost.
\<close>

theorem empty_pinned_bq_rejects_inserts:
  assumes S: "page_store S" and dim: "dim mod 8 = 0" "dim \<noteq> 0" and quiet: "w_polls w = None" and v: "length v = unat dim"
  shows "\<exists>w1 w2. write_full_bq S skip dim 0 [] [] [] 1 w = (Inr (), w1) \<and>
    insert_bq_row ev normalise S skip v i w1 = (Inl (Reported ''missing its corpus-mean vector''), w2) \<and>
    w_rel w2 = w_rel w1 \<and> w_xlock w2 = w_xlock w1"
proof -
  obtain m0 where p: "plan_bq dim 0 1 = Some m0" using dim(1) by (simp add: plan_bq_def Let_def)
  note f = plan_bq_fields [OF p] plan_bq_absent [OF p]
  let ?m = "m0\<lparr>m_bq_mean_first := 0, m_bq_mean_count := 0, m_bq_mean_bytes := 0\<rparr>"
  have run: "write_full_bq S skip dim 0 [] [] [] 1 w = seq_io (extend_to S (max (total_blocks m0) 1)) (write_meta S ?m) w"
    by (simp add: write_full_bq_def write_full_bq_parts_def p Let_def plan_bq_parts_def seq_ret_unit)
  have "touches S {0} (seq_io (extend_to S (max (total_blocks m0) 1)) (write_meta S ?m)) w (\<lambda>r. 0 < ps_nblocks S r \<and> meta_stored S ?m r)"
  proof (rule touches_seq_frame [where X = "{}" and Y = "{0}"])
    have "0 < unat (max (total_blocks m0) 1)" by (auto simp: max_def unat_gt_0 word_le_nat_alt)
    then show "touches S {} (extend_to S (max (total_blocks m0) 1)) w (\<lambda>r. 0 < ps_nblocks S r)"
      by (intro touches_weaken [OF page_store.extend_to_touches [OF S]]) auto
    show "touches S {0} (write_meta S ?m) w1 (meta_stored S ?m)" if "0 < ps_nblocks S (w_rel w1)" for w1
      using page_store.write_meta_touches [OF S that] by (rule touches_weaken) auto
  qed (auto simp: same_outside_def)
  then obtain w1 where w1: "seq_io (extend_to S (max (total_blocks m0) 1)) (write_meta S ?m) w = (Inr (), w1)" "meta_stored S ?m (w_rel w1)"
    by (rule touchesE) (use quiet in auto)
  define m where "m = ?m"
  have m: "is_bq m" "m_dim m = dim" "m_bq_mean_bytes m = 0" "encodable m"
    using f by (simp_all add: m_def is_bq_def encodable_def MAX_CODEBOOK_LEVELS_def)
  let ?w = "w1\<lparr>w_xlock := w_xlock w1 + 1\<rparr>"
  have rd: "read_meta S ?w = (Inr (Some m), ?w)"
    using w1(2) m(4) by (intro read_meta_stored) (simp_all add: m_def)
  have "insert_bq_row ev normalise S skip v i w1 = (Inl (Reported ''missing its corpus-mean vector''), w1)"
    using rd m v dim(2) by (simp add: insert_bq_row_def seq_io_lock bind_io_def read_bq_mean_def ret_def Let_def
        fail_unlocked_def unlock_write_run raise_def unat_eq_0)
  with run w1(1) show ?thesis by simp
qed

theorem empty_pinned_bq_rejects_inserts_witness:
  "\<exists>w1 w2. write_full_bq list_store True 8 0 [] [] [] 1 demo_world = (Inr (), w1) \<and>
    insert_bq_row demo_env False list_store True (replicate 8 1) 7 w1 = (Inl (Reported ''missing its corpus-mean vector''), w2) \<and>
    w_rel w2 = w_rel w1 \<and> w_xlock w2 = w_xlock w1"
  by (rule empty_pinned_bq_rejects_inserts [OF ls.page_store_axioms]) (simp_all add: demo_world_def)

section \<open>The insert into a graph index\<close>

text \<open>What the readers see of a graph index, and the shape its parts have.\<close>

definition graph_reads ::
  "'r pstore \<Rightarrow> meta \<Rightarrow> u8 list \<Rightarrow> f32_bits list \<Rightarrow> u64 list \<Rightarrow> adjacency \<Rightarrow> u8 list \<Rightarrow> 'r \<Rightarrow> bool" where
  "graph_reads S m codes scales ids g tombs r \<longleftrightarrow>
     (\<forall>w. w_rel w = r \<longrightarrow>
        read_meta S w = (Inr (Some m), w) \<and> read_full S m w = (Inr (codes, scales, ids), w) \<and>
        read_graph_adjacency S m w = (Inr (Some g), w) \<and> read_tombstones S m w = (Inr tombs, w))"

definition graph_shape :: "meta \<Rightarrow> f32_bits list \<Rightarrow> u64 list \<Rightarrow> adjacency \<Rightarrow> bool" where
  "graph_shape m scales ids g \<longleftrightarrow> is_graph m \<and> 0 < m_n_vectors m \<and> length ids = unat (m_n_vectors m) \<and>
     length scales = unat (m_n_vectors m) \<and> node_count g = unat (m_n_vectors m)"

lemma insert_entry_live:
  assumes "s < length live" "live ! s" and small: "length live \<le> 2 ^ 32"
  shows "unat (insert_entry stored live) < length live \<and> live ! unat (insert_entry stored live)"
proof (cases "unat stored < length live \<and> live ! unat stored")
  case False
  have "filter (\<lambda>s. live ! s) [0..<length live] \<noteq> []" using assms(1,2) by (auto simp: filter_empty_conv)
  then obtain x xs where x: "filter (\<lambda>s. live ! s) [0..<length live] = x # xs" by (meson neq_Nil_conv)
  then have "x \<in> set (filter (\<lambda>s. live ! s) [0..<length live])" by simp
  then have "x < length live" "live ! x" by auto
  moreover from this small have "unat (of_nat x :: u32) = x" by (simp add: unat_of_nat take_bit_nat_eq_self)
  ultimately show ?thesis using False x by (simp add: insert_entry_def)
qed (simp add: insert_entry_def)

lemma extend_bitmap_exact:
  assumes "\<And>s. slot_dead tombs s \<Longrightarrow> s < n"
  shows "slot_dead (extend_bitmap n tombs) s \<longleftrightarrow> slot_dead tombs s"
proof (cases "tombs = []")
  case False
  have fits: "s div 8 < nat_div_ceil (n + 2) 8" if "s < n" for s
    using slot_block [of 8 s "n + 2"] that by simp
  show ?thesis
  proof (cases "s div 8 < nat_div_ceil (n + 2) 8")
    case True
    then show ?thesis using False slot_dead_resize0 by (simp add: extend_bitmap_def)
  next
    case past: False
    then have "\<not> slot_dead tombs s" using assms [of s] fits [of s] by blast
    moreover have "\<not> slot_dead (extend_bitmap n tombs) s" using past False by (simp add: extend_bitmap_def slot_dead_def)
    ultimately show ?thesis by simp
  qed
qed (simp add: extend_bitmap_def slot_dead_def)

lemma insert_graph_row_run:
  assumes disk: "graph_reads S m codes scales ids g tombs (w_rel w)" and ix: "graph_shape m scales ids g"
    and v: "length v = unat (m_dim m)" and new: "i \<notin> set ids"
    and ro: "read_only_of ok S m codes scales ids (w\<lparr>w_xlock := w_xlock w + 1\<rparr>) = (Inr ro, w\<lparr>w_xlock := w_xlock w + 1\<rparr>)"
    and tq: "read_tqplus S m (w\<lparr>w_xlock := w_xlock w + 1\<rparr>) = (Inr tq, w\<lparr>w_xlock := w_xlock w + 1\<rparr>)"
    and x: "x = (if normalise then normalise_to_vec ev v else v)"
    and entry: "entry = insert_entry (m_graph_entry_point m) (live_mask (unat (m_n_vectors m)) tombs)"
    and g': "insert_one_node_via_oracle (ev_ar ev) alpha g entry x (slot_scores (ev_engine ev) ro) = Some g'"
    and enc: "encode_row m codes scales tq x = Inr (codes', scales', prepared)"
  shows "insert_graph_row ev alpha cb ok encode_row normalise S skip v i w =
    seq_io (write_full_with_prepared_graph_and_tombstones cb S skip (m_bit_width m) (m_dim m) (m_n_vectors m + 1) codes' scales'
        (ids @ [i]) (sat_succ (m_am_version m)) prepared (graph_parts_of g' entry) (extend_bitmap (unat (m_n_vectors m)) tombs))
      (seq_io unlock_relfile_write (ret True)) (w\<lparr>w_xlock := w_xlock w + 1\<rparr>)"
proof -
  let ?w = "w\<lparr>w_xlock := w_xlock w + 1\<rparr>"
  have "read_meta S ?w = (Inr (Some m), ?w)" "read_full S m ?w = (Inr (codes, scales, ids), ?w)"
    "read_graph_adjacency S m ?w = (Inr (Some g), ?w)" "read_tombstones S m ?w = (Inr tombs, ?w)"
    using disk by (simp_all add: graph_reads_def)
  then show ?thesis
    using ix v new ro tq g' enc
    by (simp add: insert_graph_row_def seq_io_lock bind_io_def option_io_def ret_def Let_def graph_shape_def
        flip: x entry)
qed

text \<open>
  C9: an insert into a graph index that no cancel interrupts returns and gives its locks back.  The readers then see
  the new row at the end and every id as it was, a graph of one more node that passes the structural check from the
  entry point the meta page now names, and the tombstones unchanged: no deleted row comes back and the new one is
  live.  The entry point is live whenever any row is.
\<close>

theorem graph_insert_exact:
  assumes S: "page_store S" and disk: "graph_reads S m codes scales ids g tombs (w_rel w)" and ix: "graph_shape m scales ids g"
    and bits: "\<And>s. slot_dead tombs s \<Longrightarrow> s < length ids" and v: "length v = unat (m_dim m)" and new: "i \<notin> set ids"
    and ro: "read_only_of ok S m codes scales ids (w\<lparr>w_xlock := w_xlock w + 1\<rparr>) = (Inr ro, w\<lparr>w_xlock := w_xlock w + 1\<rparr>)"
    and tq: "read_tqplus S m (w\<lparr>w_xlock := w_xlock w + 1\<rparr>) = (Inr tq, w\<lparr>w_xlock := w_xlock w + 1\<rparr>)"
    and x: "x = (if normalise then normalise_to_vec ev v else v)"
    and entry: "entry = insert_entry (m_graph_entry_point m) (live_mask (length ids) tombs)"
    and healthy: "healthy g entry" and small: "length ids < 2 ^ 32 - 1" "edge_count g + (length ids + 1) * GRAPH_DEGREE_R < 2 ^ 32"
    and g': "insert_one_node_via_oracle (ev_ar ev) alpha g entry x (slot_scores (ev_engine ev) ro) = Some g'"
    and enc: "encode_row m codes scales tq x = Inr (codes', scales', prepared)" "length scales' = length ids + 1"
    and plan: "plan_full cb (m_bit_width m) (m_dim m) (m_n_vectors m + 1) (sat_succ (m_am_version m)) (Some prepared) None
        (Some (graph_parts_of g' entry)) (extend_bitmap (length ids) tombs) 0 = Some m'" "fits m'"
    and inp: "rewrite_inputs (m_bit_width m) (m_dim m) (m_n_vectors m + 1) codes' (Some prepared) None
        (Some (graph_parts_of g' entry)) (extend_bitmap (length ids) tombs)"
    and quiet: "w_polls w = None"
  shows "\<exists>w'. insert_graph_row ev alpha cb ok encode_row normalise S skip v i w = (Inr True, w') \<and>
    w_xlock w' = w_xlock w \<and> w_slock w' = w_slock w \<and>
    graph_reads S m' codes' scales' (ids @ [i]) g' (extend_bitmap (length ids) tombs) (w_rel w') \<and>
    graph_shape m' scales' (ids @ [i]) g' \<and> m_graph_entry_point m' = entry \<and> one_more g entry g' \<and>
    (\<forall>s. slot_dead (extend_bitmap (length ids) tombs) s \<longleftrightarrow> slot_dead tombs s) \<and>
    ((\<exists>s < length ids. \<not> slot_dead tombs s) \<longrightarrow> unat entry < length ids \<and> \<not> slot_dead tombs (unat entry))"
proof -
  have n: "unat (m_n_vectors m) = length ids" "node_count g = length ids" "0 < length ids"
    using ix by (auto simp: graph_shape_def unat_gt_0 word_gt_0)
  have n1: "unat (m_n_vectors m + 1) = length ids + 1"
    using n(1) small(1) by (simp add: unat_plus_if_size word_size)
  then have n1': "m_n_vectors m + 1 \<noteq> 0" by auto
  obtain rows where "insert_one_node_via_oracle (ev_ar ev) alpha g entry x (slot_scores (ev_engine ev) ro) = Some (from_lists rows)"
    and om: "one_more g entry (from_lists rows)" and rows: "length rows = node_count g + 1" "length (concat rows) < 2 ^ 32"
    by (rule insert_via_oracle_rows [OF healthy, of "ev_ar ev" alpha x "slot_scores (ev_engine ev) ro"]) (use n small in simp_all)
  with g' have gr: "g' = from_lists rows" by simp
  let ?w = "w\<lparr>w_xlock := w_xlock w + 1\<rparr>" and ?t = "extend_bitmap (length ids) tombs"
  have len: "length scales' = unat (m_n_vectors m + 1)" "length (ids @ [i]) = unat (m_n_vectors m + 1)"
    using enc(2) n1 by simp_all
  obtain w' where w': "write_full_with_prepared_graph_and_tombstones cb S skip (m_bit_width m) (m_dim m) (m_n_vectors m + 1)
        codes' scales' (ids @ [i]) (sat_succ (m_am_version m)) prepared (graph_parts_of g' entry) ?t ?w = (Inr (), w')"
      "index_stored S m' codes' scales' (ids @ [i]) (Some prepared) None (Some (graph_parts_of g' entry)) ?t (w_rel w')"
      "w_xlock w' = w_xlock ?w" "w_slock w' = w_slock ?w"
    by (rule graph_rewrite_run [OF S plan(1,2) inp len, of ?w skip]) (use quiet in simp_all)
  have st: "index_stored S m' codes' scales' (ids @ [i]) (Some prepared) None (Some (graph_parts_of g' entry)) ?t (w_rel w1)"
    if "w_rel w1 = w_rel w'" for w1 using w'(2) that by simp
  note reads = graph_stored_reads [OF S plan(1) [unfolded graph_parts_of_def] plan(2) inp [unfolded graph_parts_of_def] len n1' gr _ rows(2)
      st [unfolded graph_parts_of_def]]
  note me = plan_full_meta [OF plan(1)]
  have "read_meta S w1 = (Inr (Some m'), w1)" if "w_rel w1 = w_rel w'" for w1
    using w'(2) me(9) that by (intro read_meta_stored) (simp_all add: index_stored_def)
  then have gd: "graph_reads S m' codes' scales' (ids @ [i]) g' ?t (w_rel w')"
    using reads rows(1) n n1 n1' me(1) by (simp add: graph_reads_def read_full_def bind_io_def ret_def)
  have gi: "graph_shape m' scales' (ids @ [i]) g'" "m_graph_entry_point m' = entry"
    using reads(3,4) [of w'] rows(1) n n1 n1' me(1) enc(2) gr by (simp_all add: graph_shape_def word_gt_0)
  have run: "insert_graph_row ev alpha cb ok encode_row normalise S skip v i w = (Inr True, w'\<lparr>w_xlock := w_xlock w' - 1\<rparr>)"
    using insert_graph_row_run [where encode_row = encode_row, OF disk ix v new ro tq x _ g' enc(1)] entry w'(1) n(1)
    by (simp add: seq_io_Inr unlock_write_run ret_def)
  have live: "unat entry < length ids \<and> \<not> slot_dead tombs (unat entry)" if "s < length ids" "\<not> slot_dead tombs s" for s
  proof -
    let ?l = "live_mask (length ids) tombs"
    have l: "length ?l = length ids" "\<And>k. k < length ids \<Longrightarrow> ?l ! k \<longleftrightarrow> \<not> slot_dead tombs k"
      by (auto simp: live_mask_def slot_dead_def)
    then show ?thesis using insert_entry_live [of s ?l "m_graph_entry_point m"] that small(1) entry by auto
  qed
  show ?thesis
    using run w'(3,4) gd gi om gr live extend_bitmap_exact [OF bits]
    by (intro exI [of _ "w'\<lparr>w_xlock := w_xlock w' - 1\<rparr>"]) auto
qed

text \<open>Two rows, the second one deleted, and its entry point on the deleted row.\<close>

definition demo_graph3 :: adjacency where
  "demo_graph3 = from_lists [[1, 2], [0, 2], [0, 1]]"

definition demo_graph3_meta :: meta where
  "demo_graph3_meta = the (plan_full demo_codebook 4 8 3 2 (Some demo_prepared) None (Some (graph_parts_of demo_graph3 0)) [2] 0)"

definition demo_encoder :: "int row_encoder" where
  "demo_encoder m codes scales tq x = Inr (codes @ [9, 10, 11, 12], scales @ [0x3F800000], demo_prepared)"

definition demo_graph_ro :: read_only where
  "demo_graph_ro = \<lparr>ro_tqplus = ([], []), ro_codes = [1, 2, 3, 4, 5, 6, 7, 8], ro_scales = [0x3F800000, 0x3F800000],
     ro_slot_to_id = [7, 9]\<rparr>"

lemma demo_graph3_plan:
  "plan_full demo_codebook 4 8 3 2 (Some demo_prepared) None (Some (graph_parts_of demo_graph3 0)) [2] 0 = Some demo_graph3_meta"
proof -
  have "plan_with_blocked 4 8 3 2 0 0 0 \<noteq> None" by (simp add: plan_with_blocked_def Let_def)
  then show ?thesis
    by (auto simp: demo_graph3_meta_def plan_full_def demo_codebook_def demo_prepared_def tqplus_chain_len_def
        set_codebook_def MAX_CODEBOOK_LEVELS_def)
qed

lemma demo_graph3_lengths: "length (encode_offsets demo_graph3) = 16" "length (encode_neighbors demo_graph3) = 24"
  by (simp_all add: encode_offsets_def encode_neighbors_def demo_graph3_def from_lists_def u32c.length_concat_enc)

lemma demo_plan_graph:
  assumes p: "plan_full cb bw dim n v (Some demo_prepared) None graph t 0 = Some m"
  shows "m_bit_width m = bw" "m_rotation_count m = 0" "m_coarse_count m = 0" "m_cell_dir_count m = 0"
proof -
  from p obtain m0 where p0: "plan_with_blocked bw dim n v 0 0 0 = Some m0"
    and m: "\<exists>m1. set_codebook (snd (cb (unat bw) (unat dim))) (fst (cb (unat bw) (unat dim))) m0 = Some m1 \<and>
      m = plan_tombstones t (plan_graph graph (plan_ivf None 0 m1))"
    by (auto simp: plan_full_def demo_prepared_def tqplus_chain_len_def split: bind_splits prod.splits)
  note z = plan_absent [OF p0]
  have "m_bit_width m0 = bw" using p0 by (simp add: plan_with_blocked_def Let_def split: if_splits) auto
  then show "m_bit_width m = bw" "m_coarse_count m = 0" "m_cell_dir_count m = 0"
    using m z by (auto simp: plan_tombstones_def plan_graph_def plan_ivf_def set_graph_chain_def set_codebook_def Let_def
        split: option.split if_splits)
  show "m_rotation_count m = 0"
    using plan_full_meta(13) [OF p] by (simp add: demo_prepared_def tqplus_chain_len_def)
qed

lemma demo_graph3_fits: "fits demo_graph3_meta"
proof -
  have "m_graph_count demo_graph3_meta = 1"
    using plan_full_parts(2) [OF demo_graph3_plan refl]
    by (simp add: graph_parts_of_def len64_def demo_graph3_lengths byte_pages_needed_def PAYLOAD_BYTES_eq u32_try_or_max_def div_ceil_def)
  moreover have "m_tombstone_count demo_graph3_meta = 1"
    using plan_full_parts(3) [OF demo_graph3_plan]
    by (simp add: len64_def byte_pages_needed_def PAYLOAD_BYTES_eq u32_try_or_max_def div_ceil_def)
  ultimately show ?thesis
    using plan_parts_block_sum [OF demo_graph3_plan] demo_plan_graph [OF demo_graph3_plan]
    by (simp add: fits_def demo_prepared_def page_counts)
qed

lemma demo_graph_file:
  obtains w :: "page list world" where "graph_reads list_store demo_graph_meta [1, 2, 3, 4, 5, 6, 7, 8] [0x3F800000, 0x3F800000] [7, 9] demo_graph [2] (w_rel w)"
    and "graph_shape demo_graph_meta [0x3F800000, 0x3F800000] [7, 9] demo_graph" and "m_graph_entry_point demo_graph_meta = 1"
    and "w_polls w = None"
proof -
  let ?c = "[1, 2, 3, 4, 5, 6, 7, 8] :: u8 list" and ?s = "[0x3F800000, 0x3F800000] :: f32_bits list"
  have inp: "rewrite_inputs 4 8 2 ?c (Some demo_prepared) None (Some demo_graph_parts) [2]"
    by (simp add: rewrite_inputs_def codes_stride_def PAYLOAD_BYTES_eq demo_prepared_def demo_graph_lengths demo_graph_parts_def)
  obtain w :: "page list world" where w: "index_stored list_store demo_graph_meta ?c ?s [7, 9] (Some demo_prepared) None (Some demo_graph_parts) [2] (w_rel w)"
      "w_polls w = None"
    by (rule graph_rewrite_run [OF ls.page_store_axioms demo_graph_plan demo_graph_fits inp, of ?s "[7, 9]" demo_world True])
      (auto simp: demo_world_def)
  note p = demo_graph_plan [unfolded demo_graph_parts_def] and inp' = inp [unfolded demo_graph_parts_def]
  have st: "index_stored list_store demo_graph_meta ?c ?s [7, 9] (Some demo_prepared) None (Some \<lparr>gp_offsets_bytes = encode_offsets demo_graph,
      gp_neighbors_bytes = encode_neighbors demo_graph, gp_entry_point = 1\<rparr>) [2] (w_rel w1)" if "w_rel w1 = w_rel w" for w1
    using w(1) that by (simp add: demo_graph_parts_def)
  have rd: "read_graph_adjacency list_store demo_graph_meta w1 = (Inr (Some demo_graph), w1)"
    "read_tombstones list_store demo_graph_meta w1 = (Inr [2], w1)" "m_graph_entry_point demo_graph_meta = 1" "is_graph demo_graph_meta"
    "m_n_vectors hint \<noteq> 0 \<Longrightarrow> read_full_consistent list_store hint w1 = (Inr (demo_graph_meta, ?c, ?s, [7, 9]), w1)"
    if "w_rel w1 = w_rel w" for w1 hint
    by (rule graph_stored_reads [OF ls.page_store_axioms p demo_graph_fits inp' _ _ _ demo_graph_def _ _ st [OF that]]; simp)+
  note me = plan_full_meta [OF demo_graph_plan]
  have md: "read_meta list_store w1 = (Inr (Some demo_graph_meta), w1)" if "w_rel w1 = w_rel w" for w1
    using w(1) me(9) that by (intro read_meta_stored) (simp_all add: index_stored_def)
  show thesis
  proof (rule that [OF _ _ rd(3) w(2)])
    show "graph_reads list_store demo_graph_meta ?c ?s [7, 9] demo_graph [2] (w_rel w)"
      using md rd(1,2,5) me(1) by (simp add: graph_reads_def read_full_def bind_io_def ret_def)
    show "graph_shape demo_graph_meta ?s [7, 9] demo_graph"
      using rd(4) [OF refl] me(1) by (simp add: graph_shape_def demo_graph_def)
  qed simp
qed

theorem graph_insert_exact_witness:
  "\<exists>w w'. insert_graph_row demo_env4 2 demo_codebook (\<lambda>_ _ _ _. True) demo_encoder False list_store True (replicate 8 1) 11 w
      = (Inr True, w') \<and>
    graph_reads list_store demo_graph_meta [1, 2, 3, 4, 5, 6, 7, 8] [0x3F800000, 0x3F800000] [7, 9] demo_graph [2] (w_rel w) \<and>
    graph_reads list_store demo_graph3_meta [1, 2, 3, 4, 5, 6, 7, 8, 9, 10, 11, 12] [0x3F800000, 0x3F800000, 0x3F800000] [7, 9, 11]
      demo_graph3 [2] (w_rel w') \<and> m_graph_entry_point demo_graph_meta = 1 \<and> m_graph_entry_point demo_graph3_meta = 0"
proof -
  let ?c = "[1, 2, 3, 4, 5, 6, 7, 8] :: u8 list" and ?s = "[0x3F800000, 0x3F800000] :: f32_bits list" and ?v = "replicate 8 1 :: int list"
  obtain w :: "page list world" where w: "graph_reads list_store demo_graph_meta ?c ?s [7, 9] demo_graph [2] (w_rel w)"
    "graph_shape demo_graph_meta ?s [7, 9] demo_graph" "m_graph_entry_point demo_graph_meta = 1" "w_polls w = None"
    by (rule demo_graph_file)
  let ?w = "w\<lparr>w_xlock := w_xlock w + 1\<rparr>"
  note me = plan_full_meta [OF demo_graph_plan] and pg = demo_plan_graph [OF demo_graph_plan]
  have t: "extend_bitmap (length [7, 9 :: u64]) [2] = [2]"
    by (simp add: extend_bitmap_def resize0_def nat_div_ceil_def)
  have v: "sat_succ (m_am_version demo_graph_meta) = 2" "m_n_vectors demo_graph_meta + 1 = 3"
    using me by (simp_all add: sat_succ_def saturating_add_def)
  have tq: "read_tqplus list_store demo_graph_meta ?w = (Inr ([], []), ?w)" using pg by (simp add: read_tqplus_def ret_def)
  have dead: "s < length [7, 9 :: u64]" if "slot_dead [2] s" for s
  proof -
    from that have "s < 8" and b: "bit (2 :: u8) s" by (auto simp: slot_dead_def)
    have "s = 1" using b bit_exp_iff [of 1 s, where 'a = u8] by simp
    then show ?thesis by simp
  qed
  have "\<exists>w'. insert_graph_row demo_env4 2 demo_codebook (\<lambda>_ _ _ _. True) demo_encoder False list_store True ?v 11 w = (Inr True, w') \<and>
    w_xlock w' = w_xlock w \<and> w_slock w' = w_slock w \<and>
    graph_reads list_store demo_graph3_meta (?c @ [9, 10, 11, 12]) (?s @ [0x3F800000]) ([7, 9] @ [11]) demo_graph3
      (extend_bitmap (length [7, 9 :: u64]) [2]) (w_rel w') \<and>
    graph_shape demo_graph3_meta (?s @ [0x3F800000]) ([7, 9] @ [11]) demo_graph3 \<and> m_graph_entry_point demo_graph3_meta = 0 \<and>
    one_more demo_graph 0 demo_graph3 \<and>
    (\<forall>s. slot_dead (extend_bitmap (length [7, 9 :: u64]) [2]) s \<longleftrightarrow> slot_dead [2] s) \<and>
    ((\<exists>s < length [7, 9 :: u64]. \<not> slot_dead [2] s) \<longrightarrow> unat (0 :: u32) < length [7, 9 :: u64] \<and> \<not> slot_dead [2] (unat (0 :: u32)))"
  proof (rule graph_insert_exact [where ro = demo_graph_ro and tq = "([], [])" and x = ?v and prepared = demo_prepared
        and m = demo_graph_meta and g = demo_graph, OF ls.page_store_axioms w(1,2)])
    show "slot_dead [2] s \<Longrightarrow> s < length [7, 9 :: u64]" for s by (rule dead)
    show "length ?v = unat (m_dim demo_graph_meta)" using me by simp
    show "read_only_of (\<lambda>_ _ _ _. True) list_store demo_graph_meta ?c ?s [7, 9] ?w = (Inr demo_graph_ro, ?w)"
      using tq by (simp add: read_only_of_def demo_graph_ro_def bind_io_def ret_def)
    show "0 = insert_entry (m_graph_entry_point demo_graph_meta) (live_mask (length [7, 9 :: u64]) [2])"
      unfolding w(3) by code_simp
    have "validate demo_graph 0 = Some None" by code_simp
    then show "healthy demo_graph 0" by (simp add: validate_healthy)
    show "edge_count demo_graph + (length [7, 9 :: u64] + 1) * GRAPH_DEGREE_R < 2 ^ 32"
      by (simp add: edge_count_def demo_graph_def from_lists_def GRAPH_DEGREE_R_def)
    show "insert_one_node_via_oracle (ev_ar demo_env4) 2 demo_graph 0 ?v (slot_scores (ev_engine demo_env4) demo_graph_ro) = Some demo_graph3"
      by code_simp
    show "demo_encoder demo_graph_meta ?c ?s ([], []) ?v = Inr (?c @ [9, 10, 11, 12], ?s @ [0x3F800000], demo_prepared)"
      by (simp add: demo_encoder_def)
    show "plan_full demo_codebook (m_bit_width demo_graph_meta) (m_dim demo_graph_meta) (m_n_vectors demo_graph_meta + 1)
      (sat_succ (m_am_version demo_graph_meta)) (Some demo_prepared) None (Some (graph_parts_of demo_graph3 0))
      (extend_bitmap (length [7, 9 :: u64]) [2]) 0 = Some demo_graph3_meta"
      unfolding t v pg me(3) by (rule demo_graph3_plan)
    show "rewrite_inputs (m_bit_width demo_graph_meta) (m_dim demo_graph_meta) (m_n_vectors demo_graph_meta + 1) (?c @ [9, 10, 11, 12])
      (Some demo_prepared) None (Some (graph_parts_of demo_graph3 0)) (extend_bitmap (length [7, 9 :: u64]) [2])"
      unfolding t v pg me(3) by (simp add: rewrite_inputs_def codes_stride_def PAYLOAD_BYTES_eq demo_prepared_def graph_parts_of_def demo_graph3_lengths)
  qed (use w tq demo_graph3_fits in simp_all)
  with w show ?thesis unfolding t by auto
qed

end
