(* ===== verification/Spill.thy ===== *)
theory Spill
  imports Store
begin

text \<open>
  The disk spill of an index build (\<open>CorpusSpill\<close> of \<open>src/index/build.rs\<close>): fixed-width records of an id and a vector,
  written in order to a PostgreSQL \<open>BufFile\<close> and read back in blocks or one at a time.  The \<open>BufFile\<close> is the
  server's: five operations in a record, and the locale \<open>buf_file\<close> of what \<open>buffile.c\<close> documents, a byte stream with
  one cursor.  A vector is its bit patterns, stored in the byte order of a little-endian host.
\<close>

section \<open>The temporary file\<close>

record 'b buffile =
  bf_create :: 'b
  bf_write :: "'b \<Rightarrow> u8 list \<Rightarrow> 'b"
  bf_seek :: "'b \<Rightarrow> nat \<Rightarrow> 'b option"
  bf_read :: "'b \<Rightarrow> nat \<Rightarrow> u8 list \<times> 'b"

locale buf_file =
  fixes B :: "'b buffile" and contents :: "'b \<Rightarrow> u8 list" and cursor :: "'b \<Rightarrow> nat"
  assumes create: "contents (bf_create B) = []" "cursor (bf_create B) = 0"
    and write_end: "cursor b = length (contents b) \<Longrightarrow>
      contents (bf_write B b bs) = contents b @ bs \<and> cursor (bf_write B b bs) = length (contents b @ bs)"
    and seek_inside: "n \<le> length (contents b) \<Longrightarrow> \<exists>b'. bf_seek B b n = Some b' \<and> contents b' = contents b \<and> cursor b' = n"
    and read_at: "\<exists>b'. bf_read B b n = (bslice (cursor b) n (contents b), b') \<and> contents b' = contents b \<and>
      cursor b' = cursor b + length (bslice (cursor b) n (contents b))"

text \<open>The reference file: its bytes and the cursor.\<close>

definition list_file :: "(u8 list \<times> nat) buffile" where
  "list_file = \<lparr>bf_create = ([], 0),
     bf_write = (\<lambda>(f, pos) bs. (take pos f @ bs @ drop (pos + length bs) f, pos + length bs)),
     bf_seek = (\<lambda>(f, pos) n. if n \<le> length f then Some (f, n) else None),
     bf_read = (\<lambda>(f, pos) n. (bslice pos n f, (f, pos + length (bslice pos n f))))\<rparr>"

interpretation lf: buf_file list_file fst snd
  by unfold_locales (auto simp: list_file_def)

section \<open>The spill\<close>

record 'b spill =
  sp_file :: 'b
  sp_dim :: nat
  sp_stride :: nat
  sp_rows :: nat

definition spill_new :: "'b buffile \<Rightarrow> nat \<Rightarrow> 'b spill" where
  "spill_new B dim = \<lparr>sp_file = bf_create B, sp_dim = dim, sp_stride = 8 + dim * 4, sp_rows = 0\<rparr>"

text \<open>The second write takes \<open>dim * 4\<close> bytes from the vector's buffer.\<close>

definition spill_push :: "'b buffile \<Rightarrow> u64 \<Rightarrow> f32_bits list \<Rightarrow> 'b spill \<Rightarrow> 'b spill" where
  "spill_push B i vector sp =
     sp\<lparr>sp_file := bf_write B (bf_write B (sp_file sp) (le64 i)) (take (sp_dim sp * 4) (f32s_bytes vector)),
        sp_rows := sp_rows sp + 1\<rparr>"

definition buffile_read_exact :: "'b buffile \<Rightarrow> 'b \<Rightarrow> nat \<Rightarrow> exn + (u8 list \<times> 'b)" where
  "buffile_read_exact B b nbytes =
     (let (bs, b') = bf_read B b nbytes
      in if length bs \<noteq> nbytes then Inl (Reported ''short read from corpus spill'') else Inr (bs, b'))"

definition spill_seek :: "'b buffile \<Rightarrow> nat \<Rightarrow> 'b spill \<Rightarrow> exn + 'b" where
  "spill_seek B idx sp =
     (case bf_seek B (sp_file sp) (idx * sp_stride sp) of
        None \<Rightarrow> Inl (Reported ''BufFileSeek failed'')
      | Some b \<Rightarrow> Inr b)"

definition read_one_at_cursor :: "'b buffile \<Rightarrow> nat \<Rightarrow> 'b \<Rightarrow> exn + ((u64 \<times> f32_bits list) \<times> 'b)" where
  "read_one_at_cursor B dim b =
     (case buffile_read_exact B b 8 of
        Inl e \<Rightarrow> Inl e
      | Inr (idbuf, b1) \<Rightarrow>
          (case buffile_read_exact B b1 (dim * 4) of
             Inl e \<Rightarrow> Inl e
           | Inr (vec, b2) \<Rightarrow> Inr ((rd64 idbuf, bytes_f32s vec), b2)))"

fun read_records :: "'b buffile \<Rightarrow> nat \<Rightarrow> nat \<Rightarrow> 'b \<Rightarrow> exn + ((u64 \<times> f32_bits list) list \<times> 'b)" where
  "read_records B dim 0 b = Inr ([], b)"
| "read_records B dim (Suc rows) b =
     (case read_one_at_cursor B dim b of
        Inl e \<Rightarrow> Inl e
      | Inr (r, b1) \<Rightarrow> map_sum id (\<lambda>(rs, b2). (r # rs, b2)) (read_records B dim rows b1))"

text \<open>The ids and the row-major vectors.\<close>

definition spill_read_block :: "'b buffile \<Rightarrow> nat \<Rightarrow> nat \<Rightarrow> 'b spill \<Rightarrow> exn + ((u64 list \<times> f32_bits list) \<times> 'b spill)" where
  "spill_read_block B start rows sp =
     (case spill_seek B start sp of
        Inl e \<Rightarrow> Inl e
      | Inr b \<Rightarrow> map_sum id (\<lambda>(rs, b'). ((map fst rs, concat (map snd rs)), sp\<lparr>sp_file := b'\<rparr>)) (read_records B (sp_dim sp) rows b))"

definition spill_read_one :: "'b buffile \<Rightarrow> nat \<Rightarrow> 'b spill \<Rightarrow> exn + ((u64 \<times> f32_bits list) \<times> 'b spill)" where
  "spill_read_one B idx sp =
     (case spill_seek B idx sp of
        Inl e \<Rightarrow> Inl e
      | Inr b \<Rightarrow> map_sum id (\<lambda>(r, b'). (r, sp\<lparr>sp_file := b'\<rparr>)) (read_one_at_cursor B (sp_dim sp) b))"

text \<open>The random reads of a list of record numbers, in order.\<close>

fun spill_read_many :: "'b buffile \<Rightarrow> nat list \<Rightarrow> 'b spill \<Rightarrow> exn + ((u64 \<times> f32_bits list) list \<times> 'b spill)" where
  "spill_read_many B [] sp = Inr ([], sp)"
| "spill_read_many B (idx # idxs) sp =
     (case spill_read_one B idx sp of
        Inl e \<Rightarrow> Inl e
      | Inr (r, sp1) \<Rightarrow> map_sum id (\<lambda>(rs, sp2). (r # rs, sp2)) (spill_read_many B idxs sp1))"

section \<open>What is read is what was written\<close>

type_synonym spill_row = "u64 \<times> f32_bits list"

definition record_bytes :: "spill_row \<Rightarrow> u8 list" where
  "record_bytes r = le64 (fst r) @ f32s_bytes (snd r)"

definition records_bytes :: "spill_row list \<Rightarrow> u8 list" where
  "records_bytes rs = concat (map record_bytes rs)"

lemma length_records_bytes:
  "\<forall>r \<in> set rs. length (snd r) = dim \<Longrightarrow> length (records_bytes rs) = length rs * (8 + dim * 4)"
  by (induction rs) (auto simp: records_bytes_def record_bytes_def)

lemma records_bytes_append: "records_bytes (a @ b) = records_bytes a @ records_bytes b"
  by (simp add: records_bytes_def)

context buf_file
begin

text \<open>The spill holds these rows.\<close>

definition holds :: "'b spill \<Rightarrow> nat \<Rightarrow> spill_row list \<Rightarrow> bool" where
  "holds sp dim rs \<longleftrightarrow> sp_dim sp = dim \<and> sp_stride sp = 8 + dim * 4 \<and> sp_rows sp = length rs \<and>
     (\<forall>r \<in> set rs. length (snd r) = dim) \<and> contents (sp_file sp) = records_bytes rs"

definition at_end :: "'b spill \<Rightarrow> bool" where
  "at_end sp \<longleftrightarrow> cursor (sp_file sp) = length (contents (sp_file sp))"

lemma holds_new: "holds (spill_new B dim) dim []" "at_end (spill_new B dim)"
  by (simp_all add: holds_def at_end_def spill_new_def create records_bytes_def)

lemma holds_push:
  assumes h: "holds sp dim rs" and e: "at_end sp" and v: "length v = dim"
  shows "holds (spill_push B i v sp) dim (rs @ [(i, v)])" "at_end (spill_push B i v sp)"
proof -
  let ?b1 = "bf_write B (sp_file sp) (le64 i)"
  have "cursor (sp_file sp) = length (contents (sp_file sp))" using e by (simp add: at_end_def)
  note w1 = write_end [OF this, of "le64 i"]
  then have "cursor ?b1 = length (contents ?b1)" by simp
  from write_end [OF this, of "take (sp_dim sp * 4) (f32s_bytes v)"] w1 h v
  show "holds (spill_push B i v sp) dim (rs @ [(i, v)])" "at_end (spill_push B i v sp)"
    by (auto simp: holds_def at_end_def spill_push_def records_bytes_def record_bytes_def)
qed

lemma read_exact_run:
  assumes "cursor b + nbytes \<le> length (contents b)"
  obtains b' where "buffile_read_exact B b nbytes = Inr (bslice (cursor b) nbytes (contents b), b')"
    and "contents b' = contents b" and "cursor b' = cursor b + nbytes"
proof -
  have "length (bslice (cursor b) nbytes (contents b)) = nbytes" using assms by (simp add: bslice_def)
  with read_at [of b nbytes] that show thesis by (auto simp: buffile_read_exact_def)
qed

lemma read_at_cursor_run:
  assumes c: "contents b = pre @ record_bytes r @ post" and p: "cursor b = length pre" and d: "length (snd r) = dim"
  obtains b' where "read_one_at_cursor B dim b = Inr (r, b')" and "contents b' = contents b"
    and "cursor b' = length (pre @ record_bytes r)"
proof -
  have "cursor b + 8 \<le> length (contents b)" by (simp add: c p record_bytes_def)
  then obtain b1 where r1: "buffile_read_exact B b 8 = Inr (bslice (cursor b) 8 (contents b), b1)"
    and c1: "contents b1 = contents b" and p1: "cursor b1 = cursor b + 8" by (rule read_exact_run)
  have "cursor b1 + dim * 4 \<le> length (contents b1)" by (simp add: c1 p1 c p record_bytes_def d)
  then obtain b2 where r2: "buffile_read_exact B b1 (dim * 4) = Inr (bslice (cursor b1) (dim * 4) (contents b1), b2)"
    and c2: "contents b2 = contents b1" and p2: "cursor b2 = cursor b1 + dim * 4" by (rule read_exact_run)
  have s1: "bslice (cursor b) 8 (contents b) = le64 (fst r)" by (simp add: bslice_def c p record_bytes_def)
  have s2: "bslice (cursor b1) (dim * 4) (contents b1) = f32s_bytes (snd r)"
    by (simp add: bslice_def c1 p1 c p record_bytes_def d)
  have "read_one_at_cursor B dim b = Inr (r, b2)"
    unfolding read_one_at_cursor_def r1 r2 sum.case prod.case s1 s2 by simp
  then show thesis by (rule that) (simp_all add: c1 c2 p1 p2 p record_bytes_def d)
qed

lemma read_records_run:
  assumes "contents b = records_bytes pre @ records_bytes rs @ post" and "cursor b = length (records_bytes pre)"
    and "\<forall>r \<in> set rs. length (snd r) = dim"
  shows "\<exists>b'. read_records B dim (length rs) b = Inr (rs, b') \<and> contents b' = contents b"
  using assms
proof (induction rs arbitrary: pre b)
  case (Cons r rs)
  have "contents b = records_bytes pre @ record_bytes r @ records_bytes rs @ post"
    using Cons.prems(1) by (simp add: records_bytes_def)
  then obtain b1 where r1: "read_one_at_cursor B dim b = Inr (r, b1)" and c1: "contents b1 = contents b"
    and p1: "cursor b1 = length (records_bytes pre @ record_bytes r)"
    by (rule read_at_cursor_run) (use Cons.prems in simp_all)
  have "\<exists>b'. read_records B dim (length rs) b1 = Inr (rs, b') \<and> contents b' = contents b1"
    by (rule Cons.IH [of b1 "pre @ [r]"]) (use Cons.prems c1 p1 in \<open>simp_all add: records_bytes_def\<close>)
  with r1 c1 show ?case by auto
qed (simp add: records_bytes_def)

lemma seek_run:
  assumes h: "holds sp dim rs" and i: "start \<le> length rs"
  obtains b where "spill_seek B start sp = Inr b" and "contents b = records_bytes rs"
    and "cursor b = length (records_bytes (take start rs))"
proof -
  have l: "length (records_bytes (take start rs)) = start * (8 + dim * 4)"
    using h i length_records_bytes [of "take start rs" dim] by (auto simp: holds_def dest: in_set_takeD)
  have "length (records_bytes rs) = length rs * (8 + dim * 4)"
    using h by (intro length_records_bytes) (simp add: holds_def)
  then have "start * sp_stride sp \<le> length (contents (sp_file sp))" using h i by (simp add: holds_def)
  from seek_inside [OF this] that l h show thesis by (auto simp: spill_seek_def holds_def)
qed

lemma read_block_run:
  assumes h: "holds sp dim rs" and i: "start + rows \<le> length rs"
  obtains sp' where "spill_read_block B start rows sp
      = Inr ((map fst (bslice start rows rs), concat (map snd (bslice start rows rs))), sp')" and "holds sp' dim rs"
proof -
  obtain b where s: "spill_seek B start sp = Inr b" and c: "contents b = records_bytes rs"
    and p: "cursor b = length (records_bytes (take start rs))"
    using i by (auto intro: seek_run [OF h, of start])
  have split: "rs = take start rs @ bslice start rows rs @ drop (start + rows) rs"
    by (metis append.assoc append_take_drop_id bslice_def take_add)
  have "contents b = records_bytes (take start rs) @ records_bytes (bslice start rows rs) @ records_bytes (drop (start + rows) rs)"
    unfolding c by (subst (1) split) (simp add: records_bytes_append)
  moreover have "\<forall>r \<in> set (bslice start rows rs). length (snd r) = dim"
    using h by (auto simp: holds_def bslice_def dest: in_set_takeD in_set_dropD)
  moreover have "length (bslice start rows rs) = rows" using i by (simp add: bslice_def)
  ultimately obtain b' where "read_records B dim rows b = Inr (bslice start rows rs, b')" "contents b' = contents b"
    using read_records_run [of b "take start rs" "bslice start rows rs" _ dim] p by auto
  with that s c h show thesis by (auto simp: spill_read_block_def holds_def)
qed

lemma read_one_run:
  assumes h: "holds sp dim rs" and i: "idx < length rs"
  obtains sp' where "spill_read_one B idx sp = Inr (rs ! idx, sp')" and "holds sp' dim rs"
proof -
  obtain b where s: "spill_seek B idx sp = Inr b" and c: "contents b = records_bytes rs"
    and p: "cursor b = length (records_bytes (take idx rs))"
    using i by (auto intro: seek_run [OF h, of idx])
  have split: "rs = take idx rs @ [rs ! idx] @ drop (Suc idx) rs" using i by (simp add: id_take_nth_drop [symmetric])
  have "contents b = records_bytes (take idx rs) @ record_bytes (rs ! idx) @ records_bytes (drop (Suc idx) rs)"
    unfolding c by (subst (1) split) (simp add: records_bytes_def)
  then obtain b' where "read_one_at_cursor B dim b = Inr (rs ! idx, b')" "contents b' = contents b"
    by (rule read_at_cursor_run) (use p h i in \<open>auto simp: holds_def\<close>)
  with that s c h show thesis by (auto simp: spill_read_one_def holds_def)
qed

lemma read_many_run:
  assumes "holds sp dim rs" and "\<forall>i \<in> set idxs. i < length rs"
  shows "\<exists>sp'. spill_read_many B idxs sp = Inr (map ((!) rs) idxs, sp') \<and> holds sp' dim rs"
  using assms
proof (induction idxs arbitrary: sp)
  case (Cons i idxs)
  then obtain sp1 where "spill_read_one B i sp = Inr (rs ! i, sp1)" "holds sp1 dim rs"
    by (auto intro: read_one_run [OF Cons.prems(1), of i])
  moreover from this Cons.IH [of sp1] Cons.prems(2)
  obtain sp' where "spill_read_many B idxs sp1 = Inr (map ((!) rs) idxs, sp')" "holds sp' dim rs" by auto
  ultimately show ?case by auto
qed simp

end

end
