(* ===== verification/Assign.thy ===== *)
theory Assign
  imports Coarse
begin

text \<open>
  Assigning rows to cells while an IVF index is built (\<open>rotate_corpus_into\<close> and \<open>batched_assign_soft\<close> of
  \<open>src/index/ivf.rs\<close>).  The matrix product is the gemm crate's and an argument: the rows of the first operand against
  the rows of the second.
\<close>

section \<open>Definitions\<close>

type_synonym 'f gemm = "'f list \<Rightarrow> 'f list \<Rightarrow> nat \<Rightarrow> nat \<Rightarrow> nat \<Rightarrow> 'f list"

definition rotate_corpus_into :: "'f gemm \<Rightarrow> 'f list \<Rightarrow> 'f list \<Rightarrow> nat \<Rightarrow> nat \<Rightarrow> 'f list \<Rightarrow> 'f list" where
  "rotate_corpus_into gemm corpus rotation n_rows dim out =
     (if n_rows = 0 \<or> dim = 0 then out else gemm corpus rotation n_rows dim dim)"

definition cell_norms :: "'f arith \<Rightarrow> 'f list \<Rightarrow> nat \<Rightarrow> nat \<Rightarrow> 'f list" where
  "cell_norms ar centroids nlists dim =
     map (\<lambda>c. fold (\<lambda>x s. ar_add ar s (ar_mul ar x x)) (row_of centroids dim c) (ar_zero ar)) [0..<nlists]"

definition cell_score :: "'f arith \<Rightarrow> 'f list \<Rightarrow> 'f list \<Rightarrow> nat \<Rightarrow> 'f" where
  "cell_score ar cnorm row_cross c = ar_sub ar (cnorm ! c) (ar_mul ar (ar_of_nat ar 2) (row_cross ! c))"

text \<open>The partial selection of the smallest scores: filled first, sorted when full, then the last one replaced.\<close>

definition top_step :: "nat \<Rightarrow> 'f::linorder \<Rightarrow> nat \<Rightarrow> 'f cand list \<Rightarrow> 'f cand list" where
  "top_step cand s c near =
     (if length near < cand then
        let t = near @ [Cand s (of_nat c)] in if length t = cand then sort t else t
      else if s < cand_score (near ! (cand - 1)) then sort (near[cand - 1 := Cand s (of_nat c)])
      else near)"

definition top_cells :: "nat \<Rightarrow> (nat \<Rightarrow> 'f::linorder) \<Rightarrow> nat \<Rightarrow> 'f cand list" where
  "top_cells cand score nlists =
     (let near = fold (\<lambda>c. top_step cand (score c) c) [0..<nlists] []
      in if length near < cand then sort near else near)"

fun take_near :: "'f::linorder \<Rightarrow> nat \<Rightarrow> u32 list \<Rightarrow> 'f cand list \<Rightarrow> u32 list" where
  "take_near threshold max_dups out [] = out"
| "take_near threshold max_dups out (x # xs) =
     (if max_dups \<le> length out then out
      else take_near threshold max_dups (if cand_score x \<le> threshold then out @ [cand_id x] else out) xs)"

definition soft_cells ::
  "'f::linorder arith \<Rightarrow> 'f \<Rightarrow> 'f list \<Rightarrow> nat \<Rightarrow> nat \<Rightarrow> nat \<Rightarrow> (nat \<Rightarrow> 'f) \<Rightarrow> 'f list \<Rightarrow> u32 list" where
  "soft_cells ar BOUNDARY_FACTOR centroids nlists dim max_dups score v =
     (let near = top_cells (min (max_dups + 2) nlists) score nlists;
          exact = sort (map (\<lambda>x. Cand (cell_dist ar centroids dim v (unat (cand_id x))) (cand_id x)) near);
          threshold = ar_mul ar BOUNDARY_FACTOR (cand_score (hd exact))
      in take_near threshold max_dups [cand_id (hd exact)] (tl exact))"

text \<open>\<open>None\<close> is the failed assertion of no cells.\<close>

definition batched_assign_soft ::
  "'f::linorder arith \<Rightarrow> 'f gemm \<Rightarrow> 'f \<Rightarrow> 'f list \<Rightarrow> 'f list \<Rightarrow> nat \<Rightarrow> nat \<Rightarrow> nat \<Rightarrow> nat \<Rightarrow> u32 list list option" where
  "batched_assign_soft ar gemm BOUNDARY_FACTOR corpus centroids n_rows nlists dim max_dups =
     (if nlists = 0 then None
      else let max_dups = min (max max_dups 1) nlists in
        if n_rows = 0 then Some []
        else let cross = gemm corpus centroids n_rows nlists dim; cnorm = cell_norms ar centroids nlists dim in
          Some (map (\<lambda>i. soft_cells ar BOUNDARY_FACTOR centroids nlists dim max_dups
                 (cell_score ar cnorm (bslice (i * nlists) nlists cross)) (row_of corpus dim i)) [0..<n_rows]))"

text \<open>The reference the soft assignment generalises: the two best cells by score, decided by their distances.\<close>

definition two_best :: "'f::linorder arith \<Rightarrow> (nat \<Rightarrow> 'f) \<Rightarrow> nat \<Rightarrow> 'f \<times> nat \<times> 'f \<times> nat option" where
  "two_best ar score nlists =
     fold (\<lambda>c (best_s, best_c, snd_s, snd_c).
         if score c < best_s then (score c, c, best_s, Some best_c)
         else if score c < snd_s then (best_s, best_c, score c, Some c)
         else (best_s, best_c, snd_s, snd_c))
       [0..<nlists] (ar_infinity ar, 0, ar_infinity ar, None)"

definition nearest_of_two :: "'f::linorder arith \<Rightarrow> 'f list \<Rightarrow> nat \<Rightarrow> nat \<Rightarrow> (nat \<Rightarrow> 'f) \<Rightarrow> 'f list \<Rightarrow> nat" where
  "nearest_of_two ar centroids nlists dim score v =
     (let (best_s, best_c, snd_s, snd_c) = two_best ar score nlists; d = cell_dist ar centroids dim v
      in case snd_c of None \<Rightarrow> best_c
         | Some s \<Rightarrow> if d s < d best_c \<or> d s = d best_c \<and> s < best_c then s else best_c)"

definition batched_assign :: "'f::linorder arith \<Rightarrow> 'f gemm \<Rightarrow> 'f list \<Rightarrow> 'f list \<Rightarrow> nat \<Rightarrow> nat \<Rightarrow> nat \<Rightarrow> u32 list option" where
  "batched_assign ar gemm corpus centroids n_rows nlists dim =
     (if nlists = 0 then None
      else if n_rows = 0 then Some []
      else let cross = gemm corpus centroids n_rows nlists dim; cnorm = cell_norms ar centroids nlists dim in
        Some (map (\<lambda>i. of_nat (nearest_of_two ar centroids nlists dim
               (cell_score ar cnorm (bslice (i * nlists) nlists cross)) (row_of corpus dim i))) [0..<n_rows]))"

section \<open>Cutting rows into blocks\<close>

text \<open>\<open>while start < n { let rows = (n - start).min(w); ...; start += rows }\<close>; every caller has a positive \<open>w\<close>.\<close>

function row_blocks :: "nat \<Rightarrow> nat \<Rightarrow> nat \<Rightarrow> (nat \<times> nat) list" where
  "row_blocks start n w =
     (if n \<le> start \<or> w = 0 then []
      else let rows = min w (n - start) in (start, rows) # row_blocks (start + rows) n w)"
  by pat_completeness auto
termination by (relation "measure (\<lambda>(start, n, w). n - start)") auto

declare row_blocks.simps [simp del]

lemma row_blocks_cover:
  "0 < w \<Longrightarrow> start \<le> n \<Longrightarrow> concat (map (\<lambda>(s, rows). [s..<s + rows]) (row_blocks start n w)) = [start..<n]"
proof (induction start n w rule: row_blocks.induct)
  case (1 start n w)
  show ?case
  proof (cases "start = n")
    case True
    then show ?thesis by (simp add: row_blocks.simps)
  next
    case False
    let ?rows = "min w (n - start)"
    have "concat (map (\<lambda>(s, rows). [s..<s + rows]) (row_blocks (start + ?rows) n w)) = [start + ?rows..<n]"
      using False 1 by (intro "1.IH") simp_all
    moreover have "[start..<start + ?rows] @ [start + ?rows..<n] = [start..<n]"
      using upt_add_eq_append [of start "start + ?rows" "n - (start + ?rows)"] False 1 by simp
    ultimately show ?thesis using False 1 by (subst row_blocks.simps) (simp add: Let_def)
  qed
qed

lemma row_blocks_inside:
  "(s, rows) \<in> set (row_blocks start n w) \<Longrightarrow> start \<le> s \<and> 0 < rows \<and> rows \<le> w \<and> s + rows \<le> n"
proof (induction start n w rule: row_blocks.induct)
  case (1 start n w)
  show ?case
  proof (cases "n \<le> start \<or> w = 0")
    case False
    let ?rows = "min w (n - start)"
    from 1(2) False have "(s, rows) = (start, ?rows) \<or> (s, rows) \<in> set (row_blocks (start + ?rows) n w)"
      by (subst (asm) row_blocks.simps) (simp add: Let_def)
    with False "1.IH" show ?thesis by fastforce
  qed (use 1(2) in \<open>simp add: row_blocks.simps\<close>)
qed

section \<open>The partial selection is a sort\<close>

lemma take_insort_small:
  assumes "sorted S" and "k < length S" and "x < S ! k"
  shows "take (Suc k) (insort x S) = insort x (take k S)"
  using assms
proof (induction S arbitrary: k)
  case (Cons y S)
  show ?case
  proof (cases k)
    case 0
    with Cons.prems show ?thesis by auto
  next
    case (Suc j)
    with Cons show ?thesis by simp
  qed
qed simp

lemma take_insort_big:
  assumes "sorted S" and "k < length S" and "S ! k < x"
  shows "take (Suc k) (insort x S) = take (Suc k) S"
  using assms
proof (induction S arbitrary: k)
  case (Cons y S)
  show ?case
  proof (cases k)
    case 0
    with Cons.prems show ?thesis by auto
  next
    case (Suc j)
    then have "j < length S" "S ! j < x" "sorted S" using Cons.prems by auto
    moreover from this have "y < x" using Cons.prems(1) nth_mem [of j S] by (auto intro: le_less_trans)
    ultimately show ?thesis using Suc Cons.IH [of j] by simp
  qed
qed simp

lemma sort_snoc:
  fixes xs :: "'a::linorder list"
  shows "sort (xs @ [x]) = insort x (sort xs)"
proof (rule properties_for_sort)
  show "mset (insort x (sort xs)) = mset (xs @ [x])" by simp
  show "sorted (insort x (sort xs))" by (simp add: sorted_insort)
qed

lemma sort_update_last:
  fixes xs :: "'a::linorder list"
  assumes "xs \<noteq> []"
  shows "sort (xs[length xs - 1 := x]) = insort x (sort (butlast xs))"
proof -
  have "xs[length xs - 1 := x] = butlast xs @ [x]"
    using assms by (metis append_butlast_last_id length_butlast list_update_length)
  then show ?thesis by (simp add: sort_snoc)
qed

lemma top_fold:
  assumes n: "n < 2 ^ 32" and cand: "0 < cand"
  shows "fold (\<lambda>c. top_step cand (score c) c) [0..<n] [] =
    (if n < cand then map (\<lambda>c. Cand (score c) (of_nat c)) [0..<n] else take cand (sort (map (\<lambda>c. Cand (score c) (of_nat c)) [0..<n])))"
  using n
proof (induction n)
  case (Suc n)
  let ?L = "map (\<lambda>c. Cand (score c) (of_nat c)) [0..<n]" and ?x = "Cand (score n) (of_nat n)"
  have IH: "fold (\<lambda>c. top_step cand (score c) c) [0..<n] [] = (if n < cand then ?L else take cand (sort ?L))"
    using Suc by simp
  have step: "fold (\<lambda>c. top_step cand (score c) c) [0..<Suc n] []
      = top_step cand (score n) n (if n < cand then ?L else take cand (sort ?L))"
    by (simp add: IH)
  have new: "map (\<lambda>c. Cand (score c) (of_nat c)) [0..<Suc n] = ?L @ [?x]" by simp
  show ?case
  proof (cases "n < cand")
    case True
    let ?t = "?L @ [?x]"
    have "top_step cand (score n) n ?L = (if Suc n = cand then sort ?t else ?t)"
      using True by (simp add: top_step_def Let_def)
    moreover have "take cand (sort ?t) = sort ?t" using True by (intro take_all) simp
    ultimately show ?thesis using True unfolding step new by (auto simp del: sort_key_simps)
  next
    case False
    let ?S = "sort ?L"
    obtain k where k: "cand = Suc k" using cand by (cases cand) auto
    have len: "k < length ?S" using False k by simp
    let ?last = "?S ! k"
    have full: "length (take cand ?S) = cand" "take cand ?S ! (cand - 1) = ?last" using len k by simp_all
    have "?last \<in> set ?L" using nth_mem [OF len] by simp
    then obtain c where c: "c < n" "?last = Cand (score c) (of_nat c)" by auto
    have lt: "(of_nat c :: u32) < of_nat n" using c(1) Suc.prems by (simp add: word_less_nat_alt unat_of_nat take_bit_nat_eq_self)
    have srt: "take cand (sort (?L @ [?x])) = take (Suc k) (insort ?x ?S)" by (simp add: sort_snoc k)
    show ?thesis
    proof (cases "score n < cand_score ?last")
      case True
      then have "?x < ?last" by (simp add: c(2) less_cand_def less_eq_cand_def)
      then have "take cand (sort (?L @ [?x])) = insort ?x (take k ?S)"
        unfolding srt using len by (intro take_insort_small) simp_all
      moreover have "sort ((take cand ?S)[cand - 1 := ?x]) = insort ?x (take k ?S)"
      proof -
        have "butlast (take cand ?S) = take k ?S" using len by (simp add: k butlast_take)
        moreover have "take cand ?S \<noteq> []" using full(1) cand by (metis list.size(3) less_irrefl)
        ultimately show ?thesis using sort_update_last [of "take cand ?S" ?x] full(1)
          by (simp add: sorted_sort_id sorted_wrt_take)
      qed
      ultimately show ?thesis using False True full unfolding step new by (simp add: top_step_def)
    next
      case no: False
      then have "?last < ?x" using lt by (auto simp: c(2) less_cand_def less_eq_cand_def)
      then have "take cand (sort (?L @ [?x])) = take cand ?S"
        unfolding srt unfolding k using len by (intro take_insort_big) simp_all
      then show ?thesis using False no full unfolding step new by (simp add: top_step_def)
    qed
  qed
qed (use cand in simp)

lemma top_cells_sorted:
  assumes "n < 2 ^ 32" and "0 < cand" and "cand \<le> n"
  shows "top_cells cand score n = take cand (sort (map (\<lambda>c. Cand (score c) (of_nat c)) [0..<n]))"
  using top_fold [OF assms(1,2), of score] assms(3) by (simp add: top_cells_def Let_def)


lemma top_cells_ids:
  assumes n: "n < 2 ^ 32" and cand: "0 < cand" "cand \<le> n"
  shows "length (top_cells cand score n) = cand" "distinct (map cand_id (top_cells cand score n))"
    "\<forall>x \<in> set (top_cells cand score n). unat (cand_id x) < n"
proof -
  let ?L = "map (\<lambda>c. Cand (score c) (of_nat c :: u32)) [0..<n]"
  note t = top_cells_sorted [OF n cand, of score]
  show "length (top_cells cand score n) = cand" using cand by (simp add: t)
  have u: "unat (of_nat c :: u32) = c" if "c < n" for c using that n by (simp add: unat_of_nat take_bit_nat_eq_self)
  have "map unat (map cand_id ?L) = [0..<n]" by (rule nth_equalityI) (simp_all add: u)
  then have "distinct (map unat (map cand_id ?L))" by (simp only: distinct_upt)
  then have "distinct (map cand_id ?L)" by (simp only: distinct_map [of unat])
  moreover have "mset (map cand_id (sort ?L)) = mset (map cand_id ?L)" by (simp only: mset_map mset_sort)
  ultimately have "distinct (map cand_id (sort ?L))" by (rule mset_eq_imp_distinct_iff [THEN iffD2, rotated])
  then show "distinct (map cand_id (top_cells cand score n))" unfolding t take_map [symmetric] by (rule distinct_take)
  show "\<forall>x \<in> set (top_cells cand score n). unat (cand_id x) < n"
    unfolding t by (auto simp: u dest!: in_set_takeD)
qed

section \<open>The cells of a row\<close>

lemma take_near_spec:
  assumes "distinct (out @ map cand_id xs)" and "out \<noteq> []"
  shows "\<exists>ys. take_near threshold max_dups out xs = out @ ys \<and> distinct (out @ ys) \<and> set ys \<subseteq> cand_id ` set xs \<and>
    (length out \<le> max_dups \<longrightarrow> length (out @ ys) \<le> max_dups)"
  using assms
proof (induction xs arbitrary: out)
  case (Cons x xs)
  show ?case
  proof (cases "length out < max_dups")
    case True
    let ?o = "if cand_score x \<le> threshold then out @ [cand_id x] else out"
    have "distinct (?o @ map cand_id xs)" "?o \<noteq> []" using Cons.prems by auto
    from Cons.IH [OF this] obtain ys where ys: "take_near threshold max_dups ?o xs = ?o @ ys" "distinct (?o @ ys)"
      "set ys \<subseteq> cand_id ` set xs" "length ?o \<le> max_dups \<longrightarrow> length (?o @ ys) \<le> max_dups" by blast
    show ?thesis
    proof (cases "cand_score x \<le> threshold")
      case near: True
      with ys True show ?thesis by (intro exI [of _ "cand_id x # ys"]) auto
    next
      case False
      with ys True show ?thesis by (intro exI [of _ ys]) auto
    qed
  next
    case False
    with Cons.prems show ?thesis by auto
  qed
qed auto

definition valid_cells :: "nat \<Rightarrow> nat \<Rightarrow> u32 list \<Rightarrow> bool" where
  "valid_cells nlists max_dups cls \<longleftrightarrow>
     cls \<noteq> [] \<and> distinct cls \<and> length cls \<le> max_dups \<and> (\<forall>c \<in> set cls. unat c < nlists)"

lemma soft_cells_ok:
  assumes n: "nlists < 2 ^ 32" and m: "1 \<le> max_dups" "max_dups \<le> nlists"
  shows "valid_cells nlists max_dups (soft_cells ar BF centroids nlists dim max_dups score v)"
proof -
  let ?k = "min (max_dups + 2) nlists"
  have k: "0 < ?k" "?k \<le> nlists" using m by auto
  define near where "near = top_cells ?k score nlists"
  note t = top_cells_ids [OF n k, of score, folded near_def]
  define exact where "exact = sort (map (\<lambda>x. Cand (cell_dist ar centroids dim v (unat (cand_id x))) (cand_id x)) near)"
  have perm: "mset (map cand_id exact) = mset (map cand_id near)"
    by (simp add: exact_def mset_map multiset.map_comp comp_def)
  from mset_eq_imp_distinct_iff [OF perm] t(2) have d: "distinct (map cand_id exact)" by simp
  from mset_eq_setD [OF perm] have s: "set (map cand_id exact) = set (map cand_id near)" .
  have "length exact = ?k" by (simp add: exact_def t(1))
  then obtain x xs where e: "exact = x # xs" using k by (cases exact) auto
  from take_near_spec [of "[cand_id x]" xs "ar_mul ar BF (cand_score x)" max_dups] d e
  obtain ys where ys: "take_near (ar_mul ar BF (cand_score x)) max_dups [cand_id x] xs = cand_id x # ys"
    "distinct (cand_id x # ys)" "set ys \<subseteq> cand_id ` set xs" "1 \<le> max_dups \<longrightarrow> length (cand_id x # ys) \<le> max_dups"
    by auto
  have r: "soft_cells ar BF centroids nlists dim max_dups score v = cand_id x # ys"
    unfolding soft_cells_def Let_def near_def [symmetric] exact_def [symmetric] e using ys(1) by simp
  have "set (cand_id x # ys) \<subseteq> cand_id ` set near" using ys(3) s e by auto
  then show ?thesis using t(3) ys(2,4) m(1) unfolding r valid_cells_def by auto
qed

lemma batched_assign_soft_ok:
  assumes n: "0 < nlists" "nlists < 2 ^ 32"
  obtains cls where "batched_assign_soft ar gemm BF corpus centroids n_rows nlists dim max_dups = Some cls"
    and "length cls = n_rows" and "\<forall>cs \<in> set cls. valid_cells nlists (min (max max_dups 1) nlists) cs"
proof -
  let ?m = "min (max max_dups 1) nlists"
  have "1 \<le> ?m" "?m \<le> nlists" using n by auto
  note ok = soft_cells_ok [OF n(2) this]
  show thesis
  proof (cases "n_rows = 0")
    case True
    with n that show thesis by (simp add: batched_assign_soft_def Let_def)
  next
    case False
    with n show thesis by (intro that [OF _ _]) (auto simp: batched_assign_soft_def Let_def ok simp del: One_nat_def)
  qed
qed


section \<open>Single assignment\<close>

text \<open>The cell of least value, the lower number on a tie.\<close>

definition least_cell :: "(nat \<Rightarrow> 'f::linorder) \<Rightarrow> nat \<Rightarrow> nat \<Rightarrow> bool" where
  "least_cell f n b \<longleftrightarrow> b < n \<and> (\<forall>c < n. f b < f c \<or> f b = f c \<and> b \<le> c)"

lemma least_cell_unique: "least_cell f n a \<Longrightarrow> least_cell f n b \<Longrightarrow> a = b"
  by (force simp: least_cell_def)

lemma least_cell_mono:
  assumes "least_cell f n b" and "\<forall>c < n. \<forall>c' < n. f c < f c' \<longleftrightarrow> g c < g c'"
  shows "least_cell g n b"
  unfolding least_cell_def
proof (intro conjI allI impI)
  show b: "b < n" using assms(1) by (simp add: least_cell_def)
  fix c assume c: "c < n"
  with assms(1) have "f b < f c \<or> f b = f c \<and> b \<le> c" by (simp add: least_cell_def)
  with assms(2) b c show "g b < g c \<or> g b = g c \<and> b \<le> c" by (metis less_irrefl linorder_cases)
qed

lemma least_cell_Suc:
  assumes "least_cell f n b"
  shows "least_cell f (Suc n) (if f n < f b then n else b)"
proof (cases "f n < f b")
  case True
  have "f n < f c \<or> f n = f c \<and> n \<le> c" if "c < Suc n" for c
  proof (cases "c = n")
    case False
    then have "c < n" using that by simp
    then have "f b \<le> f c" using assms by (fastforce simp: least_cell_def)
    with True have "f n < f c" by (rule less_le_trans)
    then show ?thesis ..
  qed simp
  with True show ?thesis by (simp add: least_cell_def)
next
  case False
  with assms show ?thesis by (auto simp: least_cell_def less_Suc_eq)
qed

lemma argmin_fold:
  assumes "0 < n" and "\<forall>c < n. f c < top_value"
  shows "\<exists>b. fold (\<lambda>c (best_d, best). let d = f c in if d < best_d then (d, c) else (best_d, best)) [0..<n] (top_value, 0) = (f b, b) \<and>
    least_cell f n b"
  using assms
proof (induction n)
  case (Suc n)
  show ?case
  proof (cases "n = 0")
    case True
    with Suc.prems show ?thesis by (auto simp: least_cell_def)
  next
    case False
    with Suc obtain b where b: "fold (\<lambda>c (best_d, best). let d = f c in if d < best_d then (d, c) else (best_d, best)) [0..<n] (top_value, 0)
        = (f b, b)" "least_cell f n b" by auto
    from b(1) least_cell_Suc [OF b(2)] show ?thesis by (auto simp: Let_def)
  qed
qed simp

lemma two_best_spec:
  assumes "0 < n" and "\<forall>c < n. score c < ar_infinity ar"
  shows "\<exists>b s2 snd_s. two_best ar score n = (score b, b, snd_s, Some s2) \<and> least_cell score n b \<and> s2 < n"
  using assms
proof (induction n)
  case (Suc n)
  show ?case
  proof (cases "n = 0")
    case True
    with Suc.prems show ?thesis by (auto simp: two_best_def least_cell_def)
  next
    case False
    with Suc obtain b s2 ss where b: "two_best ar score n = (score b, b, ss, Some s2)" "least_cell score n b" "s2 < n" by auto
    have "b < n" using b(2) by (simp add: least_cell_def)
    with b least_cell_Suc [OF b(2)] show ?thesis by (auto simp: two_best_def less_Suc_eq)
  qed
qed simp

lemma hd_sort_least:
  fixes x :: "'a::linorder"
  assumes "x \<in> set xs" and "\<forall>y \<in> set xs. x \<le> y"
  shows "hd (sort xs) = x"
proof -
  obtain y ys where s: "sort xs = y # ys" using assms(1) by (cases "sort xs") (auto simp: sort_eq_Nil)
  have "y \<in> set (sort xs)" unfolding s by simp
  then have "x \<le> y" using assms(2) by simp
  have "x \<in> set (y # ys)" using assms(1) by (simp only: s [symmetric] set_sort)
  moreover have "sorted (y # ys)" by (simp only: s [symmetric] sorted_sort)
  ultimately have "y \<le> x" by auto
  with \<open>x \<le> y\<close> show ?thesis by (simp add: s)
qed

lemma least_cand:
  fixes f :: "nat \<Rightarrow> 'f::linorder"
  assumes "least_cell f n b" and "c < n" and "n < 2 ^ 32"
  shows "Cand (f b) (of_nat b :: u32) \<le> Cand (f c) (of_nat c)"
proof -
  have "(of_nat b :: u32) \<le> of_nat c" if "b \<le> c"
    using that assms by (simp add: word_le_nat_alt unat_of_nat take_bit_nat_eq_self least_cell_def)
  with assms(1,2) show ?thesis by (auto simp: least_cell_def less_eq_cand_def)
qed

lemma soft_cells_single:
  assumes n: "0 < n" "n < 2 ^ 32" and mono: "\<forall>c < n. \<forall>c' < n. score c < score c' \<longleftrightarrow> d c < d c'"
    and d: "d = cell_dist ar centroids dim v" and b: "least_cell d n b"
  shows "soft_cells ar BF centroids n dim 1 score v = [of_nat b]"
proof -
  let ?k = "min (1 + 2) n"
  define near where "near = top_cells ?k score n"
  let ?L = "map (\<lambda>c. Cand (score c) (of_nat c :: u32)) [0..<n]"
  have k: "0 < ?k" "?k \<le> n" using n by auto
  have near: "near = take ?k (sort ?L)" unfolding near_def by (rule top_cells_sorted [OF n(2) k])
  have bn: "b < n" using b by (simp add: least_cell_def)
  have u: "unat (of_nat c :: u32) = c" if "c < n" for c using that n by (simp add: unat_of_nat take_bit_nat_eq_self)
  have ls: "least_cell score n b" using least_cell_mono [OF b, of score] mono by blast
  have "hd (sort ?L) = Cand (score b) (of_nat b)"
    by (rule hd_sort_least) (use bn least_cand [OF ls _ n(2)] in auto)
  moreover have "near \<noteq> []" using k by (metis length_greater_0_conv near_def top_cells_ids(1) [OF n(2) k])
  ultimately have inb: "Cand (score b) (of_nat b) \<in> set near" using k hd_take [of ?k "sort ?L"] by (metis hd_in_set near)
  have "hd (sort (map (\<lambda>x. Cand (d (unat (cand_id x))) (cand_id x)) near)) = Cand (d b) (of_nat b)"
  proof (rule hd_sort_least)
    show "Cand (d b) (of_nat b) \<in> set (map (\<lambda>x. Cand (d (unat (cand_id x))) (cand_id x)) near)"
      using inb bn by (force simp: u)
    show "\<forall>y \<in> set (map (\<lambda>x. Cand (d (unat (cand_id x))) (cand_id x)) near). Cand (d b) (of_nat b) \<le> y"
    proof (clarsimp)
      fix x assume "x \<in> set near"
      then have "x \<in> set ?L" unfolding near by (auto dest: in_set_takeD)
      then obtain c where "c < n" "cand_id x = of_nat c" by auto
      then show "Cand (d b) (of_nat b) \<le> Cand (d (unat (cand_id x))) (cand_id x)"
        using least_cand [OF b _ n(2)] by (simp add: u)
    qed
  qed
  moreover have "take_near th 1 [x] xs = [x]" for th x and xs :: "'a cand list" by (cases xs) auto
  ultimately show ?thesis
    unfolding soft_cells_def Let_def near_def [symmetric] d [symmetric] by simp
qed

lemma nearest_of_two_least:
  assumes n: "0 < n" and mono: "\<forall>c < n. \<forall>c' < n. score c < score c' \<longleftrightarrow> d c < d c'"
    and fin: "\<forall>c < n. score c < ar_infinity ar" and d: "d = cell_dist ar centroids dim v" and b: "least_cell d n b"
  shows "nearest_of_two ar centroids n dim score v = b"
proof -
  obtain b' s2 ss where t: "two_best ar score n = (score b', b', ss, Some s2)" "least_cell score n b'" "s2 < n"
    using two_best_spec [OF n fin] by blast
  have "least_cell score n b" using least_cell_mono [OF b, of score] mono by blast
  from least_cell_unique [OF t(2) this] have "b' = b" .
  moreover have "d b < d s2 \<or> d b = d s2 \<and> b \<le> s2" using b t(3) by (simp add: least_cell_def)
  ultimately show ?thesis
    using t(1) by (auto simp: nearest_of_two_def Let_def d [symmetric])
qed


text \<open>What the source says of the product's scores: they order the cells of a row as the distances do.\<close>

definition scores_rank :: "'f::linorder arith \<Rightarrow> 'f gemm \<Rightarrow> 'f list \<Rightarrow> 'f list \<Rightarrow> nat \<Rightarrow> nat \<Rightarrow> nat \<Rightarrow> bool" where
  "scores_rank ar gemm corpus centroids n_rows nlists dim \<longleftrightarrow>
     (\<forall>i < n_rows.
        let score = cell_score ar (cell_norms ar centroids nlists dim)
                      (bslice (i * nlists) nlists (gemm corpus centroids n_rows nlists dim));
            d = cell_dist ar centroids dim (row_of corpus dim i)
        in \<forall>c < nlists. score c < ar_infinity ar \<and> d c < ar_infinity ar \<and>
             (\<forall>c' < nlists. score c < score c' \<longleftrightarrow> d c < d c'))"

lemma assign_one_least:
  assumes "0 < nlists" and "\<forall>c < nlists. cell_dist ar centroids dim v c < ar_infinity ar"
  shows "least_cell (cell_dist ar centroids dim v) nlists
    (assign_one ar \<lparr>cm_centroids = centroids, cm_lists = nlists, cm_dim = dim\<rparr> v)"
proof -
  have "sq_dist ar v (row_of centroids dim c) = cell_dist ar centroids dim v c" for c by (simp add: cell_dist_def)
  with argmin_fold [OF assms] show ?thesis by (auto simp: assign_one_def centroid_def)
qed

text \<open>
  C40: the batched assignment is the scalar one.  Where the scores of the matrix product rank a row's cells as their
  distances do, the two-candidate assignment and the soft assignment with one copy both give every row the cell
  \<open>assign_one\<close> gives it, the lower number on a tie.
\<close>

theorem batched_assign_is_scalar:
  assumes n: "0 < nlists" "nlists < 2 ^ 32" and rank: "scores_rank ar gemm corpus centroids n_rows nlists dim"
  shows "batched_assign ar gemm corpus centroids n_rows nlists dim
      = Some (map (\<lambda>i. of_nat (assign_one ar \<lparr>cm_centroids = centroids, cm_lists = nlists, cm_dim = dim\<rparr> (row_of corpus dim i))) [0..<n_rows]) \<and>
    batched_assign_soft ar gemm BF corpus centroids n_rows nlists dim 1
      = Some (map (\<lambda>i. [of_nat (assign_one ar \<lparr>cm_centroids = centroids, cm_lists = nlists, cm_dim = dim\<rparr> (row_of corpus dim i))]) [0..<n_rows])"
proof -
  let ?m = "\<lparr>cm_centroids = centroids, cm_lists = nlists, cm_dim = dim\<rparr>"
  let ?score = "\<lambda>i. cell_score ar (cell_norms ar centroids nlists dim) (bslice (i * nlists) nlists (gemm corpus centroids n_rows nlists dim))"
  have row: "nearest_of_two ar centroids nlists dim (?score i) (row_of corpus dim i) = assign_one ar ?m (row_of corpus dim i)"
      "soft_cells ar BF centroids nlists dim 1 (?score i) (row_of corpus dim i) = [of_nat (assign_one ar ?m (row_of corpus dim i))]"
    if "i < n_rows" for i
  proof -
    let ?d = "cell_dist ar centroids dim (row_of corpus dim i)"
    from rank that have r: "\<forall>c < nlists. \<forall>c' < nlists. ?score i c < ?score i c' \<longleftrightarrow> ?d c < ?d c'"
      "\<forall>c < nlists. ?score i c < ar_infinity ar" "\<forall>c < nlists. ?d c < ar_infinity ar"
      by (auto simp: scores_rank_def Let_def)
    note b = assign_one_least [OF n(1) r(3)]
    show "nearest_of_two ar centroids nlists dim (?score i) (row_of corpus dim i) = assign_one ar ?m (row_of corpus dim i)"
      by (rule nearest_of_two_least [OF n(1) r(1,2) refl b])
    show "soft_cells ar BF centroids nlists dim 1 (?score i) (row_of corpus dim i) = [of_nat (assign_one ar ?m (row_of corpus dim i))]"
      by (rule soft_cells_single [OF n r(1) refl b])
  qed
  have m: "min (max 1 1) nlists = 1" using n by simp
  show ?thesis
    using n by (simp add: batched_assign_def batched_assign_soft_def Let_def row m del: One_nat_def)
qed

text \<open>The product with whole numbers.\<close>

definition int_gemm :: "int gemm" where
  "int_gemm a b m n k = concat (map (\<lambda>i. map (\<lambda>c. sum_list (map2 (*) (row_of a k i) (row_of b k c))) [0..<n]) [0..<m])"

theorem batched_assign_is_scalar_witness:
  "batched_assign demo_arith int_gemm [4, 4, 0, 1] [0, 0, 5, 5, 9, 9] 2 3 2 = Some [1, 0] \<and>
   batched_assign_soft demo_arith int_gemm 1 [4, 4, 0, 1] [0, 0, 5, 5, 9, 9] 2 3 2 1 = Some [[1], [0]]"
proof -
  have r: "scores_rank demo_arith int_gemm [4, 4, 0, 1] [0, 0, 5, 5, 9, 9] 2 3 2"
    by code_simp
  have near: "assign_one demo_arith \<lparr>cm_centroids = [0, 0, 5, 5, 9, 9], cm_lists = 3, cm_dim = 2\<rparr> (row_of [4, 4, 0, 1] 2 0) = 1"
      "assign_one demo_arith \<lparr>cm_centroids = [0, 0, 5, 5, 9, 9], cm_lists = 3, cm_dim = 2\<rparr> (row_of [4, 4, 0, 1] 2 1) = 0"
    by code_simp+
  have rows: "[0..<2] = [0, 1 :: nat]" by (simp add: numeral_2_eq_2)
  have "(0 :: nat) < 3" "(3 :: nat) < 2 ^ 32" by simp_all
  from batched_assign_is_scalar [OF this r, of 1] show ?thesis
    unfolding rows list.map near by (simp only: semiring_1_class.of_nat_0 semiring_1_class.of_nat_1 One_nat_def [symmetric])
qed

end
