(* ===== verification/Kmeans.thy ===== *)
theory Kmeans
  imports Assign
begin

text \<open>
  Training the coarse centroids (\<open>train_kmeans\<close> of \<open>src/index/ivf.rs\<close>): k-means++ seeding, Lloyd's iterations with a
  chunked accumulation, the rule that gives an empty cell a row of the largest one, and the early exit.  The arithmetic
  of \<open>f32\<close> and \<open>f64\<close>, the matrix product and the draws of the random generator are an environment.
\<close>

section \<open>Definitions\<close>

record ('f, 'd, 'g) trainer =
  tr_ar :: "'f arith"
  tr_ad :: "'d arith"
  tr_widen :: "'f \<Rightarrow> 'd"
  tr_narrow :: "'d \<Rightarrow> 'f"
  tr_gemm :: "'f gemm"
  tr_seed :: 'g
  tr_gen_index :: "nat \<Rightarrow> 'g \<Rightarrow> nat \<times> 'g"
  tr_gen_below :: "'d \<Rightarrow> 'g \<Rightarrow> 'd \<times> 'g"
  tr_tol :: 'd

definition KMEANS_ITERS :: nat where "KMEANS_ITERS = 25"

text \<open>\<open>centroids[c * dim..(c + 1) * dim].copy_from_slice(row)\<close>.\<close>

definition put_centroid :: "nat \<Rightarrow> nat \<Rightarrow> 'f list \<Rightarrow> 'f list \<Rightarrow> 'f list" where
  "put_centroid dim c row centroids = blit (c * dim) row centroids"

text \<open>The first row at which the running sum of \<open>d2\<close> reaches the target, or the last row.\<close>

fun weighted_pick :: "'d::linorder arith \<Rightarrow> 'd \<Rightarrow> nat \<Rightarrow> 'd \<Rightarrow> nat \<Rightarrow> 'd list \<Rightarrow> nat" where
  "weighted_pick ad target last_row acc i [] = last_row"
| "weighted_pick ad target last_row acc i (x # xs) =
     (let acc' = ar_add ad acc x in if target \<le> acc' then i else weighted_pick ad target last_row acc' (Suc i) xs)"

definition lower_dists :: "'f::linorder arith \<Rightarrow> 'f list \<Rightarrow> nat \<Rightarrow> 'f list \<Rightarrow> 'f list \<Rightarrow> 'f list" where
  "lower_dists ar sample dim new_centroid d2 =
     map (\<lambda>(i, di). let d = sq_dist ar (row_of sample dim i) new_centroid in if d < di then d else di) (enumerate 0 d2)"

definition seed_step ::
  "('f::linorder, 'd::linorder, 'g) trainer \<Rightarrow> 'f list \<Rightarrow> nat \<Rightarrow> nat \<Rightarrow> nat \<Rightarrow> 'f list \<times> 'f list \<times> 'g \<Rightarrow> 'f list \<times> 'f list \<times> 'g" where
  "seed_step tr sample n_sample dim c = (\<lambda>(centroids, d2, g).
     let ad = tr_ad tr; total = fold (\<lambda>x s. ar_add ad s (tr_widen tr x)) d2 (ar_zero ad);
         (chosen, g') = (if total \<le> ar_zero ad then tr_gen_index tr n_sample g
           else let (target, g') = tr_gen_below tr total g
             in (weighted_pick ad target (n_sample - 1) (ar_zero ad) 0 (map (tr_widen tr) d2), g'));
         row = row_of sample dim chosen
     in (put_centroid dim c row centroids, lower_dists (tr_ar tr) sample dim row d2, g'))"

definition seed_centroids ::
  "('f::linorder, 'd::linorder, 'g) trainer \<Rightarrow> 'f list \<Rightarrow> nat \<Rightarrow> nat \<Rightarrow> nat \<Rightarrow> 'f list \<times> 'g" where
  "seed_centroids tr sample n_sample nlists dim =
     (let ar = tr_ar tr; (first, g) = tr_gen_index tr n_sample (tr_seed tr);
          centroids = put_centroid dim 0 (row_of sample dim first) (replicate (nlists * dim) (ar_zero ar));
          d2 = map (\<lambda>i. sq_dist ar (row_of sample dim i) (row_of centroids dim 0)) [0..<n_sample];
          (centroids', d2', g') = fold (seed_step tr sample n_sample dim) [1..<nlists] (centroids, d2, g)
      in (centroids', g'))"

definition gemm_lloyd_assign :: "'f::linorder arith \<Rightarrow> 'f gemm \<Rightarrow> 'f list \<Rightarrow> 'f list \<Rightarrow> 'f list \<Rightarrow> nat \<Rightarrow> nat \<Rightarrow> nat \<Rightarrow> u32 list" where
  "gemm_lloyd_assign ar gemm sample centroids cnorm n_rows nlists dim =
     (let cross = gemm sample centroids n_rows nlists dim
      in map (\<lambda>i. of_nat (nearest_of_two ar centroids nlists dim (cell_score ar cnorm (bslice (i * nlists) nlists cross))
           (row_of sample dim i))) [0..<n_rows])"

definition CROSS_BUDGET_BYTES :: nat where "CROSS_BUDGET_BYTES = 256 * 1024 * 1024"

definition cross_rows :: "nat \<Rightarrow> nat \<Rightarrow> nat" where
  "cross_rows nlists n_sample = min (max (CROSS_BUDGET_BYTES div max (nlists * 4) 1) 1) n_sample"

definition assign_sample :: "'f::linorder arith \<Rightarrow> 'f gemm \<Rightarrow> 'f list \<Rightarrow> 'f list \<Rightarrow> nat \<Rightarrow> nat \<Rightarrow> nat \<Rightarrow> u32 list" where
  "assign_sample ar gemm sample centroids n_sample nlists dim =
     (let cnorm = cell_norms ar centroids nlists dim
      in concat (map (\<lambda>(row0, rows). gemm_lloyd_assign ar gemm (bslice (row0 * dim) (rows * dim) sample) centroids cnorm rows nlists dim)
           (row_blocks 0 n_sample (cross_rows nlists n_sample))))"

text \<open>The size of the chunks whose sums are kept apart.\<close>

definition sum_chunk :: "nat \<Rightarrow> nat \<Rightarrow> nat \<Rightarrow> nat" where
  "sum_chunk n_sample nlists dim =
     (let bytes_per_partial = max (nlists * dim) 1 * 8;
          max_chunks_by_mem = max (512 * 1024 * 1024 div bytes_per_partial) 1;
          by_rows = max (nat_div_ceil n_sample 16384) 1;
          n_chunks = min by_rows max_chunks_by_mem
      in max (nat_div_ceil n_sample n_chunks) 1)"

definition add_row :: "'d arith \<Rightarrow> ('f \<Rightarrow> 'd) \<Rightarrow> 'f list \<Rightarrow> nat \<Rightarrow> u32 list \<Rightarrow> nat \<Rightarrow> 'd list \<times> nat list \<Rightarrow> 'd list \<times> nat list" where
  "add_row ad widen sample dim asg i = (\<lambda>(s, cnt).
     let c = unat (asg ! i)
     in (blit (c * dim) (map2 (\<lambda>a x. ar_add ad a (widen x)) (row_of s dim c) (row_of sample dim i)) s, cnt[c := Suc (cnt ! c)]))"

definition chunk_sums ::
  "'d arith \<Rightarrow> ('f \<Rightarrow> 'd) \<Rightarrow> 'f list \<Rightarrow> nat \<Rightarrow> nat \<Rightarrow> u32 list \<Rightarrow> nat \<times> nat \<Rightarrow> 'd list \<times> nat list" where
  "chunk_sums ad widen sample nlists dim asg = (\<lambda>(start, rows).
     fold (add_row ad widen sample dim asg) [start..<start + rows] (replicate (nlists * dim) (ar_zero ad), replicate nlists 0))"

definition combine_sums :: "'d arith \<Rightarrow> nat \<Rightarrow> nat \<Rightarrow> ('d list \<times> nat list) list \<Rightarrow> 'd list \<times> nat list" where
  "combine_sums ad nlists dim partials =
     fold (\<lambda>(s, cnt) (sums, counts). (map2 (ar_add ad) sums s, map2 (+) counts cnt)) partials
       (replicate (nlists * dim) (ar_zero ad), replicate nlists 0)"

definition cell_sums ::
  "'d arith \<Rightarrow> ('f \<Rightarrow> 'd) \<Rightarrow> 'f list \<Rightarrow> nat \<Rightarrow> nat \<Rightarrow> nat \<Rightarrow> u32 list \<Rightarrow> 'd list \<times> nat list" where
  "cell_sums ad widen sample n_sample nlists dim asg =
     combine_sums ad nlists dim
       (map (chunk_sums ad widen sample nlists dim asg) (row_blocks 0 n_sample (sum_chunk n_sample nlists dim)))"

definition mean_step :: "'d arith \<Rightarrow> ('d \<Rightarrow> 'f) \<Rightarrow> nat \<Rightarrow> 'd list \<Rightarrow> nat list \<Rightarrow> nat \<Rightarrow> 'f list \<Rightarrow> 'f list" where
  "mean_step ad narrow dim sums counts c centroids =
     (if counts ! c = 0 then centroids
      else let inv = ar_div ad (ar_one ad) (ar_of_nat ad (counts ! c))
        in put_centroid dim c (map (\<lambda>s. narrow (ar_mul ad s inv)) (row_of sums dim c)) centroids)"

text \<open>The empty-cell rule.  The state is the centroids, the assignment, the counts and the generator.\<close>

type_synonym ('f, 'g) lloyd = "'f list \<times> u32 list \<times> nat list \<times> 'g"

definition largest_cell :: "nat \<Rightarrow> nat list \<Rightarrow> nat \<times> nat" where
  "largest_cell nlists counts =
     fold (\<lambda>k (big, big_n). if big_n < counts ! k then (k, counts ! k) else (big, big_n)) [0..<nlists] (0, 0)"

definition furthest_row :: "'f::linorder arith \<Rightarrow> 'f list \<Rightarrow> nat \<Rightarrow> nat \<Rightarrow> 'f list \<Rightarrow> u32 list \<Rightarrow> nat \<Rightarrow> nat option" where
  "furthest_row ar sample n_sample dim big_centroid asg big =
     snd (fold (\<lambda>i (far_d, far). if unat (asg ! i) \<noteq> big then (far_d, far)
         else let d = sq_dist ar (row_of sample dim i) big_centroid in if far_d < d then (d, Some i) else (far_d, far))
       [0..<n_sample] (ar_neg ar (ar_one ar), None))"

definition reseed_cell ::
  "('f::linorder, 'd, 'g) trainer \<Rightarrow> 'f list \<Rightarrow> nat \<Rightarrow> nat \<Rightarrow> nat \<Rightarrow> nat \<Rightarrow> ('f, 'g) lloyd \<Rightarrow> ('f, 'g) lloyd" where
  "reseed_cell tr sample n_sample nlists dim c = (\<lambda>(centroids, asg, counts, g).
     if counts ! c \<noteq> 0 then (centroids, asg, counts, g)
     else let (big, big_n) = largest_cell nlists counts;
              far = (if big_n \<le> 1 then None
                     else furthest_row (tr_ar tr) sample n_sample dim (row_of centroids dim big) asg big)
       in case far of
            None \<Rightarrow> (let (pick, g') = tr_gen_index tr n_sample g
                     in (put_centroid dim c (row_of sample dim pick) centroids, asg, counts[c := 1], g'))
          | Some i \<Rightarrow> (put_centroid dim c (row_of sample dim i) centroids, asg[i := of_nat c],
                       counts[c := 1, big := counts ! big - 1], g))"

definition movement :: "('f::linorder, 'd, 'g) trainer \<Rightarrow> 'f list \<Rightarrow> 'f list \<Rightarrow> 'd" where
  "movement tr centroids prev = (let ad = tr_ad tr in
     fold (\<lambda>(a, b) s. let d = tr_widen tr (ar_sub (tr_ar tr) a b) in ar_add ad s (ar_mul ad d d)) (zip centroids prev) (ar_zero ad))"

definition lloyd_step ::
  "('f::linorder, 'd, 'g) trainer \<Rightarrow> 'f list \<Rightarrow> nat \<Rightarrow> nat \<Rightarrow> nat \<Rightarrow> 'f list \<Rightarrow> 'g \<Rightarrow> ('f, 'g) lloyd" where
  "lloyd_step tr sample n_sample nlists dim centroids g =
     (let asg = assign_sample (tr_ar tr) (tr_gemm tr) sample centroids n_sample nlists dim;
          (sums, counts) = cell_sums (tr_ad tr) (tr_widen tr) sample n_sample nlists dim asg;
          means = fold (mean_step (tr_ad tr) (tr_narrow tr) dim sums counts) [0..<nlists] centroids
      in fold (reseed_cell tr sample n_sample nlists dim) [0..<nlists] (means, asg, counts, g))"

text \<open>The iterations left, the iterations run: the loop stops at the cap or when the centroids have stopped moving.\<close>

fun lloyd_loop ::
  "('f::linorder, 'd::linorder, 'g) trainer \<Rightarrow> 'f list \<Rightarrow> nat \<Rightarrow> nat \<Rightarrow> nat \<Rightarrow> nat \<Rightarrow> nat \<Rightarrow> 'f list \<Rightarrow> 'g \<Rightarrow> 'f list \<times> nat" where
  "lloyd_loop tr sample n_sample nlists dim 0 iters_run centroids g = (centroids, iters_run)"
| "lloyd_loop tr sample n_sample nlists dim (Suc left) iters_run centroids g =
     (let (centroids', asg, counts, g') = lloyd_step tr sample n_sample nlists dim centroids g
      in if movement tr centroids' centroids < tr_tol tr then (centroids', Suc iters_run)
         else lloyd_loop tr sample n_sample nlists dim left (Suc iters_run) centroids' g')"

text \<open>\<open>None\<close> is a failed assertion.\<close>

definition train_kmeans_iters ::
  "('f::linorder, 'd::linorder, 'g) trainer \<Rightarrow> 'f list \<Rightarrow> nat \<Rightarrow> nat \<Rightarrow> nat \<Rightarrow> ('f list \<times> nat) option" where
  "train_kmeans_iters tr sample n_sample nlists dim =
     (if nlists = 0 \<or> dim = 0 then None
      else if n_sample = 0 then Some (replicate (nlists * dim) (ar_zero (tr_ar tr)), 0)
      else let (centroids, g) = seed_centroids tr sample n_sample nlists dim
        in Some (lloyd_loop tr sample n_sample nlists dim KMEANS_ITERS 0 centroids g))"

definition train_kmeans :: "('f::linorder, 'd::linorder, 'g) trainer \<Rightarrow> 'f list \<Rightarrow> nat \<Rightarrow> nat \<Rightarrow> nat \<Rightarrow> 'f list option" where
  "train_kmeans tr sample n_sample nlists dim = map_option fst (train_kmeans_iters tr sample n_sample nlists dim)"

section \<open>Assigning the sample\<close>

lemma two_best_below:
  assumes "0 < n"
  shows "fst (snd (two_best ar score n)) < n \<and> (case snd (snd (snd (two_best ar score n))) of None \<Rightarrow> True | Some s \<Rightarrow> s < n)"
proof -
  have "(\<lambda>(best_s, best_c, snd_s, snd_c). best_c < Suc n \<and> (case snd_c of None \<Rightarrow> True | Some s \<Rightarrow> s < Suc n))
      (two_best ar score (Suc n))" for n
  proof (induction n)
    case 0
    show ?case by (simp add: two_best_def)
  next
    case (Suc n)
    have "two_best ar score (Suc (Suc n)) = (case two_best ar score (Suc n) of (best_s, best_c, snd_s, snd_c) \<Rightarrow>
        if score (Suc n) < best_s then (score (Suc n), Suc n, best_s, Some best_c)
        else if score (Suc n) < snd_s then (best_s, best_c, score (Suc n), Some (Suc n))
        else (best_s, best_c, snd_s, snd_c))"
      unfolding two_best_def by (subst upt_Suc_append) (simp_all del: upt_Suc)
    with Suc show ?case by (auto split: prod.splits option.splits)
  qed
  from this [of "n - 1"] assms show ?thesis by (auto split: prod.splits option.splits)
qed

lemma nearest_of_two_below: "0 < nlists \<Longrightarrow> nearest_of_two ar centroids nlists dim score v < nlists"
  using two_best_below [of nlists ar score] by (auto simp: nearest_of_two_def Let_def split: prod.splits option.splits)

lemma length_row_blocks:
  assumes "0 < w" and "\<And>s rows. length (f (s, rows)) = rows"
  shows "length (concat (map f (row_blocks 0 n w))) = n"
proof -
  have "map length (map f bs) = map length (map (\<lambda>(s, rows). [s..<s + rows]) bs)" for bs
    using assms(2) by (auto simp: comp_def)
  then have "length (concat (map f (row_blocks 0 n w))) = length (concat (map (\<lambda>(s, rows). [s..<s + rows]) (row_blocks 0 n w)))"
    by (metis length_concat)
  then show ?thesis using row_blocks_cover [OF assms(1), of 0 n] by simp
qed

lemma cross_rows_pos: "0 < n_sample \<Longrightarrow> 0 < cross_rows nlists n_sample"
  by (simp add: cross_rows_def)

lemma assign_sample_below:
  assumes n: "0 < n_sample" "0 < nlists" "nlists < 2 ^ 32"
  shows "length (assign_sample ar gemm sample centroids n_sample nlists dim) = n_sample"
    "\<forall>a \<in> set (assign_sample ar gemm sample centroids n_sample nlists dim). unat a < nlists"
proof -
  show "length (assign_sample ar gemm sample centroids n_sample nlists dim) = n_sample"
    unfolding assign_sample_def Let_def
    by (rule length_row_blocks [OF cross_rows_pos [OF n(1)]]) (simp add: gemm_lloyd_assign_def Let_def)
  have "unat (of_nat (nearest_of_two ar centroids nlists dim score v) :: u32) < nlists" for score v
    using nearest_of_two_below [OF n(2), of ar centroids dim score v] n(3)
    by (simp add: unat_of_nat take_bit_nat_eq_self)
  then show "\<forall>a \<in> set (assign_sample ar gemm sample centroids n_sample nlists dim). unat a < nlists"
    by (auto simp: assign_sample_def gemm_lloyd_assign_def Let_def)
qed

section \<open>Counting the rows of a cell\<close>

definition cell_members :: "u32 list \<Rightarrow> nat \<Rightarrow> nat set" where
  "cell_members asg c = {i. i < length asg \<and> unat (asg ! i) = c}"

definition counts_exact :: "nat \<Rightarrow> u32 list \<Rightarrow> nat list \<Rightarrow> bool" where
  "counts_exact nlists asg counts \<longleftrightarrow> length counts = nlists \<and> (\<forall>a \<in> set asg. unat a < nlists) \<and>
     (\<forall>c < nlists. counts ! c = card (cell_members asg c))"

lemma finite_cell_members [simp]: "finite (cell_members asg c)"
  by (simp add: cell_members_def)

lemma fold_add_row_counts:
  assumes "\<forall>i \<in> set js. unat (asg ! i) < length cnt"
  shows "length (snd (fold (add_row ad widen sample dim asg) js (s, cnt))) = length cnt \<and>
    (\<forall>c < length cnt. snd (fold (add_row ad widen sample dim asg) js (s, cnt)) ! c
       = cnt ! c + length (filter (\<lambda>i. unat (asg ! i) = c) js))"
  using assms
proof (induction js arbitrary: s cnt)
  case (Cons j js)
  let ?c = "unat (asg ! j)" and ?cnt = "cnt[unat (asg ! j) := Suc (cnt ! unat (asg ! j))]"
  obtain s' where s': "add_row ad widen sample dim asg j (s, cnt) = (s', ?cnt)" by (simp add: add_row_def Let_def)
  from Cons.IH [of ?cnt s'] Cons.prems show ?case by (auto simp: s')
qed simp

lemma combine_counts:
  assumes "\<forall>p \<in> set ps. length (snd p) = nlists" and "length counts = nlists"
  shows "length (snd (fold (\<lambda>(s, cnt) (sums, counts). (map2 (ar_add ad) sums s, map2 (+) counts cnt)) ps (sums, counts))) = nlists \<and>
    (\<forall>c < nlists. snd (fold (\<lambda>(s, cnt) (sums, counts). (map2 (ar_add ad) sums s, map2 (+) counts cnt)) ps (sums, counts)) ! c
      = counts ! c + sum_list (map (\<lambda>p. snd p ! c) ps))"
  using assms
proof (induction ps arbitrary: sums counts)
  case (Cons p ps)
  obtain s cnt where p: "p = (s, cnt)" by (cases p)
  have l: "length cnt = nlists" "\<forall>p \<in> set ps. length (snd p) = nlists" "length (map2 (+) counts cnt) = nlists"
    using Cons.prems p by auto
  note Cons.IH [OF l(2,3), of "map2 (ar_add ad) sums s"]
  then show ?case using l(1) Cons.prems(2) by (auto simp: p add.assoc)
qed simp

lemma sum_chunk_pos: "0 < sum_chunk n_sample nlists dim"
  by (simp add: sum_chunk_def Let_def)

lemma cell_counts_exact:
  assumes asg: "length asg = n_sample" "\<forall>a \<in> set asg. unat a < nlists"
  shows "counts_exact nlists asg (snd (cell_sums ad widen sample n_sample nlists dim asg))"
proof -
  let ?bs = "row_blocks 0 n_sample (sum_chunk n_sample nlists dim)"
  let ?ps = "map (chunk_sums ad widen sample nlists dim asg) ?bs"
  have chunk: "length (snd (chunk_sums ad widen sample nlists dim asg (s, rows))) = nlists \<and>
      (\<forall>c < nlists. snd (chunk_sums ad widen sample nlists dim asg (s, rows)) ! c
        = length (filter (\<lambda>i. unat (asg ! i) = c) [s..<s + rows]))" if "(s, rows) \<in> set ?bs" for s rows
  proof -
    have "s + rows \<le> length asg" using row_blocks_inside [OF that] asg(1) by simp
    then have "\<forall>i \<in> set [s..<s + rows]. unat (asg ! i) < length (replicate nlists (0 :: nat))" using asg(2) by auto
    from fold_add_row_counts [OF this, of ad widen sample dim "replicate (nlists * dim) (ar_zero ad)"]
    show ?thesis by (simp add: chunk_sums_def)
  qed
  then have len: "\<forall>p \<in> set ?ps. length (snd p) = nlists" by auto
  from combine_counts [OF len, of "replicate nlists 0" ad "replicate (nlists * dim) (ar_zero ad)"]
  have c: "length (snd (cell_sums ad widen sample n_sample nlists dim asg)) = nlists"
    "\<forall>c < nlists. snd (cell_sums ad widen sample n_sample nlists dim asg) ! c = sum_list (map (\<lambda>p. snd p ! c) ?ps)"
    by (simp_all add: cell_sums_def combine_sums_def)
  have "sum_list (map (\<lambda>p. snd p ! k) ?ps) = card (cell_members asg k)" if k: "k < nlists" for k
  proof -
    let ?P = "\<lambda>i. unat (asg ! i) = k"
    have "map (\<lambda>p. snd p ! k) ?ps = map (\<lambda>(s, rows). length (filter ?P [s..<s + rows])) ?bs"
      using chunk k by auto
    then have "sum_list (map (\<lambda>p. snd p ! k) ?ps) = length (filter ?P (concat (map (\<lambda>(s, rows). [s..<s + rows]) ?bs)))"
      by (simp only: filter_concat length_concat map_map comp_def case_prod_unfold)
    also have "\<dots> = length (filter ?P [0..<n_sample])"
      using row_blocks_cover [OF sum_chunk_pos, of 0 n_sample n_sample nlists dim] by simp
    also have "\<dots> = card (cell_members asg k)"
    proof -
      have "set (filter ?P [0..<n_sample]) = cell_members asg k" by (auto simp: cell_members_def asg(1))
      moreover have "distinct (filter ?P [0..<n_sample])" by simp
      ultimately show ?thesis by (metis distinct_card)
    qed
    finally show ?thesis .
  qed
  with c asg(2) show ?thesis by (simp add: counts_exact_def)
qed

lemma sum_cell_members:
  assumes "\<forall>a \<in> set asg. unat a < nlists"
  shows "(\<Sum>c < nlists. card (cell_members asg c)) = length asg"
proof -
  have "(\<Union>c < nlists. cell_members asg c) = {..<length asg}" using assms by (auto simp: cell_members_def)
  moreover have "card (\<Union>c < nlists. cell_members asg c) = (\<Sum>c < nlists. card (cell_members asg c))"
    by (intro card_UN_disjoint) (auto simp: cell_members_def)
  ultimately show ?thesis by simp
qed

section \<open>No cell stays empty\<close>

lemma largest_cell_spec:
  "(case fold (\<lambda>k (big, big_n). if big_n < counts ! k then (k, counts ! k) else (big, big_n)) [0..<m] (0, 0) of
     (big, big_n) \<Rightarrow> (\<forall>k < m. counts ! k \<le> big_n) \<and> (0 < big_n \<longrightarrow> big < m \<and> counts ! big = big_n))" for counts :: "nat list"
  by (induction m) (auto simp: less_Suc_eq split: prod.splits)

lemma furthest_row_spec:
  assumes "\<forall>i < n. \<not> sq_dist ar (row_of sample dim i) v \<le> ar_neg ar (ar_one ar)" and "i < n" and "unat (asg ! i) = big"
  shows "\<exists>far. furthest_row ar sample n dim v asg big = Some far \<and> far < n \<and> unat (asg ! far) = big"
proof -
  let ?step = "\<lambda>i (far_d, far). if unat (asg ! i) \<noteq> big then (far_d, far)
      else let d = sq_dist ar (row_of sample dim i) v in if far_d < d then (d, Some i) else (far_d, far)"
  have "(case fold ?step [0..<m] (ar_neg ar (ar_one ar), None) of
      (d, None) \<Rightarrow> d = ar_neg ar (ar_one ar) \<and> (\<forall>i < m. unat (asg ! i) \<noteq> big)
    | (d, Some far) \<Rightarrow> far < m \<and> unat (asg ! far) = big)" if "m \<le> n" for m
    using that
  proof (induction m)
    case (Suc m)
    then have "\<not> sq_dist ar (row_of sample dim m) v \<le> ar_neg ar (ar_one ar)" using assms(1) by simp
    with Suc show ?case by (auto simp: Let_def less_Suc_eq split: prod.splits option.splits)
  qed simp
  from this [of n] assms(2,3) show ?thesis by (auto simp: furthest_row_def split: prod.splits option.splits)
qed

text \<open>The state while the rule visits the cells below \<open>k\<close>.\<close>

definition reseeded :: "nat \<Rightarrow> nat \<Rightarrow> 'g \<Rightarrow> nat \<Rightarrow> ('f, 'g) lloyd \<Rightarrow> bool" where
  "reseeded n_sample nlists g k = (\<lambda>(centroids, asg, counts, g').
     length asg = n_sample \<and> counts_exact nlists asg counts \<and> (\<forall>c < k. 0 < counts ! c) \<and> g' = g)"

lemma some_cell_has_two:
  assumes x: "counts_exact nlists asg counts" and n: "nlists \<le> length asg" and c: "c < nlists" "counts ! c = 0"
  shows "\<exists>k < nlists. 2 \<le> counts ! k"
proof (rule ccontr)
  assume "\<not> ?thesis"
  then have le: "card (cell_members asg k) \<le> 1" if "k < nlists" for k using that x by (force simp: counts_exact_def)
  have "length asg = (\<Sum>k < nlists. card (cell_members asg k))"
    using x sum_cell_members [of asg nlists] by (simp add: counts_exact_def)
  also have "\<dots> = (\<Sum>k \<in> {..<nlists} - {c}. card (cell_members asg k))"
    using c x by (intro sum.mono_neutral_right) (auto simp: counts_exact_def)
  also have "\<dots> \<le> (\<Sum>k \<in> {..<nlists} - {c}. 1)" using le by (intro sum_mono) simp
  also have "\<dots> < nlists" using c by simp
  finally show False using n by simp
qed

lemma move_row_counts:
  assumes x: "counts_exact nlists asg counts" and i: "i < length asg" "unat (asg ! i) = big" and c: "c < nlists" "counts ! c = 0"
    and n: "nlists < 2 ^ 32"
  shows "counts_exact nlists (asg[i := of_nat c]) (counts[c := 1, big := counts ! big - 1])"
proof -
  have u: "unat (of_nat c :: u32) = c" using c n by (simp add: unat_of_nat take_bit_nat_eq_self)
  have ne: "big \<noteq> c"
  proof
    assume "big = c"
    then have "i \<in> cell_members asg c" using i by (simp add: cell_members_def)
    moreover have "card (cell_members asg c) = 0" using x c by (simp add: counts_exact_def)
    ultimately show False by simp
  qed
  have big: "big < nlists" using x i by (auto simp: counts_exact_def)
  have "cell_members (asg[i := of_nat c]) k
      = (if k = c then insert i (cell_members asg c) else if k = big then cell_members asg big - {i} else cell_members asg k)" for k
    using i u ne by (auto simp: cell_members_def nth_list_update split: if_splits)
  moreover have "i \<in> cell_members asg big" "cell_members asg c = {}"
    using i x c by (auto simp: cell_members_def counts_exact_def dest!: spec [of _ c])
  ultimately have "card (cell_members (asg[i := of_nat c]) k)
      = (if k = c then 1 else if k = big then counts ! big - 1 else card (cell_members asg k))" for k
    using x big by (simp add: counts_exact_def)
  with x big c ne u show ?thesis
    by (auto simp: counts_exact_def nth_list_update dest: in_set_conv_nth [THEN iffD1] set_update_subset_insert [THEN subsetD])
qed

lemma reseed_cell_step:
  assumes r: "reseeded n_sample nlists g c st" and c: "c < nlists" and n: "nlists \<le> n_sample" "nlists < 2 ^ 32"
    and d: "\<And>i v. i < n_sample \<Longrightarrow> \<not> sq_dist (tr_ar tr) (row_of sample dim i) v \<le> ar_neg (tr_ar tr) (ar_one (tr_ar tr))"
  shows "reseeded n_sample nlists g (Suc c) (reseed_cell tr sample n_sample nlists dim c st)"
proof -
  obtain cs asg counts where st: "st = (cs, asg, counts, g)" and l: "length asg = n_sample"
    and x: "counts_exact nlists asg counts" and pos: "\<forall>k < c. 0 < counts ! k"
    using r by (auto simp: reseeded_def split: prod.splits)
  show ?thesis
  proof (cases "counts ! c = 0")
    case False
    then show ?thesis using pos x l by (auto simp: st reseed_cell_def reseeded_def less_Suc_eq)
  next
    case True
    obtain big big_n where b: "largest_cell nlists counts = (big, big_n)" by fastforce
    from largest_cell_spec [of nlists counts] b [unfolded largest_cell_def]
    have max: "\<forall>k < nlists. counts ! k \<le> big_n" "0 < big_n \<longrightarrow> big < nlists \<and> counts ! big = big_n" by auto
    obtain k where "k < nlists" "2 \<le> counts ! k" using some_cell_has_two [OF x _ c True] l n(1) by auto
    then have two: "2 \<le> big_n" "big < nlists" "counts ! big = big_n" using max by force+
    then have "cell_members asg big \<noteq> {}" using x by (auto simp: counts_exact_def)
    then obtain i where "i < n_sample" "unat (asg ! i) = big" using l by (auto simp: cell_members_def)
    with furthest_row_spec [of n_sample "tr_ar tr" sample dim "row_of cs dim big" i asg big] d
    obtain far where far: "furthest_row (tr_ar tr) sample n_sample dim (row_of cs dim big) asg big = Some far"
      "far < n_sample" "unat (asg ! far) = big" by auto
    have lc: "length counts = nlists" using x by (simp add: counts_exact_def)
    have "counts_exact nlists (asg[far := of_nat c]) (counts[c := 1, big := counts ! big - 1])"
      using far l by (intro move_row_counts [OF x _ far(3) c True n(2)]) simp
    moreover have "0 < counts[c := 1, big := counts ! big - 1] ! k" if "k < Suc c" for k
      using that pos c two lc True by (auto simp: nth_list_update less_Suc_eq)
    ultimately show ?thesis
      using True two(1) l far(1) by (simp add: st reseed_cell_def b reseeded_def Let_def)
  qed
qed

lemma reseed_cells:
  assumes "reseeded n_sample nlists g 0 st" and "m \<le> nlists" and "nlists \<le> n_sample" "nlists < 2 ^ 32"
    and "\<And>i v. i < n_sample \<Longrightarrow> \<not> sq_dist (tr_ar tr) (row_of sample dim i) v \<le> ar_neg (tr_ar tr) (ar_one (tr_ar tr))"
  shows "reseeded n_sample nlists g m (fold (reseed_cell tr sample n_sample nlists dim) [0..<m] st)"
  using assms(2)
proof (induction m)
  case (Suc m)
  then show ?case using reseed_cell_step [OF _ _ assms(3,4,5)] by simp
qed (use assms(1) in simp)

text \<open>
  C41: an iteration leaves no cell empty.  With no more cells than rows, the empty-cell rule ends with every cell holding
  a row, its counts being those of its assignment, and it never falls back to a random row.
\<close>

theorem lloyd_fills_every_cell:
  assumes n: "0 < nlists" "nlists \<le> n_sample" "nlists < 2 ^ 32"
    and d: "\<And>i v. i < n_sample \<Longrightarrow> \<not> sq_dist (tr_ar tr) (row_of sample dim i) v \<le> ar_neg (tr_ar tr) (ar_one (tr_ar tr))"
    and run: "lloyd_step tr sample n_sample nlists dim centroids g = (centroids', asg, counts, g')"
  shows "length asg = n_sample \<and> (\<forall>c < nlists. 0 < counts ! c \<and> counts ! c = card {i. i < n_sample \<and> unat (asg ! i) = c}) \<and> g' = g"
proof -
  let ?asg = "assign_sample (tr_ar tr) (tr_gemm tr) sample centroids n_sample nlists dim"
  obtain sums cnt where s: "cell_sums (tr_ad tr) (tr_widen tr) sample n_sample nlists dim ?asg = (sums, cnt)" by fastforce
  have pos: "0 < n_sample" using n by simp
  note a = assign_sample_below [OF pos n(1,3), of "tr_ar tr" "tr_gemm tr" sample centroids dim]
  have "counts_exact nlists ?asg cnt"
    using cell_counts_exact [OF a, of "tr_ad tr" "tr_widen tr" sample dim] s by simp
  then have "reseeded n_sample nlists g 0 (means, ?asg, cnt, g)" for means :: "'a list"
    using a(1) by (simp add: reseeded_def)
  from reseed_cells [where tr = tr, OF this order_refl n(2,3) d] run
  have "reseeded n_sample nlists g nlists (centroids', asg, counts, g')"
    by (simp only: lloyd_step_def Let_def s prod.case) metis
  then show ?thesis by (auto simp: reseeded_def counts_exact_def cell_members_def)
qed

definition demo_trainer :: "(int, int, unit) trainer" where
  "demo_trainer = \<lparr>tr_ar = demo_arith, tr_ad = demo_arith, tr_widen = id, tr_narrow = id, tr_gemm = int_gemm, tr_seed = (),
     tr_gen_index = (\<lambda>n g. (0, g)), tr_gen_below = (\<lambda>x g. (x div 2, g)), tr_tol = 1\<rparr>"

lemma demo_dist_nonneg: "0 \<le> sq_dist demo_arith a b"
proof -
  define f :: "int \<times> int \<Rightarrow> int \<Rightarrow> int"
    where "f = (\<lambda>(x, y) s. let d = ar_sub demo_arith x y in ar_add demo_arith s (ar_mul demo_arith d d))"
  have f: "0 \<le> f p s" if "0 \<le> s" for p s
    using add_nonneg_nonneg [OF that zero_le_square] by (simp add: f_def demo_arith_def Let_def split: prod.splits)
  have "0 \<le> fold f ps s" if "0 \<le> s" for ps s
    using that by (induction ps arbitrary: s) (simp_all add: f)
  then have "0 \<le> fold f (zip a b) 0" by simp
  then show ?thesis by (simp add: sq_dist_def f_def demo_arith_def)
qed

theorem lloyd_fills_every_cell_witness:
  "\<exists>cs asg counts g'. lloyd_step demo_trainer [0, 0, 5, 5, 9, 9] 3 2 2 [5, 5, 5, 5] () = (cs, asg, counts, g') \<and>
    length asg = 3 \<and> (\<forall>c < 2. 0 < counts ! c \<and> counts ! c = card {i. i < 3 \<and> unat (asg ! i) = c})"
proof -
  obtain cs asg counts g' where run: "lloyd_step demo_trainer [0, 0, 5, 5, 9, 9] 3 2 2 [5, 5, 5, 5] () = (cs, asg, counts, g')"
    by (metis prod_cases4)
  have d: "\<not> sq_dist (tr_ar demo_trainer) (row_of [0, 0, 5, 5, 9, 9] 2 i) v \<le> ar_neg (tr_ar demo_trainer) (ar_one (tr_ar demo_trainer))" for i v
    using demo_dist_nonneg [of "row_of [0, 0, 5, 5, 9, 9] 2 i" v] by (simp add: demo_trainer_def) (simp add: demo_arith_def)
  have n: "(0 :: nat) < 2" "(2 :: nat) \<le> 3" "(2 :: nat) < 2 ^ 32" by simp_all
  from lloyd_fills_every_cell [OF n d run] have "length asg = 3 \<and> (\<forall>c < 2. 0 < counts ! c \<and> counts ! c = card {i. i < 3 \<and> unat (asg ! i) = c})"
    by (elim conjE) (intro conjI)
  with run have "lloyd_step demo_trainer [0, 0, 5, 5, 9, 9] 3 2 2 [5, 5, 5, 5] () = (cs, asg, counts, g') \<and>
      length asg = 3 \<and> (\<forall>c < 2. 0 < counts ! c \<and> counts ! c = card {i. i < 3 \<and> unat (asg ! i) = c})" by (rule conjI)
  then show ?thesis by (intro exI)
qed

section \<open>The shape of what is trained\<close>

lemma mult_step_le: "c < k \<Longrightarrow> c * dim + dim \<le> k * (dim :: nat)"
  using mult_le_mono1 [of "Suc c" k dim] by simp

lemma length_row_of: "c < k \<Longrightarrow> length xs = k * dim \<Longrightarrow> length (row_of xs dim c) = dim"
proof -
  assume "c < k" "length xs = k * dim"
  then have "c * dim + dim \<le> length xs" using mult_step_le [of c k dim] by simp
  then show ?thesis by (simp add: row_of_def)
qed

lemma length_put_centroid:
  assumes "c < k" and "length cs = k * dim" and "length row = dim"
  shows "length (put_centroid dim c row cs) = k * dim"
proof -
  have "c * dim + length row \<le> length cs" using assms mult_step_le [of c k dim] by simp
  then show ?thesis using assms by (simp add: put_centroid_def)
qed

definition rng_ok :: "('f, 'd, 'g) trainer \<Rightarrow> bool" where
  "rng_ok tr \<longleftrightarrow> (\<forall>n g. 0 < n \<longrightarrow> fst (tr_gen_index tr n g) < n)"

lemma weighted_pick_below: "last_row < n \<Longrightarrow> i + length xs \<le> n \<Longrightarrow> weighted_pick ad target last_row acc i xs < n"
  by (induction xs arbitrary: acc i) (auto simp: Let_def)

lemma length_seed_centroids:
  assumes r: "rng_ok tr" and n: "0 < nlists" "0 < n_sample" and len: "length sample = n_sample * dim"
  shows "length (fst (seed_centroids tr sample n_sample nlists dim)) = nlists * dim"
proof -
  let ?ok = "\<lambda>(centroids, d2, g). length centroids = nlists * dim \<and> length d2 = n_sample"
  have row: "length (row_of sample dim i) = dim" if "i < n_sample" for i using length_row_of [OF that len] .
  have step: "?ok (seed_step tr sample n_sample dim c st)" if c: "c < nlists" and st: "?ok st" for c st
  proof -
    obtain cs d2 g where s: "st = (cs, d2, g)" "length cs = nlists * dim" "length d2 = n_sample" using st by (cases st) auto
    have "weighted_pick (tr_ad tr) t (n_sample - 1) (ar_zero (tr_ad tr)) 0 (map (tr_widen tr) d2) < n_sample" for t
      using n(2) s(3) by (intro weighted_pick_below) auto
    moreover have "fst (tr_gen_index tr n_sample g) < n_sample" using r n(2) by (simp add: rng_ok_def)
    ultimately show ?thesis
      using s length_put_centroid [OF c s(2)] row
      by (auto simp: seed_step_def Let_def lower_dists_def split: prod.splits if_splits)
  qed
  have fold: "?ok (fold (seed_step tr sample n_sample dim) js st)" if "\<forall>j \<in> set js. j < nlists" "?ok st" for js st
    using that
  proof (induction js arbitrary: st)
    case (Cons j js)
    then show ?case using step [of j st] by simp
  qed simp
  obtain i g where g: "tr_gen_index tr n_sample (tr_seed tr) = (i, g)" by fastforce
  have i: "i < n_sample" using r n(2) g by (metis fst_conv rng_ok_def)
  let ?cs = "put_centroid dim 0 (row_of sample dim i) (replicate (nlists * dim) (ar_zero (tr_ar tr)))"
  have "length ?cs = nlists * dim" using row [OF i] n(1) by (intro length_put_centroid) simp_all
  then have "?ok (fold (seed_step tr sample n_sample dim) [1..<nlists]
      (?cs, map (\<lambda>i. sq_dist (tr_ar tr) (row_of sample dim i) (row_of ?cs dim 0)) [0..<n_sample], g))"
    by (intro fold) auto
  then show ?thesis by (auto simp: seed_centroids_def Let_def g split: prod.splits)
qed

lemma length_cell_sums:
  assumes asg: "length asg = n_sample" "\<forall>a \<in> set asg. unat a < nlists" and len: "length sample = n_sample * dim"
  shows "length (fst (cell_sums ad widen sample n_sample nlists dim asg)) = nlists * dim"
proof -
  have rows: "length (fst (fold (add_row ad widen sample dim asg) js (s, cnt))) = nlists * dim"
    if "\<forall>i \<in> set js. i < n_sample" "length s = nlists * dim" for js s cnt
    using that
  proof (induction js arbitrary: s cnt)
    case (Cons i js)
    let ?c = "unat (asg ! i)"
    have c: "?c < nlists" using Cons.prems asg by auto
    have "length (map2 (\<lambda>a x. ar_add ad a (widen x)) (row_of s dim ?c) (row_of sample dim i)) = dim"
      using length_row_of [OF c Cons.prems(2)] length_row_of [OF _ len, of i] Cons.prems by simp
    from length_put_centroid [OF c Cons.prems(2) this] Cons.IH Cons.prems show ?case
      by (simp add: add_row_def Let_def put_centroid_def)
  qed simp
  have comb: "length (fst (fold (\<lambda>(s, cnt) (sums, counts). (map2 (ar_add ad) sums s, map2 (+) counts cnt)) ps (sums, counts))) = nlists * dim"
    if "\<forall>p \<in> set ps. length (fst p) = nlists * dim" "length sums = nlists * dim" for ps sums counts
    using that by (induction ps arbitrary: sums counts) auto
  show ?thesis
    unfolding cell_sums_def combine_sums_def
    by (rule comb) (auto simp: chunk_sums_def intro!: rows dest!: row_blocks_inside)
qed

lemma length_reseed_cell:
  assumes r: "rng_ok tr" and n: "0 < n_sample" and len: "length sample = n_sample * dim" and c: "c < nlists"
    and st: "length (fst st) = nlists * dim"
  shows "length (fst (reseed_cell tr sample n_sample nlists dim c st)) = nlists * dim"
proof -
  obtain cs asg counts g where s: "st = (cs, asg, counts, g)" by (metis prod_cases4)
  have far: "i < n_sample" if "furthest_row (tr_ar tr) sample n_sample dim v asg big = Some i" for v big i
  proof -
    have "case snd (fold (\<lambda>i (far_d, far). if unat (asg ! i) \<noteq> big then (far_d, far)
         else let d = sq_dist (tr_ar tr) (row_of sample dim i) v in if far_d < d then (d, Some i) else (far_d, far))
       [0..<m] (ar_neg (tr_ar tr) (ar_one (tr_ar tr)), None)) of None \<Rightarrow> True | Some i \<Rightarrow> i < m" for m
      by (induction m) (auto simp: Let_def less_Suc_eq split: prod.splits option.splits)
    from this [of n_sample] that show ?thesis by (simp add: furthest_row_def)
  qed
  have pick: "fst (tr_gen_index tr n_sample g) < n_sample" using r n by (simp add: rng_ok_def)
  have put: "length (put_centroid dim c (row_of sample dim i) cs) = nlists * dim" if "i < n_sample" for i
    using length_put_centroid [OF c _ length_row_of [OF that len]] st s by simp
  show ?thesis
    using st put pick far by (auto simp: s reseed_cell_def Let_def split: prod.splits option.splits)
qed

lemma length_lloyd_step:
  assumes r: "rng_ok tr" and n: "0 < n_sample" "0 < nlists" "nlists < 2 ^ 32" and len: "length sample = n_sample * dim"
    and cs: "length centroids = nlists * dim"
  shows "length (fst (lloyd_step tr sample n_sample nlists dim centroids g)) = nlists * dim"
proof -
  let ?asg = "assign_sample (tr_ar tr) (tr_gemm tr) sample centroids n_sample nlists dim"
  obtain sums cnt where s: "cell_sums (tr_ad tr) (tr_widen tr) sample n_sample nlists dim ?asg = (sums, cnt)" by fastforce
  have sums: "length sums = nlists * dim"
    using length_cell_sums [OF assign_sample_below [OF n] len, of "tr_ad tr" "tr_widen tr" "tr_ar tr" "tr_gemm tr"] s by (metis fst_conv)
  have means: "length (fold (mean_step (tr_ad tr) (tr_narrow tr) dim sums cnt) [0..<m] centroids) = nlists * dim" if "m \<le> nlists" for m
    using that
  proof (induction m)
    case (Suc m)
    then show ?case using length_row_of [OF _ sums, of m] by (auto simp: mean_step_def Let_def intro!: length_put_centroid)
  qed (use cs in simp)
  have "length (fst (fold (reseed_cell tr sample n_sample nlists dim) [0..<m] st)) = nlists * dim"
    if "m \<le> nlists" "length (fst st) = nlists * dim" for m st
    using that by (induction m) (auto intro!: length_reseed_cell [OF r n(1) len])
  with means show ?thesis by (simp add: lloyd_step_def Let_def s)
qed

lemma lloyd_loop_shape:
  assumes r: "rng_ok tr" and n: "0 < n_sample" "0 < nlists" "nlists < 2 ^ 32" and len: "length sample = n_sample * dim"
    and cs: "length centroids = nlists * dim"
  shows "length (fst (lloyd_loop tr sample n_sample nlists dim left k centroids g)) = nlists * dim \<and>
    snd (lloyd_loop tr sample n_sample nlists dim left k centroids g) \<in> {min (Suc k) (k + left)..k + left}"
  using cs
proof (induction left arbitrary: k centroids g)
  case (Suc left)
  obtain cs' asg cnt g' where s: "lloyd_step tr sample n_sample nlists dim centroids g = (cs', asg, cnt, g')" by (metis prod_cases4)
  have "length cs' = nlists * dim" using length_lloyd_step [OF r n len Suc.prems, of g] s by simp
  from Suc.IH [OF this, of "Suc k" g'] show ?case
    using \<open>length cs' = nlists * dim\<close> by (auto simp: Let_def s)
qed simp

text \<open>Training on a sample that is not empty ends after 1 to 25 iterations with one centroid per cell.\<close>

lemma train_kmeans_run:
  assumes r: "rng_ok tr" and n: "0 < n_sample" "0 < nlists" "nlists < 2 ^ 32" "0 < dim" and len: "length sample = n_sample * dim"
  obtains centroids iters where "train_kmeans_iters tr sample n_sample nlists dim = Some (centroids, iters)"
    and "train_kmeans tr sample n_sample nlists dim = Some centroids"
    and "length centroids = nlists * dim" and "1 \<le> iters" and "iters \<le> KMEANS_ITERS"
proof -
  obtain cs g where s: "seed_centroids tr sample n_sample nlists dim = (cs, g)" by fastforce
  have cs: "length cs = nlists * dim" using length_seed_centroids [OF r n(2,1) len] s by (metis fst_conv)
  obtain cs' iters where l: "lloyd_loop tr sample n_sample nlists dim KMEANS_ITERS 0 cs g = (cs', iters)" by fastforce
  note l' = l [unfolded KMEANS_ITERS_def]
  show thesis
    by (rule that [of cs' iters])
      (use n lloyd_loop_shape [OF r n(1,2,3) len cs, of KMEANS_ITERS 0 g] in
        \<open>simp_all add: train_kmeans_def train_kmeans_iters_def s l' KMEANS_ITERS_def\<close>)
qed

end
