(* ===== verification/Spec2Isabelle.thy ===== *)
theory Spec2Isabelle
  imports Xact ScanAgree Insert Spill Kmeans
begin

text \<open>Root of the development.\<close>

end
